(* ===== verification/Wire.thy ===== *)
theory Wire
  imports NetSum_Prelude
begin

text \<open>
  The wire protocol (\<open>protocol/grad_proto.h\<close>) and the byte-order helpers (\<open>ntohs\<close>, \<open>ntohl\<close> of
  \<open><arpa/inet.h>\<close>, \<open>netsum_bpf_ntohs\<close>, \<open>netsum_bpf_ntohl\<close> of \<open>xdp_agg/bpf_compat.h\<close> and their
  copies in \<open>fuzz/parse_shared.h\<close>).

  A packet is a byte list. The hosts are little endian (x86_64 and arm64, the only targets the
  sources name), so a 16 or 32 bit load assembles its bytes least significant first and every
  field read by the programs is such a load followed by a byte swap. The locales
  \<open>network_order16\<close> and \<open>network_order32\<close> state what the programs rely on: the swapped load is
  the big-endian value on the wire, and the store of a swapped value puts it back.
\<close>

section \<open>Constants of grad_proto.h\<close>

definition NETSUM_PORT :: u16 where "NETSUM_PORT = 9876"
definition NETSUM_MAX_CHUNK_LEN :: nat where "NETSUM_MAX_CHUNK_LEN = 64"
definition NETSUM_HDR_SIZE :: nat where "NETSUM_HDR_SIZE = 20"
definition NETSUM_MAX_PACKET_SIZE :: nat where
  "NETSUM_MAX_PACKET_SIZE = NETSUM_HDR_SIZE + NETSUM_MAX_CHUNK_LEN * 4"

lemmas proto_consts = NETSUM_MAX_CHUNK_LEN_def NETSUM_HDR_SIZE_def NETSUM_MAX_PACKET_SIZE_def

section \<open>Byte images of 16 and 32 bit values\<close>

definition le16 :: "u8 \<Rightarrow> u8 \<Rightarrow> u16" where
  "le16 b0 b1 = ucast b0 OR push_bit 8 (ucast b1)"

definition le32 :: "u8 \<Rightarrow> u8 \<Rightarrow> u8 \<Rightarrow> u8 \<Rightarrow> u32" where
  "le32 b0 b1 b2 b3 = ucast b0 OR push_bit 8 (ucast b1) OR push_bit 16 (ucast b2) OR push_bit 24 (ucast b3)"

definition be16 :: "u8 \<Rightarrow> u8 \<Rightarrow> u16" where
  "be16 b0 b1 = push_bit 8 (ucast b0) OR ucast b1"

definition be32 :: "u8 \<Rightarrow> u8 \<Rightarrow> u8 \<Rightarrow> u8 \<Rightarrow> u32" where
  "be32 b0 b1 b2 b3 = push_bit 24 (ucast b0) OR push_bit 16 (ucast b1) OR push_bit 8 (ucast b2) OR ucast b3"

definition be16_bytes :: "u16 \<Rightarrow> bytes" where
  "be16_bytes v = [ucast (drop_bit 8 v), ucast v]"

definition be32_bytes :: "u32 \<Rightarrow> bytes" where
  "be32_bytes v = [ucast (drop_bit 24 v), ucast (drop_bit 16 v), ucast (drop_bit 8 v), ucast v]"

lemma length_be_bytes [simp]: "length (be16_bytes v) = 2" "length (be32_bytes w) = 4"
  by (simp_all add: be16_bytes_def be32_bytes_def)

lemma u8_high_bits: "8 \<le> m \<Longrightarrow> \<not> bit (b :: u8) m"
  by (auto dest: bit_imp_le_length)

lemma byte_cases:
  assumes "n < 32"
  obtains "n < 8" | "8 \<le> n" "n < 16" | "16 \<le> n" "n < 24" | "24 \<le> n" "n < (32 :: nat)"
  using assms by force

lemma bytes_le16: "ucast (le16 b0 b1) = b0" "ucast (drop_bit 8 (le16 b0 b1)) = b1"
  unfolding le16_def by (rule bit_word_eqI; auto simp: bit_simps dest: bit_imp_le_length)+

lemma bytes_be16: "ucast (drop_bit 8 (be16 b0 b1)) = b0" "ucast (be16 b0 b1) = b1"
  unfolding be16_def by (rule bit_word_eqI; auto simp: bit_simps dest: bit_imp_le_length)+

lemma bytes_le32:
  "ucast (le32 b0 b1 b2 b3) = b0" "ucast (drop_bit 8 (le32 b0 b1 b2 b3)) = b1"
  "ucast (drop_bit 16 (le32 b0 b1 b2 b3)) = b2" "ucast (drop_bit 24 (le32 b0 b1 b2 b3)) = b3"
  unfolding le32_def by (rule bit_word_eqI; auto simp: bit_simps dest: bit_imp_le_length)+

lemma bytes_be32:
  "ucast (drop_bit 24 (be32 b0 b1 b2 b3)) = b0" "ucast (drop_bit 16 (be32 b0 b1 b2 b3)) = b1"
  "ucast (drop_bit 8 (be32 b0 b1 b2 b3)) = b2" "ucast (be32 b0 b1 b2 b3) = b3"
  unfolding be32_def by (rule bit_word_eqI; auto simp: bit_simps dest: bit_imp_le_length)+

lemma le16_split: "le16 (ucast v) (ucast (drop_bit 8 v)) = v"
  unfolding le16_def by (rule bit_word_eqI) (auto simp: bit_simps not_le dest: bit_imp_le_length)

lemma be16_split: "be16 (ucast (drop_bit 8 v)) (ucast v) = v"
  unfolding be16_def by (rule bit_word_eqI) (auto simp: bit_simps not_le dest: bit_imp_le_length)

lemma le32_split:
  "le32 (ucast v) (ucast (drop_bit 8 v)) (ucast (drop_bit 16 v)) (ucast (drop_bit 24 v)) = v"
proof (rule bit_word_eqI)
  fix n assume "n < LENGTH(32)"
  then show "bit (le32 (ucast v) (ucast (drop_bit 8 v)) (ucast (drop_bit 16 v)) (ucast (drop_bit 24 v))) n = bit v n"
    unfolding le32_def by simp (erule byte_cases; simp add: bit_simps less_diff_conv2)
qed

lemma be32_split:
  "be32 (ucast (drop_bit 24 v)) (ucast (drop_bit 16 v)) (ucast (drop_bit 8 v)) (ucast v) = v"
proof (rule bit_word_eqI)
  fix n assume "n < LENGTH(32)"
  then show "bit (be32 (ucast (drop_bit 24 v)) (ucast (drop_bit 16 v)) (ucast (drop_bit 8 v)) (ucast v)) n = bit v n"
    unfolding be32_def by simp (erule byte_cases; simp add: bit_simps less_diff_conv2)
qed

lemma u8_bound: "unat (b :: u8) < 256"
  using unsigned_less [of b] by simp

lemma u16_bound: "unat (v :: u16) < 65536"
  using unsigned_less [of v] by simp

lemma unat_be16: "unat (be16 b0 b1) = unat b0 * 256 + unat b1"
proof -
  have "take_bit 16 (unat b) = unat b" for b :: u8
    by (intro take_bit_nat_eq_self) (rule less_trans [OF u8_bound], simp)
  moreover have "unat b0 * 256 + unat b1 < 65536"
    using u8_bound [of b0] u8_bound [of b1] by linarith
  moreover have "be16 b0 b1 = push_bit 8 (ucast b0) + ucast b1"
    unfolding be16_def by (subst disjunctive_add) (auto simp add: bit_simps dest: bit_imp_le_length)
  ultimately show ?thesis
    by (simp add: push_bit_eq_mult unat_word_ariths unsigned_ucast_eq)
qed

section \<open>Loads and stores of a little-endian host\<close>

definition ld16 :: "bytes \<Rightarrow> nat \<Rightarrow> u16 option" where
  "ld16 p off = do {
     b0 \<leftarrow> arr_get p off;
     b1 \<leftarrow> arr_get p (off + 1);
     Some (le16 b0 b1) }"

definition ld32 :: "bytes \<Rightarrow> nat \<Rightarrow> u32 option" where
  "ld32 p off = do {
     b0 \<leftarrow> arr_get p off;
     b1 \<leftarrow> arr_get p (off + 1);
     b2 \<leftarrow> arr_get p (off + 2);
     b3 \<leftarrow> arr_get p (off + 3);
     Some (le32 b0 b1 b2 b3) }"

definition st16 :: "bytes \<Rightarrow> nat \<Rightarrow> u16 \<Rightarrow> bytes option" where
  "st16 p off v = do {
     p \<leftarrow> arr_set p off (ucast v);
     arr_set p (off + 1) (ucast (drop_bit 8 v)) }"

definition st32 :: "bytes \<Rightarrow> nat \<Rightarrow> u32 \<Rightarrow> bytes option" where
  "st32 p off v = do {
     p \<leftarrow> arr_set p off (ucast v);
     p \<leftarrow> arr_set p (off + 1) (ucast (drop_bit 8 v));
     p \<leftarrow> arr_set p (off + 2) (ucast (drop_bit 16 v));
     arr_set p (off + 3) (ucast (drop_bit 24 v)) }"

text \<open>The bytes \<open>vs\<close> written over \<open>p\<close> at \<open>off\<close>: what a run of stores amounts to.\<close>

definition patch :: "bytes \<Rightarrow> nat \<Rightarrow> bytes \<Rightarrow> bytes" where
  "patch p off vs = take off p @ vs @ drop (off + length vs) p"

lemma length_patch [simp]: "off + length vs \<le> length p \<Longrightarrow> length (patch p off vs) = length p"
  by (simp add: patch_def)

lemma patch_nth:
  assumes "off + length vs \<le> length p" "i < length p"
  shows "patch p off vs ! i = (if off \<le> i \<and> i < off + length vs then vs ! (i - off) else p ! i)"
  using assms by (auto simp: patch_def nth_append min_def)

lemma list_eq_patch:
  assumes "off + length vs \<le> length p" "length q = length p"
    and "\<And>i. i < length p \<Longrightarrow> q ! i = (if off \<le> i \<and> i < off + length vs then vs ! (i - off) else p ! i)"
  shows "q = patch p off vs"
  using assms by (intro nth_equalityI) (auto simp: patch_nth)

lemma ld16_in:
  "off + 2 \<le> length p \<Longrightarrow> ld16 p off = Some (le16 (p ! off) (p ! (off + 1)))"
  by (simp add: ld16_def arr_get_def)

lemma ld32_in:
  "off + 4 \<le> length p \<Longrightarrow>
     ld32 p off = Some (le32 (p ! off) (p ! (off + 1)) (p ! (off + 2)) (p ! (off + 3)))"
  by (simp add: ld32_def arr_get_def)

lemma st16_in:
  assumes "off + 2 \<le> length p"
  shows "st16 p off v = Some (patch p off [ucast v, ucast (drop_bit 8 v)])"
proof -
  have "st16 p off v = Some (p[off := ucast v, off + 1 := ucast (drop_bit 8 v)])"
    using assms by (simp add: st16_def arr_set_def)
  also have "p[off := ucast v, off + 1 := ucast (drop_bit 8 v)] = patch p off [ucast v, ucast (drop_bit 8 v)]"
    using assms by (intro list_eq_patch) (auto simp: nth_list_update less_Suc_eq nth_Cons')
  finally show ?thesis .
qed

lemma st32_in:
  assumes "off + 4 \<le> length p"
  shows "st32 p off v = Some (patch p off
    [ucast v, ucast (drop_bit 8 v), ucast (drop_bit 16 v), ucast (drop_bit 24 v)])"
proof -
  let ?q = "p[off := ucast v, off + 1 := ucast (drop_bit 8 v), off + 2 := ucast (drop_bit 16 v),
              off + 3 := ucast (drop_bit 24 v)]"
  have "st32 p off v = Some ?q"
    using assms by (simp add: st32_def arr_set_def)
  also have "?q = patch p off [ucast v, ucast (drop_bit 8 v), ucast (drop_bit 16 v), ucast (drop_bit 24 v)]"
    using assms by (intro list_eq_patch) (auto simp: nth_list_update less_Suc_eq nth_Cons')
  finally show ?thesis .
qed

text \<open>Reading back what is on the wire: the big-endian value at an offset.\<close>

definition wire16 :: "bytes \<Rightarrow> nat \<Rightarrow> u16" where
  "wire16 p off = be16 (p ! off) (p ! (off + 1))"

definition wire32 :: "bytes \<Rightarrow> nat \<Rightarrow> u32" where
  "wire32 p off = be32 (p ! off) (p ! (off + 1)) (p ! (off + 2)) (p ! (off + 3))"

lemma wire16_patch_same:
  assumes "off + 2 \<le> length p" shows "wire16 (patch p off (be16_bytes v)) off = v"
  using assms by (simp add: wire16_def patch_nth be16_bytes_def be16_split)

lemma wire32_patch_same:
  assumes "off + 4 \<le> length p" shows "wire32 (patch p off (be32_bytes v)) off = v"
  using assms by (simp add: wire32_def patch_nth be32_bytes_def be32_split)

lemma wire16_patch_other:
  assumes "off + length vs \<le> length p" "i + 2 \<le> length p" "i + 2 \<le> off \<or> off + length vs \<le> i"
  shows "wire16 (patch p off vs) i = wire16 p i"
  using assms by (auto simp: wire16_def patch_nth)

lemma wire32_patch_other:
  assumes "off + length vs \<le> length p" "i + 4 \<le> length p" "i + 4 \<le> off \<or> off + length vs \<le> i"
  shows "wire32 (patch p off vs) i = wire32 p i"
  using assms by (auto simp: wire32_def patch_nth)


section \<open>Byte order\<close>

text \<open>
  \<open>ntohs\<close> and \<open>ntohl\<close> of the C library: the value whose network representation is the argument's
  memory image. \<open>htons\<close> and \<open>htonl\<close> are their inverses.
\<close>

definition ntohs :: "u16 \<Rightarrow> u16" where
  "ntohs v = be16 (ucast v) (ucast (drop_bit 8 v))"

definition htons :: "u16 \<Rightarrow> u16" where
  "htons v = le16 (ucast (drop_bit 8 v)) (ucast v)"

definition ntohl :: "u32 \<Rightarrow> u32" where
  "ntohl v = be32 (ucast v) (ucast (drop_bit 8 v)) (ucast (drop_bit 16 v)) (ucast (drop_bit 24 v))"

definition htonl :: "u32 \<Rightarrow> u32" where
  "htonl v = le32 (ucast (drop_bit 24 v)) (ucast (drop_bit 16 v)) (ucast (drop_bit 8 v)) (ucast v)"

text \<open>The hand-written swaps of \<open>bpf_compat.h\<close>.\<close>

definition netsum_bpf_ntohs :: "u16 \<Rightarrow> u16" where
  "netsum_bpf_ntohs v = push_bit 8 v OR drop_bit 8 v"

definition netsum_bpf_ntohl :: "u32 \<Rightarrow> u32" where
  "netsum_bpf_ntohl v =
     push_bit 24 (v AND 0x000000ff) OR push_bit 8 (v AND 0x0000ff00) OR
     drop_bit 8 (v AND 0x00ff0000) OR drop_bit 24 (v AND 0xff000000)"

definition netsum_bpf_htons :: "u16 \<Rightarrow> u16" where "netsum_bpf_htons = netsum_bpf_ntohs"
definition netsum_bpf_htonl :: "u32 \<Rightarrow> u32" where "netsum_bpf_htonl = netsum_bpf_ntohl"

text \<open>What a program relies on when it swaps: the interface of the byte-order helpers.\<close>

locale network_order16 =
  fixes n2h h2n :: "u16 \<Rightarrow> u16"
  assumes n2h_le16: "n2h (le16 b0 b1) = be16 b0 b1"
    and h2n_be16: "h2n (be16 b0 b1) = le16 b0 b1"
begin

lemma h2n_eq: "h2n v = le16 (ucast (drop_bit 8 v)) (ucast v)"
  using h2n_be16 [of "ucast (drop_bit 8 v)" "ucast v"] by (simp add: be16_split)

lemma n2h_h2n: "n2h (h2n v) = v"
  by (simp add: h2n_eq n2h_le16 be16_split)

lemma load: "off + 2 \<le> length p \<Longrightarrow> map_option n2h (ld16 p off) = Some (wire16 p off)"
  by (simp add: ld16_in n2h_le16 wire16_def)

lemma store: "off + 2 \<le> length p \<Longrightarrow> st16 p off (h2n v) = Some (patch p off (be16_bytes v))"
  by (simp add: st16_in h2n_eq bytes_le16 be16_bytes_def)

end

locale network_order32 =
  fixes n2h h2n :: "u32 \<Rightarrow> u32"
  assumes n2h_le32: "n2h (le32 b0 b1 b2 b3) = be32 b0 b1 b2 b3"
    and h2n_be32: "h2n (be32 b0 b1 b2 b3) = le32 b0 b1 b2 b3"
begin

lemma h2n_eq: "h2n v = le32 (ucast (drop_bit 24 v)) (ucast (drop_bit 16 v)) (ucast (drop_bit 8 v)) (ucast v)"
  using h2n_be32 [of "ucast (drop_bit 24 v)" "ucast (drop_bit 16 v)" "ucast (drop_bit 8 v)" "ucast v"]
  by (simp add: be32_split)

lemma n2h_h2n: "n2h (h2n v) = v"
  by (simp add: h2n_eq n2h_le32 be32_split)

lemma load: "off + 4 \<le> length p \<Longrightarrow> map_option n2h (ld32 p off) = Some (wire32 p off)"
  by (simp add: ld32_in n2h_le32 wire32_def)

lemma store: "off + 4 \<le> length p \<Longrightarrow> st32 p off (h2n v) = Some (patch p off (be32_bytes v))"
  by (simp add: st32_in h2n_eq bytes_le32 be32_bytes_def)

end

interpretation libc16: network_order16 ntohs htons
  by unfold_locales (simp_all add: ntohs_def htons_def bytes_le16 bytes_be16)

interpretation libc32: network_order32 ntohl htonl
  by unfold_locales (simp_all add: ntohl_def htonl_def bytes_le32 bytes_be32)

lemma netsum_bpf_ntohs_le16: "netsum_bpf_ntohs (le16 b0 b1) = be16 b0 b1"
  unfolding netsum_bpf_ntohs_def le16_def be16_def
  by (rule bit_word_eqI) (auto simp: bit_simps dest: bit_imp_le_length)

lemma netsum_bpf_ntohs_be16: "netsum_bpf_ntohs (be16 b0 b1) = le16 b0 b1"
  unfolding netsum_bpf_ntohs_def le16_def be16_def
  by (rule bit_word_eqI) (auto simp: bit_simps dest: bit_imp_le_length)

lemma byte_masks:
  "(0x000000ff :: u32) = mask 8" "(0x0000ff00 :: u32) = push_bit 8 (mask 8)"
  "(0x00ff0000 :: u32) = push_bit 16 (mask 8)" "(0xff000000 :: u32) = push_bit 24 (mask 8)"
  by (simp_all add: mask_eq_exp_minus_1)

lemma netsum_bpf_ntohl_le32: "netsum_bpf_ntohl (le32 b0 b1 b2 b3) = be32 b0 b1 b2 b3"
proof (rule bit_word_eqI)
  fix n assume "n < LENGTH(32)"
  then show "bit (netsum_bpf_ntohl (le32 b0 b1 b2 b3)) n = bit (be32 b0 b1 b2 b3) n"
    unfolding netsum_bpf_ntohl_def le32_def be32_def byte_masks
    by simp (erule byte_cases; simp add: bit_simps u8_high_bits less_diff_conv2)
qed

lemma netsum_bpf_ntohl_be32: "netsum_bpf_ntohl (be32 b0 b1 b2 b3) = le32 b0 b1 b2 b3"
proof -
  have "be32 b0 b1 b2 b3 = le32 b3 b2 b1 b0" "be32 b3 b2 b1 b0 = le32 b0 b1 b2 b3"
    by (simp_all add: be32_def le32_def ac_simps)
  then show ?thesis by (simp add: netsum_bpf_ntohl_le32)
qed

interpretation bpf16: network_order16 netsum_bpf_ntohs netsum_bpf_htons
  by unfold_locales (simp_all add: netsum_bpf_htons_def netsum_bpf_ntohs_le16 netsum_bpf_ntohs_be16)

interpretation bpf32: network_order32 netsum_bpf_ntohl netsum_bpf_htonl
  by unfold_locales (simp_all add: netsum_bpf_htonl_def netsum_bpf_ntohl_le32 netsum_bpf_ntohl_be32)

lemmas wire_load [safe_access] = libc16.load libc32.load bpf16.load bpf32.load
lemmas wire_store [safe_access] = libc16.store libc32.store bpf16.store bpf32.store

end
