(* ===== verification/Command_Line.thy ===== *)
theory Command_Line
  imports Wire
begin

text \<open>
  What the C library makes of command line arguments: the decimal conversions \<open>strtol\<close>, \<open>atol\<close>, \<open>atoi\<close> and
  \<open>strtoul\<close> on a host whose \<open>long\<close> has 64 bits, and that they read back what is printed. \<open>char\<close>s are
  those of the C locale.
\<close>

section \<open>Scanning\<close>

definition is_space :: "char \<Rightarrow> bool" where
  "is_space c \<longleftrightarrow> (let n = of_char c :: nat in n = 32 \<or> 9 \<le> n \<and> n \<le> 13)"

fun scan_sign :: "string \<Rightarrow> bool \<times> string" where
  "scan_sign (c # cs) = (if c = CHR ''-'' then (True, cs) else if c = CHR ''+'' then (False, cs) else (False, c # cs))"
| "scan_sign [] = (False, [])"

definition dec_digit :: "char \<Rightarrow> nat option" where
  "dec_digit c = (let n = of_char c :: nat in if 48 \<le> n \<and> n \<le> 57 then Some (n - 48) else None)"

fun scan_dec :: "nat \<Rightarrow> string \<Rightarrow> nat" where
  "scan_dec acc [] = acc"
| "scan_dec acc (c # cs) = (case dec_digit c of Some d \<Rightarrow> scan_dec (10 * acc + d) cs | None \<Rightarrow> acc)"

text \<open>Blanks, a sign, digits; 0 when there are none. What follows is ignored, as with a null \<open>endptr\<close>.\<close>

definition scan_number :: "string \<Rightarrow> bool \<times> nat" where
  "scan_number s = (let (neg, s) = scan_sign (dropWhile is_space s) in (neg, scan_dec 0 s))"

section \<open>Conversions\<close>

text \<open>\<open>strtol\<close> and \<open>strtoul\<close> stop at the ends of their type's range; \<open>strtoul\<close> negates within it.\<close>

definition strtol :: "string \<Rightarrow> int" where
  "strtol s = (let (neg, n) = scan_number s in max (- (2 ^ 63)) (min (2 ^ 63 - 1) (if neg then - int n else int n)))"

definition strtoul :: "string \<Rightarrow> u64" where
  "strtoul s = (let (neg, n) = scan_number s in
     if n \<ge> 2 ^ 64 then - 1 else if neg then - word_of_nat n else word_of_nat n)"

definition atol :: "string \<Rightarrow> int" where
  "atol s = strtol s"

text \<open>\<open>(int)strtol(s, NULL, 10)\<close>, cut to 32 bits.\<close>

definition atoi :: "string \<Rightarrow> int" where
  "atoi s = sint (word_of_int (strtol s) :: i32)"

section \<open>Printing\<close>

fun print_dec :: "nat \<Rightarrow> string" where
  "print_dec n = (if n < 10 then [char_of (48 + n)] else print_dec (n div 10) @ [char_of (48 + n mod 10)])"

declare print_dec.simps [simp del]

lemma dec_digit_char: "d < 10 \<Longrightarrow> dec_digit (char_of (48 + d)) = Some d"
  by (simp add: dec_digit_def)

lemma scan_dec_append:
  assumes "\<forall>c\<in>set cs. dec_digit c \<noteq> None"
  shows "scan_dec acc (cs @ ds) = scan_dec (scan_dec acc cs) ds"
  using assms by (induction cs arbitrary: acc) (auto split: option.split)

lemma print_dec_digits: "c \<in> set (print_dec n) \<Longrightarrow> dec_digit c \<noteq> None"
  by (induction n rule: print_dec.induct) (subst (asm) print_dec.simps, auto simp: dec_digit_char split: if_splits)

lemma scan_print_dec: "scan_dec 0 (print_dec n) = n"
proof (induction n rule: print_dec.induct)
  case (1 n)
  show ?case
  proof (cases "n < 10")
    case True
    then show ?thesis by (subst print_dec.simps) (simp add: dec_digit_char)
  next
    case False
    then show ?thesis
      using 1 print_dec_digits by (subst print_dec.simps) (simp add: scan_dec_append dec_digit_char)
  qed
qed

lemma dec_digit_plain: "dec_digit c \<noteq> None \<Longrightarrow> \<not> is_space c \<and> c \<noteq> CHR ''-'' \<and> c \<noteq> CHR ''+''"
  by (auto simp: dec_digit_def is_space_def Let_def split: if_splits)

lemma scan_number_print: "scan_number (print_dec n) = (False, n)" "scan_number (CHR ''-'' # print_dec n) = (True, n)"
proof -
  have "print_dec n \<noteq> []" by (subst print_dec.simps) simp
  then obtain c cs where c: "print_dec n = c # cs" by (cases "print_dec n") auto
  then have "dec_digit c \<noteq> None" using print_dec_digits [of c n] by simp
  from dec_digit_plain [OF this] show "scan_number (print_dec n) = (False, n)"
    using scan_print_dec [of n] unfolding c by (simp add: scan_number_def)
  have "\<not> is_space CHR ''-''" by (simp add: is_space_def)
  then show "scan_number (CHR ''-'' # print_dec n) = (True, n)"
    using scan_print_dec [of n] by (simp add: scan_number_def)
qed

text \<open>A number printed with an optional minus sign, as \<open>%ld\<close> does.\<close>

definition print_int :: "int \<Rightarrow> string" where
  "print_int x = (if x < 0 then CHR ''-'' # print_dec (nat (- x)) else print_dec (nat x))"

lemma strtol_print: "- (2 ^ 63) \<le> x \<Longrightarrow> x < 2 ^ 63 \<Longrightarrow> strtol (print_int x) = x"
  by (auto simp: strtol_def print_int_def scan_number_print)

lemma atol_print: "- (2 ^ 63) \<le> x \<Longrightarrow> x < 2 ^ 63 \<Longrightarrow> atol (print_int x) = x"
  by (simp add: atol_def strtol_print)

lemma atoi_print:
  assumes "- (2 ^ 31) \<le> x" "x < 2 ^ 31"
  shows "atoi (print_int x) = x"
proof -
  have "strtol (print_int x) = x" using assms by (intro strtol_print) simp_all
  then show ?thesis using assms by (simp add: atoi_def sint_sbintrunc' signed_take_bit_int_eq_self)
qed

lemma strtoul_print: "strtoul (print_dec (unat w)) = ucast (w :: u32)"
proof -
  have "unat w < 2 ^ LENGTH(32)" by (rule unsigned_less)
  then have "unat w < 2 ^ 64" by simp
  then show ?thesis by (simp add: strtoul_def scan_number_print)
qed

lemma print_dec_int: "print_dec n = print_int (int n)"
  by (simp add: print_int_def)

lemma atoi_print_dec: "n < 2 ^ 31 \<Longrightarrow> atoi (print_dec n) = int n"
  by (simp add: print_dec_int atoi_print)

lemma atol_print_dec: "n < 2 ^ 63 \<Longrightarrow> atol (print_dec n) = int n"
  by (simp add: print_dec_int atol_print)

end
