(* ===== verification/Open_Addressing.thy ===== *)
theory Open_Addressing
  imports NetSum_Prelude
begin

text \<open>
  Linear probing, as the three hash tables of the userspace programs do it (\<open>find_or_create_slot\<close>
  of \<open>agg.c\<close> and \<open>paramserver.c\<close>, \<open>find_or_create_job\<close> of \<open>agg.c\<close>): walk the probe sequence of the
  key, stop at the first entry that is not in use or that holds the key.

  \<open>probe_loop\<close> is that walk. The locale \<open>open_addressing\<close> proves what it finds: always sound, and
  complete on a table whose chains are intact (\<open>chains_intact\<close>: no entry is cut off from the start
  of its own probe sequence). Creating an entry keeps chains intact; clearing one does not, which
  is why the table of the parameter server (never cleared) is a map and the slot table of the
  aggregator is one only as long as no live entry was displaced.
\<close>

section \<open>The walk\<close>

datatype probe_result = Free nat | Found nat | Table_full

function probe_loop :: "nat \<Rightarrow> (nat \<Rightarrow> nat) \<Rightarrow> (nat \<Rightarrow> bool) \<Rightarrow> (nat \<Rightarrow> bool) \<Rightarrow> nat \<Rightarrow> probe_result" where
  "probe_loop cap idx in_use hit probe =
     (if probe < cap
      then if \<not> in_use (idx probe) then Free (idx probe)
      else if hit (idx probe) then Found (idx probe)
      else probe_loop cap idx in_use hit (probe + 1)
      else Table_full)"
  by pat_completeness auto
termination
  by (relation "measure (\<lambda>(cap, idx, in_use, hit, probe). cap - probe)") auto

declare probe_loop.simps [simp del]

text \<open>What the walk from the first probe on returns, case by case.\<close>

lemma probe_loop_from:
  assumes "probe \<le> cap"
  shows "(\<exists>n. probe \<le> n \<and> n < cap \<and> (\<forall>m. probe \<le> m \<and> m < n \<longrightarrow> in_use (idx m) \<and> \<not> hit (idx m)) \<and>
            (probe_loop cap idx in_use hit probe = Free (idx n) \<and> \<not> in_use (idx n) \<or>
             probe_loop cap idx in_use hit probe = Found (idx n) \<and> in_use (idx n) \<and> hit (idx n))) \<or>
         probe_loop cap idx in_use hit probe = Table_full \<and>
            (\<forall>m. probe \<le> m \<and> m < cap \<longrightarrow> in_use (idx m) \<and> \<not> hit (idx m))"
  using assms
proof (induction probe rule: inc_induct)
  case base
  have "probe_loop cap idx in_use hit cap = Table_full" by (simp add: probe_loop.simps)
  then show ?case by auto
next
  case (step k)
  show ?case
  proof (cases "in_use (idx k) \<and> \<not> hit (idx k)")
    case True
    then have *: "probe_loop cap idx in_use hit k = probe_loop cap idx in_use hit (Suc k)"
      using step.hyps by (simp add: probe_loop.simps [of cap idx in_use hit k])
    have **: "k \<le> m \<and> m < n \<longrightarrow> m = k \<or> Suc k \<le> m \<and> m < n" for m n by auto
    from step.IH show ?thesis
    proof (elim disjE exE conjE)
      fix n assume "Suc k \<le> n" "n < cap" "\<forall>m. Suc k \<le> m \<and> m < n \<longrightarrow> in_use (idx m) \<and> \<not> hit (idx m)"
        "probe_loop cap idx in_use hit (Suc k) = Free (idx n)" "\<not> in_use (idx n)"
      with True ** show ?thesis unfolding * by (intro disjI1 exI [of _ n]) auto
    next
      fix n assume "Suc k \<le> n" "n < cap" "\<forall>m. Suc k \<le> m \<and> m < n \<longrightarrow> in_use (idx m) \<and> \<not> hit (idx m)"
        "probe_loop cap idx in_use hit (Suc k) = Found (idx n)" "in_use (idx n)" "hit (idx n)"
      with True ** show ?thesis unfolding * by (intro disjI1 exI [of _ n]) auto
    next
      assume "probe_loop cap idx in_use hit (Suc k) = Table_full"
        "\<forall>m. Suc k \<le> m \<and> m < cap \<longrightarrow> in_use (idx m) \<and> \<not> hit (idx m)"
      with True ** show ?thesis unfolding * by (intro disjI2) auto
    qed
  next
    case False
    with step.hyps show ?thesis
      by (intro disjI1 exI [of _ k]) (auto simp: probe_loop.simps [of cap idx in_use hit k])
  qed
qed

lemma probe_loop_cases:
  obtains (free) n where "n < cap" "probe_loop cap idx in_use hit 0 = Free (idx n)" "\<not> in_use (idx n)"
      "\<And>m. m < n \<Longrightarrow> in_use (idx m) \<and> \<not> hit (idx m)"
    | (found) n where "n < cap" "probe_loop cap idx in_use hit 0 = Found (idx n)" "in_use (idx n)" "hit (idx n)"
      "\<And>m. m < n \<Longrightarrow> in_use (idx m) \<and> \<not> hit (idx m)"
    | (full) "probe_loop cap idx in_use hit 0 = Table_full" "\<And>m. m < cap \<Longrightarrow> in_use (idx m) \<and> \<not> hit (idx m)"
  using probe_loop_from [of 0 cap in_use idx hit] by auto

lemma probe_Free:
  assumes "probe_loop cap idx in_use hit 0 = Free i"
  obtains n where "n < cap" "idx n = i" "\<not> in_use i" "\<forall>m<n. in_use (idx m) \<and> \<not> hit (idx m)"
  using assms by (cases rule: probe_loop_cases [of cap idx in_use hit]) auto

lemma probe_Found:
  assumes "probe_loop cap idx in_use hit 0 = Found i"
  obtains n where "n < cap" "idx n = i" "in_use i" "hit i" "\<forall>m<n. in_use (idx m) \<and> \<not> hit (idx m)"
  using assms by (cases rule: probe_loop_cases [of cap idx in_use hit]) auto

lemma probe_full:
  assumes "probe_loop cap idx in_use hit 0 = Table_full" "m < cap"
  shows "in_use (idx m)" "\<not> hit (idx m)"
  using assms by (cases rule: probe_loop_cases [of cap idx in_use hit]; auto)+

lemma probe_first_hit:
  assumes "n < cap" "in_use (idx n)" "hit (idx n)" "\<And>m. m < n \<Longrightarrow> in_use (idx m) \<and> \<not> hit (idx m)"
  shows "probe_loop cap idx in_use hit 0 = Found (idx n)"
proof (cases rule: probe_loop_cases [of cap idx in_use hit])
  case (free m)
  with assms show ?thesis by (cases m n rule: linorder_cases) auto
next
  case (found m)
  with assms show ?thesis by (cases m n rule: linorder_cases) auto
next
  case full
  with assms show ?thesis by auto
qed

section \<open>Intact chains\<close>

definition chains_intact :: "nat \<Rightarrow> ('k \<Rightarrow> nat \<Rightarrow> nat) \<Rightarrow> (nat \<Rightarrow> bool) \<Rightarrow> (nat \<Rightarrow> 'k) \<Rightarrow> bool" where
  "chains_intact cap idx in_use key \<longleftrightarrow>
     (\<forall>i<cap. in_use i \<longrightarrow>
       (\<exists>n<cap. idx (key i) n = i \<and>
         (\<forall>m<n. in_use (idx (key i) m) \<and> key (idx (key i) m) \<noteq> key i)))"

lemma chains_intactD:
  assumes "chains_intact cap idx in_use key" "i < cap" "in_use i"
  obtains n where "n < cap" "idx (key i) n = i"
    "\<forall>m<n. in_use (idx (key i) m) \<and> key (idx (key i) m) \<noteq> key i"
  using assms unfolding chains_intact_def by blast

locale open_addressing =
  fixes cap :: nat and idx :: "'k \<Rightarrow> nat \<Rightarrow> nat"
  assumes idx_bound: "idx k n < cap"
    and idx_onto: "i < cap \<Longrightarrow> \<exists>n<cap. idx k n = i"
begin

lemma found_sound:
  assumes "probe_loop cap (idx k) in_use (\<lambda>i. key i = k) 0 = Found i"
  shows "i < cap" "in_use i" "key i = k"
  using assms by (rule probe_Found; use idx_bound in auto)+

lemma free_sound:
  assumes "probe_loop cap (idx k) in_use (\<lambda>i. key i = k) 0 = Free i"
  shows "i < cap" "\<not> in_use i"
  using assms by (rule probe_Free; use idx_bound in auto)+

lemma full_sound:
  assumes "probe_loop cap (idx k) in_use (\<lambda>i. key i = k) 0 = Table_full" "i < cap"
  shows "in_use i" "key i \<noteq> k"
  using probe_full [OF assms(1)] idx_onto [OF assms(2), of k] by auto

lemma found_complete:
  assumes ch: "chains_intact cap idx in_use key" and i: "i < cap" "in_use i" "key i = k"
  shows "probe_loop cap (idx k) in_use (\<lambda>i. key i = k) 0 = Found i"
proof -
  from ch i(1,2) obtain n where n: "n < cap" "idx (key i) n = i"
    "\<forall>m<n. in_use (idx (key i) m) \<and> key (idx (key i) m) \<noteq> key i"
    by (rule chains_intactD)
  have "probe_loop cap (idx k) in_use (\<lambda>i. key i = k) 0 = Found (idx k n)"
    using n i by (intro probe_first_hit) auto
  with n i show ?thesis by simp
qed

lemma free_absent:
  assumes "chains_intact cap idx in_use key"
    "probe_loop cap (idx k) in_use (\<lambda>i. key i = k) 0 = Free j" "i < cap" "in_use i"
  shows "key i \<noteq> k"
  using found_complete [OF assms(1,3,4)] assms(2) by auto

lemma key_unique:
  assumes "chains_intact cap idx in_use key" "i < cap" "in_use i" "j < cap" "in_use j" "key i = key j"
  shows "i = j"
  using found_complete [OF assms(1-3,6)] found_complete [OF assms(1,4,5) refl] by simp

text \<open>Whatever the state of the chains, a walk that wrote the entry it stopped at comes back to it.\<close>

lemma walk_again:
  assumes w: "probe_loop cap (idx k) in_use (\<lambda>i. key i = k) 0 \<in> {Free j, Found j}"
    and upd: "in_use' j" "key' j = k" "\<And>i. i \<noteq> j \<Longrightarrow> in_use' i = in_use i" "\<And>i. i \<noteq> j \<Longrightarrow> key' i = key i"
  shows "probe_loop cap (idx k) in_use' (\<lambda>i. key' i = k) 0 = Found j"
proof -
  obtain n where n: "n < cap" "idx k n = j" "\<forall>m<n. in_use (idx k m) \<and> key (idx k m) \<noteq> k"
    "\<not> in_use j \<or> key j = k"
    using w by (auto elim: probe_Free probe_Found)
  have "in_use' (idx k m) \<and> key' (idx k m) \<noteq> k" if "m < n" for m
    using n(3,4) that upd(3,4) [of "idx k m"] by (cases "idx k m = j") auto
  then show ?thesis using probe_first_hit [of n cap in_use' "idx k" "\<lambda>i. key' i = k"] n(1,2) upd(1,2) by simp
qed

text \<open>Creating an entry for \<open>k\<close> where the walk stopped.\<close>

lemma create_intact:
  assumes ch: "chains_intact cap idx in_use key"
    and fr: "probe_loop cap (idx k) in_use (\<lambda>i. key i = k) 0 = Free j"
    and upd: "in_use' j" "key' j = k" "\<And>i. i \<noteq> j \<Longrightarrow> in_use' i = in_use i" "\<And>i. i \<noteq> j \<Longrightarrow> key' i = key i"
  shows "chains_intact cap idx in_use' key'"
proof -
  have j: "\<not> in_use j" using fr by (rule free_sound)
  have same: "in_use' i \<and> key' i = key i" if "in_use i" for i
    using that j upd(3,4) by (cases "i = j") auto
  have "\<exists>n<cap. idx (key' i) n = i \<and> (\<forall>m<n. in_use' (idx (key' i) m) \<and> key' (idx (key' i) m) \<noteq> key' i)"
    if i: "i < cap" "in_use' i" for i
  proof (cases "i = j")
    case True
    from fr obtain n where n: "n < cap" "idx k n = j" "\<forall>m<n. in_use (idx k m) \<and> key (idx k m) \<noteq> k"
      by (rule probe_Free)
    have "in_use' (idx k m) \<and> key' (idx k m) \<noteq> k" if "m < n" for m
      using n(3) that same [of "idx k m"] by auto
    then show ?thesis using n(1,2) True upd(2) by (intro exI [of _ n]) simp
  next
    case False
    then have u: "in_use i" and k: "key' i = key i" using i upd(3,4) by auto
    from ch i(1) u obtain n where n: "n < cap" "idx (key i) n = i"
      "\<forall>m<n. in_use (idx (key i) m) \<and> key (idx (key i) m) \<noteq> key i"
      by (rule chains_intactD)
    have "in_use' (idx (key i) m) \<and> key' (idx (key i) m) \<noteq> key i" if "m < n" for m
      using n(3) that same [of "idx (key i) m"] by auto
    then show ?thesis using n(1,2) k by (intro exI [of _ n]) simp
  qed
  then show ?thesis unfolding chains_intact_def by blast
qed

end

section \<open>Indices of a power-of-two table\<close>

text \<open>\<open>(h + probe) & (capacity - 1)\<close> on 64-bit words, for a capacity \<open>2 ^ b\<close>.\<close>

definition masked_index :: "nat \<Rightarrow> u64 \<Rightarrow> nat \<Rightarrow> nat" where
  "masked_index capacity h probe = unat ((h + word_of_nat probe) AND word_of_nat (capacity - 1))"

lemma masked_index_mod:
  assumes "b < 64"
  shows "masked_index (2 ^ b) h probe = (unat h + probe) mod 2 ^ b"
proof -
  have m: "(word_of_nat (2 ^ b - 1) :: u64) = mask b"
    by (simp add: mask_eq_exp_minus_1)
  have "masked_index (2 ^ b) h probe = take_bit b (unat (h + word_of_nat probe))"
    unfolding masked_index_def m by (simp only: take_bit_eq_mask [symmetric] unsigned_take_bit_eq)
  also have "\<dots> = unat (h + word_of_nat probe) mod 2 ^ b"
    by (rule take_bit_eq_mod)
  also have "unat (h + word_of_nat probe) = (unat h + probe) mod 2 ^ 64"
    by (simp add: unat_word_ariths unsigned_of_nat take_bit_eq_mod mod_simps)
  also have "(unat h + probe) mod 2 ^ 64 mod 2 ^ b = (unat h + probe) mod 2 ^ b"
    using assms by (intro mod_mod_cancel le_imp_power_dvd) simp
  finally show ?thesis .
qed

lemma masked_index_onto:
  assumes "b < 64" "i < 2 ^ b"
  shows "\<exists>n<2 ^ b. masked_index (2 ^ b) h n = i"
proof -
  let ?c = "2 ^ b :: nat" and ?h = "unat h mod 2 ^ b"
  let ?n = "(i + (?c - ?h)) mod ?c"
  have "?h < ?c" by simp
  then have eq: "?h + (i + (?c - ?h)) = i + ?c" by linarith
  have "(unat h + ?n) mod ?c = (?h + (i + (?c - ?h))) mod ?c"
    by (simp only: mod_simps)
  also have "\<dots> = i" unfolding eq using assms by simp
  finally have "masked_index ?c h ?n = i" using assms(1) by (simp add: masked_index_mod)
  then show ?thesis by (intro exI [of _ ?n]) simp
qed

end
