(* ===== verification/Packet.thy ===== *)
theory Packet
  imports Wire
begin

text \<open>
  The gradient packet: \<open>struct grad_hdr\<close> of \<open>protocol/grad_proto.h\<close> and the run of Q16.16 values
  behind it. \<open>wire_hdr\<close> and \<open>wire_values\<close> say what a byte string means, \<open>encode_hdr\<close> and
  \<open>encode_values\<close> how it is written; \<open>store_hdr\<close> and \<open>store_values\<close> are the field by field
  stores of \<open>worker.c\<close> and \<open>agg.c\<close>.
\<close>

section \<open>The header\<close>

record grad_hdr =
  gh_job_id :: u32
  gh_round :: u32
  gh_chunk_id :: u32
  gh_worker_id :: u16
  gh_num_workers :: u16
  gh_chunk_len :: u16
  gh_flags :: u16

text \<open>Byte offsets of the packed fields.\<close>

abbreviation (input) at_job_id :: nat where "at_job_id \<equiv> 0"
abbreviation (input) at_round :: nat where "at_round \<equiv> 4"
abbreviation (input) at_chunk_id :: nat where "at_chunk_id \<equiv> 8"
abbreviation (input) at_worker_id :: nat where "at_worker_id \<equiv> 12"
abbreviation (input) at_num_workers :: nat where "at_num_workers \<equiv> 14"
abbreviation (input) at_chunk_len :: nat where "at_chunk_len \<equiv> 16"
abbreviation (input) at_flags :: nat where "at_flags \<equiv> 18"

definition wire_hdr :: "bytes \<Rightarrow> nat \<Rightarrow> grad_hdr" where
  "wire_hdr p off = \<lparr>
     gh_job_id = wire32 p (off + at_job_id),
     gh_round = wire32 p (off + at_round),
     gh_chunk_id = wire32 p (off + at_chunk_id),
     gh_worker_id = wire16 p (off + at_worker_id),
     gh_num_workers = wire16 p (off + at_num_workers),
     gh_chunk_len = wire16 p (off + at_chunk_len),
     gh_flags = wire16 p (off + at_flags) \<rparr>"

lemma wire_hdr_sel [simp]:
  "gh_job_id (wire_hdr p off) = wire32 p off"
  "gh_round (wire_hdr p off) = wire32 p (off + 4)"
  "gh_chunk_id (wire_hdr p off) = wire32 p (off + 8)"
  "gh_worker_id (wire_hdr p off) = wire16 p (off + 12)"
  "gh_num_workers (wire_hdr p off) = wire16 p (off + 14)"
  "gh_chunk_len (wire_hdr p off) = wire16 p (off + 16)"
  "gh_flags (wire_hdr p off) = wire16 p (off + 18)"
  by (simp_all add: wire_hdr_def)

definition encode_hdr :: "grad_hdr \<Rightarrow> bytes" where
  "encode_hdr h =
     be32_bytes (gh_job_id h) @ be32_bytes (gh_round h) @ be32_bytes (gh_chunk_id h) @
     be16_bytes (gh_worker_id h) @ be16_bytes (gh_num_workers h) @ be16_bytes (gh_chunk_len h) @
     be16_bytes (gh_flags h)"

lemma length_encode_hdr [simp]: "length (encode_hdr h) = 20"
  by (simp add: encode_hdr_def)

definition store_hdr :: "bytes \<Rightarrow> nat \<Rightarrow> grad_hdr \<Rightarrow> bytes option" where
  "store_hdr p off h = do {
     p \<leftarrow> st32 p (off + at_job_id) (htonl (gh_job_id h));
     p \<leftarrow> st32 p (off + at_round) (htonl (gh_round h));
     p \<leftarrow> st32 p (off + at_chunk_id) (htonl (gh_chunk_id h));
     p \<leftarrow> st16 p (off + at_worker_id) (htons (gh_worker_id h));
     p \<leftarrow> st16 p (off + at_num_workers) (htons (gh_num_workers h));
     p \<leftarrow> st16 p (off + at_chunk_len) (htons (gh_chunk_len h));
     st16 p (off + at_flags) (htons (gh_flags h)) }"

lemma patch_append:
  "off + length a + length b \<le> length p \<Longrightarrow>
     patch (patch p off a) (off + length a) b = patch p off (a @ b)"
  by (cases a) (simp_all add: patch_def min_def ac_simps)

lemma store_hdr_in [safe_access]:
  assumes "off + 20 \<le> length p"
  shows "store_hdr p off h = Some (patch p off (encode_hdr h))"
proof -
  have app: "patch (patch p off a) k b = patch p off (a @ b)"
    if "k = off + length a" "length a + length b \<le> 20" for a b k
    using that assms by (simp add: patch_append)
  have "store_hdr p off h = Some (patch p off
      ((((((be32_bytes (gh_job_id h) @ be32_bytes (gh_round h)) @ be32_bytes (gh_chunk_id h)) @
     be16_bytes (gh_worker_id h)) @ be16_bytes (gh_num_workers h)) @ be16_bytes (gh_chunk_len h)) @
     be16_bytes (gh_flags h)))"
    using assms by (simp add: store_hdr_def safe_access app)
  then show ?thesis by (simp add: encode_hdr_def)
qed

section \<open>The values\<close>

definition wire_values :: "bytes \<Rightarrow> nat \<Rightarrow> nat \<Rightarrow> i32 list" where
  "wire_values p off n = map (\<lambda>i. wire32 p (off + 4 * i)) [0..<n]"

lemma length_wire_values [simp]: "length (wire_values p off n) = n"
  by (simp add: wire_values_def)

lemma nth_wire_values [simp]: "i < n \<Longrightarrow> wire_values p off n ! i = wire32 p (off + 4 * i)"
  by (simp add: wire_values_def)

definition encode_values :: "i32 list \<Rightarrow> bytes" where
  "encode_values vs = concat (map be32_bytes vs)"

lemma length_encode_values [simp]: "length (encode_values vs) = 4 * length vs"
  by (induction vs) (simp_all add: encode_values_def)

lemma encode_values_simps [simp]:
  "encode_values [] = []"
  "encode_values (v # vs) = be32_bytes v @ encode_values vs"
  by (simp_all add: encode_values_def)

text \<open>\<open>for (i = 0; i < chunk_len; i++) values[i] = htonl(...)\<close>, from element \<open>i\<close> on.\<close>

fun store_values :: "bytes \<Rightarrow> nat \<Rightarrow> i32 list \<Rightarrow> bytes option" where
  "store_values p off [] = Some p"
| "store_values p off (v # vs) = do {
     p \<leftarrow> st32 p off (htonl v);
     store_values p (off + 4) vs }"

lemma patch_Nil [simp]: "patch p off [] = p"
  by (simp add: patch_def)

lemma store_values_in [safe_access]:
  "off + 4 * length vs \<le> length p \<Longrightarrow> store_values p off vs = Some (patch p off (encode_values vs))"
proof (induction vs arbitrary: p off)
  case (Cons v vs)
  then show ?case
    using patch_append [of off "be32_bytes v" "encode_values vs" p]
    by (simp add: safe_access)
qed simp

section \<open>A packet means what was encoded\<close>

definition encode_packet :: "grad_hdr \<Rightarrow> i32 list \<Rightarrow> bytes" where
  "encode_packet h vs = encode_hdr h @ encode_values vs"

lemma length_encode_packet [simp]: "length (encode_packet h vs) = 20 + 4 * length vs"
  by (simp add: encode_packet_def)

lemma wire32_shift: "wire32 (a @ p) (length a + i) = wire32 p i"
  by (simp add: wire32_def add.assoc nth_append)

lemma wire32_append: "i + 4 \<le> length a \<Longrightarrow> wire32 (a @ b) i = wire32 a i"
  by (simp add: wire32_def nth_append)

lemma wire16_append: "i + 2 \<le> length a \<Longrightarrow> wire16 (a @ b) i = wire16 a i"
  by (simp add: wire16_def nth_append)

lemma wire32_encode: "wire32 (encode_values vs) (4 * i) = vs ! i" if "i < length vs"
  using that
proof (induction vs arbitrary: i)
  case (Cons v vs)
  show ?case
  proof (cases i)
    case 0
    then show ?thesis by (simp add: wire32_append) (simp add: wire32_def be32_bytes_def be32_split)
  next
    case (Suc j)
    have "wire32 (be32_bytes v @ encode_values vs) (length (be32_bytes v) + 4 * j) = vs ! j"
      using Cons Suc by (simp only: wire32_shift) simp
    with Suc show ?thesis by simp
  qed
qed simp

lemma wire_hdr_encode [simp]: "wire_hdr (encode_packet h vs) 0 = h"
  by (simp add: wire_hdr_def wire32_def wire16_def encode_packet_def encode_hdr_def be32_bytes_def
      be16_bytes_def be32_split be16_split)

lemma wire_values_encode [simp]: "wire_values (encode_packet h vs) 20 (length vs) = vs"
proof (rule nth_equalityI)
  fix i assume "i < length (wire_values (encode_packet h vs) 20 (length vs))"
  then show "wire_values (encode_packet h vs) 20 (length vs) ! i = vs ! i"
    using wire32_shift [of "encode_hdr h" "encode_values vs" "4 * i"]
    by (simp add: encode_packet_def wire32_encode)
qed simp

lemma wire_hdr_shift: "wire_hdr (a @ p) (length a) = wire_hdr p 0"
  by (simp add: wire_hdr_def wire32_def wire16_def nth_append numeral_2_eq_2)

lemma wire_values_shift: "wire_values (a @ p) (length a + i) n = wire_values p i n"
  by (simp add: wire_values_def wire32_shift add.assoc)

lemma wire_hdr_take: "off + 20 \<le> n \<Longrightarrow> n \<le> length p \<Longrightarrow> wire_hdr (take n p) off = wire_hdr p off"
  by (simp add: wire_hdr_def wire32_def wire16_def)

lemma wire_values_take:
  "off + 4 * k \<le> n \<Longrightarrow> n \<le> length p \<Longrightarrow> wire_values (take n p) off k = wire_values p off k"
  by (simp add: wire_values_def wire32_def)


lemma take_patch2:
  "length a + length b \<le> length p \<Longrightarrow> take (length a + length b) (patch (patch p 0 a) (length a) b) = a @ b"
  using patch_append [of 0 a b p] by (simp add: patch_def)

section \<open>The slot key of a packet\<close>

text \<open>\<open>struct grad_slot_key\<close>: the job, round and chunk a packet contributes to.\<close>

record grad_slot_key =
  k_job_id :: u32
  k_round :: u32
  k_chunk_id :: u32

definition key_of :: "grad_hdr \<Rightarrow> grad_slot_key" where
  "key_of h = \<lparr>k_job_id = gh_job_id h, k_round = gh_round h, k_chunk_id = gh_chunk_id h\<rparr>"

section \<open>recvfrom\<close>

text \<open>
  \<open>recvfrom(sock, buf, sizeof(buf), 0, ...)\<close>: an error or a wake-up without a packet returns -1 and
  leaves the buffer; a datagram is cut at the buffer's size and overwrites its first \<open>n\<close> bytes.
  The bytes behind them keep what earlier datagrams left there.
\<close>

datatype recv = Recv_none | Datagram bytes

fun recvfrom :: "bytes \<Rightarrow> recv \<Rightarrow> int \<times> bytes" where
  "recvfrom buf Recv_none = (-1, buf)"
| "recvfrom buf (Datagram d) =
     (let n = min (length d) (length buf) in (int n, take n d @ drop n buf))"

lemma recvfrom_length [simp]: "length (snd (recvfrom buf r)) = length buf"
  by (cases r) (simp_all add: Let_def)

lemma recvfrom_range: "recvfrom buf r = (n, buf') \<Longrightarrow> n \<le> int (length buf')"
  by (cases r) (auto simp: Let_def)


text \<open>A received header or value is the datagram's own when the datagram reaches that far.\<close>

lemma wire_overlay:
  "i + 4 \<le> n \<Longrightarrow> n \<le> length d \<Longrightarrow> wire32 (take n d @ r) i = wire32 d i"
  "i + 2 \<le> n \<Longrightarrow> n \<le> length d \<Longrightarrow> wire16 (take n d @ r) i = wire16 d i"
  by (simp_all add: wire32_def wire16_def nth_append)

lemma wire_hdr_recv:
  "20 \<le> length d \<Longrightarrow> 20 \<le> length buf \<Longrightarrow> wire_hdr (snd (recvfrom buf (Datagram d))) 0 = wire_hdr d 0"
  by (simp add: Let_def wire_hdr_def wire_overlay)

lemma wire_values_recv:
  "20 + 4 * k \<le> length d \<Longrightarrow> 20 + 4 * k \<le> length buf \<Longrightarrow>
     wire_values (snd (recvfrom buf (Datagram d))) 20 k = wire_values d 20 k"
  by (simp add: Let_def wire_values_def wire_overlay)

end
