(* ===== verification/Worker_Set.thy ===== *)
theory Worker_Set
  imports NetSum_Prelude
begin

text \<open>
  Duplicate detection: which worker ids have contributed to a slot. \<open>agg.c\<close> and \<open>paramserver.c\<close>
  keep one byte per worker (\<open>uint8_t seen_worker[256]\<close>), \<open>xdp_agg.c\<close> one bit
  (\<open>uint8_t seen_worker[32]\<close>). The locale \<open>worker_set\<close> is the contract both meet: a set of
  numbers below 256 with a membership test and an insertion, neither of which leaves the array.
\<close>

definition MAX_TRACKED_WORKERS :: nat where "MAX_TRACKED_WORKERS = 256"
definition MAX_TRACKED_WORKERS_BITMAP_BYTES :: nat where "MAX_TRACKED_WORKERS_BITMAP_BYTES = 32"

section \<open>The contract\<close>

locale worker_set =
  fixes ok :: "bytes \<Rightarrow> bool"
    and test :: "bytes \<Rightarrow> nat \<Rightarrow> bool option"
    and mark :: "bytes \<Rightarrow> nat \<Rightarrow> bytes option"
    and fresh :: bytes
    and mem :: "bytes \<Rightarrow> nat \<Rightarrow> bool"
  assumes ok_fresh: "ok fresh"
    and mem_fresh: "\<not> mem fresh w"
    and mem_bound: "mem b w \<Longrightarrow> w < 256"
    and test: "ok b \<Longrightarrow> w < 256 \<Longrightarrow> test b w = Some (mem b w)"
    and mark: "ok b \<Longrightarrow> w < 256 \<Longrightarrow>
      \<exists>b'. mark b w = Some b' \<and> ok b' \<and> (\<forall>v. mem b' v \<longleftrightarrow> v = w \<or> mem b v)"
begin

lemma workers_fresh: "{w. mem fresh w} = {}"
  by (simp add: mem_fresh)

lemma finite_workers: "finite {w. mem b w}"
  by (rule finite_subset [of _ "{..<256}"]) (auto dest: mem_bound)

lemma card_workers_le: "card {w. mem b w} \<le> 256"
  using card_mono [of "{..<256}" "{w. mem b w}"] by (auto dest: mem_bound)

lemma mark_obtain:
  assumes "ok b" "w < 256"
  obtains b' where "mark b w = Some b'" "ok b'" "{v. mem b' v} = insert w {v. mem b v}"
proof -
  from mark [OF assms] obtain b' where b': "mark b w = Some b'" "ok b'" "\<forall>v. mem b' v \<longleftrightarrow> v = w \<or> mem b v"
    by blast
  then have "{v. mem b' v} = insert w {v. mem b v}" by auto
  with b'(1,2) show thesis by (rule that)
qed

lemma card_mark:
  assumes "ok b" "w < 256" "\<not> mem b w" "mark b w = Some b'"
  shows "card {v. mem b' v} = Suc (card {v. mem b v})"
proof -
  from assms(1,2) obtain c where "mark b w = Some c" "{v. mem c v} = insert w {v. mem b v}"
    by (rule mark_obtain)
  with assms(3,4) show ?thesis by (simp add: finite_workers)
qed

end

section \<open>One byte per worker\<close>

definition seen_test :: "bytes \<Rightarrow> nat \<Rightarrow> bool option" where
  "seen_test seen_worker worker_id = do {
     b \<leftarrow> arr_get seen_worker worker_id;
     Some (b \<noteq> 0) }"

definition seen_mark :: "bytes \<Rightarrow> nat \<Rightarrow> bytes option" where
  "seen_mark seen_worker worker_id = arr_set seen_worker worker_id 1"

definition seen_mem :: "bytes \<Rightarrow> nat \<Rightarrow> bool" where
  "seen_mem b w \<longleftrightarrow> w < 256 \<and> w < length b \<and> b ! w \<noteq> 0"

interpretation seen: worker_set "\<lambda>b. length b = 256" seen_test seen_mark "replicate 256 0" seen_mem
  by unfold_locales
    (auto simp: seen_test_def seen_mark_def seen_mem_def arr_get_def arr_set_def nth_list_update)

section \<open>One bit per worker\<close>

definition bitmap_test :: "bytes \<Rightarrow> nat \<Rightarrow> bool option" where
  "bitmap_test seen_worker worker_id = do {
     byte \<leftarrow> arr_get seen_worker (worker_id div 8);
     let bit = push_bit (worker_id mod 8) (1 :: u8);
     Some (byte AND bit \<noteq> 0) }"

definition bitmap_mark :: "bytes \<Rightarrow> nat \<Rightarrow> bytes option" where
  "bitmap_mark seen_worker worker_id = do {
     byte \<leftarrow> arr_get seen_worker (worker_id div 8);
     let bit = push_bit (worker_id mod 8) (1 :: u8);
     arr_set seen_worker (worker_id div 8) (byte OR bit) }"

definition bitmap_mem :: "bytes \<Rightarrow> nat \<Rightarrow> bool" where
  "bitmap_mem b w \<longleftrightarrow> w < 256 \<and> bit (b ! (w div 8)) (w mod 8)"

lemma and_single_bit: "(b AND 2 ^ n) \<noteq> 0 \<longleftrightarrow> bit (b :: u8) n"
  by (simp add: bit_iff_and_push_bit_not_eq_0)

lemma or_single_bit: "n < 8 \<Longrightarrow> bit (b OR 2 ^ n) m \<longleftrightarrow> m = n \<or> bit (b :: u8) m"
  by (auto simp: bit_or_iff bit_exp_iff dest: bit_imp_le_length)

lemma div_mod_8_eq: "v div 8 = w div 8 \<and> v mod 8 = w mod 8 \<longleftrightarrow> v = (w :: nat)"
  by (metis div_mult_mod_eq)

interpretation bitmap: worker_set "\<lambda>b. length b = 32" bitmap_test bitmap_mark "replicate 32 0" bitmap_mem
proof unfold_locales
  fix b :: bytes and w :: nat
  assume "length b = 32" "w < 256"
  then have w: "w div 8 < length b" by simp
  show "bitmap_test b w = Some (bitmap_mem b w)"
    using w \<open>w < 256\<close> by (simp add: bitmap_test_def bitmap_mem_def safe_access and_single_bit)
  have "bitmap_mem (b[w div 8 := b ! (w div 8) OR 2 ^ (w mod 8)]) v \<longleftrightarrow> v = w \<or> bitmap_mem b v" for v
    using w \<open>w < 256\<close> div_mod_8_eq [of v w]
    by (auto simp: bitmap_mem_def nth_list_update or_single_bit)
  then show "\<exists>b'. bitmap_mark b w = Some b' \<and> length b' = 32 \<and> (\<forall>v. bitmap_mem b' v \<longleftrightarrow> v = w \<or> bitmap_mem b v)"
    using w \<open>length b = 32\<close> by (auto simp: bitmap_mark_def safe_access)
qed (auto simp: bitmap_mem_def)

end
