(* ===== verification/Accumulate.thy ===== *)
theory Accumulate
  imports Packet "HOL-Library.Multiset"
begin

text \<open>
  The summation loops: the accumulate loop of \<open>agg.c\<close> and \<open>paramserver.c\<close>, and the accumulate and
  write-back loops of \<open>xdp_agg.c\<close>. Each is proved equal to one reference function
  (\<open>add_values\<close>, \<open>encode_values\<close>), so that what the three programs sum is stated once.

  The C code adds \<open>int32_t\<close> values; the model's addition wraps at \<open>2^32\<close>, which is what the BPF
  instruction set does and what the userspace compilers emit. \<open>column_sum_exact\<close> gives the
  condition under which no wrap happens, the one \<open>netsum_sum_fits_i32\<close> is there to check.
\<close>

section \<open>Reference: component-wise sums\<close>

fun add_values :: "i32 list \<Rightarrow> i32 list \<Rightarrow> i32 list" where
  "add_values [] vs = []"
| "add_values acc [] = acc"
| "add_values (s # acc) (v # vs) = (s + v) # add_values acc vs"

lemma add_values_Nil [simp]: "add_values acc [] = acc"
  by (cases acc) simp_all

lemma length_add_values [simp]: "length (add_values acc vs) = length acc"
  by (induction acc vs rule: add_values.induct) simp_all

lemma nth_add_values:
  "i < length acc \<Longrightarrow> add_values acc vs ! i = (if i < length vs then acc ! i + vs ! i else acc ! i)"
  by (induction acc vs arbitrary: i rule: add_values.induct) (auto simp: nth_Cons split: nat.split)

lemma take_add_values:
  "length vs = n \<Longrightarrow> n \<le> length acc \<Longrightarrow> take n (add_values acc vs) = add_values (take n acc) vs"
  by (rule nth_equalityI) (auto simp: nth_add_values)

lemma add_values_commute: "length vs = length ws \<Longrightarrow>
    add_values (add_values acc vs) ws = add_values (add_values acc ws) vs"
  by (rule nth_equalityI) (auto simp: nth_add_values add.assoc add.commute add.left_commute)

text \<open>The component-wise total of several contributions of length \<open>n\<close>.\<close>

definition column_sum :: "nat \<Rightarrow> i32 list multiset \<Rightarrow> i32 list" where
  "column_sum n M = map (\<lambda>i. \<Sum>vs\<in>#M. vs ! i) [0..<n]"

lemma length_column_sum [simp]: "length (column_sum n M) = n"
  by (simp add: column_sum_def)

lemma nth_column_sum [simp]: "i < n \<Longrightarrow> column_sum n M ! i = (\<Sum>vs\<in>#M. vs ! i)"
  by (simp add: column_sum_def)

lemma column_sum_empty: "column_sum n {#} = replicate n 0"
  by (rule nth_equalityI) simp_all

lemma column_sum_add:
  "length vs = n \<Longrightarrow> column_sum n (add_mset vs M) = add_values (column_sum n M) vs"
  by (rule nth_equalityI) (simp_all add: nth_add_values)

lemma sint_word_add:
  fixes a b :: i32
  assumes "-(2 ^ 31) \<le> sint a + sint b" "sint a + sint b < 2 ^ 31"
  shows "sint (a + b) = sint a + sint b"
  using assms by (simp add: sint_word_ariths signed_take_bit_int_eq_self)

lemma column_sum_exact:
  fixes M :: "i32 list multiset"
  assumes i: "i < n"
    and bound: "\<And>vs. vs \<in># M \<Longrightarrow> \<bar>sint (vs ! i)\<bar> \<le> B"
    and fits: "int (size M) * B < 2 ^ 31"
  shows "sint (column_sum n M ! i) = (\<Sum>vs\<in>#M. sint (vs ! i))"
    and "\<bar>\<Sum>vs\<in>#M. sint (vs ! i)\<bar> \<le> int (size M) * B"
proof -
  have "sint (\<Sum>vs\<in>#M. vs ! i) = (\<Sum>vs\<in>#M. sint (vs ! i)) \<and>
      \<bar>\<Sum>vs\<in>#M. sint (vs ! i)\<bar> \<le> int (size M) * B"
    using bound fits
  proof (induction M)
    case (add v M)
    have B: "0 \<le> B" using add.prems(1) [of v] by simp
    then have "int (size M) * B < 2 ^ 31"
      using add.prems(2) by (simp add: distrib_right)
    with add have IH: "sint (\<Sum>vs\<in>#M. vs ! i) = (\<Sum>vs\<in>#M. sint (vs ! i))"
      "\<bar>\<Sum>vs\<in>#M. sint (vs ! i)\<bar> \<le> int (size M) * B"
      by simp_all
    have v: "\<bar>sint (v ! i)\<bar> \<le> B" using add.prems(1) by simp
    have tot: "\<bar>sint (v ! i) + (\<Sum>vs\<in>#M. sint (vs ! i))\<bar> \<le> int (size (add_mset v M)) * B"
      using IH(2) v by (simp add: distrib_right)
    then have "sint (v ! i + (\<Sum>vs\<in>#M. vs ! i)) = sint (v ! i) + (\<Sum>vs\<in>#M. sint (vs ! i))"
      using add.prems(2) IH(1) by (subst sint_word_add) auto
    with tot show ?case by simp
  qed simp
  with i show "sint (column_sum n M ! i) = (\<Sum>vs\<in>#M. sint (vs ! i))"
    and "\<bar>\<Sum>vs\<in>#M. sint (vs ! i)\<bar> \<le> int (size M) * B"
    by simp_all
qed

section \<open>The loop of agg.c and paramserver.c\<close>

text \<open>
  \<open>for (int i = 0; i < chunk_len && i < NETSUM_MAX_CHUNK_LEN; i++)
     slot->sum[i] += (int32_t)ntohl((uint32_t)values[i]);\<close>
\<close>

function accumulate :: "bytes \<Rightarrow> nat \<Rightarrow> nat \<Rightarrow> nat \<Rightarrow> i32 list \<Rightarrow> i32 list option" where
  "accumulate p vals chunk_len i acc =
     (if i < chunk_len \<and> i < NETSUM_MAX_CHUNK_LEN
      then do {
        v \<leftarrow> ld32 p (vals + 4 * i);
        s \<leftarrow> arr_get acc i;
        acc \<leftarrow> arr_set acc i (s + ntohl v);
        accumulate p vals chunk_len (i + 1) acc }
      else Some acc)"
  by pat_completeness auto
termination
  by (relation "measure (\<lambda>(p, vals, chunk_len, i, acc). chunk_len - i)") auto

declare accumulate.simps [simp del]

section \<open>The loops of xdp_agg.c\<close>

text \<open>
  Both run to the literal bound, break at \<open>chunk_len\<close> and re-check the packet pointer against
  \<open>data_end\<close> before each access, as the verifier demands.
\<close>

function xdp_accumulate :: "bytes \<Rightarrow> nat \<Rightarrow> nat \<Rightarrow> nat \<Rightarrow> i32 list \<Rightarrow> i32 list option" where
  "xdp_accumulate p vals chunk_len i acc =
     (if i < NETSUM_MAX_CHUNK_LEN
      then if i \<ge> chunk_len then Some acc
      else if vals + 4 * (i + 1) > length p then Some acc
      else do {
        v \<leftarrow> ld32 p (vals + 4 * i);
        s \<leftarrow> arr_get acc i;
        acc \<leftarrow> arr_set acc i (s + netsum_bpf_ntohl v);
        xdp_accumulate p vals chunk_len (i + 1) acc }
      else Some acc)"
  by pat_completeness auto
termination
  by (relation "measure (\<lambda>(p, vals, chunk_len, i, acc). NETSUM_MAX_CHUNK_LEN - i)") auto

function xdp_write_back :: "bytes \<Rightarrow> nat \<Rightarrow> nat \<Rightarrow> nat \<Rightarrow> i32 list \<Rightarrow> bytes option" where
  "xdp_write_back p vals final_chunk_len i acc =
     (if i < NETSUM_MAX_CHUNK_LEN
      then if i \<ge> final_chunk_len then Some p
      else if vals + 4 * (i + 1) > length p then Some p
      else do {
        s \<leftarrow> arr_get acc i;
        p \<leftarrow> st32 p (vals + 4 * i) (netsum_bpf_htonl s);
        xdp_write_back p vals final_chunk_len (i + 1) acc }
      else Some p)"
  by pat_completeness auto
termination
  by (relation "measure (\<lambda>(p, vals, n, i, acc). NETSUM_MAX_CHUNK_LEN - i)") auto

declare xdp_accumulate.simps [simp del] xdp_write_back.simps [simp del]

section \<open>The loops compute the reference\<close>

text \<open>The state of either accumulate loop before iteration \<open>i\<close>.\<close>

lemma add_values_snoc:
  "k < length acc \<Longrightarrow>
     (add_values acc (wire_values p vals k))[k := add_values acc (wire_values p vals k) ! k + wire32 p (vals + 4 * k)]
     = add_values acc (wire_values p vals (Suc k))"
  by (rule nth_equalityI) (auto simp: nth_add_values nth_list_update less_Suc_eq)

lemma map_option_SomeD: "map_option f x = Some y \<Longrightarrow> \<exists>z. x = Some z \<and> f z = y"
  by (cases x) auto

lemma accumulate_from:
  assumes "chunk_len \<le> 64" "vals + 4 * chunk_len \<le> length p" "length acc = 64" "i \<le> chunk_len"
  shows "accumulate p vals chunk_len i (add_values acc (wire_values p vals i)) =
           Some (add_values acc (wire_values p vals chunk_len))"
  using assms(4)
proof (induction i rule: inc_induct)
  case base
  show ?case by (simp add: accumulate.simps)
next
  case (step i)
  obtain v where v: "ld32 p (vals + 4 * i) = Some v" "ntohl v = wire32 p (vals + 4 * i)"
    using map_option_SomeD [OF libc32.load, of "vals + 4 * i" p] step.hyps assms by auto
  show ?case
    using step assms
    by (subst accumulate.simps)
      (simp add: v proto_consts safe_access add_values_snoc [symmetric])
qed

lemma accumulate_eq [safe_access]:
  assumes "chunk_len \<le> 64" "vals + 4 * chunk_len \<le> length p" "length acc = 64"
  shows "accumulate p vals chunk_len 0 acc = Some (add_values acc (wire_values p vals chunk_len))"
  using accumulate_from [OF assms, of 0] by (simp add: wire_values_def)

lemma xdp_accumulate_from:
  assumes "chunk_len \<le> 64" "vals + 4 * chunk_len \<le> length p" "length acc = 64" "i \<le> chunk_len"
  shows "xdp_accumulate p vals chunk_len i (add_values acc (wire_values p vals i)) =
           Some (add_values acc (wire_values p vals chunk_len))"
  using assms(4)
proof (induction i rule: inc_induct)
  case base
  show ?case by (simp add: xdp_accumulate.simps)
next
  case (step i)
  obtain v where v: "ld32 p (vals + 4 * i) = Some v" "netsum_bpf_ntohl v = wire32 p (vals + 4 * i)"
    using map_option_SomeD [OF bpf32.load, of "vals + 4 * i" p] step.hyps assms by auto
  show ?case
    using step assms
    by (subst xdp_accumulate.simps)
      (simp add: v proto_consts safe_access add_values_snoc [symmetric])
qed

lemma xdp_accumulate_eq [safe_access]:
  assumes "chunk_len \<le> 64" "vals + 4 * chunk_len \<le> length p" "length acc = 64"
  shows "xdp_accumulate p vals chunk_len 0 acc = Some (add_values acc (wire_values p vals chunk_len))"
  using xdp_accumulate_from [OF assms, of 0] by (simp add: wire_values_def)

lemma encode_values_snoc: "encode_values (vs @ [v]) = encode_values vs @ be32_bytes v"
  by (simp add: encode_values_def)

lemma xdp_write_back_from:
  assumes "n \<le> 64" "vals + 4 * n \<le> length p" "length acc = 64" "i \<le> n"
  shows "xdp_write_back (patch p vals (encode_values (take i acc))) vals n i acc =
           Some (patch p vals (encode_values (take n acc)))"
  using assms(4)
proof (induction i rule: inc_induct)
  case base
  show ?case by (simp add: xdp_write_back.simps)
next
  case (step i)
  have "patch (patch p vals (encode_values (take i acc))) (vals + 4 * i) (be32_bytes (acc ! i)) =
      patch p vals (encode_values (take (Suc i) acc))"
    using patch_append [of vals "encode_values (take i acc)" "be32_bytes (acc ! i)" p] step.hyps assms
    by (simp add: take_Suc_conv_app_nth encode_values_snoc)
  with step assms show ?case
    by (subst xdp_write_back.simps) (simp add: proto_consts safe_access)
qed

lemma xdp_write_back_eq [safe_access]:
  assumes "n \<le> 64" "vals + 4 * n \<le> length p" "length acc = 64"
  shows "xdp_write_back p vals n 0 acc = Some (patch p vals (encode_values (take n acc)))"
  using xdp_write_back_from [OF assms, of 0] by simp

end
