(* ===== verification/Slot_Table.thy ===== *)
theory Slot_Table
  imports Open_Addressing Packet Worker_Set Accumulate
begin

text \<open>
  What the slot tables of \<open>agg.c\<close> and \<open>paramserver.c\<close> have in common: the FNV-1a slot hash, the
  fields of \<open>slot_t\<close> both declare, and the probe sequence. The table is an array of 65536 entries,
  a function from indices here; \<open>slot_index_bound\<close> shows that no other index is ever formed.
\<close>

definition SLOT_TABLE_CAPACITY :: nat where "SLOT_TABLE_CAPACITY = 65536"

section \<open>slot_key: FNV-1a over the three key fields\<close>

fun fnv1a :: "u64 \<Rightarrow> bytes \<Rightarrow> u64" where
  "fnv1a h [] = h"
| "fnv1a h (b # bs) = fnv1a ((h XOR ucast b) * 1099511628211) bs"

text \<open>The memory image of a \<open>uint32_t\<close> on the little-endian host, which the hash runs over.\<close>

definition mem32 :: "u32 \<Rightarrow> bytes" where
  "mem32 v = [ucast v, ucast (drop_bit 8 v), ucast (drop_bit 16 v), ucast (drop_bit 24 v)]"

definition slot_key :: "grad_slot_key \<Rightarrow> u64" where
  "slot_key k = fnv1a 1469598103934665603 (mem32 (k_job_id k) @ mem32 (k_round k) @ mem32 (k_chunk_id k))"

definition slot_index :: "grad_slot_key \<Rightarrow> nat \<Rightarrow> nat" where
  "slot_index k probe = masked_index SLOT_TABLE_CAPACITY (slot_key k) probe"

lemma capacity_pow2: "SLOT_TABLE_CAPACITY = 2 ^ 16"
  by (simp add: SLOT_TABLE_CAPACITY_def)

lemma slot_index_mod: "slot_index k probe = (unat (slot_key k) + probe) mod SLOT_TABLE_CAPACITY"
  unfolding slot_index_def capacity_pow2 by (rule masked_index_mod) simp

interpretation slots: open_addressing SLOT_TABLE_CAPACITY slot_index
proof
  fix k probe show "slot_index k probe < SLOT_TABLE_CAPACITY"
    by (simp add: slot_index_mod SLOT_TABLE_CAPACITY_def)
next
  fix i k assume "i < SLOT_TABLE_CAPACITY"
  then show "\<exists>n<SLOT_TABLE_CAPACITY. slot_index k n = i"
    unfolding slot_index_def capacity_pow2 by (intro masked_index_onto) simp_all
qed

lemmas slot_index_bound = slots.idx_bound

section \<open>The common part of slot_t\<close>

record slot_base =
  sl_in_use :: bool
  sl_job_id :: u32
  sl_round :: u32
  sl_chunk_id :: u32
  sl_num_workers_expected :: u16
  sl_contributions_received :: u16
  sl_sum :: "i32 list"
  sl_chunk_len :: u16
  sl_seen_worker :: bytes
  sl_first_seen_micros :: int

definition sl_key :: "'a slot_base_scheme \<Rightarrow> grad_slot_key" where
  "sl_key s = \<lparr>k_job_id = sl_job_id s, k_round = sl_round s, k_chunk_id = sl_chunk_id s\<rparr>"

text \<open>
  \<open>s->job_id == job_id && s->round == round && s->chunk_id == chunk_id\<close> is equality of keys.
\<close>

lemma sl_key_eq_iff:
  "sl_key s = k \<longleftrightarrow> sl_job_id s = k_job_id k \<and> sl_round s = k_round k \<and> sl_chunk_id s = k_chunk_id k"
  by (cases k) (simp add: sl_key_def)

lemma sl_key_update [simp]:
  "sl_key (s\<lparr>sl_in_use := u\<rparr>) = sl_key s"
  "sl_key (s\<lparr>sl_num_workers_expected := v\<rparr>) = sl_key s"
  "sl_key (s\<lparr>sl_contributions_received := v\<rparr>) = sl_key s"
  "sl_key (s\<lparr>sl_sum := a\<rparr>) = sl_key s"
  "sl_key (s\<lparr>sl_chunk_len := v\<rparr>) = sl_key s"
  "sl_key (s\<lparr>sl_seen_worker := b\<rparr>) = sl_key s"
  "sl_key (s\<lparr>sl_first_seen_micros := t\<rparr>) = sl_key s"
  by (simp_all add: sl_key_def)

text \<open>The arrays of a slot have their declared sizes.\<close>

definition sl_arrays_ok :: "'a slot_base_scheme \<Rightarrow> bool" where
  "sl_arrays_ok s \<longleftrightarrow> length (sl_sum s) = 64 \<and> length (sl_seen_worker s) = 256"

definition probe_slot :: "(nat \<Rightarrow> 'a slot_base_scheme) \<Rightarrow> grad_slot_key \<Rightarrow> probe_result" where
  "probe_slot g_slots k =
     probe_loop SLOT_TABLE_CAPACITY (slot_index k) (\<lambda>i. sl_in_use (g_slots i)) (\<lambda>i. sl_key (g_slots i) = k) 0"

definition slots_intact :: "(nat \<Rightarrow> 'a slot_base_scheme) \<Rightarrow> bool" where
  "slots_intact g_slots \<longleftrightarrow>
     chains_intact SLOT_TABLE_CAPACITY slot_index (\<lambda>i. sl_in_use (g_slots i)) (\<lambda>i. sl_key (g_slots i))"

lemma probe_slot_Found:
  assumes "probe_slot g k = Found i"
  shows "i < SLOT_TABLE_CAPACITY" "sl_in_use (g i)" "sl_key (g i) = k"
  using slots.found_sound [of k "\<lambda>i. sl_in_use (g i)" "\<lambda>i. sl_key (g i)" i] assms
  by (simp_all add: probe_slot_def)

lemma probe_slot_Free:
  assumes "probe_slot g k = Free i"
  shows "i < SLOT_TABLE_CAPACITY" "\<not> sl_in_use (g i)"
  using slots.free_sound [of k "\<lambda>i. sl_in_use (g i)" "\<lambda>i. sl_key (g i)" i] assms
  by (simp_all add: probe_slot_def)

lemma probe_slot_full:
  assumes "probe_slot g k = Table_full" "i < SLOT_TABLE_CAPACITY"
  shows "sl_in_use (g i)" "sl_key (g i) \<noteq> k"
  using slots.full_sound [of k "\<lambda>i. sl_in_use (g i)" "\<lambda>i. sl_key (g i)" i] assms
  by (simp_all add: probe_slot_def)

lemma probe_slot_complete:
  "slots_intact g \<Longrightarrow> i < SLOT_TABLE_CAPACITY \<Longrightarrow> sl_in_use (g i) \<Longrightarrow> sl_key (g i) = k \<Longrightarrow>
     probe_slot g k = Found i"
  unfolding probe_slot_def slots_intact_def by (rule slots.found_complete)

lemma probe_slot_again:
  assumes "probe_slot g k \<in> {Free i, Found i}" "sl_in_use s" "sl_key s = k"
  shows "probe_slot (g(i := s)) k = Found i"
  unfolding probe_slot_def
  by (rule slots.walk_again [OF assms(1) [unfolded probe_slot_def]]) (use assms(2,3) in simp_all)

lemma slots_intact_create:
  assumes "slots_intact g" "probe_slot g k = Free i" "sl_in_use s" "sl_key s = k"
  shows "slots_intact (g(i := s))"
  unfolding slots_intact_def
  by (rule slots.create_intact [OF assms(1) [unfolded slots_intact_def] assms(2) [unfolded probe_slot_def]])
    (use assms(3,4) in simp_all)

lemma slots_intact_update:
  assumes "slots_intact g" "sl_in_use s = sl_in_use (g i)" "sl_key s = sl_key (g i)"
  shows "slots_intact (g(i := s))"
proof -
  have "(\<lambda>j. sl_in_use ((g(i := s)) j)) = (\<lambda>j. sl_in_use (g j))"
    "(\<lambda>j. sl_key ((g(i := s)) j)) = (\<lambda>j. sl_key (g j))"
    using assms(2,3) by auto
  with assms(1) show ?thesis by (simp add: slots_intact_def)
qed

lemma slots_intact_empty: "\<forall>i. \<not> sl_in_use (g i) \<Longrightarrow> slots_intact g"
  by (simp add: slots_intact_def chains_intact_def)

text \<open>The map a table with intact chains stands for.\<close>

definition slot_map_of :: "(nat \<Rightarrow> 'a slot_base_scheme) \<Rightarrow> (grad_slot_key \<rightharpoonup> 'a slot_base_scheme)" where
  "slot_map_of g k = (case probe_slot g k of Found i \<Rightarrow> Some (g i) | _ \<Rightarrow> None)"

lemma slot_map_of_SomeI:
  "slots_intact g \<Longrightarrow> i < SLOT_TABLE_CAPACITY \<Longrightarrow> sl_in_use (g i) \<Longrightarrow> sl_key (g i) = k \<Longrightarrow>
     slot_map_of g k = Some (g i)"
  by (simp add: slot_map_of_def probe_slot_complete)

lemma slot_map_of_eq_Some:
  assumes "slots_intact g"
  shows "slot_map_of g k = Some s \<longleftrightarrow> (\<exists>i<SLOT_TABLE_CAPACITY. sl_in_use (g i) \<and> sl_key (g i) = k \<and> s = g i)"
proof
  assume "slot_map_of g k = Some s"
  then show "\<exists>i<SLOT_TABLE_CAPACITY. sl_in_use (g i) \<and> sl_key (g i) = k \<and> s = g i"
    by (auto simp: slot_map_of_def split: probe_result.splits dest: probe_slot_Found)
next
  assume "\<exists>i<SLOT_TABLE_CAPACITY. sl_in_use (g i) \<and> sl_key (g i) = k \<and> s = g i"
  then show "slot_map_of g k = Some s" using slot_map_of_SomeI [OF assms] by blast
qed

lemma slot_map_of_eq_None:
  assumes "slots_intact g"
  shows "slot_map_of g k = None \<longleftrightarrow> (\<forall>i<SLOT_TABLE_CAPACITY. sl_in_use (g i) \<longrightarrow> sl_key (g i) \<noteq> k)"
  using slot_map_of_eq_Some [OF assms, of k] by (cases "slot_map_of g k") auto

text \<open>Writing the entry of a key, be it the one found or a new one, updates the map at that key only.\<close>

lemma slot_map_of_write:
  assumes g: "slots_intact g" and p: "probe_slot g k = Found i \<or> probe_slot g k = Free i"
    and s: "sl_in_use s" "sl_key s = k"
  shows "slots_intact (g(i := s))" "slot_map_of (g(i := s)) = (slot_map_of g)(k \<mapsto> s)"
proof -
  have i: "i < SLOT_TABLE_CAPACITY" using p probe_slot_Found probe_slot_Free by auto
  show int: "slots_intact (g(i := s))"
    using p
  proof
    assume f: "probe_slot g k = Found i"
    show ?thesis using probe_slot_Found [OF f] s by (intro slots_intact_update [OF g]) simp_all
  next
    assume "probe_slot g k = Free i"
    then show ?thesis using s by (rule slots_intact_create [OF g])
  qed
  show "slot_map_of (g(i := s)) = (slot_map_of g)(k \<mapsto> s)"
  proof
    fix k'
    show "slot_map_of (g(i := s)) k' = ((slot_map_of g)(k \<mapsto> s)) k'"
    proof (cases "k' = k")
      case True
      then show ?thesis using slot_map_of_SomeI [OF int i, of k] s by simp
    next
      case False
      have "sl_in_use (g i) \<Longrightarrow> sl_key (g i) \<noteq> k'"
        using p False probe_slot_Found [of g k i] probe_slot_Free [of g k i] by auto
      then have "sl_in_use ((g(i := s)) j) \<and> sl_key ((g(i := s)) j) = k' \<and> t = (g(i := s)) j \<longleftrightarrow>
          sl_in_use (g j) \<and> sl_key (g j) = k' \<and> t = g j" for j t
        using s False by (cases "j = i") auto
      then have "slot_map_of (g(i := s)) k' = Some t \<longleftrightarrow> slot_map_of g k' = Some t" for t
        unfolding slot_map_of_eq_Some [OF int] slot_map_of_eq_Some [OF g] by simp
      then show ?thesis using False by (metis fun_upd_other option.exhaust)
    qed
  qed
qed


text \<open>A lookup finds the table full only when 65536 other keys are in it.\<close>

lemma slot_map_of_full:
  assumes g: "slots_intact g" and f: "probe_slot g k = Table_full"
  shows "card (dom (slot_map_of g)) = SLOT_TABLE_CAPACITY" "slot_map_of g k = None"
    "finite (dom (slot_map_of g))"
proof -
  let ?I = "{..<SLOT_TABLE_CAPACITY}" and ?key = "\<lambda>i. sl_key (g i)"
  have used: "sl_in_use (g i)" if "i \<in> ?I" for i using probe_slot_full(1) [OF f] that by simp
  have dom: "dom (slot_map_of g) = ?key ` ?I"
    using used by (auto simp: dom_def slot_map_of_eq_Some [OF g])
  have "inj_on ?key ?I"
    using slots.key_unique [OF g [unfolded slots_intact_def]] used by (auto intro!: inj_onI)
  then show "card (dom (slot_map_of g)) = SLOT_TABLE_CAPACITY" unfolding dom by (simp add: card_image)
  show "finite (dom (slot_map_of g))" unfolding dom by simp
  show "slot_map_of g k = None" using f by (simp add: slot_map_of_def)
qed

section \<open>The first two probes\<close>

lemma slot_index_next: "slot_index k 1 \<noteq> slot_index k 0"
  by (simp add: slot_index_mod SLOT_TABLE_CAPACITY_def mod_Suc)

lemma probe_home_free: "\<not> sl_in_use (g (slot_index k 0)) \<Longrightarrow> probe_slot g k = Free (slot_index k 0)"
  unfolding probe_slot_def by (subst probe_loop.simps) (simp add: SLOT_TABLE_CAPACITY_def)

lemma probe_home_found:
  "sl_in_use (g (slot_index k 0)) \<Longrightarrow> sl_key (g (slot_index k 0)) = k \<Longrightarrow> probe_slot g k = Found (slot_index k 0)"
  unfolding probe_slot_def by (subst probe_loop.simps) (simp add: SLOT_TABLE_CAPACITY_def)

lemma probe_next_free:
  "sl_in_use (g (slot_index k 0)) \<Longrightarrow> sl_key (g (slot_index k 0)) \<noteq> k \<Longrightarrow> \<not> sl_in_use (g (slot_index k 1)) \<Longrightarrow>
     probe_slot g k = Free (slot_index k 1)"
  unfolding probe_slot_def
  by (subst probe_loop.simps, subst probe_loop.simps) (simp add: SLOT_TABLE_CAPACITY_def)

end
