(* ===== verification/Job_Table.thy ===== *)
theory Job_Table
  imports Open_Addressing
begin

text \<open>
  The job table of \<open>agg.c\<close>: per-job counters for the fairness quota, found by open addressing over
  256 entries. Entries are created on first use and never removed, so the chains of this table stay
  intact and it is a map from job ids to counters; a job that does not fit any more is not tracked.
\<close>

definition JOB_TABLE_CAPACITY :: nat where "JOB_TABLE_CAPACITY = 256"

record job_entry =
  je_in_use :: bool
  je_job_id :: u32
  je_concurrent_slots :: u32
  je_admitted_count :: u32
  je_rejected_count :: u32

definition zero_job :: job_entry where
  "zero_job = \<lparr>je_in_use = False, je_job_id = 0, je_concurrent_slots = 0, je_admitted_count = 0, je_rejected_count = 0\<rparr>"

definition job_hash :: "u32 \<Rightarrow> u32" where
  "job_hash job_id = (
     let h = job_id;
         h = h XOR drop_bit 16 h; h = h * 0x85ebca6b;
         h = h XOR drop_bit 13 h; h = h * 0xc2b2ae35;
         h = h XOR drop_bit 16 h
     in h)"

definition job_index :: "u32 \<Rightarrow> nat \<Rightarrow> nat" where
  "job_index job_id probe = masked_index JOB_TABLE_CAPACITY (ucast (job_hash job_id)) probe"

definition probe_job :: "(nat \<Rightarrow> job_entry) \<Rightarrow> u32 \<Rightarrow> probe_result" where
  "probe_job g_jobs job =
     probe_loop JOB_TABLE_CAPACITY (job_index job) (\<lambda>i. je_in_use (g_jobs i)) (\<lambda>i. je_job_id (g_jobs i) = job) 0"

text \<open>The entry (\<open>NULL\<close> is \<open>None\<close>) and the table afterwards.\<close>

definition find_or_create_job :: "(nat \<Rightarrow> job_entry) \<Rightarrow> u32 \<Rightarrow> nat option \<times> (nat \<Rightarrow> job_entry)" where
  "find_or_create_job g_jobs job =
     (case probe_job g_jobs job of
        Free i \<Rightarrow> (Some i, g_jobs(i := \<lparr>je_in_use = True, je_job_id = job, je_concurrent_slots = 0,
                      je_admitted_count = 0, je_rejected_count = 0\<rparr>))
      | Found i \<Rightarrow> (Some i, g_jobs)
      | Table_full \<Rightarrow> (None, g_jobs))"

section \<open>Always intact\<close>

lemma job_capacity_pow2: "JOB_TABLE_CAPACITY = 2 ^ 8"
  by (simp add: JOB_TABLE_CAPACITY_def)

interpretation jobs: open_addressing JOB_TABLE_CAPACITY job_index
proof
  fix k probe show "job_index k probe < JOB_TABLE_CAPACITY"
    unfolding job_index_def job_capacity_pow2 by (subst masked_index_mod) simp_all
next
  fix i k assume "i < JOB_TABLE_CAPACITY"
  then show "\<exists>n<JOB_TABLE_CAPACITY. job_index k n = i"
    unfolding job_index_def job_capacity_pow2 by (intro masked_index_onto) simp_all
qed

definition jobs_intact :: "(nat \<Rightarrow> job_entry) \<Rightarrow> bool" where
  "jobs_intact g \<longleftrightarrow> chains_intact JOB_TABLE_CAPACITY job_index (\<lambda>i. je_in_use (g i)) (\<lambda>i. je_job_id (g i))"

lemma jobs_intact_zero: "jobs_intact (\<lambda>_. zero_job)"
  by (simp add: jobs_intact_def chains_intact_def zero_job_def)

text \<open>The counters of a job, if it has an entry.\<close>

definition job_map_of :: "(nat \<Rightarrow> job_entry) \<Rightarrow> u32 \<rightharpoonup> job_entry" where
  "job_map_of g job = (case probe_job g job of Found i \<Rightarrow> Some (g i) | _ \<Rightarrow> None)"

definition jobs_full :: "(nat \<Rightarrow> job_entry) \<Rightarrow> bool" where
  "jobs_full g \<longleftrightarrow> (\<forall>i<JOB_TABLE_CAPACITY. je_in_use (g i))"

lemma probe_job_Found:
  assumes "probe_job g job = Found i"
  shows "i < JOB_TABLE_CAPACITY" "je_in_use (g i)" "je_job_id (g i) = job"
  using jobs.found_sound [of job "\<lambda>i. je_in_use (g i)" "\<lambda>i. je_job_id (g i)" i] assms
  by (simp_all add: probe_job_def)

lemma probe_job_Free:
  assumes "probe_job g job = Free i"
  shows "i < JOB_TABLE_CAPACITY" "\<not> je_in_use (g i)"
  using jobs.free_sound [of job "\<lambda>i. je_in_use (g i)" "\<lambda>i. je_job_id (g i)" i] assms
  by (simp_all add: probe_job_def)

lemma probe_job_full: "probe_job g job = Table_full \<Longrightarrow> jobs_full g"
  using jobs.full_sound(1) [of job "\<lambda>i. je_in_use (g i)" "\<lambda>i. je_job_id (g i)"]
  by (simp add: probe_job_def jobs_full_def)

lemma probe_job_complete:
  "jobs_intact g \<Longrightarrow> i < JOB_TABLE_CAPACITY \<Longrightarrow> je_in_use (g i) \<Longrightarrow> je_job_id (g i) = job \<Longrightarrow>
     probe_job g job = Found i"
  unfolding probe_job_def jobs_intact_def by (rule jobs.found_complete)

lemma job_map_of_eq_Some:
  assumes "jobs_intact g"
  shows "job_map_of g job = Some e \<longleftrightarrow>
    (\<exists>i<JOB_TABLE_CAPACITY. je_in_use (g i) \<and> je_job_id (g i) = job \<and> e = g i)"
proof
  assume "job_map_of g job = Some e"
  then show "\<exists>i<JOB_TABLE_CAPACITY. je_in_use (g i) \<and> je_job_id (g i) = job \<and> e = g i"
    by (auto simp: job_map_of_def split: probe_result.splits dest: probe_job_Found)
next
  assume "\<exists>i<JOB_TABLE_CAPACITY. je_in_use (g i) \<and> je_job_id (g i) = job \<and> e = g i"
  then show "job_map_of g job = Some e" using probe_job_complete [OF assms] by (auto simp: job_map_of_def)
qed

text \<open>Writing the entry of a job, found or new, updates the map at that job only.\<close>

lemma job_map_of_write:
  assumes g: "jobs_intact g" and p: "probe_job g job = Found i \<or> probe_job g job = Free i"
    and e: "je_in_use e" "je_job_id e = job"
  shows "jobs_intact (g(i := e))" "job_map_of (g(i := e)) = (job_map_of g)(job \<mapsto> e)"
proof -
  have i: "i < JOB_TABLE_CAPACITY" using p probe_job_Found probe_job_Free by blast
  show int: "jobs_intact (g(i := e))"
    using p
  proof
    assume f: "probe_job g job = Found i"
    then have "(\<lambda>j. je_in_use ((g(i := e)) j)) = (\<lambda>j. je_in_use (g j))"
      "(\<lambda>j. je_job_id ((g(i := e)) j)) = (\<lambda>j. je_job_id (g j))"
      using e probe_job_Found [OF f] by auto
    with g show ?thesis by (simp add: jobs_intact_def)
  next
    assume "probe_job g job = Free i"
    then show ?thesis
      unfolding jobs_intact_def
      by (intro jobs.create_intact [OF g [unfolded jobs_intact_def], of job i])
        (use e in \<open>simp_all add: probe_job_def\<close>)
  qed
  show "job_map_of (g(i := e)) = (job_map_of g)(job \<mapsto> e)"
  proof
    fix job'
    show "job_map_of (g(i := e)) job' = ((job_map_of g)(job \<mapsto> e)) job'"
    proof (cases "job' = job")
      case True
      have "job_map_of (g(i := e)) job = Some e"
        unfolding job_map_of_eq_Some [OF int] using i e by (intro exI [of _ i]) simp
      with True show ?thesis by simp
    next
      case False
      have "je_in_use (g i) \<Longrightarrow> je_job_id (g i) \<noteq> job'"
        using p False probe_job_Found [of g job i] probe_job_Free [of g job i] by auto
      then have "je_in_use ((g(i := e)) j) \<and> je_job_id ((g(i := e)) j) = job' \<and> t = (g(i := e)) j \<longleftrightarrow>
          je_in_use (g j) \<and> je_job_id (g j) = job' \<and> t = g j" for j t
        using e False by (cases "j = i") auto
      then have "job_map_of (g(i := e)) job' = Some t \<longleftrightarrow> job_map_of g job' = Some t" for t
        unfolding job_map_of_eq_Some [OF int] job_map_of_eq_Some [OF g] by simp
      then show ?thesis using False by (metis fun_upd_other option.exhaust)
    qed
  qed
qed

lemma find_or_create_job_cases:
  assumes g: "jobs_intact g"
  obtains (found) i e where "find_or_create_job g job = (Some i, g)" "probe_job g job = Found i" "g i = e"
      "job_map_of g job = Some e" "je_job_id e = job" "je_in_use e"
    | (fresh) i e where "find_or_create_job g job = (Some i, g(i := e))" "probe_job g job = Free i"
      "job_map_of g job = None" "e = zero_job\<lparr>je_in_use := True, je_job_id := job\<rparr>"
    | (full) "find_or_create_job g job = (None, g)" "job_map_of g job = None" "jobs_full g"
proof (cases "probe_job g job")
  case (Found i)
  then show ?thesis using probe_job_Found [OF Found]
    by (intro found [of i "g i"]) (simp_all add: find_or_create_job_def job_map_of_def)
next
  case (Free i)
  then show ?thesis
    by (intro fresh [of i]) (simp_all add: find_or_create_job_def job_map_of_def zero_job_def)
next
  case Table_full
  then show ?thesis using probe_job_full [OF Table_full]
    by (intro full) (simp_all add: find_or_create_job_def job_map_of_def)
qed

lemma jobs_full_not_free: "jobs_full g \<Longrightarrow> probe_job g job \<noteq> Free i"
  using probe_job_Free [of g job i] by (auto simp: jobs_full_def)

lemma find_or_create_job_Some:
  assumes g: "jobs_intact g" and f: "find_or_create_job g job = (Some j, g1)"
  shows "jobs_intact g1" "probe_job g1 job = Found j" "je_in_use (g1 j)" "je_job_id (g1 j) = job"
    "job_map_of g1 = (job_map_of g)(job \<mapsto> g1 j)" "jobs_full g \<Longrightarrow> jobs_full g1"
    "job_map_of g job = Some (g1 j) \<or> job_map_of g job = None \<and> \<not> jobs_full g \<and> je_concurrent_slots (g1 j) = 0"
proof -
  have "jobs_intact g1 \<and> probe_job g1 job = Found j \<and> je_in_use (g1 j) \<and> je_job_id (g1 j) = job \<and>
    job_map_of g1 = (job_map_of g)(job \<mapsto> g1 j) \<and> (jobs_full g \<longrightarrow> jobs_full g1) \<and>
    (job_map_of g job = Some (g1 j) \<or> job_map_of g job = None \<and> \<not> jobs_full g \<and> je_concurrent_slots (g1 j) = 0)"
  proof (cases rule: find_or_create_job_cases [OF g, of job, case_names found fresh full])
    case (found i e)
    then show ?thesis using f g by (simp add: fun_upd_idem)
  next
    case (fresh i e)
    have j: "j = i" "g1 = g(i := e)" using f fresh(1) by auto
    have e: "je_in_use e" "je_job_id e = job" "je_concurrent_slots e = 0" using fresh(4) by (simp_all add: zero_job_def)
    have w: "jobs_intact g1" "job_map_of g1 = (job_map_of g)(job \<mapsto> e)"
      using job_map_of_write [OF g _ e(1,2), of i] fresh(2) j by simp_all
    have "probe_job g1 job = Found i"
      using probe_job_complete [OF w(1), of i job] probe_job_Free [OF fresh(2)] e j by simp
    moreover have "\<not> jobs_full g" using jobs_full_not_free fresh(2) by blast
    ultimately show ?thesis using w e j fresh(3) by simp
  next
    case full
    then show ?thesis using f by simp
  qed
  then show "jobs_intact g1" "probe_job g1 job = Found j" "je_in_use (g1 j)" "je_job_id (g1 j) = job"
    "job_map_of g1 = (job_map_of g)(job \<mapsto> g1 j)" "jobs_full g \<Longrightarrow> jobs_full g1"
    "job_map_of g job = Some (g1 j) \<or> job_map_of g job = None \<and> \<not> jobs_full g \<and> je_concurrent_slots (g1 j) = 0"
    by simp_all
qed

lemma find_or_create_job_None:
  assumes "jobs_intact g" "find_or_create_job g job = (None, g1)"
  shows "g1 = g" "job_map_of g job = None" "jobs_full g"
  using assms by (cases rule: find_or_create_job_cases [OF assms(1), of job]; simp)+

lemma jobs_full_write: "jobs_full g \<Longrightarrow> je_in_use e \<Longrightarrow> jobs_full (g(i := e))"
  by (simp add: jobs_full_def)

end
