(* ===== verification/Contribution.thy ===== *)
theory Contribution
  imports Accumulate
begin

text \<open>
  The specification side of aggregation: what has been contributed to a slot, as the list of the
  accepted contributions (worker and values) in the order they arrived. A worker's second
  contribution does not count. The sum a slot must hold is the component-wise sum of its log.
\<close>

type_synonym contribution = "nat \<times> i32 list"

definition log_add :: "contribution list \<Rightarrow> contribution \<Rightarrow> contribution list" where
  "log_add L c = (if fst c \<in> fst ` set L then L else L @ [c])"

definition log_sum :: "contribution list \<Rightarrow> i32 list" where
  "log_sum L = foldl add_values (replicate 64 0) (map snd L)"

lemma log_sum_simps [simp]:
  "log_sum [] = replicate 64 0"
  "log_sum (L @ [c]) = add_values (log_sum L) (snd c)"
  by (simp_all add: log_sum_def)

lemma length_log_sum [simp]: "length (log_sum L) = 64"
  by (induction L rule: rev_induct) simp_all

lemma log_add_dup: "fst c \<in> fst ` set L \<Longrightarrow> log_add L c = L"
  by (simp add: log_add_def)

lemma log_add_new: "fst c \<notin> fst ` set L \<Longrightarrow> log_add L c = L @ [c]"
  by (simp add: log_add_def)

lemma log_add_nonempty [simp]: "log_add L c \<noteq> []"
  by (auto simp: log_add_def)

lemma distinct_log_add: "distinct (map fst L) \<Longrightarrow> distinct (map fst (log_add L c))"
  by (auto simp: log_add_def)

lemma set_log_add: "set (map fst (log_add L c)) = insert (fst c) (set (map fst L))"
  by (auto simp: log_add_def)

text \<open>A sequence of contributions: of each worker the first one counts.\<close>

definition log_adds :: "contribution list \<Rightarrow> contribution list \<Rightarrow> contribution list" where
  "log_adds L cs = foldl log_add L cs"

lemma log_adds_simps [simp]:
  "log_adds L [] = L"
  "log_adds L (c # cs) = log_adds (log_add L c) cs"
  "log_adds L (cs @ cs') = log_adds (log_adds L cs) cs'"
  by (simp_all add: log_adds_def)

lemma log_adds_length: "length L \<le> length (log_adds L cs)"
proof (induction cs arbitrary: L)
  case (Cons c cs)
  have "length L \<le> length (log_add L c)" by (simp add: log_add_def)
  with Cons [of "log_add L c"] show ?case by simp
qed simp

lemma set_log_adds: "set (map fst (log_adds L cs)) = set (map fst L) \<union> fst ` set cs"
  by (induction cs arbitrary: L) (simp_all only: log_adds_simps set_log_add, auto)

lemma distinct_log_adds: "distinct (map fst L) \<Longrightarrow> distinct (map fst (log_adds L cs))"
  by (induction cs arbitrary: L) (simp_all add: distinct_log_add)

lemma log_adds_size: "length (log_adds [] cs) = card (fst ` set cs)"
  using distinct_card [OF distinct_log_adds [of "[]" cs]] set_log_adds [of "[]" cs] by simp

lemma log_adds_distinct: "distinct (map fst (L @ cs)) \<Longrightarrow> log_adds L cs = L @ cs"
proof (induction cs arbitrary: L)
  case (Cons c cs)
  then have "log_add L c = L @ [c]" by (auto intro: log_add_new)
  with Cons show ?case by simp
qed simp

text \<open>
  The first \<open>n\<close> components of the sum of contributions of length \<open>n\<close> are their column sums: the
  total does not depend on the order of arrival.
\<close>

lemma log_sum_column:
  assumes "\<forall>c\<in>set L. length (snd c) = n" "n \<le> 64"
  shows "take n (log_sum L) = column_sum n (mset (map snd L))"
  using assms(1)
proof (induction L rule: rev_induct)
  case Nil
  then show ?case using assms(2) by (simp add: column_sum_empty min_def)
next
  case (snoc c L)
  then have "take n (log_sum L) = column_sum n (mset (map snd L))" by simp
  with snoc.prems assms(2) show ?case by (simp add: take_add_values column_sum_add)
qed

text \<open>The contribution a gradient packet carries.\<close>

definition contribution_of :: "bytes \<Rightarrow> contribution" where
  "contribution_of d = (unat (gh_worker_id (wire_hdr d 0)), wire_values d 20 (unat (gh_chunk_len (wire_hdr d 0))))"

section \<open>What counts among packets\<close>

text \<open>Of the packets selected by \<open>P\<close>: the workers they come from, and the contributions that count.\<close>

definition workers_among :: "(bytes \<Rightarrow> bool) \<Rightarrow> (bytes \<Rightarrow> grad_hdr) \<Rightarrow> bytes list \<Rightarrow> u16 set" where
  "workers_among P hdr ps = (\<lambda>p. gh_worker_id (hdr p)) ` {p \<in> set ps. P p}"

definition counted_among ::
    "(bytes \<Rightarrow> bool) \<Rightarrow> (bytes \<Rightarrow> contribution) \<Rightarrow> contribution list \<Rightarrow> bytes list \<Rightarrow> contribution list" where
  "counted_among P contrib L ps = log_adds L (map contrib (filter P ps))"

lemma counted_among_simps [simp]:
  "counted_among P contrib L [] = L"
  "P p \<Longrightarrow> counted_among P contrib L (p # ps) = counted_among P contrib (log_add L (contrib p)) ps"
  "\<not> P p \<Longrightarrow> counted_among P contrib L (p # ps) = counted_among P contrib L ps"
  by (simp_all add: counted_among_def)

lemma counted_among_snoc:
  "P p \<Longrightarrow> counted_among P contrib L (ps @ [p]) = log_add (counted_among P contrib L ps) (contrib p)"
  by (simp add: counted_among_def)

lemma counted_among_length: "length L \<le> length (counted_among P contrib L ps)"
  unfolding counted_among_def by (rule log_adds_length)

locale packet_log =
  fixes hdr :: "bytes \<Rightarrow> grad_hdr" and contrib :: "bytes \<Rightarrow> contribution"
  assumes contrib_worker: "fst (contrib p) = unat (gh_worker_id (hdr p))"
begin

lemma contributions_workers: "fst ` set (map contrib (filter P ps)) = unat ` workers_among P hdr ps"
  by (simp add: workers_among_def contrib_worker image_image)

lemma counted_workers: "fst ` set (counted_among P contrib [] ps) = unat ` workers_among P hdr ps"
  using set_log_adds [of "[]" "map contrib (filter P ps)"] contributions_workers [of P ps] by (simp add: counted_among_def)

lemma counted_size: "length (counted_among P contrib [] ps) = card (workers_among P hdr ps)"
  unfolding counted_among_def log_adds_size contributions_workers by (intro card_image inj_onI) (simp add: word_unat_eq_iff)

text \<open>A packet from a worker that has not been counted yet.\<close>

lemma counted_new:
  assumes "gh_worker_id (hdr p) \<notin> workers_among P hdr ps"
  shows "fst (contrib p) \<notin> fst ` set (counted_among P contrib [] ps)"
    "P p \<Longrightarrow> counted_among P contrib [] (ps @ [p]) = counted_among P contrib [] ps @ [contrib p]"
proof -
  show new: "fst (contrib p) \<notin> fst ` set (counted_among P contrib [] ps)"
    using assms unfolding counted_workers contrib_worker by (auto simp: word_unat_eq_iff [symmetric])
  show "P p \<Longrightarrow> counted_among P contrib [] (ps @ [p]) = counted_among P contrib [] ps @ [contrib p]"
    using log_add_new [OF new] by (simp add: counted_among_snoc)
qed

end

interpretation wire_log: packet_log "\<lambda>d. wire_hdr d 0" contribution_of
  by unfold_locales (simp add: contribution_of_def)

end
