(* ===== verification/Agg.thy ===== *)
theory Agg
  imports Slot_Table Job_Table Contribution
begin

text \<open>
  The userspace aggregator (\<open>userspace_agg/agg.c\<close>): slot and job tables with the fairness quota, the
  TTL reaper, the statistics dump and the receive loop of \<open>main\<close>. An iteration takes what the
  kernel provides as input (the datagram or error of \<open>recvfrom\<close>, the clock readings it can make, whether
  \<open>sendto\<close> succeeds, whether \<open>SIGUSR1\<close> arrives) and yields the datagrams sent and the lines logged as
  events. The buffers \<open>in_packet\<close> and \<open>out_packet\<close> are part of the state, as the code never clears them.
\<close>

section \<open>State\<close>

record agg_slot = slot_base +
  sl_last_touched_micros :: int

definition zero_agg_slot :: agg_slot where
  "zero_agg_slot = \<lparr>sl_in_use = False, sl_job_id = 0, sl_round = 0, sl_chunk_id = 0,
     sl_num_workers_expected = 0, sl_contributions_received = 0, sl_sum = replicate 64 0,
     sl_chunk_len = 0, sl_seen_worker = replicate 256 0, sl_first_seen_micros = 0,
     sl_last_touched_micros = 0\<rparr>"

text \<open>The command line: \<open>g_job_quota\<close>, \<open>slot_ttl_ms\<close> and \<open>max_packets\<close>.\<close>

record agg_config =
  ac_max_packets :: int
  ac_job_quota :: int
  ac_slot_ttl_ms :: int

record agg_state =
  ag_slots :: "nat \<Rightarrow> agg_slot"
  ag_jobs :: "nat \<Rightarrow> job_entry"
  ag_dump_stats_requested :: bool
  ag_in_packet :: bytes
  ag_out_packet :: bytes
  ag_packets_in :: int
  ag_packets_out :: int
  ag_last_reap_micros :: int

record agg_input =
  ai_recv :: recv
  ai_sigusr1 :: bool \<comment> \<open>delivered while the iteration waits in \<open>recvfrom\<close>\<close>
  ai_now_loop :: int
  ai_now_reap :: int
  ai_now_first :: int
  ai_now_touched :: int
  ai_now_completed :: int
  ai_sendto_ok :: bool

datatype agg_event =
    Ag_reaped u32 u32 u32 int
  | Ag_stats u32 u32 u32 u32
  | Ag_admission_reject u32 u32 u32
  | Ag_mismatch u32 u32 u32 u16 u16 u16
  | Ag_dup u32 u32 u32 u16
  | Ag_complete u32 u32 u32 u16 i32 int
  | Ag_send bytes bool \<comment> \<open>the datagram, and whether \<open>sendto\<close> succeeded\<close>

definition agg_init :: "bytes \<Rightarrow> bytes \<Rightarrow> int \<Rightarrow> agg_state" where
  "agg_init in_packet out_packet now = \<lparr>ag_slots = (\<lambda>_. zero_agg_slot), ag_jobs = (\<lambda>_. zero_job),
     ag_dump_stats_requested = False, ag_in_packet = in_packet, ag_out_packet = out_packet,
     ag_packets_in = 0, ag_packets_out = 0, ag_last_reap_micros = now\<rparr>"

section \<open>Tables\<close>

text \<open>\<open>NULL\<close> is \<open>None\<close>. The job's counters change on both outcomes of the admission check.\<close>

definition find_or_create_slot ::
    "int \<Rightarrow> (nat \<Rightarrow> agg_slot) \<Rightarrow> (nat \<Rightarrow> job_entry) \<Rightarrow> grad_slot_key \<Rightarrow>
      nat option \<times> (nat \<Rightarrow> agg_slot) \<times> (nat \<Rightarrow> job_entry)" where
  "find_or_create_slot g_job_quota g_slots g_jobs k =
     (case probe_slot g_slots k of
        Free i \<Rightarrow>
          let (job, g_jobs) = find_or_create_job g_jobs (k_job_id k);
              new_slots = g_slots(i := zero_agg_slot\<lparr>sl_in_use := True, sl_job_id := k_job_id k,
                 sl_round := k_round k, sl_chunk_id := k_chunk_id k\<rparr>)
          in (case job of
                None \<Rightarrow> (Some i, new_slots, g_jobs)
              | Some j \<Rightarrow>
                  if g_job_quota > 0 \<and> je_concurrent_slots (g_jobs j) \<ge> word_of_int g_job_quota
                  then (None, g_slots, g_jobs(j := (g_jobs j)\<lparr>je_rejected_count := je_rejected_count (g_jobs j) + 1\<rparr>))
                  else (Some i, new_slots, g_jobs(j := (g_jobs j)
                    \<lparr>je_concurrent_slots := je_concurrent_slots (g_jobs j) + 1,
                     je_admitted_count := je_admitted_count (g_jobs j) + 1\<rparr>)))
      | Found i \<Rightarrow> (Some i, g_slots, g_jobs)
      | Table_full \<Rightarrow> (None, g_slots, g_jobs))"

definition free_slot ::
    "nat \<Rightarrow> (nat \<Rightarrow> agg_slot) \<Rightarrow> (nat \<Rightarrow> job_entry) \<Rightarrow> (nat \<Rightarrow> agg_slot) \<times> (nat \<Rightarrow> job_entry)" where
  "free_slot i g_slots g_jobs =
     (let (job, g_jobs) = find_or_create_job g_jobs (sl_job_id (g_slots i));
          g_jobs = (case job of
              None \<Rightarrow> g_jobs
            | Some j \<Rightarrow> if je_concurrent_slots (g_jobs j) > 0
                then g_jobs(j := (g_jobs j)\<lparr>je_concurrent_slots := je_concurrent_slots (g_jobs j) - 1\<rparr>)
                else g_jobs)
      in (g_slots(i := (g_slots i)\<lparr>sl_in_use := False\<rparr>), g_jobs))"

section \<open>The reaper\<close>

text \<open>The scan from entry \<open>i\<close> on.\<close>

function reap_from ::
    "int \<Rightarrow> int \<Rightarrow> nat \<Rightarrow> (nat \<Rightarrow> agg_slot) \<Rightarrow> (nat \<Rightarrow> job_entry) \<Rightarrow>
      (nat \<Rightarrow> agg_slot) \<times> (nat \<Rightarrow> job_entry) \<times> agg_event list" where
  "reap_from now ttl_micros i g_slots g_jobs =
     (if i < SLOT_TABLE_CAPACITY
      then
        let s = g_slots i; age_micros = now - sl_last_touched_micros s
        in if \<not> sl_in_use s then reap_from now ttl_micros (i + 1) g_slots g_jobs
           else if age_micros \<ge> ttl_micros
           then let (g_slots, g_jobs) = free_slot i g_slots g_jobs;
                    (g_slots, g_jobs, evs) = reap_from now ttl_micros (i + 1) g_slots g_jobs
                in (g_slots, g_jobs, Ag_reaped (sl_job_id s) (sl_round s) (sl_chunk_id s) (age_micros div 1000) # evs)
           else reap_from now ttl_micros (i + 1) g_slots g_jobs
      else (g_slots, g_jobs, []))"
  by pat_completeness auto
termination
  by (relation "measure (\<lambda>(now, ttl, i, g, j). SLOT_TABLE_CAPACITY - i)") auto

declare reap_from.simps [simp del]

definition reap_expired_slots ::
    "int \<Rightarrow> int \<Rightarrow> (nat \<Rightarrow> agg_slot) \<Rightarrow> (nat \<Rightarrow> job_entry) \<Rightarrow>
      (nat \<Rightarrow> agg_slot) \<times> (nat \<Rightarrow> job_entry) \<times> agg_event list" where
  "reap_expired_slots now slot_ttl_ms = reap_from now (slot_ttl_ms * 1000) 0"

text \<open>The sweep interval: a quarter of the TTL, at least a millisecond.\<close>

definition reap_interval_micros :: "int \<Rightarrow> int" where
  "reap_interval_micros slot_ttl_ms =
     (if slot_ttl_ms > 0
      then let interval_ms = slot_ttl_ms div 4 in (if interval_ms < 1 then 1 else interval_ms) * 1000
      else 0)"

section \<open>Statistics\<close>

definition handle_sigusr1 :: "agg_state \<Rightarrow> agg_state" where
  "handle_sigusr1 st = st\<lparr>ag_dump_stats_requested := True\<rparr>"

definition dump_job_stats :: "(nat \<Rightarrow> job_entry) \<Rightarrow> agg_event list" where
  "dump_job_stats g_jobs = concat (map (\<lambda>i.
     let j = g_jobs i in
     if \<not> je_in_use j then []
     else [Ag_stats (je_job_id j) (je_concurrent_slots j) (je_admitted_count j) (je_rejected_count j)])
     [0..<JOB_TABLE_CAPACITY])"

section \<open>The loop body\<close>

text \<open>What an iteration does before it receives: the reaper, when due, and the requested dump.\<close>

definition agg_maintenance :: "agg_config \<Rightarrow> agg_input \<Rightarrow> agg_state \<Rightarrow> agg_state \<times> agg_event list" where
  "agg_maintenance cfg inp st =
     (let (st, evs) =
        (if ac_slot_ttl_ms cfg > 0 \<and>
            ai_now_loop inp - ag_last_reap_micros st \<ge> reap_interval_micros (ac_slot_ttl_ms cfg)
         then let (g_slots, g_jobs, evs) =
                    reap_expired_slots (ai_now_reap inp) (ac_slot_ttl_ms cfg) (ag_slots st) (ag_jobs st)
              in (st\<lparr>ag_slots := g_slots, ag_jobs := g_jobs, ag_last_reap_micros := ai_now_loop inp\<rparr>, evs)
         else (st, []))
      in if ag_dump_stats_requested st
         then (st\<lparr>ag_dump_stats_requested := False\<rparr>, evs @ dump_job_stats (ag_jobs st))
         else (st, evs))"

text \<open>\<open>for (int i = 0; i < slot->chunk_len; i++) out_values[i] = htonl((uint32_t)slot->sum[i]);\<close>\<close>

function agg_write_values :: "bytes \<Rightarrow> nat \<Rightarrow> nat \<Rightarrow> nat \<Rightarrow> i32 list \<Rightarrow> bytes option" where
  "agg_write_values p out_values chunk_len i acc =
     (if i < chunk_len
      then do {
        s \<leftarrow> arr_get acc i;
        p \<leftarrow> st32 p (out_values + 4 * i) (htonl s);
        agg_write_values p out_values chunk_len (i + 1) acc }
      else Some p)"
  by pat_completeness auto
termination
  by (relation "measure (\<lambda>(p, out_values, chunk_len, i, acc). chunk_len - i)") auto

declare agg_write_values.simps [simp del]

text \<open>The last contribution has arrived: log, emit one packet, free the slot.\<close>

definition agg_emit :: "agg_input \<Rightarrow> grad_hdr \<Rightarrow> nat \<Rightarrow> agg_state \<Rightarrow> (agg_state \<times> agg_event list) option" where
  "agg_emit inp h i st = do {
     let slot = ag_slots st i;
     sum0 \<leftarrow> arr_get (sl_sum slot) 0;
     out_packet \<leftarrow> store_hdr (ag_out_packet st) 0
       \<lparr>gh_job_id = gh_job_id h, gh_round = gh_round h, gh_chunk_id = gh_chunk_id h, gh_worker_id = 0,
        gh_num_workers = 1, gh_chunk_len = sl_chunk_len slot, gh_flags = 0\<rparr>;
     out_packet \<leftarrow> agg_write_values out_packet NETSUM_HDR_SIZE (unat (sl_chunk_len slot)) 0 (sl_sum slot);
     let out_len = NETSUM_HDR_SIZE + unat (sl_chunk_len slot) * 4;
     let (g_slots, g_jobs) = free_slot i (ag_slots st) (ag_jobs st);
     Some (st\<lparr>ag_slots := g_slots, ag_jobs := g_jobs, ag_out_packet := out_packet,
              ag_packets_out := (if ai_sendto_ok inp then ag_packets_out st + 1 else ag_packets_out st)\<rparr>,
           [Ag_complete (gh_job_id h) (gh_round h) (gh_chunk_id h) (sl_contributions_received slot) sum0
              (ai_now_completed inp - sl_first_seen_micros slot),
            Ag_send (take out_len out_packet) (ai_sendto_ok inp)]) }"

text \<open>From the slot lookup to the end of the loop body.\<close>

definition agg_contribute ::
    "agg_config \<Rightarrow> agg_input \<Rightarrow> grad_hdr \<Rightarrow> agg_state \<Rightarrow> (agg_state \<times> agg_event list) option" where
  "agg_contribute cfg inp h st =
     (let (found, g_slots, g_jobs) = find_or_create_slot (ac_job_quota cfg) (ag_slots st) (ag_jobs st) (key_of h);
          st = st\<lparr>ag_slots := g_slots, ag_jobs := g_jobs\<rparr>
      in case found of
        None \<Rightarrow> Some (st, [Ag_admission_reject (gh_job_id h) (gh_round h) (gh_chunk_id h)])
      | Some i \<Rightarrow>
          if sl_contributions_received (g_slots i) \<noteq> 0 \<and> sl_chunk_len (g_slots i) \<noteq> gh_chunk_len h
          then Some (st, [Ag_mismatch (gh_job_id h) (gh_round h) (gh_chunk_id h) (gh_worker_id h)
                 (gh_chunk_len h) (sl_chunk_len (g_slots i))])
          else do {
            let slot = (if sl_contributions_received (g_slots i) = 0
               then (g_slots i)\<lparr>sl_chunk_len := gh_chunk_len h, sl_num_workers_expected := gh_num_workers h,
                      sl_first_seen_micros := ai_now_first inp\<rparr>
               else g_slots i);
            dup \<leftarrow> seen_test (sl_seen_worker slot) (unat (gh_worker_id h));
            if dup then Some (st\<lparr>ag_slots := g_slots(i := slot)\<rparr>,
               [Ag_dup (gh_job_id h) (gh_round h) (gh_chunk_id h) (gh_worker_id h)])
            else do {
              seen \<leftarrow> seen_mark (sl_seen_worker slot) (unat (gh_worker_id h));
              acc \<leftarrow> accumulate (ag_in_packet st) NETSUM_HDR_SIZE (unat (gh_chunk_len h)) 0 (sl_sum slot);
              let slot = slot\<lparr>sl_seen_worker := seen, sl_last_touched_micros := ai_now_touched inp,
                 sl_sum := acc, sl_contributions_received := sl_contributions_received slot + 1\<rparr>;
              let st = st\<lparr>ag_slots := g_slots(i := slot)\<rparr>;
              if sl_contributions_received slot < sl_num_workers_expected slot then Some (st, [])
              else agg_emit inp h i st } })"

definition agg_load_hdr :: "bytes \<Rightarrow> grad_hdr option" where
  "agg_load_hdr in_packet = do {
     job_id \<leftarrow> map_option ntohl (ld32 in_packet at_job_id);
     round_id \<leftarrow> map_option ntohl (ld32 in_packet at_round);
     chunk_id \<leftarrow> map_option ntohl (ld32 in_packet at_chunk_id);
     worker_id \<leftarrow> map_option ntohs (ld16 in_packet at_worker_id);
     num_workers \<leftarrow> map_option ntohs (ld16 in_packet at_num_workers);
     chunk_len \<leftarrow> map_option ntohs (ld16 in_packet at_chunk_len);
     Some \<lparr>gh_job_id = job_id, gh_round = round_id, gh_chunk_id = chunk_id, gh_worker_id = worker_id,
           gh_num_workers = num_workers, gh_chunk_len = chunk_len, gh_flags = 0\<rparr> }"

text \<open>From \<open>recvfrom\<close> on: the checks a datagram has to pass.\<close>

definition agg_receive ::
    "agg_config \<Rightarrow> agg_input \<Rightarrow> agg_state \<Rightarrow> (agg_state \<times> agg_event list) option" where
  "agg_receive cfg inp st = do {
     let (n, in_packet) = recvfrom (ag_in_packet st) (ai_recv inp);
     let st = st\<lparr>ag_in_packet := in_packet\<rparr>;
     let st = (if ai_sigusr1 inp then handle_sigusr1 st else st);
     if n < int NETSUM_HDR_SIZE then Some (st, [])
     else do {
       let st = st\<lparr>ag_packets_in := ag_packets_in st + 1\<rparr>;
       h \<leftarrow> agg_load_hdr in_packet;
       if unat (gh_chunk_len h) > NETSUM_MAX_CHUNK_LEN then Some (st, [])
       else if nat n < NETSUM_HDR_SIZE + unat (gh_chunk_len h) * 4 then Some (st, [])
       else if unat (gh_worker_id h) \<ge> MAX_TRACKED_WORKERS then Some (st, [])
       else if gh_num_workers h = 0 \<or> unat (gh_num_workers h) > MAX_TRACKED_WORKERS then Some (st, [])
       else agg_contribute cfg inp h st } }"

definition agg_step ::
    "agg_config \<Rightarrow> agg_input \<Rightarrow> agg_state \<Rightarrow> (agg_state \<times> agg_event list) option" where
  "agg_step cfg inp st = do {
     let (st, evs) = agg_maintenance cfg inp st;
     (st, evs') \<leftarrow> agg_receive cfg inp st;
     Some (st, evs @ evs') }"

text \<open>The receive loop over a finite run of inputs: the events of each iteration.\<close>

fun agg_run :: "agg_config \<Rightarrow> agg_input list \<Rightarrow> agg_state \<Rightarrow> (agg_state \<times> agg_event list list) option" where
  "agg_run cfg [] st = Some (st, [])"
| "agg_run cfg (inp # inps) st =
     (if ac_max_packets cfg = 0 \<or> ag_packets_in st < ac_max_packets cfg
      then do {
        (st, evs) \<leftarrow> agg_step cfg inp st;
        (st, evss) \<leftarrow> agg_run cfg inps st;
        Some (st, evs # evss) }
      else Some (st, []))"

end
