(* ===== verification/Agg_Jobs.thy ===== *)
theory Agg_Jobs
  imports Agg
begin

text \<open>
  The fairness accounting of the userspace aggregator. The locale \<open>agg_invariant\<close> reduces an
  invariant of the two tables to the three ways the code changes them (look up or create, write a
  slot in use, free a slot) and proves it for the reaper, the loop body and whole runs. It is
  interpreted for the accounting: the counter of a tracked job is the number of its slots in use.
\<close>

section \<open>The scan of the reaper\<close>

definition expired :: "int \<Rightarrow> int \<Rightarrow> agg_slot \<Rightarrow> bool" where
  "expired now ttl_micros s \<longleftrightarrow> sl_in_use s \<and> now - sl_last_touched_micros s \<ge> ttl_micros"

lemma reap_done: "SLOT_TABLE_CAPACITY \<le> i \<Longrightarrow> reap_from now ttl i g J = (g, J, [])"
  by (simp add: reap_from.simps)

lemma reap_skip:
  "i < SLOT_TABLE_CAPACITY \<Longrightarrow> \<not> expired now ttl (g i) \<Longrightarrow> reap_from now ttl i g J = reap_from now ttl (Suc i) g J"
  by (subst reap_from.simps) (auto simp: expired_def Let_def)

lemma reap_evict:
  "i < SLOT_TABLE_CAPACITY \<Longrightarrow> expired now ttl (g i) \<Longrightarrow> reap_from now ttl i g J =
     (let (g1, J1) = free_slot i g J; (g2, J2, evs) = reap_from now ttl (Suc i) g1 J1
      in (g2, J2, Ag_reaped (sl_job_id (g i)) (sl_round (g i)) (sl_chunk_id (g i))
            ((now - sl_last_touched_micros (g i)) div 1000) # evs))"
  by (subst reap_from.simps) (simp add: expired_def Let_def)

section \<open>Lookup\<close>

definition new_slot :: "grad_slot_key \<Rightarrow> agg_slot" where
  "new_slot k = zero_agg_slot\<lparr>sl_in_use := True, sl_job_id := k_job_id k, sl_round := k_round k, sl_chunk_id := k_chunk_id k\<rparr>"

lemma new_slot_simps [simp]:
  "sl_in_use (new_slot k)" "sl_key (new_slot k) = k" "sl_job_id (new_slot k) = k_job_id k" "sl_arrays_ok (new_slot k)"
  "sl_contributions_received (new_slot k) = 0" "sl_sum (new_slot k) = replicate 64 0"
  "sl_seen_worker (new_slot k) = replicate 256 0"
  by (simp_all add: new_slot_def zero_agg_slot_def sl_key_def sl_arrays_ok_def)

lemma find_or_create_slot_cases:
  obtains (found) i where "probe_slot g k = Found i" "find_or_create_slot q g J k = (Some i, g, J)"
    | (full) "probe_slot g k = Table_full" "find_or_create_slot q g J k = (None, g, J)"
    | (rejected) i j J1 where "probe_slot g k = Free i" "find_or_create_job J (k_job_id k) = (Some j, J1)"
      "0 < q" "word_of_int q \<le> je_concurrent_slots (J1 j)"
      "find_or_create_slot q g J k = (None, g, J1(j := (J1 j)\<lparr>je_rejected_count := je_rejected_count (J1 j) + 1\<rparr>))"
    | (untracked) i J1 where "probe_slot g k = Free i" "find_or_create_job J (k_job_id k) = (None, J1)"
      "find_or_create_slot q g J k = (Some i, g(i := new_slot k), J1)"
    | (admitted) i j J1 where "probe_slot g k = Free i" "find_or_create_job J (k_job_id k) = (Some j, J1)"
      "\<not> (0 < q \<and> word_of_int q \<le> je_concurrent_slots (J1 j))"
      "find_or_create_slot q g J k = (Some i, g(i := new_slot k), J1(j := (J1 j)
         \<lparr>je_concurrent_slots := je_concurrent_slots (J1 j) + 1, je_admitted_count := je_admitted_count (J1 j) + 1\<rparr>))"
proof (cases "probe_slot g k")
  case (Found i)
  then show ?thesis by (intro found [of i]) (simp_all add: find_or_create_slot_def)
next
  case Table_full
  then show ?thesis by (intro full) (simp_all add: find_or_create_slot_def)
next
  case (Free i)
  obtain jo J1 where J1: "find_or_create_job J (k_job_id k) = (jo, J1)" by (cases "find_or_create_job J (k_job_id k)")
  note d = find_or_create_slot_def Free J1 new_slot_def Let_def
  show ?thesis
  proof (cases jo)
    case None
    then show ?thesis using Free J1 by (intro untracked [of i J1]) (simp_all add: d)
  next
    case (Some j)
    then show ?thesis
      using rejected [of i j J1] admitted [of i j J1] Free J1
      by (cases "0 < q \<and> word_of_int q \<le> je_concurrent_slots (J1 j)") (simp_all add: d)
  qed
qed

lemma find_or_create_slot_Some:
  assumes "find_or_create_slot q g J k = (Some i, g', J')"
  shows "i < SLOT_TABLE_CAPACITY" "sl_in_use (g' i)" "sl_key (g' i) = k" "g' = g(i := g' i)"
    "probe_slot g k = Found i \<and> g' = g \<or> probe_slot g k = Free i \<and> g' i = new_slot k"
  using assms probe_slot_Found [of g k i] probe_slot_Free [of g k i]
  by (cases rule: find_or_create_slot_cases [of g k q J]; simp)+

lemma find_or_create_slot_None: "find_or_create_slot q g J k = (None, g', J') \<Longrightarrow> g' = g"
  by (cases rule: find_or_create_slot_cases [of g k q J]) simp_all

text \<open>How a contribution changes the tables, whatever it does otherwise.\<close>

lemma agg_contribute_cases:
  assumes c: "agg_contribute cfg inp h st = Some (st', evs)"
    and f: "find_or_create_slot (ac_job_quota cfg) (ag_slots st) (ag_jobs st) (key_of h) = (r, g, J)"
  obtains (rejected) "r = None" "st' = st\<lparr>ag_slots := g, ag_jobs := J\<rparr>" "evs = [Ag_admission_reject (gh_job_id h) (gh_round h) (gh_chunk_id h)]"
    | (mismatch) i l where "r = Some i" "st' = st\<lparr>ag_slots := g, ag_jobs := J\<rparr>"
      "evs = [Ag_mismatch (gh_job_id h) (gh_round h) (gh_chunk_id h) (gh_worker_id h) (gh_chunk_len h) l]"
    | (dup) i s where "r = Some i" "sl_in_use s = sl_in_use (g i)" "sl_key s = sl_key (g i)"
      "st' = st\<lparr>ag_jobs := J, ag_slots := g(i := s)\<rparr>" "evs = [Ag_dup (gh_job_id h) (gh_round h) (gh_chunk_id h) (gh_worker_id h)]"
    | (absorbed) i s where "r = Some i" "sl_in_use s = sl_in_use (g i)" "sl_key s = sl_key (g i)"
      "st' = st\<lparr>ag_jobs := J, ag_slots := g(i := s)\<rparr>" "evs = []"
    | (emitted) i s where "r = Some i" "sl_in_use s = sl_in_use (g i)" "sl_key s = sl_key (g i)"
      "agg_emit inp h i (st\<lparr>ag_jobs := J, ag_slots := g(i := s)\<rparr>) = Some (st', evs)"
proof (cases r)
  case None
  with c f show ?thesis by (intro rejected) (auto simp: agg_contribute_def)
next
  case (Some i)
  note c' = c [unfolded agg_contribute_def f Some, simplified]
  show ?thesis
  proof (cases "sl_contributions_received (g i) \<noteq> 0 \<and> sl_chunk_len (g i) \<noteq> gh_chunk_len h")
    case True
    with c' show ?thesis by (intro mismatch [OF Some]) auto
  next
    case False
    define slot where "slot = (if sl_contributions_received (g i) = 0
        then (g i)\<lparr>sl_chunk_len := gh_chunk_len h, sl_num_workers_expected := gh_num_workers h,
               sl_first_seen_micros := ai_now_first inp\<rparr> else g i)"
    have s: "sl_in_use slot = sl_in_use (g i)" "sl_key slot = sl_key (g i)" by (simp_all add: slot_def sl_key_def)
    obtain dup where d: "seen_test (sl_seen_worker slot) (unat (gh_worker_id h)) = Some dup"
      using c' False by (auto simp: slot_def [symmetric] bind_eq_Some_conv Let_def)
    show ?thesis
    proof (cases dup)
      case True
      with c' False d s show ?thesis by (intro dup [OF Some, of slot]) (auto simp: slot_def [symmetric] Let_def)
    next
      case nodup: False
      obtain seen acc where sa: "seen_mark (sl_seen_worker slot) (unat (gh_worker_id h)) = Some seen"
        "accumulate (ag_in_packet st) NETSUM_HDR_SIZE (unat (gh_chunk_len h)) 0 (sl_sum slot) = Some acc"
        using c' False d nodup by (auto simp: slot_def [symmetric] bind_eq_Some_conv Let_def)
      define slot' where "slot' = slot\<lparr>sl_seen_worker := seen, sl_last_touched_micros := ai_now_touched inp,
         sl_sum := acc, sl_contributions_received := sl_contributions_received slot + 1\<rparr>"
      have s': "sl_in_use slot' = sl_in_use (g i)" "sl_key slot' = sl_key (g i)"
        using s by (simp_all add: slot'_def sl_key_def)
      show ?thesis
      proof (cases "sl_contributions_received slot' < sl_num_workers_expected slot'")
        case True
        with c' False d nodup sa s' show ?thesis
          by (intro absorbed [OF Some, of slot']) (auto simp: slot_def [symmetric] slot'_def Let_def)
      next
        case complete: False
        then have "agg_emit inp h i (st\<lparr>ag_jobs := J, ag_slots := g(i := slot')\<rparr>) = Some (st', evs)"
          using c' False d nodup sa by (simp add: slot_def [symmetric] slot'_def Let_def)
        with s' show ?thesis by (rule emitted [OF Some])
      qed
    qed
  qed
qed

lemma agg_contribute_tables:
  assumes c: "agg_contribute cfg inp h st = Some (st', evs)"
    and f: "find_or_create_slot (ac_job_quota cfg) (ag_slots st) (ag_jobs st) (key_of h) = (r, g, J)"
  obtains (same) "ag_slots st' = g" "ag_jobs st' = J"
    | (stored) i s where "r = Some i" "sl_in_use s = sl_in_use (g i)" "sl_key s = sl_key (g i)"
      "ag_slots st' = g(i := s)" "ag_jobs st' = J"
    | (close) i s where "r = Some i" "sl_in_use s = sl_in_use (g i)" "sl_key s = sl_key (g i)"
      "free_slot i (g(i := s)) J = (ag_slots st', ag_jobs st')"
proof (cases rule: agg_contribute_cases [OF c f, case_names rejected mismatch dup absorbed emitted])
  case (emitted i s)
  have "free_slot i (g(i := s)) J = (ag_slots st', ag_jobs st')"
    using emitted(4) by (cases "free_slot i (g(i := s)) J") (auto simp: agg_emit_def bind_eq_Some_conv Let_def)
  with emitted(1-3) show ?thesis by (rule close)
qed (use same stored in simp_all)

section \<open>Invariants of the tables\<close>

locale agg_invariant =
  fixes cfg :: agg_config and P :: "(nat \<Rightarrow> agg_slot) \<Rightarrow> (nat \<Rightarrow> job_entry) \<Rightarrow> bool"
  assumes lookup: "P g J \<Longrightarrow> find_or_create_slot (ac_job_quota cfg) g J k = (r, g', J') \<Longrightarrow> P g' J'"
    and upd: "P g J \<Longrightarrow> i < SLOT_TABLE_CAPACITY \<Longrightarrow> sl_in_use (g i) \<Longrightarrow> sl_in_use s \<Longrightarrow> sl_key s = sl_key (g i) \<Longrightarrow>
      P (g(i := s)) J"
    and free: "P g J \<Longrightarrow> i < SLOT_TABLE_CAPACITY \<Longrightarrow> sl_in_use (g i) \<Longrightarrow> free_slot i g J = (g', J') \<Longrightarrow> P g' J'"
begin

abbreviation holds :: "agg_state \<Rightarrow> bool" where "holds st \<equiv> P (ag_slots st) (ag_jobs st)"

lemma reap: "P g J \<Longrightarrow> reap_from now ttl i g J = (g', J', evs) \<Longrightarrow> P g' J'"
proof (induction "SLOT_TABLE_CAPACITY - i" arbitrary: i g J evs rule: less_induct)
  case less
  consider "SLOT_TABLE_CAPACITY \<le> i" | "i < SLOT_TABLE_CAPACITY" "\<not> expired now ttl (g i)" | "i < SLOT_TABLE_CAPACITY" "expired now ttl (g i)"
    by linarith
  then show ?case
  proof cases
    case 1
    with less.prems show ?thesis by (simp add: reap_done)
  next
    case 2
    then have "SLOT_TABLE_CAPACITY - Suc i < SLOT_TABLE_CAPACITY - i" by simp
    then show ?thesis using less.prems(1) less.prems(2) [unfolded reap_skip [where g = g, OF 2]] by (rule less.hyps)
  next
    case 3
    obtain g1 J1 where f: "free_slot i g J = (g1, J1)" by (cases "free_slot i g J")
    obtain g2 J2 evs2 where r: "reap_from now ttl (Suc i) g1 J1 = (g2, J2, evs2)"
      by (cases "reap_from now ttl (Suc i) g1 J1") auto
    have "P g1 J1" by (rule free [OF less.prems(1) _ _ f]) (use 3 in \<open>simp_all add: expired_def\<close>)
    moreover have "SLOT_TABLE_CAPACITY - Suc i < SLOT_TABLE_CAPACITY - i" using 3 by simp
    moreover have "g' = g2" "J' = J2" using less.prems(2) unfolding reap_evict [where g = g, OF 3] f by (simp_all add: r)
    ultimately show ?thesis using r less.hyps by blast
  qed
qed

lemma maintenance: "holds st \<Longrightarrow> agg_maintenance cfg inp st = (st', evs) \<Longrightarrow> holds st'"
  using reap [of "ag_slots st" "ag_jobs st"]
  by (auto simp: agg_maintenance_def Let_def reap_expired_slots_def split: if_splits prod.splits)

lemma contribute:
  assumes "holds st" "agg_contribute cfg inp h st = Some (st', evs)"
  shows "holds st'"
proof -
  obtain r g J where f: "find_or_create_slot (ac_job_quota cfg) (ag_slots st) (ag_jobs st) (key_of h) = (r, g, J)"
    by (cases "find_or_create_slot (ac_job_quota cfg) (ag_slots st) (ag_jobs st) (key_of h)") auto
  have gJ: "P g J" using assms(1) f by (rule lookup)
  from assms(2) f show ?thesis
  proof (cases rule: agg_contribute_tables)
    case same
    with gJ show ?thesis by simp
  next
    case (stored i s)
    have "P (g(i := s)) J"
      using stored find_or_create_slot_Some(1-3) [OF f [unfolded stored(1)]] by (intro upd [OF gJ]) simp_all
    with stored show ?thesis by simp
  next
    case (close i s)
    have i: "i < SLOT_TABLE_CAPACITY" "sl_in_use s"
      using close find_or_create_slot_Some(1-3) [OF f [unfolded close(1)]] by simp_all
    have "P (g(i := s)) J"
      using close find_or_create_slot_Some(1-3) [OF f [unfolded close(1)]] by (intro upd [OF gJ]) simp_all
    from this i(1) _ close(4) show ?thesis by (rule free) (use i in simp)
  qed
qed

lemma step:
  assumes "holds st" "agg_step cfg inp st = Some (st', evs)"
  shows "holds st'"
proof -
  obtain st1 evs1 where m: "agg_maintenance cfg inp st = (st1, evs1)" by (cases "agg_maintenance cfg inp st")
  have "holds st1" using assms(1) m by (rule maintenance)
  moreover obtain evs2 where r: "agg_receive cfg inp st1 = Some (st', evs2)"
    using assms(2) m by (auto simp: agg_step_def bind_eq_Some_conv)
  ultimately show ?thesis
    by (auto simp: agg_receive_def handle_sigusr1_def Let_def bind_eq_Some_conv split: prod.splits if_splits
        dest!: contribute [rotated])
qed

lemma run: "agg_run cfg inps st = Some (st', evss) \<Longrightarrow> holds st \<Longrightarrow> holds st'"
proof (induction inps arbitrary: st evss)
  case (Cons inp inps)
  then show ?case by (auto simp: bind_eq_Some_conv split: if_splits dest: step)
qed simp

end

section \<open>Counting slots in use\<close>

definition slots_of :: "u32 \<Rightarrow> (nat \<Rightarrow> agg_slot) \<Rightarrow> nat" where
  "slots_of job g = card {i. i < SLOT_TABLE_CAPACITY \<and> sl_in_use (g i) \<and> sl_job_id (g i) = job}"

lemma slots_of_le: "slots_of job g \<le> SLOT_TABLE_CAPACITY"
  unfolding slots_of_def using card_mono [of "{..<SLOT_TABLE_CAPACITY}"] by (auto simp: subset_eq)

lemma slots_of_same:
  assumes "sl_in_use s = sl_in_use (g i)" "sl_job_id s = sl_job_id (g i)"
  shows "slots_of job (g(i := s)) = slots_of job g"
  unfolding slots_of_def by (rule arg_cong [where f = card]) (use assms in auto)

lemma slots_of_create:
  assumes "i < SLOT_TABLE_CAPACITY" "\<not> sl_in_use (g i)" "sl_in_use s"
  shows "slots_of job (g(i := s)) = slots_of job g + (if sl_job_id s = job then 1 else 0)"
proof -
  let ?I = "{i. i < SLOT_TABLE_CAPACITY \<and> sl_in_use (g i) \<and> sl_job_id (g i) = job}"
  have "{j. j < SLOT_TABLE_CAPACITY \<and> sl_in_use ((g(i := s)) j) \<and> sl_job_id ((g(i := s)) j) = job} =
      (if sl_job_id s = job then insert i ?I else ?I)"
    using assms by auto
  moreover have "i \<notin> ?I" using assms by simp
  ultimately show ?thesis unfolding slots_of_def by simp
qed

lemma slots_of_free:
  assumes "i < SLOT_TABLE_CAPACITY" "sl_in_use (g i)"
  shows "slots_of job g = slots_of job (g(i := (g i)\<lparr>sl_in_use := False\<rparr>)) + (if sl_job_id (g i) = job then 1 else 0)"
  using slots_of_create [of i "g(i := (g i)\<lparr>sl_in_use := False\<rparr>)" "g i" job] assms by simp

section \<open>The accounting\<close>

definition job_entry_ok :: "agg_config \<Rightarrow> (nat \<Rightarrow> job_entry) \<Rightarrow> u32 \<Rightarrow> nat \<Rightarrow> bool" where
  "job_entry_ok cfg J job n \<longleftrightarrow>
     (case job_map_of J job of
        Some e \<Rightarrow> unat (je_concurrent_slots e) = n \<and>
          (0 < ac_job_quota cfg \<and> ac_job_quota cfg < 2 ^ 32 \<longrightarrow> int n \<le> ac_job_quota cfg)
      | None \<Rightarrow> n = 0 \<or> jobs_full J)"

definition jobs_accounted :: "agg_config \<Rightarrow> (nat \<Rightarrow> agg_slot) \<Rightarrow> (nat \<Rightarrow> job_entry) \<Rightarrow> bool" where
  "jobs_accounted cfg g J \<longleftrightarrow> jobs_intact J \<and> (\<forall>job. job_entry_ok cfg J job (slots_of job g))"

text \<open>Writing the entry a lookup returned: only the job's own counter can change.\<close>

lemma job_entry_write:
  assumes J: "jobs_intact J" and f: "find_or_create_job J job = (Some j, J1)"
    and e: "je_in_use e" "je_job_id e = job"
  shows "jobs_intact (J1(j := e))" "job_map_of (J1(j := e)) = (job_map_of J)(job \<mapsto> e)"
    "jobs_full J \<Longrightarrow> jobs_full (J1(j := e))"
proof -
  note s = find_or_create_job_Some [OF J f]
  show "jobs_intact (J1(j := e))" "job_map_of (J1(j := e)) = (job_map_of J)(job \<mapsto> e)"
    using job_map_of_write [OF s(1) _ e, of j] s(2,5) by simp_all
  show "jobs_full (J1(j := e))" if "jobs_full J"
    using s(6) [OF that] e(1) by (rule jobs_full_write)
qed

lemma job_entry_ok_write:
  assumes J: "jobs_intact J" and f: "find_or_create_job J job = (Some j, J1)"
    and e: "je_in_use e" "je_job_id e = job" and ok: "\<And>i. job_entry_ok cfg J i (n i)"
    and own: "unat (je_concurrent_slots e) = n' job"
      "0 < ac_job_quota cfg \<Longrightarrow> ac_job_quota cfg < 2 ^ 32 \<Longrightarrow> int (n' job) \<le> ac_job_quota cfg"
    and others: "\<And>i. i \<noteq> job \<Longrightarrow> n' i = n i"
  shows "job_entry_ok cfg (J1(j := e)) i (n' i)"
proof -
  note w = job_entry_write [OF J f e]
  show ?thesis
  proof (cases "i = job")
    case True
    with own w(2) show ?thesis by (simp add: job_entry_ok_def)
  next
    case False
    with ok [of i] others [OF False] w(2,3) show ?thesis by (auto simp: job_entry_ok_def split: option.splits)
  qed
qed

lemma new_slot_job [simp]: "sl_job_id (new_slot k) = k_job_id k"
  by simp

lemma accounted_lookup:
  assumes P: "jobs_accounted cfg g J" and f: "find_or_create_slot (ac_job_quota cfg) g J k = (r, g', J')"
  shows "jobs_accounted cfg g' J'"
proof -
  let ?q = "ac_job_quota cfg" and ?job = "k_job_id k"
  have J: "jobs_intact J" and ok: "\<And>j. job_entry_ok cfg J j (slots_of j g)"
    using P by (auto simp: jobs_accounted_def)
  have cnt: "slots_of j (g(i := new_slot k)) = slots_of j g + (if ?job = j then 1 else 0)"
    if "probe_slot g k = Free i" for i j
    using slots_of_create [of i g "new_slot k" j] probe_slot_Free [OF that] by simp
  show ?thesis
  proof (cases rule: find_or_create_slot_cases [of g k ?q J, case_names found full rejected untracked admitted])
    case (rejected i j J1)
    note s = find_or_create_job_Some [OF J rejected(2)]
    let ?e = "(J1 j)\<lparr>je_rejected_count := je_rejected_count (J1 j) + 1\<rparr>"
    have e: "je_in_use ?e" "je_job_id ?e = ?job" using s(3,4) by simp_all
    have own: "unat (je_concurrent_slots ?e) = slots_of ?job g \<and>
        (0 < ?q \<longrightarrow> ?q < 2 ^ 32 \<longrightarrow> int (slots_of ?job g) \<le> ?q)"
      using s(7) ok [of ?job] by (auto simp: job_entry_ok_def)
    have "job_entry_ok cfg (J1(j := ?e)) i (slots_of i g)" for i
      by (rule job_entry_ok_write [OF J rejected(2) e ok]) (use own in simp_all)
    with rejected(5) f job_entry_write(1) [OF J rejected(2) e] show ?thesis by (auto simp: jobs_accounted_def)
  next
    case (untracked i J1)
    note n = find_or_create_job_None [OF J untracked(2)]
    have "job_entry_ok cfg J j (slots_of j (g(i := new_slot k)))" for j
      using ok [of j] n(2,3) unfolding cnt [OF untracked(1)] by (auto simp: job_entry_ok_def split: option.splits)
    with untracked(3) f n(1) J show ?thesis by (auto simp: jobs_accounted_def)
  next
    case (admitted i j J1)
    note s = find_or_create_job_Some [OF J admitted(2)]
    let ?e = "(J1 j)\<lparr>je_concurrent_slots := je_concurrent_slots (J1 j) + 1, je_admitted_count := je_admitted_count (J1 j) + 1\<rparr>"
    have e: "je_in_use ?e" "je_job_id ?e = ?job" using s(3,4) by simp_all
    have c: "unat (je_concurrent_slots (J1 j)) = slots_of ?job g"
      using s(7) ok [of ?job] by (auto simp: job_entry_ok_def)
    then have own: "unat (je_concurrent_slots ?e) = slots_of ?job (g(i := new_slot k))"
      unfolding cnt [OF admitted(1)] using slots_of_le [of ?job g]
      by (simp add: unat_word_ariths SLOT_TABLE_CAPACITY_def)
    have lim: "int (slots_of ?job (g(i := new_slot k))) \<le> ?q" if q: "0 < ?q" "?q < 2 ^ 32"
    proof -
      have "je_concurrent_slots (J1 j) < word_of_int ?q" using admitted(3) q(1) by auto
      then have "int (slots_of ?job g) < ?q"
        using c q by (simp add: word_less_nat_alt unsigned_of_int take_bit_int_eq_self nat_less_iff zless_nat_eq_int_zless)
      then show ?thesis unfolding cnt [OF admitted(1)] by simp
    qed
    have "job_entry_ok cfg (J1(j := ?e)) l (slots_of l (g(i := new_slot k)))" for l
      by (rule job_entry_ok_write [where n' = "\<lambda>l. slots_of l (g(i := new_slot k))", OF J admitted(2) e ok])
        (use own lim cnt [OF admitted(1)] in \<open>simp_all del: fun_upd_apply\<close>)
    with admitted(4) f job_entry_write(1) [OF J admitted(2) e] show ?thesis by (auto simp: jobs_accounted_def)
  qed (use f P in simp_all)
qed

lemma accounted_free:
  assumes P: "jobs_accounted cfg g J" and i: "i < SLOT_TABLE_CAPACITY" "sl_in_use (g i)"
    and f: "free_slot i g J = (g', J')"
  shows "jobs_accounted cfg g' J'"
proof -
  let ?job = "sl_job_id (g i)"
  have J: "jobs_intact J" and ok: "\<And>j. job_entry_ok cfg J j (slots_of j g)"
    using P by (auto simp: jobs_accounted_def)
  obtain jo J1 where j1: "find_or_create_job J ?job = (jo, J1)" by (cases "find_or_create_job J ?job")
  have g': "g' = g(i := (g i)\<lparr>sl_in_use := False\<rparr>)" using f j1 by (simp add: free_slot_def Let_def)
  have cnt: "slots_of j g = slots_of j g' + (if ?job = j then 1 else 0)" for j
    unfolding g' using i by (rule slots_of_free)
  show ?thesis
  proof (cases jo)
    case None
    note n = find_or_create_job_None [OF J j1 [unfolded None]]
    have "J' = J" using f j1 None n(1) by (simp add: free_slot_def Let_def)
    moreover have "job_entry_ok cfg J j (slots_of j g')" for j
      using ok [of j] n(2,3) unfolding cnt [of j] by (auto simp: job_entry_ok_def split: option.splits if_splits)
    ultimately show ?thesis using J by (simp add: jobs_accounted_def)
  next
    case (Some j)
    note s = find_or_create_job_Some [OF J j1 [unfolded Some]]
    have pos: "0 < slots_of ?job g" unfolding cnt [of ?job] by simp
    then have m: "job_map_of J ?job = Some (J1 j)" using s(7) ok [of ?job] by (auto simp: job_entry_ok_def)
    then have c: "unat (je_concurrent_slots (J1 j)) = slots_of ?job g"
      and lim: "0 < ac_job_quota cfg \<and> ac_job_quota cfg < 2 ^ 32 \<longrightarrow> int (slots_of ?job g) \<le> ac_job_quota cfg"
      using ok [of ?job] by (auto simp: job_entry_ok_def)
    let ?e = "(J1 j)\<lparr>je_concurrent_slots := je_concurrent_slots (J1 j) - 1\<rparr>"
    have nz: "je_concurrent_slots (J1 j) \<noteq> 0" using c pos by auto
    then have J': "J' = J1(j := ?e)" using f j1 Some by (simp add: free_slot_def Let_def word_neq_0_conv)
    have e: "je_in_use ?e" "je_job_id ?e = ?job" using s(3,4) by simp_all
    have own: "unat (je_concurrent_slots ?e) = slots_of ?job g'"
      using c nz cnt [of ?job] by (simp add: unat_minus_one)
    have "job_entry_ok cfg (J1(j := ?e)) l (slots_of l g')" for l
    proof (rule job_entry_ok_write [OF J j1 [unfolded Some] e ok])
      show "int (slots_of ?job g') \<le> ac_job_quota cfg" if "0 < ac_job_quota cfg" "ac_job_quota cfg < 2 ^ 32"
        using lim that cnt [of ?job] by simp
      show "slots_of l g' = slots_of l g" if "l \<noteq> ?job" for l using cnt [of l] that by simp
    qed (use own in simp)
    with J' job_entry_write(1) [OF J j1 [unfolded Some] e] show ?thesis by (simp add: jobs_accounted_def)
  qed
qed

interpretation accounted: agg_invariant cfg "jobs_accounted cfg" for cfg
proof unfold_locales
  fix g :: "nat \<Rightarrow> agg_slot" and J :: "nat \<Rightarrow> job_entry" and i :: nat and s :: agg_slot
  assume "jobs_accounted cfg g J" "sl_in_use (g i)" "sl_in_use s" "sl_key s = sl_key (g i)"
  then show "jobs_accounted cfg (g(i := s)) J"
    by (simp add: jobs_accounted_def slots_of_same sl_key_def)
qed (rule accounted_lookup accounted_free; assumption)+

lemma accounted_init: "jobs_accounted cfg (ag_slots (agg_init b b' t)) (ag_jobs (agg_init b b' t))"
proof -
  have "job_map_of (\<lambda>_. zero_job) job = None" for job
    using job_map_of_eq_Some [OF jobs_intact_zero, of job] by (cases "job_map_of (\<lambda>_. zero_job) job") (auto simp: zero_job_def)
  then show ?thesis
    by (simp add: jobs_accounted_def agg_init_def jobs_intact_zero job_entry_ok_def slots_of_def zero_agg_slot_def)
qed

end
