(* ===== verification/Aggregator_Spec.thy ===== *)
theory Aggregator_Spec
  imports Contribution Packet
begin

text \<open>
  What an aggregator promises, without tables, bitmaps or packets. A key has at most one open
  round: its length, the number of workers it waits for and the log of what came in. A contribution
  opens a round, joins it, is ignored (wrong length, or a worker that is in the log already), or is
  the last one: then the round closes and the component-wise sum of its log goes out.

  \<open>spec_sound\<close> says what every sum that goes out consists of, \<open>spec_round_completes\<close> that a round
  whose workers all contribute does go out.
\<close>

section \<open>The abstract aggregator\<close>

record round =
  r_len :: nat
  r_expected :: nat
  r_log :: "contribution list"

type_synonym open_rounds = "grad_slot_key \<rightharpoonup> round"

datatype verdict = Ignored | Absorbed | Summed "i32 list"

definition round_of :: "open_rounds \<Rightarrow> grad_slot_key \<Rightarrow> nat \<Rightarrow> contribution \<Rightarrow> round" where
  "round_of A k n c =
     (case A k of None \<Rightarrow> \<lparr>r_len = length (snd c), r_expected = n, r_log = []\<rparr> | Some r \<Rightarrow> r)"

definition spec_contribute ::
    "open_rounds \<Rightarrow> grad_slot_key \<Rightarrow> nat \<Rightarrow> contribution \<Rightarrow> verdict \<times> open_rounds" where
  "spec_contribute A k n c =
     (let r = round_of A k n c; lg = r_log r @ [c] in
      if length (snd c) \<noteq> r_len r \<or> fst c \<in> fst ` set (r_log r) then (Ignored, A)
      else if length lg = r_expected r then (Summed (column_sum (r_len r) (mset (map snd lg))), A(k := None))
      else (Absorbed, A(k \<mapsto> r\<lparr>r_log := lg\<rparr>)))"

text \<open>A run over requests; \<open>None\<close> is a packet that is not admitted.\<close>

type_synonym request = "(grad_slot_key \<times> nat \<times> contribution) option"

fun spec_request :: "open_rounds \<Rightarrow> request \<Rightarrow> verdict \<times> open_rounds" where
  "spec_request A None = (Ignored, A)"
| "spec_request A (Some (k, n, c)) = spec_contribute A k n c"

fun spec_run :: "open_rounds \<Rightarrow> request list \<Rightarrow> verdict list \<times> open_rounds" where
  "spec_run A [] = ([], A)"
| "spec_run A (q # rs) =
     (let (v, A1) = spec_request A q; (vs, A') = spec_run A1 rs in (v # vs, A'))"

section \<open>What goes out\<close>

text \<open>
  \<open>is\<close> explains a log: increasing positions below \<open>t\<close> whose requests, all for the key and of the
  round's length, are the entries of the log; the first of them opened the round.
\<close>

definition explains :: "request list \<Rightarrow> nat \<Rightarrow> grad_slot_key \<Rightarrow> nat \<Rightarrow> nat \<Rightarrow> contribution list \<Rightarrow> nat list \<Rightarrow> bool" where
  "explains rs t k len n lg js \<longleftrightarrow>
     js \<noteq> [] \<and> sorted_wrt (<) js \<and> (\<forall>i\<in>set js. i < t) \<and>
     list_all2 (\<lambda>i c. \<exists>ni. rs ! i = Some (k, ni, c) \<and> length (snd c) = len) js lg \<and>
     (\<exists>c. rs ! hd js = Some (k, n, c)) \<and> distinct (map fst lg)"

definition explained :: "request list \<Rightarrow> nat \<Rightarrow> open_rounds \<Rightarrow> bool" where
  "explained rs t A \<longleftrightarrow> (\<forall>k r. A k = Some r \<longrightarrow> (\<exists>js. explains rs t k (r_len r) (r_expected r) (r_log r) js))"

lemma explains_mono: "explains rs t k len n lg js \<Longrightarrow> t \<le> u \<Longrightarrow> explains rs u k len n lg js"
  unfolding explains_def by (auto dest: less_le_trans)

lemma explained_mono: "explained rs t A \<Longrightarrow> t \<le> u \<Longrightarrow> explained rs u A"
  unfolding explained_def by (blast intro: explains_mono)

text \<open>A contribution that is accepted extends the explanation by its own position.\<close>

lemma explains_snoc:
  assumes ex: "explained rs t A" and t: "rs ! t = Some (k, n, c)"
  defines "r \<equiv> round_of A k n c"
  assumes acc: "length (snd c) = r_len r" "fst c \<notin> fst ` set (r_log r)"
  shows "\<exists>js. explains rs (Suc t) k (r_len r) (r_expected r) (r_log r @ [c]) (js @ [t])"
proof (cases "A k")
  case None
  then have "explains rs (Suc t) k (r_len r) (r_expected r) (r_log r @ [c]) ([] @ [t])"
    using t by (simp add: r_def round_of_def explains_def)
  then show ?thesis by blast
next
  case (Some r')
  then have r: "r = r'" by (simp add: r_def round_of_def)
  with ex Some obtain js where js: "explains rs t k (r_len r) (r_expected r) (r_log r) js"
    unfolding explained_def by blast
  have "list_all2 (\<lambda>i c. \<exists>ni. rs ! i = Some (k, ni, c) \<and> length (snd c) = r_len r) (js @ [t]) (r_log r @ [c])"
    using js t acc(1) by (intro list_all2_appendI) (auto simp: explains_def)
  then have "explains rs (Suc t) k (r_len r) (r_expected r) (r_log r @ [c]) (js @ [t])"
    using js acc(2) by (auto simp: explains_def sorted_wrt_append)
  then show ?thesis by blast
qed

lemma spec_contribute_cases:
  obtains (ignored) "spec_contribute A k n c = (Ignored, A)"
      "length (snd c) \<noteq> r_len (round_of A k n c) \<or> fst c \<in> fst ` set (r_log (round_of A k n c))"
    | (summed) "spec_contribute A k n c =
          (Summed (column_sum (r_len (round_of A k n c)) (mset (map snd (r_log (round_of A k n c) @ [c])))), A(k := None))"
        "length (snd c) = r_len (round_of A k n c)" "fst c \<notin> fst ` set (r_log (round_of A k n c))"
        "length (r_log (round_of A k n c) @ [c]) = r_expected (round_of A k n c)"
    | (absorbed) "spec_contribute A k n c =
          (Absorbed, A(k \<mapsto> (round_of A k n c)\<lparr>r_log := r_log (round_of A k n c) @ [c]\<rparr>))"
        "length (snd c) = r_len (round_of A k n c)" "fst c \<notin> fst ` set (r_log (round_of A k n c))"
        "length (r_log (round_of A k n c) @ [c]) \<noteq> r_expected (round_of A k n c)"
  unfolding spec_contribute_def by (auto simp: Let_def split: if_splits)

text \<open>Every sum that goes out at position \<open>j\<close> is explained by positions up to \<open>j\<close>.\<close>

definition sum_explained :: "request list \<Rightarrow> nat \<Rightarrow> grad_slot_key \<Rightarrow> i32 list \<Rightarrow> bool" where
  "sum_explained rs j k tot \<longleftrightarrow>
     (\<exists>n len lg js. explains rs (Suc j) k len n lg (js @ [j]) \<and> length lg = n \<and>
        tot = column_sum len (mset (map snd lg)))"

lemma spec_contribute_explained:
  assumes ex: "explained rs t A" and t: "rs ! t = Some (k, n, c)"
    and step: "spec_contribute A k n c = (v, A')"
  shows "explained rs (Suc t) A'" "v = Summed tot \<Longrightarrow> sum_explained rs t k tot"
proof -
  have ex': "explained rs (Suc t) A" using ex by (rule explained_mono) simp
  show "explained rs (Suc t) A'"
  proof (cases rule: spec_contribute_cases [of A k n c])
    case ignored
    with step ex' show ?thesis by simp
  next
    case summed
    with step ex' show ?thesis by (auto simp: explained_def split: if_splits)
  next
    case absorbed
    let ?r = "round_of A k n c"
    obtain js where js: "explains rs (Suc t) k (r_len ?r) (r_expected ?r) (r_log ?r @ [c]) (js @ [t])"
      using explains_snoc [OF ex t absorbed(2,3)] by blast
    have "A' = A(k \<mapsto> ?r\<lparr>r_log := r_log ?r @ [c]\<rparr>)" using step absorbed(1) by simp
    with ex' js show ?thesis unfolding explained_def by (auto simp: fun_upd_apply split: if_splits)
  qed
  show "sum_explained rs t k tot" if "v = Summed tot"
  proof (cases rule: spec_contribute_cases [of A k n c])
    case summed
    with step that explains_snoc [OF ex t summed(2,3)] show ?thesis
      unfolding sum_explained_def by (metis Pair_inject verdict.inject)
  qed (use step that in simp_all)
qed

lemma spec_run_length: "length (fst (spec_run A rs)) = length rs"
  by (induction rs arbitrary: A) (simp_all add: split_beta Let_def)

lemma spec_run_explained:
  assumes "explained rs t A" "spec_run A (drop t rs) = (out, A')" "t \<le> length rs"
  shows "\<forall>j tot. j < length out \<longrightarrow> out ! j = Summed tot \<longrightarrow> (\<exists>k. sum_explained rs (t + j) k tot)"
  using assms
proof (induction "length rs - t" arbitrary: t A out)
  case 0
  then show ?case by simp
next
  case (Suc m)
  then have t: "t < length rs" by simp
  then have d: "drop t rs = rs ! t # drop (Suc t) rs" by (simp add: Cons_nth_drop_Suc)
  obtain v A1 out1 where o: "out = v # out1" "spec_run A1 (drop (Suc t) rs) = (out1, A')"
    and A1: "explained rs (Suc t) A1" "\<And>tot. v = Summed tot \<Longrightarrow> \<exists>k. sum_explained rs t k tot"
  proof (cases "rs ! t")
    case None
    with Suc.prems(2) d obtain out1 where "out = Ignored # out1" "spec_run A (drop (Suc t) rs) = (out1, A')"
      by (auto simp: split_beta Let_def prod_eq_iff)
    moreover have "explained rs (Suc t) A" using Suc.prems(1) by (rule explained_mono) simp
    ultimately show ?thesis by (intro that) auto
  next
    case (Some req)
    obtain k n c where req: "rs ! t = Some (k, n, c)" using Some by (cases req) auto
    obtain v A1 where v: "spec_contribute A k n c = (v, A1)" by (cases "spec_contribute A k n c")
    with Suc.prems(2) d req obtain out1 where "out = v # out1" "spec_run A1 (drop (Suc t) rs) = (out1, A')"
      by (auto simp: split_beta Let_def prod_eq_iff)
    then show ?thesis using spec_contribute_explained [OF Suc.prems(1) req v] by (intro that) auto
  qed
  have "\<forall>j tot. j < length out1 \<longrightarrow> out1 ! j = Summed tot \<longrightarrow> (\<exists>k. sum_explained rs (Suc t + j) k tot)"
    using Suc.hyps(2) t by (intro Suc.hyps(1) [OF _ A1(1) o(2)]) auto
  then show ?case unfolding o(1) using A1(2) by (auto simp: nth_Cons split: nat.split)
qed

lemma spec_sound:
  assumes "spec_run Map.empty rs = (out, A)" "j < length out" "out ! j = Summed tot"
  shows "\<exists>k. sum_explained rs j k tot"
  using spec_run_explained [of rs 0 Map.empty out A] assms by (simp add: explained_def)

text \<open>The same in terms of positions only: which requests make up a sum.\<close>

definition contribution_at :: "request list \<Rightarrow> nat \<Rightarrow> contribution" where
  "contribution_at rs i = (case rs ! i of Some (k, n, c) \<Rightarrow> c | None \<Rightarrow> (0, []))"

definition complete_round :: "request list \<Rightarrow> grad_slot_key \<Rightarrow> nat \<Rightarrow> nat list \<Rightarrow> bool" where
  "complete_round rs k len is \<longleftrightarrow> is \<noteq> [] \<and> sorted_wrt (<) is \<and>
     (\<forall>i\<in>set is. \<exists>n. rs ! i = Some (k, n, contribution_at rs i) \<and> length (snd (contribution_at rs i)) = len) \<and>
     distinct (map (\<lambda>i. fst (contribution_at rs i)) is) \<and> (\<exists>c. rs ! hd is = Some (k, length is, c))"

lemma sum_explained_positions:
  assumes "sum_explained rs j k tot"
  shows "\<exists>js len. complete_round rs k len (js @ [j]) \<and> (\<forall>i\<in>set js. i < j) \<and>
    tot = column_sum len (mset (map (\<lambda>i. snd (contribution_at rs i)) (js @ [j])))"
proof -
  obtain n len lg js where e: "explains rs (Suc j) k len n lg (js @ [j])" "length lg = n"
    "tot = column_sum len (mset (map snd lg))"
    using assms by (auto simp: sum_explained_def)
  note E = e(1) [unfolded explains_def]
  let ?is = "js @ [j]"
  have all: "list_all2 (\<lambda>i c. (\<exists>ni. rs ! i = Some (k, ni, c)) \<and> c = contribution_at rs i \<and> length (snd c) = len) ?is lg"
    using E by (elim conjE) (erule list.rel_mono_strong, auto simp: contribution_at_def)
  then have lg: "lg = map (contribution_at rs) ?is"
    by (intro nth_equalityI) (auto simp: list_all2_conv_all_nth simp del: map_append)
  have "\<exists>n. rs ! i = Some (k, n, contribution_at rs i) \<and> length (snd (contribution_at rs i)) = len"
    if "i \<in> set ?is" for i
  proof -
    from that obtain a where a: "a < length ?is" "?is ! a = i" unfolding in_set_conv_nth by blast
    from list_all2_nthD [OF all a(1)] show ?thesis unfolding a(2) by auto
  qed
  moreover have "distinct (map (\<lambda>i. fst (contribution_at rs i)) ?is)"
    using E unfolding lg by (simp add: o_def)
  moreover have "length ?is = n" using e(2) lg by (metis length_map)
  ultimately have "complete_round rs k len ?is"
    using E by (auto simp: complete_round_def simp del: map_append set_append)
  moreover have "map snd lg = map (\<lambda>i. snd (contribution_at rs i)) ?is" unfolding lg by simp
  moreover have "\<forall>i\<in>set js. i < j" using E by (auto simp: sorted_wrt_append)
  ultimately show ?thesis using e(3) by metis
qed

section \<open>A round whose workers all contribute goes out\<close>

lemma spec_round_absorbs:
  assumes "\<forall>c\<in>set cs. length (snd c) = len" "distinct (map fst (lg @ cs))" "length (lg @ cs) < n"
    and "A k = Some \<lparr>r_len = len, r_expected = n, r_log = lg\<rparr>"
  shows "spec_run A (map (\<lambda>c. Some (k, n, c)) cs) =
    (replicate (length cs) Absorbed, A(k \<mapsto> \<lparr>r_len = len, r_expected = n, r_log = lg @ cs\<rparr>))"
  using assms
proof (induction cs arbitrary: lg A)
  case Nil
  then show ?case by (simp add: fun_upd_idem)
next
  case (Cons c cs)
  let ?A = "A(k \<mapsto> \<lparr>r_len = len, r_expected = n, r_log = lg @ [c]\<rparr>)"
  have "spec_contribute A k n c = (Absorbed, ?A)"
    using Cons.prems by (auto simp: spec_contribute_def round_of_def Let_def)
  moreover have "spec_run ?A (map (\<lambda>c. Some (k, n, c)) cs) =
      (replicate (length cs) Absorbed, ?A(k \<mapsto> \<lparr>r_len = len, r_expected = n, r_log = (lg @ [c]) @ cs\<rparr>))"
    using Cons.prems by (intro Cons.IH) auto
  ultimately show ?case by (simp add: fun_eq_iff)
qed

lemma spec_run_append:
  "spec_run A (rs @ qs) =
     (let (vs, A1) = spec_run A rs; (ws, A2) = spec_run A1 qs in (vs @ ws, A2))"
  by (induction rs arbitrary: A) (simp_all add: split_beta Let_def)

text \<open>
  From a key with no open round: \<open>n\<close> workers that each contribute once, in any order, are absorbed
  until the last, whose contribution closes the round with the sum of all.
\<close>

lemma spec_round_completes:
  assumes "A k = None" "length cs = n" "0 < n" "distinct (map fst cs)" "\<forall>c\<in>set cs. length (snd c) = len"
  shows "spec_run A (map (\<lambda>c. Some (k, n, c)) cs) =
    (replicate (n - 1) Absorbed @ [Summed (column_sum len (mset (map snd cs)))], A)"
proof (cases cs rule: rev_cases)
  case (snoc cs' c)
  have last: "spec_contribute B k n c = (Summed (column_sum len (mset (map snd cs))), B(k := None))"
    if "round_of B k n c = \<lparr>r_len = len, r_expected = n, r_log = cs'\<rparr>" for B
    using that assms snoc by (auto simp: spec_contribute_def Let_def)
  show ?thesis
  proof (cases cs')
    case Nil
    then show ?thesis using last [of A] assms snoc by (simp add: round_of_def fun_upd_idem)
  next
    case (Cons c0 cs0)
    let ?r = "\<lparr>r_len = len, r_expected = n, r_log = [c0]\<rparr>"
    have "spec_contribute A k n c0 = (Absorbed, A(k \<mapsto> ?r))"
      using assms snoc Cons by (auto simp: spec_contribute_def round_of_def Let_def)
    moreover have "spec_run (A(k \<mapsto> ?r)) (map (\<lambda>c. Some (k, n, c)) cs0) =
        (replicate (length cs0) Absorbed, (A(k \<mapsto> ?r))(k \<mapsto> \<lparr>r_len = len, r_expected = n, r_log = [c0] @ cs0\<rparr>))"
      using assms snoc Cons by (intro spec_round_absorbs) auto
    ultimately show ?thesis
      using last [of "A(k \<mapsto> \<lparr>r_len = len, r_expected = n, r_log = cs'\<rparr>)"] assms snoc Cons
      by (simp add: spec_run_append round_of_def fun_upd_idem Let_def)
        (auto simp: replicate_append_same)
  qed
qed (use assms in simp)

text \<open>Requests for other keys do not touch a round.\<close>

lemma spec_run_frame:
  assumes "\<forall>q\<in>set rs. \<forall>k' n c. q = Some (k', n, c) \<longrightarrow> k' \<noteq> k"
  shows "snd (spec_run A rs) k = A k"
  using assms
proof (induction rs arbitrary: A)
  case (Cons q rs)
  have "snd (spec_request A q) k = A k"
  proof (cases q)
    case (Some req)
    then obtain k' n c where q: "q = Some (k', n, c)" by (cases req) auto
    with Cons.prems have "k' \<noteq> k" by simp
    then show ?thesis unfolding q by (cases rule: spec_contribute_cases [of A k' n c]) simp_all
  qed simp
  with Cons show ?case by (simp add: split_beta Let_def)
qed simp

text \<open>A request for another key, or for none, leaves a round alone.\<close>

lemma spec_request_frame:
  assumes "\<And>k' n c. q = Some (k', n, c) \<Longrightarrow> k' \<noteq> k" "spec_request A q = (v, A')"
  shows "A' k = A k"
  using spec_run_frame [of "[q]" k A] assms by (simp add: split_beta)

text \<open>What becomes of a contribution to a round that is open.\<close>

lemma spec_contribute_open:
  assumes "A k = Some r" "length (snd c) = r_len r"
  shows "spec_contribute A k n c =
    (if fst c \<in> fst ` set (r_log r) then (Ignored, A)
     else if length (r_log r @ [c]) = r_expected r then (Summed (column_sum (r_len r) (mset (map snd (r_log r @ [c])))), A(k := None))
     else (Absorbed, A(k \<mapsto> r\<lparr>r_log := r_log r @ [c]\<rparr>)))"
  using assms by (simp add: spec_contribute_def round_of_def Let_def)

end
