(* ===== verification/Agg_Rounds.thy ===== *)
theory Agg_Rounds
  imports Agg_Jobs Aggregator_Spec
begin

text \<open>
  What the userspace aggregator sends. Every entry of the slot table in use stands for a round of the
  abstract aggregator, a contribution acts on the entry it is routed to as \<open>spec_contribute\<close> acts on
  the round, and so every datagram sent is the sum of the contributions of one complete round. This
  holds for any table, intact chains or not; it also shows that the loop never faults and that the
  bytes left in the buffers by earlier datagrams play no part.
\<close>

section \<open>Entries and rounds\<close>

abbreviation sl_workers :: "'a slot_base_scheme \<Rightarrow> nat set" where
  "sl_workers s \<equiv> {w. seen_mem (sl_seen_worker s) w}"

definition entry_round :: "agg_slot \<Rightarrow> round \<Rightarrow> bool" where
  "entry_round s r \<longleftrightarrow> sl_arrays_ok s \<and> r_len r = unat (sl_chunk_len s) \<and> r_len r \<le> 64 \<and>
     r_expected r = unat (sl_num_workers_expected s) \<and> r_expected r \<le> 256 \<and>
     length (r_log r) = unat (sl_contributions_received s) \<and> r_log r \<noteq> [] \<and> length (r_log r) < r_expected r \<and>
     sl_sum s = log_sum (r_log r) \<and> sl_workers s = fst ` set (r_log r) \<and> distinct (map fst (r_log r)) \<and>
     (\<forall>c\<in>set (r_log r). length (snd c) = r_len r)"

type_synonym entry_rounds = "nat \<rightharpoonup> round"

definition entries_track :: "(nat \<Rightarrow> agg_slot) \<Rightarrow> entry_rounds \<Rightarrow> bool" where
  "entries_track g R \<longleftrightarrow>
     (\<forall>i<SLOT_TABLE_CAPACITY. if sl_in_use (g i) then \<exists>r. R i = Some r \<and> entry_round (g i) r else R i = None)"

lemma entries_track_used:
  "entries_track g R \<Longrightarrow> i < SLOT_TABLE_CAPACITY \<Longrightarrow> sl_in_use (g i) \<Longrightarrow> \<exists>r. R i = Some r \<and> entry_round (g i) r"
  by (auto simp: entries_track_def)

lemma entries_track_unused:
  "entries_track g R \<Longrightarrow> i < SLOT_TABLE_CAPACITY \<Longrightarrow> \<not> sl_in_use (g i) \<Longrightarrow> R i = None"
  by (auto simp: entries_track_def)

lemma entries_track_upd:
  "entries_track g R \<Longrightarrow> sl_in_use s \<Longrightarrow> entry_round s r \<Longrightarrow> entries_track (g(i := s)) (R(i \<mapsto> r))"
  by (simp add: entries_track_def)

lemma entries_track_free:
  "entries_track g R \<Longrightarrow> \<not> sl_in_use s \<Longrightarrow> entries_track (g(i := s)) (R(i := None))"
  by (simp add: entries_track_def)

section \<open>Emission\<close>

lemma agg_write_values_from:
  assumes "n \<le> length acc" "off + 4 * n \<le> length p" "i \<le> n"
  shows "agg_write_values (patch p off (encode_values (take i acc))) off n i acc =
    Some (patch p off (encode_values (take n acc)))"
  using assms(3)
proof (induction i rule: inc_induct)
  case base
  show ?case by (simp add: agg_write_values.simps)
next
  case (step i)
  have "patch (patch p off (encode_values (take i acc))) (off + 4 * i) (be32_bytes (acc ! i)) =
      patch p off (encode_values (take (Suc i) acc))"
    using patch_append [of off "encode_values (take i acc)" "be32_bytes (acc ! i)" p] step.hyps assms
    by (simp add: take_Suc_conv_app_nth encode_values_snoc)
  with step assms show ?case
    by (subst agg_write_values.simps) (simp add: safe_access)
qed

lemma agg_write_values_eq [safe_access]:
  "n \<le> length acc \<Longrightarrow> off + 4 * n \<le> length p \<Longrightarrow>
     agg_write_values p off n 0 acc = Some (patch p off (encode_values (take n acc)))"
  using agg_write_values_from [of n acc off p 0] by simp

text \<open>The header of an aggregated packet.\<close>

definition sum_hdr :: "grad_slot_key \<Rightarrow> nat \<Rightarrow> grad_hdr" where
  "sum_hdr k n = \<lparr>gh_job_id = k_job_id k, gh_round = k_round k, gh_chunk_id = k_chunk_id k, gh_worker_id = 0,
     gh_num_workers = 1, gh_chunk_len = word_of_nat n, gh_flags = 0\<rparr>"

lemma agg_emit_eq:
  assumes out: "length (ag_out_packet st) = 276" and s: "ag_slots st i = slot" "length (sl_sum slot) = 64"
    "unat (sl_chunk_len slot) \<le> 64"
  shows "\<exists>st' sum0. agg_emit inp h i st = Some (st',
     [Ag_complete (gh_job_id h) (gh_round h) (gh_chunk_id h) (sl_contributions_received slot) sum0
        (ai_now_completed inp - sl_first_seen_micros slot),
      Ag_send (encode_packet (sum_hdr (key_of h) (unat (sl_chunk_len slot))) (take (unat (sl_chunk_len slot)) (sl_sum slot)))
        (ai_sendto_ok inp)]) \<and>
     ag_slots st' = (ag_slots st)(i := slot\<lparr>sl_in_use := False\<rparr>) \<and> length (ag_out_packet st') = 276 \<and>
     ag_in_packet st' = ag_in_packet st"
proof -
  let ?n = "unat (sl_chunk_len slot)"
  let ?h = "\<lparr>gh_job_id = gh_job_id h, gh_round = gh_round h, gh_chunk_id = gh_chunk_id h, gh_worker_id = 0,
        gh_num_workers = 1, gh_chunk_len = sl_chunk_len slot, gh_flags = 0\<rparr>"
  have h: "sum_hdr (key_of h) ?n = ?h" by (simp add: sum_hdr_def key_of_def)
  let ?v = "encode_values (take ?n (sl_sum slot))"
  have len: "length ?v = 4 * ?n" using s by simp
  have "take (20 + 4 * ?n) (patch (patch (ag_out_packet st) 0 (encode_hdr ?h)) 20 ?v) = encode_packet ?h (take ?n (sl_sum slot))"
    using take_patch2 [of "encode_hdr ?h" ?v "ag_out_packet st"] out s len by (simp add: encode_packet_def)
  then show ?thesis
    using out s len h
    by (cases "free_slot i (ag_slots st) (ag_jobs st)")
      (auto simp: agg_emit_def safe_access NETSUM_HDR_SIZE_def Let_def free_slot_def mult.commute split: prod.splits)
qed

section \<open>A contribution is a request to the round of its entry\<close>

fun sent :: "agg_event list \<Rightarrow> bytes list" where
  "sent [] = []"
| "sent (Ag_send b ok # evs) = b # sent evs"
| "sent (_ # evs) = sent evs"

lemma sent_append [simp]: "sent (evs @ evs') = sent evs @ sent evs'"
  by (induction evs rule: sent.induct) simp_all

text \<open>The rounds of an entry as a map with at most the key of the entry.\<close>

definition entry_map :: "grad_slot_key \<Rightarrow> round option \<Rightarrow> open_rounds" where
  "entry_map k ro = (\<lambda>k'. if k' = k then ro else None)"

lemma entry_map_simps [simp]:
  "entry_map k ro k = ro" "(entry_map k ro)(k := x) = entry_map k x"
  by (auto simp: entry_map_def)

definition sends_verdict :: "grad_slot_key \<Rightarrow> verdict \<Rightarrow> bytes list" where
  "sends_verdict k v = (case v of Summed tot \<Rightarrow> [encode_packet (sum_hdr k (length tot)) tot] | _ \<Rightarrow> [])"

text \<open>What the code works on when it has the entry: the fields the first contribution latches.\<close>

definition latched :: "agg_input \<Rightarrow> grad_hdr \<Rightarrow> agg_slot \<Rightarrow> agg_slot" where
  "latched inp h s = (if sl_contributions_received s = 0
     then s\<lparr>sl_chunk_len := gh_chunk_len h, sl_num_workers_expected := gh_num_workers h,
            sl_first_seen_micros := ai_now_first inp\<rparr>
     else s)"

lemma latched_round:
  fixes h :: grad_hdr and inp :: agg_input and c :: contribution
  assumes s: "s = new_slot k \<and> ro = None \<or> sl_key s = k \<and> sl_in_use s \<and> (\<exists>r. ro = Some r \<and> entry_round s r)"
    and c: "length (snd c) = unat (gh_chunk_len h)" "length (snd c) \<le> 64"
    and n: "n = unat (gh_num_workers h)" "0 < n" "n \<le> 256"
    and r: "r = round_of (entry_map k ro) k n c" and l: "l = latched inp h s"
  shows "sl_in_use l" "sl_key l = k" "sl_arrays_ok l" "r_len r = unat (sl_chunk_len l)" "r_len r \<le> 64"
    "r_expected r = unat (sl_num_workers_expected l)" "r_expected r \<le> 256" "length (r_log r) < r_expected r"
    "length (r_log r) = unat (sl_contributions_received l)" "sl_sum l = log_sum (r_log r)"
    "sl_workers l = fst ` set (r_log r)" "distinct (map fst (r_log r))" "\<forall>c\<in>set (r_log r). length (snd c) = r_len r"
    "ro = Some r \<Longrightarrow> l = s" "ro = None \<Longrightarrow> r_log r = [] \<and> r_len r = length (snd c)"
proof -
  have "sl_in_use l \<and> sl_key l = k \<and> sl_arrays_ok l \<and> r_len r = unat (sl_chunk_len l) \<and> r_len r \<le> 64 \<and>
    r_expected r = unat (sl_num_workers_expected l) \<and> r_expected r \<le> 256 \<and> length (r_log r) < r_expected r \<and>
    length (r_log r) = unat (sl_contributions_received l) \<and> sl_sum l = log_sum (r_log r) \<and>
    sl_workers l = fst ` set (r_log r) \<and> distinct (map fst (r_log r)) \<and> (\<forall>c\<in>set (r_log r). length (snd c) = r_len r) \<and>
    (ro = Some r \<longrightarrow> l = s) \<and> (ro = None \<longrightarrow> r_log r = [] \<and> r_len r = length (snd c))"
    using s
  proof (elim disjE conjE exE)
    assume "s = new_slot k" "ro = None"
    then show ?thesis using c n seen.workers_fresh
      by (simp add: l r latched_def round_of_def sl_arrays_ok_def sl_key_def new_slot_def zero_agg_slot_def)
  next
    fix r' assume r': "ro = Some r'" "entry_round s r'" and k: "sl_key s = k" "sl_in_use s"
    then have "sl_contributions_received s \<noteq> 0" by (auto simp: entry_round_def)
    then have "l = s" "r = r'" using r'(1) by (simp_all add: l latched_def r round_of_def)
    with r' k show ?thesis by (simp add: entry_round_def)
  qed
  then show "sl_in_use l" "sl_key l = k" "sl_arrays_ok l" "r_len r = unat (sl_chunk_len l)" "r_len r \<le> 64"
    "r_expected r = unat (sl_num_workers_expected l)" "r_expected r \<le> 256" "length (r_log r) < r_expected r"
    "length (r_log r) = unat (sl_contributions_received l)" "sl_sum l = log_sum (r_log r)"
    "sl_workers l = fst ` set (r_log r)" "distinct (map fst (r_log r))" "\<forall>c\<in>set (r_log r). length (snd c) = r_len r"
    "ro = Some r \<Longrightarrow> l = s" "ro = None \<Longrightarrow> r_log r = [] \<and> r_len r = length (snd c)"
    by simp_all
qed

text \<open>The body of the loop once it has an entry, on the latched slot.\<close>

lemma agg_contribute_found:
  assumes f: "find_or_create_slot (ac_job_quota cfg) (ag_slots st) (ag_jobs st) (key_of h) = (Some i, g, J)"
  shows "agg_contribute cfg inp h st =
    (let slot = latched inp h (g i) in
     if sl_chunk_len slot \<noteq> gh_chunk_len h
     then Some (st\<lparr>ag_slots := g, ag_jobs := J\<rparr>, [Ag_mismatch (gh_job_id h) (gh_round h) (gh_chunk_id h) (gh_worker_id h)
                 (gh_chunk_len h) (sl_chunk_len (g i))])
     else do {
       dup \<leftarrow> seen_test (sl_seen_worker slot) (unat (gh_worker_id h));
       if dup then Some (st\<lparr>ag_jobs := J, ag_slots := g(i := slot)\<rparr>, [Ag_dup (gh_job_id h) (gh_round h) (gh_chunk_id h) (gh_worker_id h)])
       else do {
         seen \<leftarrow> seen_mark (sl_seen_worker slot) (unat (gh_worker_id h));
         acc \<leftarrow> accumulate (ag_in_packet st) 20 (unat (gh_chunk_len h)) 0 (sl_sum slot);
         let slot = slot\<lparr>sl_seen_worker := seen, sl_last_touched_micros := ai_now_touched inp,
            sl_sum := acc, sl_contributions_received := sl_contributions_received slot + 1\<rparr>;
         let st = st\<lparr>ag_jobs := J, ag_slots := g(i := slot)\<rparr>;
         if sl_contributions_received slot < sl_num_workers_expected slot then Some (st, [])
         else agg_emit inp h i st } })"
  unfolding agg_contribute_def f latched_def
  by (simp add: Let_def NETSUM_HDR_SIZE_def cong: if_cong)

text \<open>A contribution that fits and is of a new worker is added.\<close>

lemma agg_contribute_adds:
  assumes f: "find_or_create_slot (ac_job_quota cfg) (ag_slots st) (ag_jobs st) (key_of h) = (Some i, g, J)"
    and buf: "length (ag_in_packet st) = 276" and h: "unat (gh_chunk_len h) \<le> 64" "unat (gh_worker_id h) < 256"
    and l: "l = latched inp h (g i)" "sl_arrays_ok l" "sl_chunk_len l = gh_chunk_len h" "\<not> seen_mem (sl_seen_worker l) (unat (gh_worker_id h))"
  obtains s' where "agg_contribute cfg inp h st = (let st = st\<lparr>ag_jobs := J, ag_slots := g(i := s')\<rparr> in
      if sl_contributions_received s' < sl_num_workers_expected s' then Some (st, []) else agg_emit inp h i st)"
    "sl_in_use s' = sl_in_use l" "sl_key s' = sl_key l" "sl_arrays_ok s'" "sl_chunk_len s' = sl_chunk_len l"
    "sl_num_workers_expected s' = sl_num_workers_expected l" "sl_workers s' = insert (unat (gh_worker_id h)) (sl_workers l)"
    "sl_sum s' = add_values (sl_sum l) (wire_values (ag_in_packet st) 20 (unat (gh_chunk_len h)))"
    "sl_contributions_received s' = sl_contributions_received l + 1"
proof -
  have l256: "length (sl_seen_worker l) = 256" "length (sl_sum l) = 64" using l(2) by (simp_all add: sl_arrays_ok_def)
  obtain b where b: "seen_mark (sl_seen_worker l) (unat (gh_worker_id h)) = Some b" "length b = 256"
    "{v. seen_mem b v} = insert (unat (gh_worker_id h)) (sl_workers l)"
    using seen.mark_obtain [OF l256(1) h(2)] by metis
  let ?s = "l\<lparr>sl_seen_worker := b, sl_last_touched_micros := ai_now_touched inp,
      sl_sum := add_values (sl_sum l) (wire_values (ag_in_packet st) 20 (unat (gh_chunk_len h))),
      sl_contributions_received := sl_contributions_received l + 1\<rparr>"
  have acc: "accumulate (ag_in_packet st) 20 (unat (gh_chunk_len h)) 0 (sl_sum l) = Some (sl_sum ?s)"
    using h(1) l256 buf by (simp add: accumulate_eq)
  have "agg_contribute cfg inp h st = (let st = st\<lparr>ag_jobs := J, ag_slots := g(i := ?s)\<rparr> in
      if sl_contributions_received ?s < sl_num_workers_expected ?s then Some (st, []) else agg_emit inp h i st)"
    unfolding agg_contribute_found [OF f, of inp, folded l(1)] Let_def
    using l(3,4) seen.test [OF l256(1) h(2)] b(1) acc by simp
  then show thesis by (rule that) (use b(2,3) l256 in \<open>simp_all add: sl_arrays_ok_def sl_key_def\<close>)
qed

lemma agg_contribute_refines:
  fixes h :: grad_hdr and st :: agg_state and R :: entry_rounds
  assumes tr: "entries_track (ag_slots st) R" and buf: "length (ag_in_packet st) = 276" "length (ag_out_packet st) = 276"
    and h: "unat (gh_chunk_len h) \<le> 64" "unat (gh_worker_id h) < 256" "0 < unat (gh_num_workers h)" "unat (gh_num_workers h) \<le> 256"
    and f: "find_or_create_slot (ac_job_quota cfg) (ag_slots st) (ag_jobs st) (key_of h) = (Some i, g, J)"
  defines "k \<equiv> key_of h" and "n \<equiv> unat (gh_num_workers h)"
    and "c \<equiv> (unat (gh_worker_id h), wire_values (ag_in_packet st) 20 (unat (gh_chunk_len h)))"
  shows "\<exists>st' evs v A'. agg_contribute cfg inp h st = Some (st', evs) \<and>
    spec_contribute (entry_map k (R i)) k n c = (v, A') \<and> entries_track (ag_slots st') (R(i := A' k)) \<and>
    sent evs = sends_verdict k v \<and> length (ag_in_packet st') = 276 \<and> length (ag_out_packet st') = 276 \<and>
    (\<forall>j. j \<noteq> i \<longrightarrow> ag_slots st' j = ag_slots st j) \<and> (sl_in_use (ag_slots st' i) \<longrightarrow> sl_key (ag_slots st' i) = k)"
proof -
  note fs = find_or_create_slot_Some [OF f]
  let ?s = "g i"
  have s: "?s = new_slot k \<and> R i = None \<or> sl_key ?s = k \<and> sl_in_use ?s \<and> (\<exists>r. R i = Some r \<and> entry_round ?s r)"
    using fs entries_track_used [OF tr fs(1)] entries_track_unused [OF tr fs(1)] probe_slot_Free(2) probe_slot_Found(2)
    unfolding k_def by metis
  have c: "length (snd c) = unat (gh_chunk_len h)" "length (snd c) \<le> 64" "fst c = unat (gh_worker_id h)"
    using h by (simp_all add: c_def)
  define r where "r = round_of (entry_map k (R i)) k n c"
  define l where "l = latched inp h ?s"
  note L = latched_round [OF s c(1,2) n_def [THEN meta_eq_to_obj_eq] h(3,4) [folded n_def] r_def l_def]
  have others: "g j = ag_slots st j" if "j \<noteq> i" for j using fs(4) that by (metis fun_upd_other)
  have len_iff: "sl_chunk_len l = gh_chunk_len h \<longleftrightarrow> length (snd c) = r_len r"
    using L(4) c(1) by (auto simp: word_unat_eq_iff)
  have dup_iff: "seen_mem (sl_seen_worker l) (unat (gh_worker_id h)) \<longleftrightarrow> fst c \<in> fst ` set (r_log r)"
    using L(11) c(3) by auto
  let ?st = "\<lambda>s'. st\<lparr>ag_jobs := J, ag_slots := g(i := s')\<rparr>"
  have added: "\<exists>s'. agg_contribute cfg inp h st = (if length (r_log r @ [c]) \<noteq> r_expected r then Some (?st s', []) else agg_emit inp h i (?st s')) \<and>
      sl_in_use s' \<and> sl_key s' = k \<and> sl_arrays_ok s' \<and> sl_chunk_len s' = sl_chunk_len l \<and>
      sl_num_workers_expected s' = sl_num_workers_expected l \<and> sl_workers s' = fst ` set (r_log r @ [c]) \<and>
      sl_sum s' = log_sum (r_log r @ [c]) \<and> unat (sl_contributions_received s') = length (r_log r @ [c])"
    if fits: "length (snd c) = r_len r" "fst c \<notin> fst ` set (r_log r)"
  proof -
    have fits': "sl_chunk_len l = gh_chunk_len h" "\<not> seen_mem (sl_seen_worker l) (unat (gh_worker_id h))"
      using fits len_iff dup_iff by blast+
    obtain s' where a: "agg_contribute cfg inp h st = (let st = ?st s' in
        if sl_contributions_received s' < sl_num_workers_expected s' then Some (st, []) else agg_emit inp h i st)"
      "sl_in_use s' = sl_in_use l" "sl_key s' = sl_key l" "sl_arrays_ok s'" "sl_chunk_len s' = sl_chunk_len l"
      "sl_num_workers_expected s' = sl_num_workers_expected l" "sl_workers s' = insert (unat (gh_worker_id h)) (sl_workers l)"
      "sl_sum s' = add_values (sl_sum l) (wire_values (ag_in_packet st) 20 (unat (gh_chunk_len h)))"
      "sl_contributions_received s' = sl_contributions_received l + 1"
      by (rule agg_contribute_adds [OF f buf(1) h(1,2) l_def L(3) fits'])
    have cnt: "unat (sl_contributions_received s') = length (r_log r @ [c])" using a(9) L(7-9) by (simp add: unat_word_ariths)
    have "sl_contributions_received s' < sl_num_workers_expected s' \<longleftrightarrow> length (r_log r @ [c]) \<noteq> r_expected r"
      using cnt L(6,8) a(6) by (auto simp: word_less_nat_alt)
    then show ?thesis using a L(1,2,10,11) cnt by (intro exI [of _ s']) (simp add: Let_def c_def)
  qed
  show ?thesis
  proof (cases rule: spec_contribute_cases [of "entry_map k (R i)" k n c, folded r_def, case_names ignored summed absorbed])
    case ignored
    have Ri: "R i = Some r \<and> entry_round ?s r" using s L(14,15) ignored(2) by (auto simp: r_def round_of_def)
    then have ls: "l = ?s" using L(14) by simp
    have "g = ag_slots st" using fs(5) Ri entries_track_unused [OF tr fs(1)] probe_slot_Free(2) by fastforce
    moreover have "length (sl_seen_worker l) = 256" using L(3) by (simp add: sl_arrays_ok_def)
    then have "\<exists>evs. agg_contribute cfg inp h st = Some (st\<lparr>ag_slots := g, ag_jobs := J\<rparr>, evs) \<and> sent evs = []"
      using ignored(2) len_iff dup_iff seen.test [of "sl_seen_worker l", OF _ h(2)] ls
      by (cases "length (snd c) = r_len r") (simp_all add: agg_contribute_found [OF f, of inp, folded l_def])
    ultimately show ?thesis
      using ignored(1) tr buf fs(3) by (auto simp: sends_verdict_def k_def)
  next
    case summed
    obtain s' where s': "agg_contribute cfg inp h st = agg_emit inp h i (?st s')"
      "sl_arrays_ok s'" "sl_chunk_len s' = sl_chunk_len l" "sl_sum s' = log_sum (r_log r @ [c])"
      using added [OF summed(2,3)] summed(4) by auto
    let ?tot = "column_sum (r_len r) (mset (map snd (r_log r @ [c])))"
    have tot: "take (unat (sl_chunk_len s')) (sl_sum s') = ?tot"
      unfolding s'(3,4) L(4) [symmetric] using L(5,13) summed(2) by (intro log_sum_column) auto
    have len: "length ?tot = unat (sl_chunk_len s')" using L(4) s'(3) by simp
    obtain st' sum0 where e: "agg_emit inp h i (?st s') = Some (st',
        [Ag_complete (gh_job_id h) (gh_round h) (gh_chunk_id h) (sl_contributions_received s') sum0
           (ai_now_completed inp - sl_first_seen_micros s'),
         Ag_send (encode_packet (sum_hdr k (length ?tot)) ?tot) (ai_sendto_ok inp)])"
      "ag_slots st' = (g(i := s'))(i := s'\<lparr>sl_in_use := False\<rparr>)" "length (ag_out_packet st') = 276"
      "ag_in_packet st' = ag_in_packet st"
      using agg_emit_eq [of "?st s'" i s' inp h] buf s'(2) L(4,5) s'(3) unfolding tot len k_def by (auto simp: sl_arrays_ok_def)
    have "ag_slots st' = (ag_slots st)(i := s'\<lparr>sl_in_use := False\<rparr>)" using fs(4) unfolding e(2) by (metis fun_upd_upd)
    then have "entries_track (ag_slots st') (R(i := None))" using entries_track_free [OF tr] by simp
    then show ?thesis using s'(1) summed(1) e buf others by (auto simp: sends_verdict_def)
  next
    case absorbed
    let ?r = "r\<lparr>r_log := r_log r @ [c]\<rparr>"
    obtain s' where s': "agg_contribute cfg inp h st = Some (?st s', [])" "sl_in_use s'" "sl_key s' = k" "entry_round s' ?r"
      using added [OF absorbed(2,3)] absorbed(2-4) L(4-8,12,13) by (auto simp: entry_round_def)
    have "g(i := s') = (ag_slots st)(i := s')" using fs(4) by (metis fun_upd_upd)
    then have "entries_track (g(i := s')) (R(i \<mapsto> ?r))" using entries_track_upd [OF tr s'(2,4)] by simp
    then show ?thesis using s'(1,3) absorbed(1) buf others by (auto simp: sends_verdict_def)
  qed
qed

section \<open>The reaper\<close>

text \<open>The sweep clears \<open>in_use\<close> of exactly the entries whose age has reached the TTL, and logs each.\<close>

lemma free_slot_slots: "free_slot i g J = (g', J') \<Longrightarrow> g' = g(i := (g i)\<lparr>sl_in_use := False\<rparr>)"
  by (auto simp: free_slot_def Let_def split: prod.splits)

lemma reap_slots:
  "i \<le> SLOT_TABLE_CAPACITY \<Longrightarrow> reap_from now ttl i g J = (g', J', evs) \<Longrightarrow>
     g' = (\<lambda>j. if i \<le> j \<and> j < SLOT_TABLE_CAPACITY \<and> expired now ttl (g j) then (g j)\<lparr>sl_in_use := False\<rparr> else g j) \<and>
     evs = map (\<lambda>j. Ag_reaped (sl_job_id (g j)) (sl_round (g j)) (sl_chunk_id (g j)) ((now - sl_last_touched_micros (g j)) div 1000))
       (filter (\<lambda>j. expired now ttl (g j)) [i..<SLOT_TABLE_CAPACITY])"
proof (induction i arbitrary: g J evs rule: inc_induct)
  case base
  then show ?case by (auto simp: reap_done fun_eq_iff)
next
  case (step i)
  have up: "[i..<SLOT_TABLE_CAPACITY] = i # [Suc i..<SLOT_TABLE_CAPACITY]" using step.hyps by (simp add: upt_conv_Cons)
  show ?case
  proof (cases "expired now ttl (g i)")
    case False
    from step.IH [of g J evs] step.prems have "g' = (\<lambda>j. if Suc i \<le> j \<and> j < SLOT_TABLE_CAPACITY \<and> expired now ttl (g j) then (g j)\<lparr>sl_in_use := False\<rparr> else g j)"
      "evs = map (\<lambda>j. Ag_reaped (sl_job_id (g j)) (sl_round (g j)) (sl_chunk_id (g j)) ((now - sl_last_touched_micros (g j)) div 1000))
       (filter (\<lambda>j. expired now ttl (g j)) [Suc i..<SLOT_TABLE_CAPACITY])"
      using reap_skip [of i now ttl g J] False step.hyps by simp_all
    then show ?thesis unfolding up using False by (auto simp: fun_eq_iff le_Suc_eq Suc_le_eq le_less)
  next
    case True
    obtain g1 J1 where f: "free_slot i g J = (g1, J1)" by (cases "free_slot i g J")
    have g1: "g1 = g(i := (g i)\<lparr>sl_in_use := False\<rparr>)" using f by (rule free_slot_slots)
    obtain g2 J2 evs2 where r: "reap_from now ttl (Suc i) g1 J1 = (g2, J2, evs2)"
      by (cases "reap_from now ttl (Suc i) g1 J1") auto
    have eq: "g' = g2" "J' = J2" "evs = Ag_reaped (sl_job_id (g i)) (sl_round (g i)) (sl_chunk_id (g i)) ((now - sl_last_touched_micros (g i)) div 1000) # evs2"
      using step.prems unfolding reap_evict [where g = g, OF step.hyps(2) True] f by (simp_all add: r)
    have IH: "g2 = (\<lambda>j. if Suc i \<le> j \<and> j < SLOT_TABLE_CAPACITY \<and> expired now ttl (g1 j) then (g1 j)\<lparr>sl_in_use := False\<rparr> else g1 j)"
      "evs2 = map (\<lambda>j. Ag_reaped (sl_job_id (g1 j)) (sl_round (g1 j)) (sl_chunk_id (g1 j)) ((now - sl_last_touched_micros (g1 j)) div 1000))
       (filter (\<lambda>j. expired now ttl (g1 j)) [Suc i..<SLOT_TABLE_CAPACITY])"
      using step.IH [of g1 J1 evs2] r eq(1,2) by simp_all
    have far: "g1 j = g j" if "Suc i \<le> j" for j using that by (simp add: g1)
    have "evs2 = map (\<lambda>j. Ag_reaped (sl_job_id (g j)) (sl_round (g j)) (sl_chunk_id (g j)) ((now - sl_last_touched_micros (g j)) div 1000))
       (filter (\<lambda>j. expired now ttl (g j)) [Suc i..<SLOT_TABLE_CAPACITY])"
      unfolding IH(2) by (intro map_cong filter_cong) (auto simp: far)
    moreover have "g2 = (\<lambda>j. if i \<le> j \<and> j < SLOT_TABLE_CAPACITY \<and> expired now ttl (g j) then (g j)\<lparr>sl_in_use := False\<rparr> else g j)"
      unfolding IH(1) using True step.hyps by (auto simp: fun_eq_iff g1 Suc_le_eq)
    ultimately show ?thesis unfolding up eq using True by simp
  qed
qed

lemma sent_reaped [simp]: "sent (map (\<lambda>j. Ag_reaped (f j) (g j) (h j) (u j)) js) = []"
  by (induction js) simp_all

lemma sent_stats [simp]: "sent (dump_job_stats J) = []"
proof -
  have "sent (concat (map (\<lambda>i. let j = J i in if \<not> je_in_use j then []
     else [Ag_stats (je_job_id j) (je_concurrent_slots j) (je_admitted_count j) (je_rejected_count j)]) is)) = []" for "is"
    by (induction "is") (simp_all add: Let_def)
  then show ?thesis by (simp add: dump_job_stats_def)
qed

text \<open>What the part before \<open>recvfrom\<close> leaves: entries in use may be dropped, nothing else happens to them.\<close>

lemma agg_maintenance_slots:
  assumes "agg_maintenance cfg inp st = (st', evs)"
  shows "sent evs = []" "ag_in_packet st' = ag_in_packet st" "ag_out_packet st' = ag_out_packet st"
    "ag_packets_in st' = ag_packets_in st"
    "\<exists>E. ag_slots st' = (\<lambda>j. if j \<in> E then (ag_slots st j)\<lparr>sl_in_use := False\<rparr> else ag_slots st j)"
proof -
  obtain g J evs1 where r: "reap_from (ai_now_reap inp) (ac_slot_ttl_ms cfg * 1000) 0 (ag_slots st) (ag_jobs st) = (g, J, evs1)"
    by (cases "reap_from (ai_now_reap inp) (ac_slot_ttl_ms cfg * 1000) 0 (ag_slots st) (ag_jobs st)") auto
  let ?E = "{j. j < SLOT_TABLE_CAPACITY \<and> expired (ai_now_reap inp) (ac_slot_ttl_ms cfg * 1000) (ag_slots st j)}"
  have g: "g = (\<lambda>j. if j \<in> ?E then (ag_slots st j)\<lparr>sl_in_use := False\<rparr> else ag_slots st j)" "sent evs1 = []"
    using reap_slots [OF _ r] by simp_all
  note d = assms [unfolded agg_maintenance_def reap_expired_slots_def r]
  show "sent evs = []" "ag_in_packet st' = ag_in_packet st" "ag_out_packet st' = ag_out_packet st"
    "ag_packets_in st' = ag_packets_in st"
    using d g(2) by (auto split: if_splits)
  have "ag_slots st' = g \<or> ag_slots st' = ag_slots st" using d by (auto split: if_splits)
  then show "\<exists>E. ag_slots st' = (\<lambda>j. if j \<in> E then (ag_slots st j)\<lparr>sl_in_use := False\<rparr> else ag_slots st j)"
  proof
    assume "ag_slots st' = ag_slots st"
    then show ?thesis by (intro exI [of _ "{}"]) simp
  qed (use g in blast)
qed

section \<open>A datagram is a request\<close>

definition agg_accepts :: "bytes \<Rightarrow> bool" where
  "agg_accepts d \<longleftrightarrow> 20 \<le> length d \<and> unat (gh_chunk_len (wire_hdr d 0)) \<le> 64 \<and>
     20 + 4 * unat (gh_chunk_len (wire_hdr d 0)) \<le> length d \<and> unat (gh_worker_id (wire_hdr d 0)) < 256 \<and>
     0 < unat (gh_num_workers (wire_hdr d 0)) \<and> unat (gh_num_workers (wire_hdr d 0)) \<le> 256"

definition request_of :: "bytes \<Rightarrow> grad_slot_key \<times> nat \<times> contribution" where
  "request_of d = (key_of (wire_hdr d 0), unat (gh_num_workers (wire_hdr d 0)), contribution_of d)"

fun agg_request :: "recv \<Rightarrow> request" where
  "agg_request Recv_none = None"
| "agg_request (Datagram d) = (if agg_accepts d then Some (request_of d) else None)"

definition agg_buffers :: "agg_state \<Rightarrow> bool" where
  "agg_buffers st \<longleftrightarrow> length (ag_in_packet st) = 276 \<and> length (ag_out_packet st) = 276"

lemma agg_load_hdr_eq:
  "20 \<le> length p \<Longrightarrow> agg_load_hdr p = Some ((wire_hdr p 0)\<lparr>gh_flags := 0\<rparr>)"
  by (simp add: agg_load_hdr_def wire_load wire_hdr_def)

text \<open>
  The stateless part of an iteration: the state handed to \<open>agg_contribute\<close> differs from the given one
  in buffer, packet count and signal flag only, and the contribution is the datagram's own, whatever
  the buffer held before.
\<close>

lemma agg_receive_cases:
  assumes b: "agg_buffers st"
  obtains (ignored) st' where "agg_request (ai_recv inp) = None" "agg_receive cfg inp st = Some (st', [])"
      "ag_slots st' = ag_slots st" "ag_jobs st' = ag_jobs st" "agg_buffers st'"
      "ag_last_reap_micros st' = ag_last_reap_micros st"
    | (request) d st1 h where "ai_recv inp = Datagram d" "agg_accepts d" "h = (wire_hdr d 0)\<lparr>gh_flags := 0\<rparr>"
      "agg_receive cfg inp st = agg_contribute cfg inp h st1"
      "ag_slots st1 = ag_slots st" "ag_jobs st1 = ag_jobs st" "agg_buffers st1"
      "wire_values (ag_in_packet st1) 20 (unat (gh_chunk_len h)) = wire_values d 20 (unat (gh_chunk_len h))"
      "ag_last_reap_micros st1 = ag_last_reap_micros st"
proof (cases "ai_recv inp")
  case Recv_none
  then show ?thesis using b
    by (intro ignored [of "if ai_sigusr1 inp then handle_sigusr1 st else st"])
      (simp_all add: agg_receive_def agg_buffers_def handle_sigusr1_def NETSUM_HDR_SIZE_def)
next
  case (Datagram d)
  define packet where "packet = snd (recvfrom (ag_in_packet st) (Datagram d))"
  have buf: "length (ag_in_packet st) = 276" "length packet = 276" using b by (simp_all add: agg_buffers_def packet_def del: recvfrom.simps)
  have n: "recvfrom (ag_in_packet st) (Datagram d) = (int (min (length d) 276), packet)"
    unfolding packet_def by (simp add: Let_def buf(1))
  define st1 where "st1 = (if ai_sigusr1 inp then handle_sigusr1 (st\<lparr>ag_in_packet := packet\<rparr>) else st\<lparr>ag_in_packet := packet\<rparr>)"
  define st2 where "st2 = st1\<lparr>ag_packets_in := ag_packets_in st1 + 1\<rparr>"
  have st: "ag_slots st1 = ag_slots st" "ag_jobs st1 = ag_jobs st" "agg_buffers st1" "ag_in_packet st1 = packet"
    "ag_slots st2 = ag_slots st" "ag_jobs st2 = ag_jobs st" "agg_buffers st2" "ag_in_packet st2 = packet"
    "ag_last_reap_micros st2 = ag_last_reap_micros st" "ag_last_reap_micros st1 = ag_last_reap_micros st"
    using b buf by (simp_all add: st1_def st2_def handle_sigusr1_def agg_buffers_def)
  show ?thesis
  proof (cases "20 \<le> length d")
    case False
    then show ?thesis using st(1-3,10)
      by (intro ignored [of st1]) (simp_all add: Datagram agg_receive_def n NETSUM_HDR_SIZE_def agg_accepts_def st1_def Let_def min_def
          del: recvfrom.simps)
  next
    case True
    let ?h = "(wire_hdr d 0)\<lparr>gh_flags := 0\<rparr>"
    have hdr: "wire_hdr packet 0 = wire_hdr d 0"
      unfolding packet_def using True buf by (intro wire_hdr_recv) simp_all
    have rc: "agg_receive cfg inp st = (if agg_accepts d then agg_contribute cfg inp ?h st2 else Some (st2, []))"
      using True buf by (auto simp: agg_receive_def Datagram n NETSUM_HDR_SIZE_def agg_load_hdr_eq hdr Let_def st1_def [symmetric]
          st2_def [symmetric] agg_accepts_def NETSUM_MAX_CHUNK_LEN_def MAX_TRACKED_WORKERS_def unat_gt_0 min_def
          simp del: recvfrom.simps)
    show ?thesis
    proof (cases "agg_accepts d")
      case False
      then show ?thesis using rc st(5-7,9) by (intro ignored [of st2]) (simp_all add: Datagram)
    next
      case acc: True
      then have "wire_values packet 20 (unat (gh_chunk_len ?h)) = wire_values d 20 (unat (gh_chunk_len ?h))"
        unfolding packet_def using buf by (intro wire_values_recv) (simp_all add: agg_accepts_def)
      with acc rc st(5-9) show ?thesis by (intro request [OF Datagram acc refl, of st2]) simp_all
    qed
  qed
qed

section \<open>Every round in the table is explained by the datagrams received\<close>

definition entries_explained :: "request list \<Rightarrow> nat \<Rightarrow> (nat \<Rightarrow> agg_slot) \<Rightarrow> entry_rounds \<Rightarrow> bool" where
  "entries_explained rs t g R \<longleftrightarrow> (\<forall>i<SLOT_TABLE_CAPACITY. explained rs t (entry_map (sl_key (g i)) (R i)))"

lemma explained_entry_map:
  "explained rs t (entry_map k ro) \<longleftrightarrow>
     (\<forall>r. ro = Some r \<longrightarrow> (\<exists>js. explains rs t k (r_len r) (r_expected r) (r_log r) js))"
  by (auto simp: explained_def entry_map_def)

lemma entries_explained_mono: "entries_explained rs t g R \<Longrightarrow> t \<le> u \<Longrightarrow> entries_explained rs u g R"
  unfolding entries_explained_def by (blast intro: explained_mono)

definition agg_simulates :: "request list \<Rightarrow> nat \<Rightarrow> agg_state \<Rightarrow> bool" where
  "agg_simulates rs t st \<longleftrightarrow> agg_buffers st \<and>
     (\<exists>R. entries_track (ag_slots st) R \<and> entries_explained rs t (ag_slots st) R)"

lemma agg_maintenance_simulates:
  assumes m: "agg_maintenance cfg inp st = (st', evs)" and s: "agg_simulates rs t st"
  shows "agg_simulates rs t st'"
proof -
  obtain R where R: "entries_track (ag_slots st) R" "entries_explained rs t (ag_slots st) R" and b: "agg_buffers st"
    using s by (auto simp: agg_simulates_def)
  obtain E where E: "ag_slots st' = (\<lambda>j. if j \<in> E then (ag_slots st j)\<lparr>sl_in_use := False\<rparr> else ag_slots st j)"
    using agg_maintenance_slots(5) [OF m] by blast
  let ?R = "\<lambda>j. if j \<in> E then None else R j"
  have "entries_track (ag_slots st') ?R" using R(1) by (simp add: entries_track_def E)
  moreover have "entries_explained rs t (ag_slots st') ?R"
    using R(2) by (simp add: entries_explained_def E explained_entry_map)
  moreover have "agg_buffers st'" using b agg_maintenance_slots(2,3) [OF m] by (simp add: agg_buffers_def)
  ultimately show ?thesis by (auto simp: agg_simulates_def)
qed

lemma spec_contribute_entry:
  assumes "spec_contribute (entry_map k ro) k n c = (v, A')"
  shows "A' = entry_map k (A' k)"
  using assms by (cases rule: spec_contribute_cases [of "entry_map k ro" k n c]) auto

lemma agg_receive_simulates:
  assumes s: "agg_simulates rs t st" and req: "rs ! t = agg_request (ai_recv inp)"
  shows "\<exists>st' evs. agg_receive cfg inp st = Some (st', evs) \<and> agg_simulates rs (Suc t) st' \<and>
    (sent evs = [] \<or> (\<exists>k tot. sent evs = [encode_packet (sum_hdr k (length tot)) tot] \<and> sum_explained rs t k tot))"
proof -
  obtain R where R: "entries_track (ag_slots st) R" "entries_explained rs t (ag_slots st) R" and b: "agg_buffers st"
    using s by (auto simp: agg_simulates_def)
  note R' = entries_explained_mono [OF R(2), of "Suc t", simplified]
  show ?thesis
  proof (cases rule: agg_receive_cases [OF b, of inp cfg, case_names ignored request])
    case (ignored st')
    then show ?thesis using R(1) R' by (auto simp: agg_simulates_def)
  next
    case (request d st1 h)
    let ?k = "key_of h" and ?n = "unat (gh_num_workers h)"
    let ?c = "(unat (gh_worker_id h), wire_values (ag_in_packet st1) 20 (unat (gh_chunk_len h)))"
    have h: "unat (gh_chunk_len h) \<le> 64" "unat (gh_worker_id h) < 256" "0 < unat (gh_num_workers h)" "unat (gh_num_workers h) \<le> 256"
      using request(2,3) by (simp_all add: agg_accepts_def)
    have rq: "rs ! t = Some (?k, ?n, ?c)"
      using req request(1-3,8) by (simp add: request_of_def contribution_of_def key_of_def)
    obtain r g J where f: "find_or_create_slot (ac_job_quota cfg) (ag_slots st1) (ag_jobs st1) ?k = (r, g, J)"
      by (cases "find_or_create_slot (ac_job_quota cfg) (ag_slots st1) (ag_jobs st1) ?k") auto
    show ?thesis
    proof (cases r)
      case None
      have "g = ag_slots st1" using find_or_create_slot_None f None by simp
      then show ?thesis
        using f None request(4,5,7) R(1) R'
        by (auto simp: agg_contribute_def agg_simulates_def agg_buffers_def)
    next
      case (Some i)
      have tr: "entries_track (ag_slots st1) R" using R(1) request(5) by simp
      have bufs: "length (ag_in_packet st1) = 276" "length (ag_out_packet st1) = 276"
        using request(7) by (simp_all add: agg_buffers_def)
      obtain st' evs v A' where c: "agg_contribute cfg inp h st1 = Some (st', evs)"
        "spec_contribute (entry_map ?k (R i)) ?k ?n ?c = (v, A')" "entries_track (ag_slots st') (R(i := A' ?k))"
        "sent evs = sends_verdict ?k v" "length (ag_in_packet st') = 276" "length (ag_out_packet st') = 276"
        "\<forall>j. j \<noteq> i \<longrightarrow> ag_slots st' j = ag_slots st1 j" "sl_in_use (ag_slots st' i) \<longrightarrow> sl_key (ag_slots st' i) = ?k"
        using agg_contribute_refines [OF tr bufs h f [unfolded Some], of inp] by blast
      have i: "i < SLOT_TABLE_CAPACITY" using find_or_create_slot_Some(1) f Some by blast
      have "explained rs t (entry_map ?k (R i))"
      proof (cases "R i")
        case (Some ri)
        then have "sl_key (ag_slots st1 i) = ?k"
          using find_or_create_slot_Some(3,5) [OF f [unfolded \<open>r = Some i\<close>]] entries_track_unused [OF tr i] probe_slot_Free(2)
          by (metis option.distinct(1))
        with R(2) i request(5) show ?thesis by (auto simp: entries_explained_def)
      qed (simp add: explained_entry_map)
      note ex = spec_contribute_explained [OF this rq c(2)]
      have "explained rs (Suc t) (entry_map (sl_key (ag_slots st' j)) ((R(i := A' ?k)) j))" if "j < SLOT_TABLE_CAPACITY" for j
      proof (cases "j = i")
        case True
        show ?thesis
        proof (cases "sl_in_use (ag_slots st' i)")
          case True
          then show ?thesis using c(8) ex(1) spec_contribute_entry [OF c(2)] \<open>j = i\<close> by simp
        next
          case False
          then have "A' ?k = None" using entries_track_unused [OF c(3) i] by simp
          then show ?thesis using \<open>j = i\<close> by (simp add: explained_entry_map)
        qed
      next
        case False
        then show ?thesis using R' c(7) that request(5) by (simp add: entries_explained_def)
      qed
      then have "agg_simulates rs (Suc t) st'"
        using c(3,5,6) by (auto simp: agg_simulates_def agg_buffers_def entries_explained_def)
      moreover have "sent evs = [] \<or> (\<exists>k tot. sent evs = [encode_packet (sum_hdr k (length tot)) tot] \<and> sum_explained rs t k tot)"
        using c(4) ex(2) by (cases v) (auto simp: sends_verdict_def)
      ultimately show ?thesis using c(1) request(4) by auto
    qed
  qed
qed

end
