(* ===== verification/Packet_Rounds.thy ===== *)
theory Packet_Rounds
  imports Aggregator_Spec
begin

text \<open>
  What a sum consists of in terms of packets. An aggregator that turns its packets into requests, each
  carrying the packet's own header fields and values, sends only sums of complete rounds of
  packets. The locale \<open>packet_client\<close> shows it once, for the three programs to use.
\<close>

text \<open>
  The packets at the positions \<open>js\<close> make up a round: all accepted, for the same key and of the same
  length, from different workers, as many as the first of them announced.
\<close>

definition packet_round :: "(bytes \<Rightarrow> bool) \<Rightarrow> (bytes \<Rightarrow> grad_hdr) \<Rightarrow> bytes list \<Rightarrow> nat list \<Rightarrow> bool" where
  "packet_round accepts hdr ps js \<longleftrightarrow> js \<noteq> [] \<and> sorted_wrt (<) js \<and>
     (\<forall>i\<in>set js. i < length ps \<and> accepts (ps ! i) \<and> key_of (hdr (ps ! i)) = key_of (hdr (ps ! hd js)) \<and>
        gh_chunk_len (hdr (ps ! i)) = gh_chunk_len (hdr (ps ! hd js))) \<and>
     distinct (map (\<lambda>i. gh_worker_id (hdr (ps ! i))) js) \<and>
     length js = unat (gh_num_workers (hdr (ps ! hd js)))"

definition packet_total :: "(bytes \<Rightarrow> grad_hdr) \<Rightarrow> (bytes \<Rightarrow> i32 list) \<Rightarrow> bytes list \<Rightarrow> nat list \<Rightarrow> i32 list" where
  "packet_total hdr vals ps js =
     column_sum (unat (gh_chunk_len (hdr (ps ! hd js)))) (mset (map (\<lambda>i. vals (ps ! i)) js))"

locale packet_client =
  fixes accepts :: "bytes \<Rightarrow> bool" and hdr :: "bytes \<Rightarrow> grad_hdr" and vals :: "bytes \<Rightarrow> i32 list"
  assumes length_vals: "length (vals p) = unat (gh_chunk_len (hdr p))"
begin

definition packet_request :: "bytes \<Rightarrow> grad_slot_key \<times> nat \<times> contribution" where
  "packet_request p = (key_of (hdr p), unat (gh_num_workers (hdr p)), unat (gh_worker_id (hdr p)), vals p)"

lemma request_round:
  assumes own: "\<And>i q. i < length ps \<Longrightarrow> rs ! i = Some q \<Longrightarrow> accepts (ps ! i) \<and> q = packet_request (ps ! i)"
    and ex: "sum_explained rs j k tot" and j: "j < length ps"
  shows "\<exists>js. packet_round accepts hdr ps (js @ [j]) \<and> k = key_of (hdr (ps ! j)) \<and>
    tot = packet_total hdr vals ps (js @ [j]) \<and> length tot = unat (gh_chunk_len (hdr (ps ! j)))"
proof -
  obtain js n where r: "complete_round rs k n (js @ [j])" "\<forall>i\<in>set js. i < j"
    "tot = column_sum n (mset (map (\<lambda>i. snd (contribution_at rs i)) (js @ [j])))"
    using sum_explained_positions [OF ex] by blast
  let ?js = "js @ [j]"
  note E = r(1) [unfolded complete_round_def]
  have bound: "i < length ps" if "i \<in> set ?js" for i using r(2) that j by auto
  have each: "accepts (ps ! i) \<and> k = key_of (hdr (ps ! i)) \<and>
      contribution_at rs i = (unat (gh_worker_id (hdr (ps ! i))), vals (ps ! i)) \<and>
      unat (gh_chunk_len (hdr (ps ! i))) = n" if i: "i \<in> set ?js" for i
  proof -
    obtain ni where "rs ! i = Some (k, ni, contribution_at rs i)" "length (snd (contribution_at rs i)) = n"
      using E i by blast
    with own [OF bound [OF i]] show ?thesis using length_vals [of "ps ! i"] by (simp add: packet_request_def)
  qed
  have hd: "hd ?js \<in> set ?js" by (rule hd_in_set) simp
  have len: "length ?js = unat (gh_num_workers (hdr (ps ! hd ?js)))"
    using E own [OF bound [OF hd]] by (fastforce simp: packet_request_def)
  have "distinct (map (\<lambda>i. unat (gh_worker_id (hdr (ps ! i)))) ?js)"
    using E each by (simp cong: map_cong)
  then have dist: "distinct (map (\<lambda>i. gh_worker_id (hdr (ps ! i))) ?js)"
    by (simp only: distinct_map inj_on_def) auto
  have "packet_round accepts hdr ps ?js"
    unfolding packet_round_def
  proof (intro conjI ballI)
    fix i assume i: "i \<in> set ?js"
    show "gh_chunk_len (hdr (ps ! i)) = gh_chunk_len (hdr (ps ! hd ?js))"
      using each [OF i] each [OF hd] by (simp add: word_unat_eq_iff)
    show "i < length ps" "accepts (ps ! i)" "key_of (hdr (ps ! i)) = key_of (hdr (ps ! hd ?js))"
      using bound [OF i] each [OF i] each [OF hd] by simp_all
  qed (use E dist len in auto)
  moreover have m: "map (\<lambda>i. snd (contribution_at rs i)) ?js = map (\<lambda>i. vals (ps ! i)) ?js"
    using each by (intro map_cong refl) simp
  moreover have "tot = packet_total hdr vals ps ?js"
    unfolding r(3) m packet_total_def using each [OF hd] by simp
  moreover have "length tot = unat (gh_chunk_len (hdr (ps ! j)))" "k = key_of (hdr (ps ! j))"
    using each [of j] by (simp_all add: r(3))
  ultimately show ?thesis by blast
qed

end

end
