(* ===== verification/Agg_Trace.thy ===== *)
theory Agg_Trace
  imports Agg_Rounds Packet_Rounds
begin

text \<open>
  Whole runs of the userspace aggregator. From the initial state and for any inputs the loop returns,
  and what it sends in an iteration is the sum of one complete round of the datagrams received so
  far, the last of them that iteration's.
\<close>

section \<open>Steps and runs\<close>

text \<open>Nothing is sent, or the sum of a round that ends at position \<open>t\<close>.\<close>

definition sends_sum :: "request list \<Rightarrow> nat \<Rightarrow> agg_event list \<Rightarrow> bool" where
  "sends_sum rs t evs \<longleftrightarrow> sent evs = [] \<or>
     (\<exists>k tot. sent evs = [encode_packet (sum_hdr k (length tot)) tot] \<and> sum_explained rs t k tot)"

lemma agg_step_simulates:
  assumes s: "agg_simulates rs t st" and req: "rs ! t = agg_request (ai_recv inp)"
  shows "\<exists>st' evs. agg_step cfg inp st = Some (st', evs) \<and> agg_simulates rs (Suc t) st' \<and> sends_sum rs t evs"
proof -
  obtain st1 evs1 where m: "agg_maintenance cfg inp st = (st1, evs1)" by (cases "agg_maintenance cfg inp st")
  have "sent evs1 = []" using m by (rule agg_maintenance_slots)
  moreover obtain st' evs where r: "agg_receive cfg inp st1 = Some (st', evs)" "agg_simulates rs (Suc t) st'" "sends_sum rs t evs"
    using agg_receive_simulates [OF agg_maintenance_simulates [OF m s] req, of cfg] unfolding sends_sum_def by blast
  ultimately show ?thesis using m by (simp add: agg_step_def sends_sum_def)
qed

lemma agg_run_simulates:
  assumes "agg_simulates rs t st" "\<forall>j<length inps. rs ! (t + j) = agg_request (ai_recv (inps ! j))"
  shows "\<exists>st' evss. agg_run cfg inps st = Some (st', evss) \<and> length evss \<le> length inps \<and>
    (\<exists>u. agg_simulates rs u st') \<and>
    (\<forall>j<length evss. sends_sum rs (t + j) (evss ! j))"
  using assms
proof (induction inps arbitrary: t st)
  case (Cons inp inps)
  show ?case
  proof (cases "ac_max_packets cfg = 0 \<or> ag_packets_in st < ac_max_packets cfg")
    case True
    obtain st1 evs where 1: "agg_step cfg inp st = Some (st1, evs)" "agg_simulates rs (Suc t) st1"
      "sends_sum rs t evs"
      using agg_step_simulates [OF Cons.prems(1), of inp cfg] Cons.prems(2) [rule_format, of 0] by auto
    have "\<forall>j<length inps. rs ! (Suc t + j) = agg_request (ai_recv (inps ! j))"
      using Cons.prems(2) by auto
    from Cons.IH [OF 1(2) this] obtain st' evss where 2: "agg_run cfg inps st1 = Some (st', evss)"
      "length evss \<le> length inps" "\<exists>u. agg_simulates rs u st'"
      "\<forall>j<length evss. sends_sum rs (Suc t + j) (evss ! j)"
      by blast
    have "\<forall>j<length (evs # evss). sends_sum rs (t + j) ((evs # evss) ! j)"
      using 1(3) 2(4) by (auto simp: nth_Cons split: nat.split)
    with 1 2(1-3) True show ?thesis by simp
  qed (use Cons.prems(1) in auto)
qed auto

lemma agg_simulates_init:
  assumes "length b = 276" "length b' = 276"
  shows "agg_simulates rs 0 (agg_init b b' now)"
proof -
  have "entries_track (ag_slots (agg_init b b' now)) (\<lambda>_. None)"
    by (simp add: entries_track_def agg_init_def zero_agg_slot_def)
  moreover have "entries_explained rs 0 (ag_slots (agg_init b b' now)) (\<lambda>_. None)"
    by (simp add: entries_explained_def explained_entry_map)
  ultimately show ?thesis using assms by (auto simp: agg_simulates_def agg_buffers_def agg_init_def)
qed

section \<open>Datagrams\<close>

text \<open>What was received, with the empty string for an iteration without a datagram.\<close>

fun datagram :: "recv \<Rightarrow> bytes" where
  "datagram Recv_none = []"
| "datagram (Datagram d) = d"

abbreviation agg_hdr :: "bytes \<Rightarrow> grad_hdr" where "agg_hdr d \<equiv> wire_hdr d 0"

definition agg_values :: "bytes \<Rightarrow> i32 list" where
  "agg_values d = wire_values d 20 (unat (gh_chunk_len (agg_hdr d)))"

interpretation agg_packets: packet_client agg_accepts agg_hdr agg_values
  by unfold_locales (simp add: agg_values_def)

lemma agg_request_datagram:
  "agg_request r = (if agg_accepts (datagram r) then Some (agg_packets.packet_request (datagram r)) else None)"
  by (cases r) (simp_all add: agg_packets.packet_request_def request_of_def contribution_of_def agg_values_def agg_accepts_def)

abbreviation datagrams :: "agg_input list \<Rightarrow> bytes list" where
  "datagrams inps \<equiv> map (\<lambda>inp. datagram (ai_recv inp)) inps"

text \<open>The aggregate of the datagrams at some positions, as sent.\<close>

definition agg_sum_packet :: "bytes list \<Rightarrow> nat list \<Rightarrow> bytes" where
  "agg_sum_packet ds js = encode_packet (sum_hdr (key_of (agg_hdr (ds ! hd js))) (unat (gh_chunk_len (agg_hdr (ds ! hd js)))))
     (packet_total agg_hdr agg_values ds js)"

lemma sum_explained_datagrams:
  assumes ex: "sum_explained (map (\<lambda>inp. agg_request (ai_recv inp)) inps) j k tot" and j: "j < length inps"
  shows "\<exists>js. packet_round agg_accepts agg_hdr (datagrams inps) (js @ [j]) \<and>
    encode_packet (sum_hdr k (length tot)) tot = agg_sum_packet (datagrams inps) (js @ [j])"
proof -
  let ?ds = "datagrams inps"
  have "agg_accepts (?ds ! i) \<and> q = agg_packets.packet_request (?ds ! i)"
    if "i < length ?ds" "map (\<lambda>inp. agg_request (ai_recv inp)) inps ! i = Some q" for i q
    using that by (auto simp: agg_request_datagram split: if_splits)
  from agg_packets.request_round [OF this ex] j obtain js where js: "packet_round agg_accepts agg_hdr ?ds (js @ [j])"
    "k = key_of (agg_hdr (?ds ! j))" "tot = packet_total agg_hdr agg_values ?ds (js @ [j])"
    "length tot = unat (gh_chunk_len (agg_hdr (?ds ! j)))"
    by auto
  have "key_of (agg_hdr (?ds ! j)) = key_of (agg_hdr (?ds ! hd (js @ [j])))"
    "gh_chunk_len (agg_hdr (?ds ! j)) = gh_chunk_len (agg_hdr (?ds ! hd (js @ [j])))"
    using js(1) by (auto simp: packet_round_def)
  with js show ?thesis by (metis agg_sum_packet_def)
qed

lemma agg_sends:
  assumes "length b = 276" "length b' = 276"
  shows "\<exists>st evss. agg_run cfg inps (agg_init b b' now) = Some (st, evss) \<and> length evss \<le> length inps \<and>
    (\<forall>j<length evss. sent (evss ! j) = [] \<or>
      (\<exists>js. packet_round agg_accepts agg_hdr (datagrams inps) (js @ [j]) \<and>
        sent (evss ! j) = [agg_sum_packet (datagrams inps) (js @ [j])]))"
proof -
  let ?rs = "map (\<lambda>inp. agg_request (ai_recv inp)) inps"
  obtain st evss where r: "agg_run cfg inps (agg_init b b' now) = Some (st, evss)" "length evss \<le> length inps"
    "\<forall>j<length evss. sends_sum ?rs j (evss ! j)"
    using agg_run_simulates [OF agg_simulates_init [OF assms, of ?rs now], of inps cfg] by auto
  have "sent (evss ! j) = [] \<or> (\<exists>js. packet_round agg_accepts agg_hdr (datagrams inps) (js @ [j]) \<and>
        sent (evss ! j) = [agg_sum_packet (datagrams inps) (js @ [j])])" if "j < length evss" for j
  proof -
    have "j < length inps" using that r(2) by simp
    with r(3) that sum_explained_datagrams [of inps j] show ?thesis unfolding sends_sum_def by metis
  qed
  with r(1,2) show ?thesis by blast
qed

section \<open>What can be seen of a datagram\<close>

text \<open>A contribution is logged, sent or changes the slot table.\<close>

lemma agg_contribute_visible:
  assumes "agg_contribute cfg inp h st = Some (st', [])"
  shows "ag_slots st' \<noteq> ag_slots st"
proof -
  obtain r g J where f: "find_or_create_slot (ac_job_quota cfg) (ag_slots st) (ag_jobs st) (key_of h) = (r, g, J)"
    by (cases "find_or_create_slot (ac_job_quota cfg) (ag_slots st) (ag_jobs st) (key_of h)") auto
  then obtain i where i: "r = Some i" using assms by (cases r) (auto simp: agg_contribute_def)
  note f' = f [unfolded i]
  obtain s where s: "ag_slots st' i = s" "sl_in_use s = sl_in_use (g i)" "sl_contributions_received s = sl_contributions_received (g i) + 1"
    using assms unfolding agg_contribute_found [OF f']
    by (auto simp: Let_def latched_def agg_emit_def split: if_split_asm Option.bind_split_asm prod.split_asm)
  have "ag_slots st i \<noteq> s"
    using find_or_create_slot_Some(2,5) [OF f'] s(2,3) probe_slot_Free(2) [of "ag_slots st" "key_of h" i] by auto
  then show ?thesis using s(1) by auto
qed

lemma agg_receive_visible:
  assumes s: "agg_simulates rs t st"
  shows "\<exists>st' evs. agg_receive cfg inp st = Some (st', evs) \<and>
    (\<not> agg_accepts (datagram (ai_recv inp)) \<longleftrightarrow> evs = [] \<and> ag_slots st' = ag_slots st \<and> ag_jobs st' = ag_jobs st)"
proof -
  obtain R where tr: "entries_track (ag_slots st) R" and b: "agg_buffers st" using s by (auto simp: agg_simulates_def)
  show ?thesis
  proof (cases rule: agg_receive_cases [OF b, of inp cfg, case_names ignored request])
    case (ignored st')
    then show ?thesis by (auto simp: agg_request_datagram split: if_splits)
  next
    case (request d st1 h)
    have h: "unat (gh_chunk_len h) \<le> 64" "unat (gh_worker_id h) < 256" "0 < unat (gh_num_workers h)" "unat (gh_num_workers h) \<le> 256"
      using request(2,3) by (simp_all add: agg_accepts_def)
    obtain r g J where f: "find_or_create_slot (ac_job_quota cfg) (ag_slots st1) (ag_jobs st1) (key_of h) = (r, g, J)"
      by (cases "find_or_create_slot (ac_job_quota cfg) (ag_slots st1) (ag_jobs st1) (key_of h)") auto
    have "\<exists>st' evs. agg_contribute cfg inp h st1 = Some (st', evs)"
    proof (cases r)
      case None
      then show ?thesis using f by (simp add: agg_contribute_def)
    next
      case (Some i)
      have "entries_track (ag_slots st1) R" "length (ag_in_packet st1) = 276" "length (ag_out_packet st1) = 276"
        using tr request(5,7) by (simp_all add: agg_buffers_def)
      from agg_contribute_refines [OF this h f [unfolded Some], of inp] show ?thesis by blast
    qed
    then obtain st' evs where c: "agg_contribute cfg inp h st1 = Some (st', evs)" by blast
    then have "evs \<noteq> [] \<or> ag_slots st' \<noteq> ag_slots st1" using agg_contribute_visible by (cases evs) auto
    then show ?thesis using c request(1,2,4,5) by (intro exI [of _ st'] exI [of _ evs]) auto
  qed
qed

end
