(* ===== verification/Agg_Live.thy ===== *)
theory Agg_Live
  imports Agg_Trace
begin

text \<open>
  Progress of the userspace aggregator: what an iteration does with a datagram that gets an entry, and
  that one for another key leaves an entry in use as it is.
\<close>

section \<open>One datagram that gets an entry\<close>

lemma agg_emit_last_reap:
  "agg_emit inp h i st = Some (st', evs) \<Longrightarrow> ag_last_reap_micros st' = ag_last_reap_micros st"
  by (cases "free_slot i (ag_slots st) (ag_jobs st)") (auto simp: agg_emit_def bind_eq_Some_conv Let_def)

lemma agg_contribute_last_reap:
  "agg_contribute cfg inp h st = Some (st', evs) \<Longrightarrow> ag_last_reap_micros st' = ag_last_reap_micros st"
  by (auto simp: agg_contribute_def bind_eq_Some_conv Let_def split: prod.splits option.splits if_splits
      dest!: agg_emit_last_reap)

text \<open>No sweep of the reaper is due.\<close>

definition quiet :: "agg_config \<Rightarrow> agg_input \<Rightarrow> agg_state \<Rightarrow> bool" where
  "quiet cfg inp st \<longleftrightarrow> ac_slot_ttl_ms cfg \<le> 0 \<or>
     ai_now_loop inp - ag_last_reap_micros st < reap_interval_micros (ac_slot_ttl_ms cfg)"

lemma agg_maintenance_quiet:
  "quiet cfg inp st \<Longrightarrow> \<exists>evs. agg_maintenance cfg inp st = (st\<lparr>ag_dump_stats_requested := False\<rparr>, evs) \<and> sent evs = []"
  by (auto simp: quiet_def agg_maintenance_def Let_def)

text \<open>A new entry for the job passes the admission check.\<close>

definition agg_admits :: "agg_config \<Rightarrow> (nat \<Rightarrow> job_entry) \<Rightarrow> u32 \<Rightarrow> bool" where
  "agg_admits cfg J job \<longleftrightarrow> (case find_or_create_job J job of
     (None, J1) \<Rightarrow> True
   | (Some j, J1) \<Rightarrow> \<not> (0 < ac_job_quota cfg \<and> word_of_int (ac_job_quota cfg) \<le> je_concurrent_slots (J1 j)))"

definition entry_ready :: "agg_config \<Rightarrow> agg_state \<Rightarrow> grad_slot_key \<Rightarrow> nat \<Rightarrow> bool" where
  "entry_ready cfg st k i \<longleftrightarrow> probe_slot (ag_slots st) k = Found i \<or>
     probe_slot (ag_slots st) k = Free i \<and> agg_admits cfg (ag_jobs st) (k_job_id k)"

lemma entry_ready_find:
  assumes "entry_ready cfg st k i"
  shows "\<exists>g J. find_or_create_slot (ac_job_quota cfg) (ag_slots st) (ag_jobs st) k = (Some i, g, J)"
  using assms
  by (cases rule: find_or_create_slot_cases [of "ag_slots st" k "ac_job_quota cfg" "ag_jobs st"])
    (auto simp: entry_ready_def agg_admits_def)

lemma agg_step_serves:
  fixes R :: entry_rounds
  assumes tr: "entries_track (ag_slots st) R" and b: "agg_buffers st" and q: "quiet cfg inp st"
    and d: "agg_accepts (datagram (ai_recv inp))" and k: "k = key_of (agg_hdr (datagram (ai_recv inp)))"
    and r: "entry_ready cfg st k i"
    and sp: "spec_request (entry_map k (R i)) (agg_request (ai_recv inp)) = (v, A')"
  obtains st' evs where "agg_step cfg inp st = Some (st', evs)" "entries_track (ag_slots st') (R(i := A' k))"
    "sent evs = sends_verdict k v" "agg_buffers st'" "ag_last_reap_micros st' = ag_last_reap_micros st"
    "A' k \<noteq> None \<Longrightarrow> probe_slot (ag_slots st') k = Found i" "A' = entry_map k (A' k)"
    "\<And>j. j \<noteq> i \<Longrightarrow> ag_slots st' j = ag_slots st j" "sl_in_use (ag_slots st' i) \<Longrightarrow> sl_key (ag_slots st' i) = k"
proof -
  obtain evs0 where m: "agg_maintenance cfg inp st = (st\<lparr>ag_dump_stats_requested := False\<rparr>, evs0)" "sent evs0 = []"
    using agg_maintenance_quiet [OF q] by blast
  let ?st = "st\<lparr>ag_dump_stats_requested := False\<rparr>"
  have b': "agg_buffers ?st" using b by (simp add: agg_buffers_def)
  show thesis
  proof (cases rule: agg_receive_cases [OF b', of inp cfg, case_names ignored request])
    case (ignored st')
    with d show ?thesis by (simp add: agg_request_datagram)
  next
    case (request dg st1 h)
    have dg: "datagram (ai_recv inp) = dg" using request(1) by simp
    have kh: "k = key_of h" using k dg request(3) by (simp add: key_of_def)
    have h: "unat (gh_chunk_len h) \<le> 64" "unat (gh_worker_id h) < 256" "0 < unat (gh_num_workers h)" "unat (gh_num_workers h) \<le> 256"
      using request(2,3) by (simp_all add: agg_accepts_def)
    have tr1: "entries_track (ag_slots st1) R" using tr request(5) by simp
    have bufs: "length (ag_in_packet st1) = 276" "length (ag_out_packet st1) = 276"
      using request(7) by (simp_all add: agg_buffers_def)
    obtain g J where f: "find_or_create_slot (ac_job_quota cfg) (ag_slots st1) (ag_jobs st1) (key_of h) = (Some i, g, J)"
      using entry_ready_find [OF r] request(5,6) kh by auto
    have rq: "agg_request (ai_recv inp) = Some (k, unat (gh_num_workers h), unat (gh_worker_id h), wire_values (ag_in_packet st1) 20 (unat (gh_chunk_len h)))"
      using request(1-3,8) kh by (simp add: request_of_def contribution_of_def key_of_def)
    obtain st' evs v' A'' where c: "agg_contribute cfg inp h st1 = Some (st', evs)"
      "spec_contribute (entry_map k (R i)) k (unat (gh_num_workers h))
         (unat (gh_worker_id h), wire_values (ag_in_packet st1) 20 (unat (gh_chunk_len h))) = (v', A'')"
      "entries_track (ag_slots st') (R(i := A'' k))" "sent evs = sends_verdict k v'"
      "length (ag_in_packet st') = 276" "length (ag_out_packet st') = 276"
      "\<forall>j. j \<noteq> i \<longrightarrow> ag_slots st' j = ag_slots st1 j" "sl_in_use (ag_slots st' i) \<longrightarrow> sl_key (ag_slots st' i) = k"
      using agg_contribute_refines [OF tr1 bufs h f, of inp] kh by blast
    have v: "v' = v" "A'' = A'" using sp c(2) unfolding rq by simp_all
    have i: "i < SLOT_TABLE_CAPACITY" using f by (rule find_or_create_slot_Some)
    have "probe_slot (ag_slots st') k = Found i" if "A' k \<noteq> None"
    proof -
      have "sl_in_use (ag_slots st' i)" using that entries_track_unused [OF c(3) i] v by (cases "sl_in_use (ag_slots st' i)") simp_all
      moreover have "ag_slots st' = (ag_slots st)(i := ag_slots st' i)" using c(7) request(5) by auto
      moreover have "probe_slot (ag_slots st) k \<in> {Free i, Found i}" using r by (auto simp: entry_ready_def)
      ultimately show ?thesis using probe_slot_again [of "ag_slots st" k i "ag_slots st' i"] c(8) by metis
    qed
    moreover have "agg_step cfg inp st = Some (st', evs0 @ evs)" using m c(1) request(4) by (simp add: agg_step_def)
    moreover have "ag_last_reap_micros st' = ag_last_reap_micros st"
      using agg_contribute_last_reap [OF c(1)] request(9) by simp
    moreover have "A' = entry_map k (A' k)" using spec_contribute_entry [OF c(2)] v by simp
    ultimately show ?thesis using c m v request(5) by (intro that [of st' "evs0 @ evs"]) (simp_all add: agg_buffers_def)
  qed
qed

section \<open>One datagram for other rounds\<close>

definition agg_for_key :: "grad_slot_key \<Rightarrow> bytes \<Rightarrow> bool" where
  "agg_for_key k d \<longleftrightarrow> agg_accepts d \<and> key_of (agg_hdr d) = k"

text \<open>A datagram that is not for the key leaves the key's entry alone, and one that is not accepted the whole table.\<close>

lemma agg_step_elsewhere:
  fixes R :: entry_rounds
  assumes tr: "entries_track (ag_slots st) R" and b: "agg_buffers st" and q: "quiet cfg inp st"
    and other: "\<not> agg_for_key k (datagram (ai_recv inp))"
    and used: "sl_in_use (ag_slots st i)" "sl_key (ag_slots st i) = k"
  obtains st' evs R' where "agg_step cfg inp st = Some (st', evs)" "entries_track (ag_slots st') R'" "R' i = R i"
    "agg_buffers st'" "ag_last_reap_micros st' = ag_last_reap_micros st" "ag_slots st' i = ag_slots st i"
    "\<not> agg_accepts (datagram (ai_recv inp)) \<Longrightarrow> ag_slots st' = ag_slots st"
proof -
  obtain evs0 where m: "agg_maintenance cfg inp st = (st\<lparr>ag_dump_stats_requested := False\<rparr>, evs0)"
    using agg_maintenance_quiet [OF q] by blast
  let ?st = "st\<lparr>ag_dump_stats_requested := False\<rparr>"
  have b': "agg_buffers ?st" using b by (simp add: agg_buffers_def)
  have step: "agg_step cfg inp st = Some (st', evs0 @ evs)" if "agg_receive cfg inp ?st = Some (st', evs)" for st' evs
    using m that by (simp add: agg_step_def)
  show thesis
  proof (cases rule: agg_receive_cases [OF b', of inp cfg, case_names ignored request])
    case (ignored st')
    then show ?thesis using tr by (intro that [OF step [OF ignored(2)], of R]) simp_all
  next
    case (request d st1 h)
    have kh: "key_of h \<noteq> k" using other request(1-3) by (simp add: agg_for_key_def key_of_def)
    have h: "unat (gh_chunk_len h) \<le> 64" "unat (gh_worker_id h) < 256" "0 < unat (gh_num_workers h)" "unat (gh_num_workers h) \<le> 256"
      using request(2,3) by (simp_all add: agg_accepts_def)
    have tr1: "entries_track (ag_slots st1) R" using tr request(5) by simp
    have bufs: "length (ag_in_packet st1) = 276" "length (ag_out_packet st1) = 276"
      using request(7) by (simp_all add: agg_buffers_def)
    have acc: "agg_accepts (datagram (ai_recv inp))" using request(1,2) by simp
    obtain r g J where f: "find_or_create_slot (ac_job_quota cfg) (ag_slots st1) (ag_jobs st1) (key_of h) = (r, g, J)"
      by (cases "find_or_create_slot (ac_job_quota cfg) (ag_slots st1) (ag_jobs st1) (key_of h)") auto
    show ?thesis
    proof (cases r)
      case None
      then have c: "agg_contribute cfg inp h st1 =
          Some (st1\<lparr>ag_slots := g, ag_jobs := J\<rparr>, [Ag_admission_reject (gh_job_id h) (gh_round h) (gh_chunk_id h)])" and g: "g = ag_slots st1"
        using f find_or_create_slot_None [of _ "ag_slots st1"] by (simp_all add: agg_contribute_def)
      show ?thesis using acc g tr1 request(5,7,9)
        by (intro that [OF step [OF request(4) [unfolded c]], of R]) (simp_all add: agg_buffers_def)
    next
      case (Some j)
      note fs = find_or_create_slot_Some(5) [OF f [unfolded Some]]
      have "j \<noteq> i" using fs used request(5) kh probe_slot_Found(3) probe_slot_Free(2) by fastforce
      moreover obtain st' evs v A' where c: "agg_contribute cfg inp h st1 = Some (st', evs)"
        "entries_track (ag_slots st') (R(j := A' (key_of h)))" "length (ag_in_packet st') = 276" "length (ag_out_packet st') = 276"
        "\<forall>j'. j' \<noteq> j \<longrightarrow> ag_slots st' j' = ag_slots st1 j'"
        using agg_contribute_refines [OF tr1 bufs h f [unfolded Some], of inp] by blast
      ultimately show ?thesis using acc request(5,9) agg_contribute_last_reap [OF c(1)]
        by (intro that [OF step [OF request(4) [unfolded c(1)]] c(2)]) (simp_all add: agg_buffers_def)
    qed
  qed
qed

end
