(* ===== verification/Agg_Traffic.thy ===== *)
theory Agg_Traffic
  imports Agg_Live
begin

text \<open>
  Rounds of the userspace aggregator in the middle of other traffic: the first datagram of each worker counts, and
  the sum goes out with the datagram that brings the last worker. An entry at the start of its probe sequence
  is never lost, whatever else arrives; one further on needs the entries before it to stay as they are.
\<close>

section \<open>The datagrams for a key\<close>

abbreviation agg_workers :: "grad_slot_key \<Rightarrow> bytes list \<Rightarrow> u16 set" where
  "agg_workers k \<equiv> workers_among (agg_for_key k) (\<lambda>d. wire_hdr d 0)"

abbreviation agg_counted :: "contribution list \<Rightarrow> grad_slot_key \<Rightarrow> bytes list \<Rightarrow> contribution list" where
  "agg_counted L k \<equiv> counted_among (agg_for_key k) contribution_of L"

section \<open>An open round\<close>

lemma agg_request_for_key:
  "agg_for_key k (datagram (ai_recv inp)) \<Longrightarrow>
     agg_request (ai_recv inp) = Some (k, unat (gh_num_workers (agg_hdr (datagram (ai_recv inp)))), contribution_of (datagram (ai_recv inp)))"
  by (cases "ai_recv inp") (simp_all add: agg_for_key_def request_of_def agg_accepts_def)

text \<open>The open round at entry \<open>i\<close>, which is the one the key is found at.\<close>

definition agg_round_at :: "agg_state \<Rightarrow> grad_slot_key \<Rightarrow> nat \<Rightarrow> round \<Rightarrow> bool" where
  "agg_round_at st k i r \<longleftrightarrow> agg_buffers st \<and> probe_slot (ag_slots st) k = Found i \<and>
     (\<exists>R. entries_track (ag_slots st) R \<and> R i = Some r)"

lemma agg_step_open:
  assumes at: "agg_round_at st k i \<lparr>r_len = len, r_expected = n, r_log = L\<rparr>" and q: "quiet cfg inp st"
    and d: "d = datagram (ai_recv inp)" "i = slot_index k 0 \<or> (agg_accepts d \<longrightarrow> agg_for_key k d)"
      "agg_for_key k d \<longrightarrow> unat (gh_chunk_len (agg_hdr d)) = len"
    and n: "length (agg_counted L k [d]) < n"
  shows "\<exists>st' evs. agg_step cfg inp st = Some (st', evs) \<and> ag_last_reap_micros st' = ag_last_reap_micros st \<and>
    agg_round_at st' k i \<lparr>r_len = len, r_expected = n, r_log = agg_counted L k [d]\<rparr> \<and> (agg_for_key k d \<longrightarrow> sent evs = [])"
proof -
  let ?r = "\<lparr>r_len = len, r_expected = n, r_log = L\<rparr>"
  obtain R where R: "entries_track (ag_slots st) R" "R i = Some ?r" and b: "agg_buffers st"
    and fd: "probe_slot (ag_slots st) k = Found i"
    using at by (auto simp: agg_round_at_def)
  note used = probe_slot_Found(2,3) [OF fd]
  show ?thesis
  proof (cases "agg_for_key k d")
    case False
    obtain st' evs R' where 1: "agg_step cfg inp st = Some (st', evs)" "entries_track (ag_slots st') R'" "R' i = R i"
      "agg_buffers st'" "ag_last_reap_micros st' = ag_last_reap_micros st" "ag_slots st' i = ag_slots st i"
      "\<not> agg_accepts (datagram (ai_recv inp)) \<Longrightarrow> ag_slots st' = ag_slots st"
      by (rule agg_step_elsewhere [OF R(1) b q False [unfolded d(1)] used]) blast
    have "probe_slot (ag_slots st') k = Found i"
    proof (cases "i = slot_index k 0")
      case True
      then show ?thesis using probe_home_found [of "ag_slots st'" k] 1(6) used by simp
    next
      case away: False
      then show ?thesis using 1(7) d(1,2) False fd by simp
    qed
    then have "agg_round_at st' k i ?r" using 1(2-4) R(2) by (auto simp: agg_round_at_def)
    then show ?thesis using 1(1,5) False by (intro exI [of _ st'] exI [of _ evs]) simp
  next
    case True
    let ?c = "contribution_of d"
    let ?r' = "\<lparr>r_len = len, r_expected = n, r_log = log_add L ?c\<rparr>"
    obtain v where v: "spec_request (entry_map k (R i)) (agg_request (ai_recv inp)) = (v, entry_map k (Some ?r'))" "v \<in> {Absorbed, Ignored}"
    proof -
      have "length (snd ?c) = len" using d(3) True by (simp add: contribution_of_def)
      then have s: "spec_request (entry_map k (R i)) (agg_request (ai_recv inp)) = (if fst ?c \<in> fst ` set L then (Ignored, entry_map k (R i))
          else if length (L @ [?c]) = n then (Summed (column_sum len (mset (map snd (L @ [?c])))), (entry_map k (R i))(k := None))
          else (Absorbed, (entry_map k (R i))(k \<mapsto> \<lparr>r_len = len, r_expected = n, r_log = L @ [?c]\<rparr>)))"
        using spec_contribute_open [where A = "entry_map k (R i)" and k = k and c = ?c and r = ?r] R(2) agg_request_for_key [OF True [unfolded d(1)]] d(1)
        by simp
      show thesis
      proof (cases "fst ?c \<in> fst ` set L")
        case dup: True
        then show ?thesis using s R(2) by (intro that [of Ignored]) (simp_all add: log_add_dup)
      next
        case False
        then have "length (L @ [?c]) \<noteq> n" using n True by (simp add: log_add_new)
        then show ?thesis using s R(2) False by (intro that [of Absorbed]) (simp_all add: log_add_new)
      qed
    qed
    have ready: "entry_ready cfg st k i" using fd by (simp add: entry_ready_def)
    have dk: "agg_accepts (datagram (ai_recv inp))" "k = key_of (agg_hdr (datagram (ai_recv inp)))"
      using True d(1) by (simp_all add: agg_for_key_def)
    obtain st' evs where 1: "agg_step cfg inp st = Some (st', evs)" "entries_track (ag_slots st') (R(i := Some ?r'))"
      "sent evs = sends_verdict k v" "agg_buffers st'" "ag_last_reap_micros st' = ag_last_reap_micros st"
      "probe_slot (ag_slots st') k = Found i"
      by (rule agg_step_serves [OF R(1) b q dk ready v(1), unfolded entry_map_simps]) simp
    moreover have "agg_round_at st' k i ?r'" using 1(2,4,6) by (auto simp: agg_round_at_def)
    ultimately show ?thesis using True v(2) by (intro exI [of _ st'] exI [of _ evs]) (auto simp: sends_verdict_def)
  qed
qed

text \<open>A round takes in the datagrams for it until the last worker comes.\<close>

lemma agg_traffic_open:
  assumes "agg_round_at st k i \<lparr>r_len = len, r_expected = n, r_log = L\<rparr>" "\<forall>inp\<in>set inps. quiet cfg inp st" "ac_max_packets cfg = 0"
    and "i = slot_index k 0 \<or> (\<forall>d\<in>set (datagrams inps). agg_accepts d \<longrightarrow> agg_for_key k d)"
    and "\<forall>d\<in>set (datagrams inps). agg_for_key k d \<longrightarrow> unat (gh_chunk_len (agg_hdr d)) = len"
    and "length (agg_counted L k (datagrams inps)) < n"
  shows "\<exists>st' evss. agg_run cfg inps st = Some (st', evss) \<and> length evss = length inps \<and>
    ag_last_reap_micros st' = ag_last_reap_micros st \<and>
    (\<forall>j<length inps. agg_for_key k (datagrams inps ! j) \<longrightarrow> sent (evss ! j) = []) \<and>
    agg_round_at st' k i \<lparr>r_len = len, r_expected = n, r_log = agg_counted L k (datagrams inps)\<rparr>"
  using assms
proof (induction inps arbitrary: st L)
  case (Cons inp inps)
  let ?d = "datagram (ai_recv inp)"
  have L1: "agg_counted L k (datagrams (inp # inps)) = agg_counted (agg_counted L k [?d]) k (datagrams inps)"
    by (cases "agg_for_key k ?d") simp_all
  have n: "length (agg_counted L k [?d]) < n"
    using Cons.prems(6) counted_among_length [of "agg_counted L k [?d]" "agg_for_key k" contribution_of "datagrams inps"] unfolding L1 by simp
  have q: "quiet cfg inp st" and home: "i = slot_index k 0 \<or> (agg_accepts ?d \<longrightarrow> agg_for_key k ?d)"
    and len: "agg_for_key k ?d \<longrightarrow> unat (gh_chunk_len (agg_hdr ?d)) = len"
    using Cons.prems(2,4,5) by auto
  obtain st1 evs where 1: "agg_step cfg inp st = Some (st1, evs)" "ag_last_reap_micros st1 = ag_last_reap_micros st"
    "agg_round_at st1 k i \<lparr>r_len = len, r_expected = n, r_log = agg_counted L k [?d]\<rparr>" "agg_for_key k ?d \<longrightarrow> sent evs = []"
    using agg_step_open [OF Cons.prems(1) q refl home len n] by blast
  obtain st' evss where 2: "agg_run cfg inps st1 = Some (st', evss)" "length evss = length inps"
    "ag_last_reap_micros st' = ag_last_reap_micros st1"
    "\<forall>j<length inps. agg_for_key k (datagrams inps ! j) \<longrightarrow> sent (evss ! j) = []"
    "agg_round_at st' k i \<lparr>r_len = len, r_expected = n, r_log = agg_counted (agg_counted L k [?d]) k (datagrams inps)\<rparr>"
    using Cons.IH [OF 1(3)] Cons.prems(2-6) 1(2) unfolding L1 by (auto simp: quiet_def)
  have "\<forall>j<length (inp # inps). agg_for_key k (datagrams (inp # inps) ! j) \<longrightarrow> sent ((evs # evss) ! j) = []"
    using 1(4) 2(4) by (auto simp: nth_Cons split: nat.split)
  then show ?case using 1(1,2) 2 Cons.prems(3) unfolding L1 by simp
qed simp

section \<open>The ends of a round\<close>

text \<open>The datagram that completes the round at its entry, whether the round is open or only this datagram's.\<close>

lemma agg_step_closes:
  fixes R :: entry_rounds
  assumes st: "entries_track (ag_slots st) R" "agg_buffers st" "quiet cfg inp st" "entry_ready cfg st k i"
    and d: "d = datagram (ai_recv inp)" "agg_for_key k d" "r = round_of (entry_map k (R i)) k (unat (gh_num_workers (agg_hdr d))) (contribution_of d)"
    and len: "unat (gh_chunk_len (agg_hdr d)) = r_len r"
    and new: "unat (gh_worker_id (agg_hdr d)) \<notin> fst ` set (r_log r)" "Suc (length (r_log r)) = r_expected r"
  shows "\<exists>st' evs. agg_step cfg inp st = Some (st', evs) \<and> \<not> sl_in_use (ag_slots st' i) \<and>
    sent evs = [encode_packet (sum_hdr k (r_len r)) (column_sum (r_len r) (mset (map snd (r_log r @ [contribution_of d]))))]"
proof -
  let ?tot = "column_sum (r_len r) (mset (map snd (r_log r @ [contribution_of d])))"
  have sp: "spec_request (entry_map k (R i)) (agg_request (ai_recv inp)) = (Summed ?tot, entry_map k None)"
    using len new agg_request_for_key [OF d(2) [unfolded d(1)]] d(1,3) by (simp add: spec_contribute_def contribution_of_def Let_def)
  have dk: "agg_accepts (datagram (ai_recv inp))" "k = key_of (agg_hdr (datagram (ai_recv inp)))"
    using d(1,2) by (simp_all add: agg_for_key_def)
  obtain st' evs where 1: "agg_step cfg inp st = Some (st', evs)" "entries_track (ag_slots st') (R(i := None))" "sent evs = sends_verdict k (Summed ?tot)"
    by (rule agg_step_serves [OF st(1-3) dk st(4) sp, unfolded entry_map_simps]) blast
  obtain g J where f: "find_or_create_slot (ac_job_quota cfg) (ag_slots st) (ag_jobs st) k = (Some i, g, J)"
    using entry_ready_find [OF st(4)] by blast
  have "i < SLOT_TABLE_CAPACITY" using f by (rule find_or_create_slot_Some)
  then have "\<not> sl_in_use (ag_slots st' i)" using entries_track_used [OF 1(2), of i] by auto
  then show ?thesis using 1(1,3) by (intro exI [of _ st'] exI [of _ evs]) (simp add: sends_verdict_def)
qed

text \<open>The first datagram of a round of several workers, admitted.\<close>

lemma agg_step_opens:
  fixes R :: entry_rounds
  assumes st: "entries_track (ag_slots st) R" "agg_buffers st" "quiet cfg inp st"
    and i: "probe_slot (ag_slots st) k = Free i" "agg_admits cfg (ag_jobs st) (k_job_id k)"
    and d: "d = datagram (ai_recv inp)" "agg_for_key k d" "unat (gh_num_workers (agg_hdr d)) \<noteq> 1"
  shows "\<exists>st' evs. agg_step cfg inp st = Some (st', evs) \<and> ag_last_reap_micros st' = ag_last_reap_micros st \<and> sent evs = [] \<and>
    agg_round_at st' k i \<lparr>r_len = unat (gh_chunk_len (agg_hdr d)), r_expected = unat (gh_num_workers (agg_hdr d)), r_log = [contribution_of d]\<rparr>"
proof -
  let ?r = "\<lparr>r_len = unat (gh_chunk_len (agg_hdr d)), r_expected = unat (gh_num_workers (agg_hdr d)), r_log = [contribution_of d]\<rparr>"
  have "R i = None" by (rule entries_track_unused [OF st(1) probe_slot_Free [OF i(1)]])
  then have sp: "spec_request (entry_map k (R i)) (agg_request (ai_recv inp)) = (Absorbed, entry_map k (Some ?r))"
    using agg_request_for_key [OF d(2) [unfolded d(1)]] d(1,3) by (simp add: spec_contribute_def round_of_def contribution_of_def Let_def)
  have dk: "agg_accepts (datagram (ai_recv inp))" "k = key_of (agg_hdr (datagram (ai_recv inp)))"
    using d(1,2) by (simp_all add: agg_for_key_def)
  have ready: "entry_ready cfg st k i" using i by (simp add: entry_ready_def)
  obtain st' evs where 1: "agg_step cfg inp st = Some (st', evs)" "entries_track (ag_slots st') (R(i := Some ?r))"
    "sent evs = sends_verdict k Absorbed" "agg_buffers st'" "ag_last_reap_micros st' = ag_last_reap_micros st"
    "probe_slot (ag_slots st') k = Found i"
    by (rule agg_step_serves [OF st dk ready sp, unfolded entry_map_simps]) simp
  moreover have "agg_round_at st' k i ?r" using 1(2,4,6) by (auto simp: agg_round_at_def)
  ultimately show ?thesis by (intro exI [of _ st'] exI [of _ evs]) (simp add: sends_verdict_def)
qed

section \<open>A round in its traffic\<close>

lemma agg_run_append:
  assumes "agg_run cfg inps st = Some (st1, evss)" "ac_max_packets cfg = 0"
  shows "agg_run cfg (inps @ inps') st = map_option (\<lambda>(st', evss'). (st', evss @ evss')) (agg_run cfg inps' st1)"
  using assms
proof (induction inps arbitrary: st evss)
  case Nil
  then show ?case by (cases "agg_run cfg inps' st1") auto
next
  case (Cons inp inps)
  then obtain st2 evs evss1 where "agg_step cfg inp st = Some (st2, evs)" "agg_run cfg inps st2 = Some (st1, evss1)" "evss = evs # evss1"
    by (auto simp: bind_eq_Some_conv)
  with Cons show ?case by (cases "agg_run cfg inps' st1") auto
qed

lemma agg_traffic_completes:
  fixes R :: entry_rounds
  assumes st: "entries_track (ag_slots st) R" "agg_buffers st" "\<forall>inp\<in>set inps. quiet cfg inp st" "ac_max_packets cfg = 0"
    and i: "probe_slot (ag_slots st) k = Free i" "agg_admits cfg (ag_jobs st) (k_job_id k)"
    and ends: "inps \<noteq> []" "agg_for_key k (hd ds)" "agg_for_key k (last ds)"
    and home: "i = slot_index k 0 \<or> (\<forall>d\<in>set ds. agg_accepts d \<longrightarrow> agg_for_key k d)"
    and len: "\<forall>d\<in>set ds. agg_for_key k d \<longrightarrow> unat (gh_chunk_len (agg_hdr d)) = len"
    and n: "card (agg_workers k (butlast ds)) + 1 = unat (gh_num_workers (agg_hdr (hd ds)))"
    and last: "gh_worker_id (agg_hdr (last ds)) \<notin> agg_workers k (butlast ds)" and ds: "ds = datagrams inps"
  shows "\<exists>st' evss evs. agg_run cfg inps st = Some (st', evss @ [evs]) \<and> length evss = length inps - 1 \<and>
    (\<forall>j<length evss. agg_for_key k (ds ! j) \<longrightarrow> sent (evss ! j) = []) \<and>
    sent evs = [encode_packet (sum_hdr k len) (column_sum len (mset (map snd (agg_counted [] k ds))))] \<and>
    \<not> sl_in_use (ag_slots st' i)"
proof -
  have cl: "agg_counted [] k (d # ds') = agg_counted [contribution_of d] k ds'" if "agg_for_key k d" for d ds'
    using that by (simp add: log_add_new)
  obtain init inp where inps: "inps = init @ [inp]" using ends(1) by (metis append_butlast_last_id)
  let ?d = "datagram (ai_recv inp)"
  have bl: "butlast ds = datagrams init" and p: "agg_for_key k ?d" "unat (gh_chunk_len (agg_hdr ?d)) = len"
    and q: "quiet cfg inp st" and w: "gh_worker_id (agg_hdr ?d) \<notin> agg_workers k (datagrams init)"
    using ends(3) len last st(3) unfolding ds inps by simp_all
  note c = wire_log.counted_new [where p = ?d, OF w]
  have new: "unat (gh_worker_id (agg_hdr ?d)) \<notin> fst ` set (agg_counted [] k (datagrams init))"
    using c(1) by (simp add: contribution_of_def)
  have snoc: "agg_counted [] k ds = agg_counted [] k (datagrams init) @ [contribution_of ?d]"
    using c(2) [OF p(1)] unfolding ds inps by simp
  show ?thesis
  proof (cases init)
    case Nil
    have "R i = None" by (rule entries_track_unused [OF st(1) probe_slot_Free [OF i(1)]])
    then have r: "round_of (entry_map k (R i)) k (unat (gh_num_workers (agg_hdr ?d))) (contribution_of ?d) =
        \<lparr>r_len = len, r_expected = 1, r_log = []\<rparr>"
      using n p(2) unfolding bl unfolding ds inps Nil by (simp add: round_of_def contribution_of_def workers_among_def)
    have "entry_ready cfg st k i" using i by (simp add: entry_ready_def)
    from agg_step_closes [OF st(1,2) q this refl p(1) r [symmetric]] p(2)
    obtain st' evs where "agg_step cfg inp st = Some (st', evs)" "\<not> sl_in_use (ag_slots st' i)"
      "sent evs = [encode_packet (sum_hdr k len) (column_sum len (mset (map snd [contribution_of ?d])))]"
      by auto
    moreover have "agg_counted [] k ds = [contribution_of ?d]" using snoc Nil by simp
    ultimately show ?thesis using st(4) unfolding inps Nil by (intro exI [of _ st'] exI [of _ "[]"] exI [of _ evs]) simp
  next
    case (Cons inp0 mid)
    let ?first = "datagram (ai_recv inp0)"
    let ?n = "unat (gh_num_workers (agg_hdr ?first))" and ?L = "agg_counted [contribution_of ?first] k (datagrams mid)"
    have p0: "agg_for_key k ?first" "unat (gh_chunk_len (agg_hdr ?first)) = len" and q0: "quiet cfg inp0 st"
      and q1: "\<forall>inp\<in>set mid. quiet cfg inp st"
      using ends(2) len st(3) unfolding ds inps Cons by simp_all
    have L: "agg_counted [] k (datagrams init) = ?L" using cl [OF p0(1)] Cons by simp
    have ln: "Suc (length ?L) = ?n" using n unfolding bl wire_log.counted_size [symmetric] L by (simp add: ds inps Cons)
    then have n1: "?n \<noteq> 1" using counted_among_length [of "[contribution_of ?first]" "agg_for_key k" contribution_of "datagrams mid"] by (simp del: wire_hdr_sel)
    obtain st1 evs0 where 1: "agg_step cfg inp0 st = Some (st1, evs0)" "ag_last_reap_micros st1 = ag_last_reap_micros st" "sent evs0 = []"
      "agg_round_at st1 k i \<lparr>r_len = len, r_expected = ?n, r_log = [contribution_of ?first]\<rparr>"
      using agg_step_opens [OF st(1,2) q0 i refl p0(1) n1] unfolding p0(2) by blast
    have home1: "i = slot_index k 0 \<or> (\<forall>d\<in>set (datagrams mid). agg_accepts d \<longrightarrow> agg_for_key k d)"
      and len1: "\<forall>d\<in>set (datagrams mid). agg_for_key k d \<longrightarrow> unat (gh_chunk_len (agg_hdr d)) = len"
      using home len unfolding ds inps Cons by auto
    have q1': "\<forall>inp\<in>set mid. quiet cfg inp st1" using q1 1(2) by (simp add: quiet_def)
    have ln': "length ?L < ?n" using ln by (simp del: wire_hdr_sel)
    obtain st2 evss where 2: "agg_run cfg mid st1 = Some (st2, evss)" "length evss = length mid"
      "ag_last_reap_micros st2 = ag_last_reap_micros st1"
      "\<forall>j<length mid. agg_for_key k (datagrams mid ! j) \<longrightarrow> sent (evss ! j) = []"
      "agg_round_at st2 k i \<lparr>r_len = len, r_expected = ?n, r_log = ?L\<rparr>"
      using agg_traffic_open [OF 1(4) q1' st(4) home1 len1 ln'] by blast
    obtain R2 where R2: "entries_track (ag_slots st2) R2" "R2 i = Some \<lparr>r_len = len, r_expected = ?n, r_log = ?L\<rparr>" "agg_buffers st2"
      "entry_ready cfg st2 k i"
      using 2(5) by (auto simp: agg_round_at_def entry_ready_def)
    have r: "round_of (entry_map k (R2 i)) k (unat (gh_num_workers (agg_hdr ?d))) (contribution_of ?d) = \<lparr>r_len = len, r_expected = ?n, r_log = ?L\<rparr>"
      using R2(2) by (simp add: round_of_def)
    have q2: "quiet cfg inp st2" using q 1(2) 2(3) by (simp add: quiet_def)
    from agg_step_closes [OF R2(1,3) q2 R2(4) refl p(1) r [symmetric]] p(2) new ln
    obtain st' evs where 3: "agg_step cfg inp st2 = Some (st', evs)" "\<not> sl_in_use (ag_slots st' i)"
      "sent evs = [encode_packet (sum_hdr k len) (column_sum len (mset (map snd (?L @ [contribution_of ?d]))))]"
      unfolding L by auto
    have run1: "agg_run cfg init st = Some (st2, evs0 # evss)" using 1(1) 2(1) st(4) Cons by simp
    have "agg_run cfg inps st = Some (st', (evs0 # evss) @ [evs])"
      unfolding inps using agg_run_append [OF run1 st(4), of "[inp]"] 3(1) st(4) by simp
    moreover have "\<forall>j<length (evs0 # evss). agg_for_key k (ds ! j) \<longrightarrow> sent ((evs0 # evss) ! j) = []"
      using 1(3) 2(2,4) unfolding ds inps Cons by (auto simp: nth_Cons nth_append split: nat.split)
    ultimately show ?thesis using 3(2,3) 2(2) snoc L unfolding inps Cons
      by (intro exI [of _ st'] exI [of _ "evs0 # evss"] exI [of _ evs]) simp
  qed
qed

section \<open>A round by itself\<close>

text \<open>The datagrams of one round: accepted, for the key, of one length and announcing \<open>n\<close> workers, all different.\<close>

definition round_datagrams :: "grad_slot_key \<Rightarrow> nat \<Rightarrow> nat \<Rightarrow> bytes list \<Rightarrow> bool" where
  "round_datagrams k n len ds \<longleftrightarrow>
     (\<forall>d\<in>set ds. agg_accepts d \<and> key_of (agg_hdr d) = k \<and> unat (gh_num_workers (agg_hdr d)) = n \<and>
        unat (gh_chunk_len (agg_hdr d)) = len) \<and>
     distinct (map (\<lambda>d. gh_worker_id (agg_hdr d)) ds)"

lemma round_datagrams_counted:
  assumes "round_datagrams k n len ds"
  shows "filter (agg_for_key k) ds = ds" "map snd (agg_counted [] k ds) = map agg_values ds"
proof -
  show f: "filter (agg_for_key k) ds = ds" using assms by (simp add: round_datagrams_def agg_for_key_def)
  have "distinct (map unat (map (\<lambda>d. gh_worker_id (agg_hdr d)) ds))"
    using assms unfolding round_datagrams_def distinct_map [of unat] by (simp add: inj_on_def word_unat_eq_iff)
  then have "distinct (map fst ([] @ map contribution_of ds))" by (simp add: comp_def contribution_of_def)
  from log_adds_distinct [OF this] f show "map snd (agg_counted [] k ds) = map agg_values ds"
    by (simp add: counted_among_def contribution_of_def agg_values_def)
qed

lemma agg_completes:
  assumes sim: "agg_simulates rs t st" and q: "\<forall>inp\<in>set inps. quiet cfg inp st" "ac_max_packets cfg = 0"
    and fr: "probe_slot (ag_slots st) k = Free i" and adm: "agg_admits cfg (ag_jobs st) (k_job_id k)"
    and rd: "round_datagrams k (length inps) len (datagrams inps)" and ne: "inps \<noteq> []"
  defines "tot \<equiv> column_sum len (mset (map agg_values (datagrams inps)))"
  shows "\<exists>st' evss. agg_run cfg inps st = Some (st', evss) \<and>
    map sent evss = replicate (length inps - 1) [] @ [[encode_packet (sum_hdr k len) tot]] \<and> \<not> sl_in_use (ag_slots st' i)"
proof -
  obtain R where R: "entries_track (ag_slots st) R" and b: "agg_buffers st" using sim by (auto simp: agg_simulates_def)
  let ?ds = "datagrams inps"
  have all: "agg_for_key k d \<and> unat (gh_num_workers (agg_hdr d)) = length inps \<and> unat (gh_chunk_len (agg_hdr d)) = len" if "d \<in> set ?ds" for d
    using rd that unfolding round_datagrams_def agg_for_key_def by blast
  have ends: "hd ?ds \<in> set ?ds" "last ?ds \<in> set ?ds" using ne by (simp_all del: set_map)
  have split: "?ds = butlast ?ds @ [last ?ds]" using ne by simp
  have dist: "distinct (map (\<lambda>d. gh_worker_id (agg_hdr d)) (butlast ?ds @ [last ?ds]))"
    using rd unfolding split [symmetric] by (simp add: round_datagrams_def)
  note dist' = dist [unfolded map_append distinct_append]
  have ws: "agg_workers k (butlast ?ds) = set (map (\<lambda>d. gh_worker_id (agg_hdr d)) (butlast ?ds))"
    using all in_set_butlastD by (fastforce simp: workers_among_def)
  have card: "card (agg_workers k (butlast ?ds)) + 1 = unat (gh_num_workers (agg_hdr (hd ?ds)))"
    unfolding ws distinct_card [OF conjunct1 [OF dist']] using ne all [OF ends(1)] by (simp add: Suc_leI del: wire_hdr_sel)
  have new: "gh_worker_id (agg_hdr (last ?ds)) \<notin> agg_workers k (butlast ?ds)" unfolding ws using dist' by auto
  obtain st' evss evs where r: "agg_run cfg inps st = Some (st', evss @ [evs])" "length evss = length inps - 1"
    "\<forall>j<length evss. agg_for_key k (?ds ! j) \<longrightarrow> sent (evss ! j) = []" "sent evs = [encode_packet (sum_hdr k len) tot]"
    "\<not> sl_in_use (ag_slots st' i)"
    using agg_traffic_completes [OF R b q fr adm ne _ _ _ _ card new refl, of len] all ends
    unfolding round_datagrams_counted(2) [OF rd] tot_def by blast
  have "sent (evss ! j) = []" if "j < length evss" for j
  proof -
    have "j < length ?ds" using that r(2) by simp
    then show ?thesis using r(3) all [OF nth_mem] that by blast
  qed
  then have "map sent evss = replicate (length inps - 1) []" using r(2) by (intro nth_equalityI) simp_all
  then show ?thesis using r(1,4,5) by simp
qed

end
