(* ===== verification/Agg_Chains.thy ===== *)
theory Agg_Chains
  imports Agg_Traffic
begin

text \<open>
  \<open>free_slot\<close> clears \<open>in_use\<close> and leaves no tombstone, so a slot that was displaced by linear probing is cut
  off from the start of its probe sequence when the slot before it closes. The next contribution to its
  round then opens a second slot for the same key, and the round is never sent.
\<close>

section \<open>Two rounds with one home\<close>

lemma agg_admits_unlimited: "ac_job_quota cfg \<le> 0 \<Longrightarrow> agg_admits cfg J job"
  by (auto simp: agg_admits_def split: prod.split option.split)

lemma agg_request_round:
  assumes "round_datagrams k n len ds" "datagram (ai_recv inp) \<in> set ds"
  shows "agg_accepts (datagram (ai_recv inp))" "k = key_of (agg_hdr (datagram (ai_recv inp)))"
    "agg_request (ai_recv inp) = Some (k, n, unat (gh_worker_id (agg_hdr (datagram (ai_recv inp)))), agg_values (datagram (ai_recv inp)))"
    "length (agg_values (datagram (ai_recv inp))) = len"
  using assms by (auto simp: round_datagrams_def agg_request_datagram agg_packets.packet_request_def agg_values_def)

lemma spec_first:
  "length vs = len \<Longrightarrow> spec_contribute (entry_map k None) k 2 (w, vs) =
     (Absorbed, entry_map k (Some \<lparr>r_len = len, r_expected = 2, r_log = [(w, vs)]\<rparr>))"
  by (simp add: spec_contribute_def round_of_def Let_def)

lemma spec_second:
  "w \<noteq> w' \<Longrightarrow> length vs' = len \<Longrightarrow>
     spec_contribute (entry_map k (Some \<lparr>r_len = len, r_expected = 2, r_log = [(w, vs)]\<rparr>)) k 2 (w', vs') =
     (Summed (column_sum len {#vs, vs'#}), entry_map k None)"
  by (simp add: spec_contribute_def round_of_def Let_def)

definition half_open :: "agg_state \<Rightarrow> nat \<Rightarrow> grad_slot_key \<Rightarrow> bool" where
  "half_open st i k \<longleftrightarrow> sl_in_use (ag_slots st i) \<and> sl_key (ag_slots st i) = k \<and>
     sl_contributions_received (ag_slots st i) = 1 \<and> sl_num_workers_expected (ag_slots st i) = 2"

lemma entries_track_half:
  assumes "entries_track (ag_slots st) R" "i < SLOT_TABLE_CAPACITY" "R i = Some r" "length (r_log r) = 1" "r_expected r = 2"
    "sl_in_use (ag_slots st i) \<Longrightarrow> sl_key (ag_slots st i) = k"
  shows "half_open st i k"
proof -
  have u: "sl_in_use (ag_slots st i)" using entries_track_unused [OF assms(1,2)] assms(3) by fastforce
  then have e: "entry_round (ag_slots st i) r" using entries_track_used [OF assms(1,2)] assms(3) by auto
  then have "unat (sl_contributions_received (ag_slots st i)) = unat (1 :: u16)"
    "unat (sl_num_workers_expected (ag_slots st i)) = unat (2 :: u16)"
    using assms(4,5) by (simp_all add: entry_round_def)
  then show ?thesis using u assms(6) by (simp add: half_open_def word_unat_eq_iff)
qed

lemma agg_chain_breaks:
  assumes bufs: "length b = 276" "length b' = 276"
    and cfg: "ac_job_quota cfg \<le> 0" "ac_slot_ttl_ms cfg \<le> 0" "ac_max_packets cfg = 0"
    and keys: "k1 \<noteq> k2" "slot_index k1 0 = slot_index k2 0"
    and a: "round_datagrams k1 2 len1 [datagram (ai_recv a0), datagram (ai_recv a1)]"
    and c: "round_datagrams k2 2 len2 [datagram (ai_recv c0), datagram (ai_recv c1)]"
  shows "\<exists>st evss. agg_run cfg [a0, c0, a1, c1] (agg_init b b' now) = Some (st, evss) \<and>
    map sent evss = [[], [], [encode_packet (sum_hdr k1 len1)
       (column_sum len1 {#agg_values (datagram (ai_recv a0)), agg_values (datagram (ai_recv a1))#})], []] \<and>
    half_open st (slot_index k2 0) k2 \<and> half_open st (slot_index k2 1) k2"
proof -
  let ?i = "slot_index k2 0" and ?j = "slot_index k2 1"
  let ?st0 = "agg_init b b' now"
  let ?w = "\<lambda>inp. unat (gh_worker_id (agg_hdr (datagram (ai_recv inp))))" and ?v = "\<lambda>inp. agg_values (datagram (ai_recv inp))"
  have ij: "?i < SLOT_TABLE_CAPACITY" "?j < SLOT_TABLE_CAPACITY" "?j \<noteq> ?i"
    by (rule slot_index_bound slot_index_next)+
  have q: "quiet cfg inp st" for inp st using cfg(2) by (simp add: quiet_def)
  note A0 = agg_request_round [OF a, of a0, simplified] and A1 = agg_request_round [OF a, of a1, simplified]
    and C0 = agg_request_round [OF c, of c0, simplified] and C1 = agg_request_round [OF c, of c1, simplified]
  have dist: "?w a0 \<noteq> ?w a1" using a by (simp add: round_datagrams_def word_unat_eq_iff)
  let ?ra = "\<lparr>r_len = len1, r_expected = 2, r_log = [(?w a0, ?v a0)]\<rparr>"
  let ?rc = "\<lambda>inp. \<lparr>r_len = len2, r_expected = 2, r_log = [(?w inp, ?v inp)]\<rparr>"
  have b0: "agg_buffers ?st0" and t0: "entries_track (ag_slots ?st0) (\<lambda>_. None)"
    using bufs by (simp_all add: agg_buffers_def agg_init_def entries_track_def zero_agg_slot_def)
  have free0: "\<not> sl_in_use (ag_slots ?st0 n)" for n by (simp add: agg_init_def zero_agg_slot_def)
  have r0: "entry_ready cfg ?st0 k1 ?i"
    using probe_home_free [of "ag_slots ?st0" k1] free0 keys(2) agg_admits_unlimited [OF cfg(1)] by (simp add: entry_ready_def)
  have s0: "spec_request (entry_map k1 None) (agg_request (ai_recv a0)) = (Absorbed, entry_map k1 (Some ?ra))"
    unfolding A0(3) using A0(4) by (simp add: spec_first)
  obtain st1 e1 where 1: "agg_step cfg a0 ?st0 = Some (st1, e1)" "entries_track (ag_slots st1) [?i \<mapsto> ?ra]"
    "sent e1 = []" "agg_buffers st1" "\<And>j. j \<noteq> ?i \<Longrightarrow> ag_slots st1 j = ag_slots ?st0 j" "probe_slot (ag_slots st1) k1 = Found ?i"
    by (rule agg_step_serves [OF t0 b0 q A0(1,2) r0 s0]) (simp add: sends_verdict_def)
  note used1 = probe_slot_Found [OF 1(6)]
  have r1: "entry_ready cfg st1 k2 ?j"
    using probe_next_free [of "ag_slots st1" k2] used1 keys(1) 1(5) [OF ij(3)] free0 agg_admits_unlimited [OF cfg(1)]
    by (simp add: entry_ready_def)
  have s1: "spec_request (entry_map k2 ([?i \<mapsto> ?ra] ?j)) (agg_request (ai_recv c0)) = (Absorbed, entry_map k2 (Some (?rc c0)))"
    unfolding C0(3) using ij(3) C0(4) by (simp add: spec_first)
  obtain st2 e2 where 2: "agg_step cfg c0 st1 = Some (st2, e2)" "entries_track (ag_slots st2) [?i \<mapsto> ?ra, ?j \<mapsto> ?rc c0]"
    "sent e2 = []" "agg_buffers st2" "\<And>j. j \<noteq> ?j \<Longrightarrow> ag_slots st2 j = ag_slots st1 j" "probe_slot (ag_slots st2) k2 = Found ?j"
    by (rule agg_step_serves [OF 1(2,4) q C0(1,2) r1 s1]) (simp add: sends_verdict_def del: fun_upd_apply)
  have r2: "entry_ready cfg st2 k1 ?i"
    using probe_home_found [of "ag_slots st2" k1] used1 2(5) [OF ij(3) [symmetric]] keys(2) by (simp add: entry_ready_def)
  define R2 where "R2 = [?i \<mapsto> ?ra, ?j \<mapsto> ?rc c0]"
  have R2: "entries_track (ag_slots st2) R2" "R2 ?i = Some ?ra" "R2 ?j = Some (?rc c0)"
    using 2(2) ij(3) by (simp_all add: R2_def)
  define tot where "tot = column_sum len1 {#?v a0, ?v a1#}"
  have tot: "length tot = len1" by (simp add: tot_def)
  have s2: "spec_request (entry_map k1 (R2 ?i)) (agg_request (ai_recv a1)) = (Summed tot, entry_map k1 None)"
    unfolding A1(3) R2(2) tot_def using dist A0(4) A1(4) by (simp add: spec_second)
  have v2: "sends_verdict k1 (Summed tot) = [encode_packet (sum_hdr k1 len1) tot]" by (simp add: sends_verdict_def tot)
  obtain st3 e3 where 3: "agg_step cfg a1 st2 = Some (st3, e3)" "entries_track (ag_slots st3) (R2(?i := None))"
    "sent e3 = [encode_packet (sum_hdr k1 len1) tot]" "agg_buffers st3"
    "\<And>j. j \<noteq> ?i \<Longrightarrow> ag_slots st3 j = ag_slots st2 j"
    by (rule agg_step_serves [OF R2(1) 2(4) q A1(1,2) r2 s2, unfolded v2 entry_map_simps]) blast
  define R3 where "R3 = R2(?i := None)"
  have R3: "entries_track (ag_slots st3) R3" "R3 ?i = None" "R3 ?j = Some (?rc c0)"
    using 3(2) R2(3) ij(3) by (simp_all add: R3_def)
  have "\<not> sl_in_use (ag_slots st3 ?i)" using entries_track_used [OF R3(1) ij(1)] R3(2) by auto
  then have r3: "entry_ready cfg st3 k2 ?i"
    using probe_home_free [of "ag_slots st3" k2] agg_admits_unlimited [OF cfg(1)] by (simp add: entry_ready_def)
  have s3: "spec_request (entry_map k2 (R3 ?i)) (agg_request (ai_recv c1)) = (Absorbed, entry_map k2 (Some (?rc c1)))"
    unfolding C1(3) R3(2) using C1(4) by (simp add: spec_first)
  have v3: "sends_verdict k2 Absorbed = []" by (simp add: sends_verdict_def)
  obtain st4 e4 where 4: "agg_step cfg c1 st3 = Some (st4, e4)" "entries_track (ag_slots st4) (R3(?i \<mapsto> ?rc c1))"
    "sent e4 = []" "\<And>j. j \<noteq> ?i \<Longrightarrow> ag_slots st4 j = ag_slots st3 j"
    "sl_in_use (ag_slots st4 ?i) \<Longrightarrow> sl_key (ag_slots st4 ?i) = k2"
    by (rule agg_step_serves [OF R3(1) 3(4) q C1(1,2) r3 s3, unfolded v3 entry_map_simps]) blast
  have "half_open st4 ?i k2"
    by (rule entries_track_half [OF 4(2) ij(1), of "?rc c1"]) (use 4(5) in simp_all)
  moreover have "half_open st4 ?j k2"
    by (rule entries_track_half [OF 4(2) ij(2), of "?rc c0"])
      (use ij(3) 4(4) [OF ij(3)] 3(5) [OF ij(3)] probe_slot_Found(3) [OF 2(6)] R3(3) in simp_all)
  moreover have "agg_run cfg [a0, c0, a1, c1] ?st0 = Some (st4, [e1, e2, e3, e4])"
    using 1(1) 2(1) 3(1) 4(1) cfg(3) by simp
  moreover have "map sent [e1, e2, e3, e4] = [[], [], [encode_packet (sum_hdr k1 len1) tot], []]"
    using 1(3) 2(3) 3(3) 4(3) by simp
  ultimately show ?thesis unfolding tot_def by (intro exI conjI)
qed

end
