(* ===== verification/Agg_Guards.thy ===== *)
theory Agg_Guards
  imports Agg_Live
begin

text \<open>
  The contributions that must not count: duplicates and contributions of another length, and new slots
  over the job's quota. Also what the statistics dump reports, and the two ways the quota check fails.
\<close>

section \<open>Duplicates and mismatches\<close>

lemma agg_receive_accepted:
  assumes "agg_buffers st" "agg_accepts (datagram (ai_recv inp))"
  obtains st1 h where "h = (agg_hdr (datagram (ai_recv inp)))\<lparr>gh_flags := 0\<rparr>"
    "agg_receive cfg inp st = agg_contribute cfg inp h st1" "ag_slots st1 = ag_slots st" "ag_jobs st1 = ag_jobs st"
    "key_of h = key_of (agg_hdr (datagram (ai_recv inp)))"
proof (cases rule: agg_receive_cases [OF assms(1), of inp cfg, case_names ignored request])
  case (ignored st')
  with assms(2) show ?thesis by (simp add: agg_request_datagram)
next
  case (request d st1 h)
  then show ?thesis by (intro that [of h st1]) (simp_all add: key_of_def)
qed

lemma agg_ignores:
  assumes b: "agg_buffers st" and d: "d = datagram (ai_recv inp)" "agg_accepts d"
    and p: "probe_slot (ag_slots st) (key_of (agg_hdr d)) = Found i" and ok: "sl_arrays_ok (ag_slots st i)"
    and n: "sl_contributions_received (ag_slots st i) \<noteq> 0"
    and ign: "sl_chunk_len (ag_slots st i) \<noteq> gh_chunk_len (agg_hdr d) \<or>
      unat (gh_worker_id (agg_hdr d)) \<in> sl_workers (ag_slots st i)"
  shows "\<exists>st' ev. agg_receive cfg inp st = Some (st', [ev]) \<and> ag_slots st' = ag_slots st \<and> ag_jobs st' = ag_jobs st \<and> sent [ev] = []"
proof -
  obtain st1 h where r: "h = (agg_hdr d)\<lparr>gh_flags := 0\<rparr>" "agg_receive cfg inp st = agg_contribute cfg inp h st1"
    "ag_slots st1 = ag_slots st" "ag_jobs st1 = ag_jobs st" "key_of h = key_of (agg_hdr d)"
    using agg_receive_accepted [OF b d(2) [unfolded d(1)], of cfg] unfolding d(1) by blast
  have f: "find_or_create_slot (ac_job_quota cfg) (ag_slots st1) (ag_jobs st1) (key_of h) = (Some i, ag_slots st, ag_jobs st)"
    using p r(3-5) by (simp add: find_or_create_slot_def)
  have w: "seen_test (sl_seen_worker (ag_slots st i)) (unat (gh_worker_id h)) =
      Some (unat (gh_worker_id h) \<in> sl_workers (ag_slots st i))"
    using ok d(2) r(1) by (simp add: seen.test sl_arrays_ok_def agg_accepts_def)
  show ?thesis
    unfolding r(2) agg_contribute_found [OF f] using n ign w r(1,3,4)
    by (auto simp: latched_def Let_def)
qed

section \<open>Slots over the quota\<close>

lemma agg_rejects:
  assumes b: "agg_buffers st" and d: "d = datagram (ai_recv inp)" "agg_accepts d"
    and p: "probe_slot (ag_slots st) (key_of (agg_hdr d)) = Free i"
    and j: "find_or_create_job (ag_jobs st) (k_job_id (key_of (agg_hdr d))) = (Some j, J)"
    and q: "0 < ac_job_quota cfg" "word_of_int (ac_job_quota cfg) \<le> je_concurrent_slots (J j)"
  shows "\<exists>st'. agg_receive cfg inp st =
      Some (st', [Ag_admission_reject (gh_job_id (agg_hdr d)) (gh_round (agg_hdr d)) (gh_chunk_id (agg_hdr d))]) \<and>
    ag_slots st' = ag_slots st \<and> ag_jobs st' = J(j := (J j)\<lparr>je_rejected_count := je_rejected_count (J j) + 1\<rparr>)"
proof -
  obtain st1 h where r: "h = (agg_hdr d)\<lparr>gh_flags := 0\<rparr>" "agg_receive cfg inp st = agg_contribute cfg inp h st1"
    "ag_slots st1 = ag_slots st" "ag_jobs st1 = ag_jobs st" "key_of h = key_of (agg_hdr d)"
    using agg_receive_accepted [OF b d(2) [unfolded d(1)], of cfg] unfolding d(1) by blast
  have "find_or_create_slot (ac_job_quota cfg) (ag_slots st1) (ag_jobs st1) (key_of h) =
      (None, ag_slots st, J(j := (J j)\<lparr>je_rejected_count := je_rejected_count (J j) + 1\<rparr>))"
    using p j q r(3-5) by (simp add: find_or_create_slot_def)
  then show ?thesis unfolding r(2) using r(1) by (simp add: agg_contribute_def)
qed

lemma quota_wraps: "2 ^ 32 dvd q \<Longrightarrow> word_of_int q = (0 :: u32)"
  by (simp add: word_of_int_eq_0_iff)

section \<open>A job without an entry\<close>

lemma job_untracked:
  assumes "jobs_full J" "\<forall>i<JOB_TABLE_CAPACITY. je_job_id (J i) \<noteq> job"
  shows "find_or_create_job J job = (None, J)"
proof (cases "probe_job J job")
  case (Found i)
  with assms(2) probe_job_Found [OF Found] show ?thesis by auto
next
  case (Free i)
  with assms(1) show ?thesis by (simp add: jobs_full_not_free)
qed (simp add: find_or_create_job_def)

section \<open>The statistics dump\<close>

lemma dump_job_stats_entry:
  "Ag_stats job c a r \<in> set (dump_job_stats J) \<Longrightarrow>
     \<exists>i<JOB_TABLE_CAPACITY. je_in_use (J i) \<and> je_job_id (J i) = job \<and> je_concurrent_slots (J i) = c"
  by (auto simp: dump_job_stats_def Let_def split: if_splits)

lemma reap_from_no_stats:
  assumes "reap_from now ttl 0 g J = (g', J', evs)"
  shows "Ag_stats job c a r \<notin> set evs"
  using reap_slots [OF _ assms] by auto

lemma agg_stats_truthful_state:
  assumes P: "jobs_accounted cfg (ag_slots st) (ag_jobs st)" and m: "agg_maintenance cfg inp st = (st', evs)"
    and e: "Ag_stats job c a r \<in> set evs"
  shows "unat c = slots_of job (ag_slots st')"
proof -
  have P': "jobs_accounted cfg (ag_slots st') (ag_jobs st')" using P m by (rule accounted.maintenance)
  obtain g J evs1 where r: "reap_from (ai_now_reap inp) (ac_slot_ttl_ms cfg * 1000) 0 (ag_slots st) (ag_jobs st) = (g, J, evs1)"
    by (cases "reap_from (ai_now_reap inp) (ac_slot_ttl_ms cfg * 1000) 0 (ag_slots st) (ag_jobs st)") auto
  have "Ag_stats job c a r \<in> set (dump_job_stats (ag_jobs st'))"
    using m e reap_from_no_stats [OF r]
    by (auto simp: agg_maintenance_def reap_expired_slots_def r Let_def split: if_splits)
  then obtain i where i: "i < JOB_TABLE_CAPACITY" "je_in_use (ag_jobs st' i)" "je_job_id (ag_jobs st' i) = job"
    "je_concurrent_slots (ag_jobs st' i) = c"
    using dump_job_stats_entry by blast
  have "jobs_intact (ag_jobs st')" and ok: "job_entry_ok cfg (ag_jobs st') job (slots_of job (ag_slots st'))"
    using P' by (simp_all add: jobs_accounted_def)
  then have "job_map_of (ag_jobs st') job = Some (ag_jobs st' i)" using job_map_of_eq_Some i by blast
  with ok i(4) show ?thesis by (simp add: job_entry_ok_def)
qed

section \<open>What the reaper gives back\<close>

lemma slots_of_none:
  "(\<And>j. j < SLOT_TABLE_CAPACITY \<Longrightarrow> sl_in_use (g j) \<Longrightarrow> sl_job_id (g j) \<noteq> job) \<Longrightarrow> slots_of job g = 0"
  by (auto simp: slots_of_def)

text \<open>A job without a slot is within any quota the check can express.\<close>

lemma idle_job_admitted:
  assumes P: "jobs_accounted cfg g J" and idle: "slots_of job g = 0" and q: "ac_job_quota cfg < 2 ^ 32"
  shows "agg_admits cfg J job"
proof -
  have J: "jobs_intact J" and ok: "job_entry_ok cfg J job 0"
    using P by (simp_all add: jobs_accounted_def idle [symmetric])
  obtain jo J1 where f: "find_or_create_job J job = (jo, J1)" by (cases "find_or_create_job J job")
  show ?thesis
  proof (cases jo)
    case None
    then show ?thesis using f by (simp add: agg_admits_def)
  next
    case (Some j)
    have "je_concurrent_slots (J1 j) = 0"
      using find_or_create_job_Some(7) [OF J f [unfolded Some]] ok by (auto simp: job_entry_ok_def unat_eq_0)
    moreover have "(word_of_int (ac_job_quota cfg) :: u32) \<noteq> 0" if "0 < ac_job_quota cfg"
      using that q by (simp add: word_of_int_eq_0_iff zdvd_not_zless)
    ultimately show ?thesis using f Some by (auto simp: agg_admits_def)
  qed
qed

lemma agg_reaper_gives_back:
  "case reap_expired_slots now slot_ttl_ms g J of (g', J', evs) \<Rightarrow>
     g' = (\<lambda>j. if j < SLOT_TABLE_CAPACITY \<and> expired now (slot_ttl_ms * 1000) (g j) then (g j)\<lparr>sl_in_use := False\<rparr> else g j) \<and>
     evs = map (\<lambda>j. Ag_reaped (sl_job_id (g j)) (sl_round (g j)) (sl_chunk_id (g j)) ((now - sl_last_touched_micros (g j)) div 1000))
       (filter (\<lambda>j. expired now (slot_ttl_ms * 1000) (g j)) [0..<SLOT_TABLE_CAPACITY]) \<and>
     (jobs_accounted cfg g J \<longrightarrow> jobs_accounted cfg g' J' \<and>
       (\<forall>job. (\<forall>j<SLOT_TABLE_CAPACITY. sl_in_use (g j) \<longrightarrow> sl_job_id (g j) = job \<longrightarrow> expired now (slot_ttl_ms * 1000) (g j)) \<longrightarrow>
          slots_of job g' = 0 \<and> (ac_job_quota cfg < 2 ^ 32 \<longrightarrow> agg_admits cfg J' job)))"
proof -
  obtain g' J' evs where r: "reap_from now (slot_ttl_ms * 1000) 0 g J = (g', J', evs)"
    by (cases "reap_from now (slot_ttl_ms * 1000) 0 g J") auto
  note g' = reap_slots [OF _ r, simplified]
  have "jobs_accounted cfg g' J'" if "jobs_accounted cfg g J" using that r by (rule accounted.reap)
  moreover have "slots_of job g' = 0"
    if "\<forall>j<SLOT_TABLE_CAPACITY. sl_in_use (g j) \<longrightarrow> sl_job_id (g j) = job \<longrightarrow> expired now (slot_ttl_ms * 1000) (g j)" for job
    using that by (intro slots_of_none) (auto simp: g' split: if_splits)
  ultimately show ?thesis
    using g' idle_job_admitted [of cfg g' J'] unfolding reap_expired_slots_def r by simp
qed

end
