(* ===== verification/Paramserver.thy ===== *)
theory Paramserver
  imports Slot_Table Contribution
begin

text \<open>
  The parameter server (\<open>paramserver/paramserver.c\<close>): its slot table, one iteration of the receive
  loop of \<open>main\<close> and the loop itself. Input of an iteration is what \<open>recvfrom\<close> delivers and the two
  clock readings the iteration can make; its log lines are the output.
\<close>

section \<open>State\<close>

record ps_slot = slot_base +
  sl_completed_micros :: int \<comment> \<open>0 until complete\<close>

definition zero_ps_slot :: ps_slot where
  "zero_ps_slot = \<lparr>sl_in_use = False, sl_job_id = 0, sl_round = 0, sl_chunk_id = 0,
     sl_num_workers_expected = 0, sl_contributions_received = 0, sl_sum = replicate 64 0,
     sl_chunk_len = 0, sl_seen_worker = replicate 256 0, sl_first_seen_micros = 0,
     sl_completed_micros = 0\<rparr>"

record ps_state =
  ps_slots :: "nat \<Rightarrow> ps_slot"
  ps_packet :: bytes
  ps_packets_seen :: int
  ps_slots_completed :: int

record ps_input =
  ps_recv :: recv
  ps_now_first :: int
  ps_now_completed :: int

datatype ps_event =
    Ps_table_full
  | Ps_dup u32 u32 u32 u16
  | Ps_complete u32 u32 u32 u16 i32 int \<comment> \<open>contributions, \<open>sum[0]\<close>, latency\<close>

definition ps_init :: "bytes \<Rightarrow> ps_state" where
  "ps_init packet = \<lparr>ps_slots = (\<lambda>_. zero_ps_slot), ps_packet = packet, ps_packets_seen = 0, ps_slots_completed = 0\<rparr>"

section \<open>Operations\<close>

definition ps_find_or_create_slot ::
    "(nat \<Rightarrow> ps_slot) \<Rightarrow> grad_slot_key \<Rightarrow> (nat \<times> (nat \<Rightarrow> ps_slot)) option" where
  "ps_find_or_create_slot g_slots k =
     (case probe_slot g_slots k of
        Free i \<Rightarrow> Some (i, g_slots(i := zero_ps_slot
          \<lparr>sl_in_use := True, sl_job_id := k_job_id k, sl_round := k_round k, sl_chunk_id := k_chunk_id k\<rparr>))
      | Found i \<Rightarrow> Some (i, g_slots)
      | Table_full \<Rightarrow> None)"

text \<open>From the slot lookup to the end of the loop body.\<close>

definition ps_contribute ::
    "bool \<Rightarrow> ps_input \<Rightarrow> grad_hdr \<Rightarrow> ps_state \<Rightarrow> (ps_state \<times> ps_event list) option" where
  "ps_contribute agg_mode inp h st =
     (case ps_find_or_create_slot (ps_slots st) (key_of h) of
        None \<Rightarrow> Some (st, [Ps_table_full])
      | Some (i, g_slots) \<Rightarrow> do {
          let slot = g_slots i;
          let slot = (if sl_contributions_received slot = 0
            then slot\<lparr>sl_first_seen_micros := ps_now_first inp, sl_chunk_len := gh_chunk_len h,
                      sl_num_workers_expected := (if agg_mode then 1 else gh_num_workers h)\<rparr>
            else slot);
          dup \<leftarrow> seen_test (sl_seen_worker slot) (unat (gh_worker_id h));
          if dup then Some (st\<lparr>ps_slots := g_slots(i := slot)\<rparr>,
            [Ps_dup (gh_job_id h) (gh_round h) (gh_chunk_id h) (gh_worker_id h)])
          else do {
            seen \<leftarrow> seen_mark (sl_seen_worker slot) (unat (gh_worker_id h));
            acc \<leftarrow> accumulate (ps_packet st) NETSUM_HDR_SIZE (unat (gh_chunk_len h)) 0 (sl_sum slot);
            let slot = slot\<lparr>sl_seen_worker := seen, sl_sum := acc,
              sl_contributions_received := sl_contributions_received slot + 1\<rparr>;
            if sl_contributions_received slot = sl_num_workers_expected slot \<and> sl_completed_micros slot = 0
            then do {
              let slot = slot\<lparr>sl_completed_micros := ps_now_completed inp\<rparr>;
              sum0 \<leftarrow> arr_get (sl_sum slot) 0;
              Some (st\<lparr>ps_slots := g_slots(i := slot), ps_slots_completed := ps_slots_completed st + 1\<rparr>,
                [Ps_complete (gh_job_id h) (gh_round h) (gh_chunk_id h) (sl_contributions_received slot) sum0
                  (sl_completed_micros slot - sl_first_seen_micros slot)]) }
            else Some (st\<lparr>ps_slots := g_slots(i := slot)\<rparr>, []) } })"

definition ps_load_hdr :: "bytes \<Rightarrow> grad_hdr option" where
  "ps_load_hdr packet = do {
     job_id \<leftarrow> map_option ntohl (ld32 packet at_job_id);
     round_id \<leftarrow> map_option ntohl (ld32 packet at_round);
     chunk_id \<leftarrow> map_option ntohl (ld32 packet at_chunk_id);
     worker_id \<leftarrow> map_option ntohs (ld16 packet at_worker_id);
     num_workers \<leftarrow> map_option ntohs (ld16 packet at_num_workers);
     chunk_len \<leftarrow> map_option ntohs (ld16 packet at_chunk_len);
     Some \<lparr>gh_job_id = job_id, gh_round = round_id, gh_chunk_id = chunk_id, gh_worker_id = worker_id,
           gh_num_workers = num_workers, gh_chunk_len = chunk_len, gh_flags = 0\<rparr> }"

definition ps_step :: "bool \<Rightarrow> ps_input \<Rightarrow> ps_state \<Rightarrow> (ps_state \<times> ps_event list) option" where
  "ps_step agg_mode inp st = do {
     let (n, packet) = recvfrom (ps_packet st) (ps_recv inp);
     let st = st\<lparr>ps_packet := packet\<rparr>;
     if n < int NETSUM_HDR_SIZE then Some (st, [])
     else do {
       let st = st\<lparr>ps_packets_seen := ps_packets_seen st + 1\<rparr>;
       h \<leftarrow> ps_load_hdr packet;
       if unat (gh_chunk_len h) > NETSUM_MAX_CHUNK_LEN then Some (st, [])
       else if unat (gh_worker_id h) \<ge> MAX_TRACKED_WORKERS then Some (st, [])
       else ps_contribute agg_mode inp h st } }"

text \<open>The receive loop over a finite run of inputs.\<close>

fun ps_run :: "bool \<Rightarrow> int \<Rightarrow> ps_input list \<Rightarrow> ps_state \<Rightarrow> (ps_state \<times> ps_event list) option" where
  "ps_run agg_mode max_packets [] st = Some (st, [])"
| "ps_run agg_mode max_packets (inp # inps) st =
     (if max_packets = 0 \<or> ps_packets_seen st < max_packets
      then do {
        (st, evs) \<leftarrow> ps_step agg_mode inp st;
        (st, evs') \<leftarrow> ps_run agg_mode max_packets inps st;
        Some (st, evs @ evs') }
      else Some (st, []))"

section \<open>The table is a map from keys to slots\<close>

definition ps_fresh :: "grad_slot_key \<Rightarrow> ps_slot" where
  "ps_fresh k = zero_ps_slot
     \<lparr>sl_in_use := True, sl_job_id := k_job_id k, sl_round := k_round k, sl_chunk_id := k_chunk_id k\<rparr>"

lemma ps_fresh_simps [simp]:
  "sl_in_use (ps_fresh k)" "sl_key (ps_fresh k) = k" "sl_arrays_ok (ps_fresh k)"
  "sl_contributions_received (ps_fresh k) = 0" "sl_sum (ps_fresh k) = replicate 64 0"
  "sl_seen_worker (ps_fresh k) = replicate 256 0" "sl_completed_micros (ps_fresh k) = 0"
  by (simp_all add: ps_fresh_def zero_ps_slot_def sl_key_def sl_arrays_ok_def)

lemma ps_find_or_create_Some:
  assumes "ps_find_or_create_slot g k = Some (i, g')" "slots_intact g"
  shows "probe_slot g k = Found i \<or> probe_slot g k = Free i"
    and "g' i = (case slot_map_of g k of None \<Rightarrow> ps_fresh k | Some s \<Rightarrow> s)"
    and "g' = g(i := g' i)"
  using assms by (auto simp: ps_find_or_create_slot_def slot_map_of_def ps_fresh_def split: probe_result.splits)

lemma slot_map_of_key: "slot_map_of g k = Some s \<Longrightarrow> sl_in_use s \<and> sl_key s = k"
  by (auto simp: slot_map_of_def split: probe_result.splits dest: probe_slot_Found)

lemma ps_slot_write:
  assumes "ps_find_or_create_slot g k = Some (i, g')" "slots_intact g" "sl_in_use s" "sl_key s = k"
  shows "slots_intact (g'(i := s))" "slot_map_of (g'(i := s)) = (slot_map_of g)(k \<mapsto> s)"
proof -
  have "g'(i := s) = g(i := s)" using ps_find_or_create_Some(3) [OF assms(1,2)] by (metis fun_upd_upd)
  then show "slots_intact (g'(i := s))" "slot_map_of (g'(i := s)) = (slot_map_of g)(k \<mapsto> s)"
    using slot_map_of_write [OF assms(2) ps_find_or_create_Some(1) [OF assms(1,2)] assms(3,4)] by simp_all
qed


section \<open>One iteration\<close>

definition ps_inv :: "ps_state \<Rightarrow> bool" where
  "ps_inv st \<longleftrightarrow> length (ps_packet st) = NETSUM_MAX_PACKET_SIZE \<and> slots_intact (ps_slots st) \<and>
     (\<forall>k s. slot_map_of (ps_slots st) k = Some s \<longrightarrow> sl_arrays_ok s)"

lemma ps_load_hdr_eq:
  "20 \<le> length packet \<Longrightarrow> ps_load_hdr packet = Some ((wire_hdr packet 0)\<lparr>gh_flags := 0\<rparr>)"
  by (simp add: ps_load_hdr_def wire_load wire_hdr_def)

text \<open>The slot a contribution goes to, with the fields the first one latches.\<close>

definition ps_latched :: "bool \<Rightarrow> ps_input \<Rightarrow> grad_hdr \<Rightarrow> ps_slot option \<Rightarrow> ps_slot" where
  "ps_latched agg_mode inp h m =
     (let slot = (case m of None \<Rightarrow> ps_fresh (key_of h) | Some s \<Rightarrow> s) in
      if sl_contributions_received slot = 0
      then slot\<lparr>sl_first_seen_micros := ps_now_first inp, sl_chunk_len := gh_chunk_len h,
                sl_num_workers_expected := (if agg_mode then 1 else gh_num_workers h)\<rparr>
      else slot)"

lemma ps_latched_simps [simp]:
  "sl_in_use (ps_latched a inp h m) = (case m of None \<Rightarrow> True | Some s \<Rightarrow> sl_in_use s)"
  "sl_key (ps_latched a inp h m) = (case m of None \<Rightarrow> key_of h | Some s \<Rightarrow> sl_key s)"
  "sl_sum (ps_latched a inp h m) = (case m of None \<Rightarrow> replicate 64 0 | Some s \<Rightarrow> sl_sum s)"
  "sl_seen_worker (ps_latched a inp h m) = (case m of None \<Rightarrow> replicate 256 0 | Some s \<Rightarrow> sl_seen_worker s)"
  "sl_contributions_received (ps_latched a inp h m) = (case m of None \<Rightarrow> 0 | Some s \<Rightarrow> sl_contributions_received s)"
  by (simp_all add: ps_latched_def Let_def split: option.split)

text \<open>
  A contribution whose slot is found or created: the map of the table changes at its key only, a
  duplicate leaves sum, worker set and count alone, and any other adds its values once.
\<close>

lemma ps_contribute_cases:
  fixes agg_mode :: bool and inp :: ps_input and h :: grad_hdr and st :: ps_state
  assumes inv: "ps_inv st" and len: "unat (gh_chunk_len h) \<le> 64" and w: "unat (gh_worker_id h) < 256"
  defines "k \<equiv> key_of h"
  defines "m \<equiv> slot_map_of (ps_slots st) k"
  defines "l \<equiv> ps_latched agg_mode inp h m"
  obtains (full) "probe_slot (ps_slots st) k = Table_full" "ps_contribute agg_mode inp h st = Some (st, [Ps_table_full])"
    | (dup) st' evs where "ps_contribute agg_mode inp h st = Some (st', evs)"
        "seen_mem (sl_seen_worker l) (unat (gh_worker_id h))"
        "st' = st\<lparr>ps_slots := ps_slots st'\<rparr>" "slots_intact (ps_slots st')"
        "slot_map_of (ps_slots st') = (slot_map_of (ps_slots st))(k \<mapsto> l)"
        "evs = [Ps_dup (gh_job_id h) (gh_round h) (gh_chunk_id h) (gh_worker_id h)]"
    | (new) st' evs s where "ps_contribute agg_mode inp h st = Some (st', evs)"
        "\<not> seen_mem (sl_seen_worker l) (unat (gh_worker_id h))"
        "ps_packet st' = ps_packet st" "ps_packets_seen st' = ps_packets_seen st" "slots_intact (ps_slots st')"
        "slot_map_of (ps_slots st') = (slot_map_of (ps_slots st))(k \<mapsto> s)"
        "sl_sum s = add_values (sl_sum l) (wire_values (ps_packet st) 20 (unat (gh_chunk_len h)))"
        "{v. seen_mem (sl_seen_worker s) v} = insert (unat (gh_worker_id h)) {v. seen_mem (sl_seen_worker l) v}"
        "length (sl_seen_worker s) = 256"
        "sl_contributions_received s = sl_contributions_received l + 1"
        "sl_num_workers_expected s = sl_num_workers_expected l"
        "if sl_contributions_received s = sl_num_workers_expected s \<and> sl_completed_micros l = 0
         then sl_completed_micros s = ps_now_completed inp \<and>
           evs = [Ps_complete (gh_job_id h) (gh_round h) (gh_chunk_id h) (sl_contributions_received s) (sl_sum s ! 0)
             (ps_now_completed inp - sl_first_seen_micros l)]
         else sl_completed_micros s = sl_completed_micros l \<and> evs = []"
proof (cases "ps_find_or_create_slot (ps_slots st) k")
  case None
  then show ?thesis
    by (intro full) (auto simp: ps_find_or_create_slot_def ps_contribute_def k_def split: probe_result.splits)
next
  case (Some r)
  obtain i g where r: "ps_find_or_create_slot (ps_slots st) k = Some (i, g)"
    using Some by (cases r) simp
  have int: "slots_intact (ps_slots st)" and pkt: "length (ps_packet st) = 276"
    using inv by (simp_all add: ps_inv_def proto_consts)
  have gi: "g i = (case m of None \<Rightarrow> ps_fresh k | Some s \<Rightarrow> s)"
    using ps_find_or_create_Some(2) [OF r int] by (simp add: m_def)
  have mk: "sl_in_use s \<and> sl_key s = k \<and> sl_arrays_ok s" if "m = Some s" for s
    using that inv slot_map_of_key [of "ps_slots st" k s] unfolding m_def ps_inv_def by auto
  have l: "sl_in_use l" "sl_key l = k" "length (sl_sum l) = 64" "length (sl_seen_worker l) = 256"
    using mk by (auto simp: l_def k_def sl_arrays_ok_def split: option.split)
  have lat: "(if sl_contributions_received (g i) = 0
      then (g i)\<lparr>sl_first_seen_micros := ps_now_first inp, sl_chunk_len := gh_chunk_len h,
                sl_num_workers_expected := (if agg_mode then 1 else gh_num_workers h)\<rparr>
      else g i) = l"
    unfolding l_def ps_latched_def gi k_def by (simp add: Let_def)
  note body = ps_contribute_def r [unfolded k_def] Let_def lat
  show ?thesis
  proof (cases "seen_mem (sl_seen_worker l) (unat (gh_worker_id h))")
    case True
    then have c: "ps_contribute agg_mode inp h st = Some (st\<lparr>ps_slots := g(i := l)\<rparr>,
        [Ps_dup (gh_job_id h) (gh_round h) (gh_chunk_id h) (gh_worker_id h)])"
      using l w by (simp add: body seen.test)
    show ?thesis by (rule dup [OF c True]) (use ps_slot_write [OF r int l(1,2)] in simp_all)
  next
    case False
    obtain b where b: "seen_mark (sl_seen_worker l) (unat (gh_worker_id h)) = Some b" "length b = 256"
      "{v. seen_mem b v} = insert (unat (gh_worker_id h)) {v. seen_mem (sl_seen_worker l) v}"
      using seen.mark_obtain [of "sl_seen_worker l" "unat (gh_worker_id h)"] l w by auto
    let ?s = "l\<lparr>sl_seen_worker := b,
        sl_sum := add_values (sl_sum l) (wire_values (ps_packet st) 20 (unat (gh_chunk_len h))),
        sl_contributions_received := sl_contributions_received l + 1\<rparr>"
    have acc: "accumulate (ps_packet st) NETSUM_HDR_SIZE (unat (gh_chunk_len h)) 0 (sl_sum l) =
        Some (sl_sum ?s)"
      using len l pkt by (simp add: accumulate_eq NETSUM_HDR_SIZE_def)
    show ?thesis
    proof (cases "sl_contributions_received ?s = sl_num_workers_expected ?s \<and> sl_completed_micros ?s = 0")
      case True
      let ?t = "?s\<lparr>sl_completed_micros := ps_now_completed inp\<rparr>"
      have c: "ps_contribute agg_mode inp h st = Some (st\<lparr>ps_slots := g(i := ?t), ps_slots_completed := ps_slots_completed st + 1\<rparr>,
          [Ps_complete (gh_job_id h) (gh_round h) (gh_chunk_id h) (sl_contributions_received ?t) (sl_sum ?t ! 0)
            (sl_completed_micros ?t - sl_first_seen_micros ?t)])"
        using l w False b(1) acc True by (simp add: body seen.test arr_get_in)
      show ?thesis
        by (rule new [OF c False, of ?t]) (use ps_slot_write [OF r int, of ?t] l b True in \<open>simp_all add: sl_key_def\<close>)
    next
      case incomplete: False
      have c: "ps_contribute agg_mode inp h st = Some (st\<lparr>ps_slots := g(i := ?s)\<rparr>, [])"
        using l w False b(1) acc incomplete by (auto simp add: body seen.test)
      show ?thesis
        by (rule new [OF c False, of ?s]) (use ps_slot_write [OF r int, of ?s] l b incomplete in auto)
    qed
  qed
qed


section \<open>Runs\<close>

text \<open>
  What a run must have accumulated, read off the datagrams alone: per key, the contributions of the
  acceptable datagrams, one per worker. \<open>ps_covers\<close> says that the datagram holds the values its
  header announces, which the parameter server does not check.
\<close>

definition ps_accepts :: "bytes \<Rightarrow> bool" where
  "ps_accepts d \<longleftrightarrow> 20 \<le> length d \<and> unat (gh_chunk_len (wire_hdr d 0)) \<le> 64 \<and>
     unat (gh_worker_id (wire_hdr d 0)) < 256"

definition ps_covers :: "bytes \<Rightarrow> bool" where
  "ps_covers d \<longleftrightarrow> (ps_accepts d \<longrightarrow> 20 + 4 * unat (gh_chunk_len (wire_hdr d 0)) \<le> length d)"

definition ps_log_step :: "(grad_slot_key \<Rightarrow> contribution list) \<Rightarrow> bytes \<Rightarrow> (grad_slot_key \<Rightarrow> contribution list)" where
  "ps_log_step LL d =
     (if ps_accepts d
      then LL(key_of (wire_hdr d 0) := log_add (LL (key_of (wire_hdr d 0))) (contribution_of d))
      else LL)"

definition ps_logs :: "bytes list \<Rightarrow> grad_slot_key \<Rightarrow> contribution list" where
  "ps_logs ds = foldl ps_log_step (\<lambda>_. []) ds"

definition ps_slot_log :: "ps_slot \<Rightarrow> contribution list \<Rightarrow> bool" where
  "ps_slot_log s L \<longleftrightarrow> L \<noteq> [] \<and> distinct (map fst L) \<and> sl_sum s = log_sum L \<and>
     {v. seen_mem (sl_seen_worker s) v} = set (map fst L) \<and> length (sl_seen_worker s) = 256 \<and>
     unat (sl_contributions_received s) = length L"

definition ps_tracks :: "ps_state \<Rightarrow> (grad_slot_key \<Rightarrow> contribution list) \<Rightarrow> bool" where
  "ps_tracks st LL \<longleftrightarrow>
     (\<forall>k. case slot_map_of (ps_slots st) k of None \<Rightarrow> LL k = [] | Some s \<Rightarrow> ps_slot_log s (LL k))"

lemma ps_slot_log_length:
  assumes "ps_slot_log s L"
  shows "length L \<le> 256"
proof -
  have "length L = card (set (map fst L))"
    using assms by (metis ps_slot_log_def distinct_card length_map)
  also have "\<dots> \<le> 256"
    using seen.card_workers_le [of "sl_seen_worker s"] assms by (simp add: ps_slot_log_def)
  finally show ?thesis .
qed

lemma ps_tracks_dom: "ps_tracks st LL \<Longrightarrow> dom (slot_map_of (ps_slots st)) = {k. LL k \<noteq> []}"
  unfolding ps_tracks_def dom_def by (auto split: option.splits simp: ps_slot_log_def)

lemma ps_tracks_upd:
  assumes "ps_tracks st LL" "slot_map_of (ps_slots st') = (slot_map_of (ps_slots st))(k \<mapsto> s)" "ps_slot_log s L"
  shows "ps_tracks st' (LL(k := L))"
  unfolding ps_tracks_def
proof
  fix k' show "case slot_map_of (ps_slots st') k' of None \<Rightarrow> (LL(k := L)) k' = [] | Some s \<Rightarrow> ps_slot_log s ((LL(k := L)) k')"
    using assms spec [OF assms(1) [unfolded ps_tracks_def], of k'] by (cases "k' = k") (auto split: option.splits)
qed

text \<open>The latched slot of a key agrees with the log, empty or not.\<close>

lemma ps_latched_log:
  fixes h :: grad_hdr and st :: ps_state
  assumes "ps_tracks st LL"
  defines "m \<equiv> slot_map_of (ps_slots st) (key_of h)"
  shows "sl_sum (ps_latched a inp h m) = log_sum (LL (key_of h))"
    and "{v. seen_mem (sl_seen_worker (ps_latched a inp h m)) v} = set (map fst (LL (key_of h)))"
    and "length (sl_seen_worker (ps_latched a inp h m)) = 256"
    and "unat (sl_contributions_received (ps_latched a inp h m)) = length (LL (key_of h))"
    and "distinct (map fst (LL (key_of h)))" "length (LL (key_of h)) \<le> 256"
proof -
  have t: "case m of None \<Rightarrow> LL (key_of h) = [] | Some s \<Rightarrow> ps_slot_log s (LL (key_of h))"
    using assms(1) by (simp add: ps_tracks_def m_def)
  then show "sl_sum (ps_latched a inp h m) = log_sum (LL (key_of h))"
    "{v. seen_mem (sl_seen_worker (ps_latched a inp h m)) v} = set (map fst (LL (key_of h)))"
    "length (sl_seen_worker (ps_latched a inp h m)) = 256"
    "unat (sl_contributions_received (ps_latched a inp h m)) = length (LL (key_of h))"
    "distinct (map fst (LL (key_of h)))" "length (LL (key_of h)) \<le> 256"
    using ps_slot_log_length seen.mem_fresh by (auto simp: ps_slot_log_def split: option.splits)
qed

text \<open>
  An iteration hands the slot part the datagram's own header, and the packet buffer: the datagram
  over whatever was there before.
\<close>

lemma ps_step_cases:
  assumes inv: "ps_inv st" and inp: "ps_recv inp = Datagram d"
  obtains (ignored) st2 where "\<not> ps_accepts d" "ps_step agg_mode inp st = Some (st2, [])" "ps_inv st2"
      "ps_slots st2 = ps_slots st"
    | (accepted) st2 h where "ps_accepts d" "h = (wire_hdr d 0)\<lparr>gh_flags := 0\<rparr>" "ps_step agg_mode inp st = ps_contribute agg_mode inp h st2"
      "ps_inv st2" "ps_slots st2 = ps_slots st" "ps_packet st2 = take 276 d @ drop (length d) (ps_packet st)"
proof -
  define packet where "packet = snd (recvfrom (ps_packet st) (ps_recv inp))"
  define st1 where "st1 = st\<lparr>ps_packet := packet\<rparr>"
  have buf: "length (ps_packet st) = 276" using inv by (simp add: ps_inv_def proto_consts)
  then have plen: "length packet = 276" by (simp add: packet_def)
  have pk: "packet = take 276 d @ drop (length d) (ps_packet st)"
    using buf by (auto simp: packet_def inp Let_def min_def)
  have n: "recvfrom (ps_packet st) (ps_recv inp) = (int (min (length d) 276), packet)"
    unfolding packet_def by (simp add: inp Let_def buf)
  show thesis
  proof (cases "20 \<le> length d")
    case False
    then have "ps_step agg_mode inp st = Some (st1, [])"
      by (simp add: ps_step_def n proto_consts st1_def)
    then show ?thesis
      using False inv plen by (intro ignored [of st1]) (simp_all add: ps_inv_def ps_accepts_def st1_def proto_consts)
  next
    case True
    define st2 where "st2 = st1\<lparr>ps_packets_seen := ps_packets_seen st1 + 1\<rparr>"
    define h where "h = (wire_hdr d 0)\<lparr>gh_flags := 0\<rparr>"
    have hdr: "wire_hdr packet 0 = wire_hdr d 0"
      unfolding packet_def inp using True buf by (intro wire_hdr_recv) simp_all
    have ld: "ps_load_hdr packet = Some h"
      using plen by (simp add: ps_load_hdr_eq hdr h_def)
    have inv2: "ps_inv st2" and s2: "ps_slots st2 = ps_slots st" "ps_packet st2 = packet"
      using inv plen by (simp_all add: ps_inv_def st2_def st1_def proto_consts)
    have step: "ps_step agg_mode inp st = (if ps_accepts d then ps_contribute agg_mode inp h st2 else Some (st2, []))"
      using True by (auto simp: ps_step_def n ld proto_consts MAX_TRACKED_WORKERS_def st2_def st1_def Let_def min_def
          ps_accepts_def h_def)
    show ?thesis
    proof (cases "ps_accepts d")
      case True
      from accepted [OF True h_def _ inv2 s2(1) _] step True s2(2) pk show ?thesis by simp
    next
      case False
      from ignored [OF False _ inv2 s2(1)] step False show ?thesis by simp
    qed
  qed
qed

text \<open>
  One datagram that covers its values, with room in the table: the iteration does not fault and the
  table tracks the extended log.
\<close>

lemma ps_step_tracks:
  assumes inv: "ps_inv st" and tr: "ps_tracks st LL" and cov: "ps_covers d"
    and room: "card {k. ps_log_step LL d k \<noteq> []} \<le> SLOT_TABLE_CAPACITY"
    and inp: "ps_recv inp = Datagram d"
  shows "\<exists>st' evs. ps_step agg_mode inp st = Some (st', evs) \<and> ps_inv st' \<and> ps_tracks st' (ps_log_step LL d)"
proof (cases rule: ps_step_cases [OF inv inp, of agg_mode, case_names ignored accepted])
  case (ignored st2)
  then show ?thesis using tr by (simp add: ps_log_step_def ps_tracks_def)
next
  case (accepted st2 h)
  have buf: "length (ps_packet st) = 276" using inv by (simp add: ps_inv_def proto_consts)
  have pk: "ps_packet st2 = snd (recvfrom (ps_packet st) (Datagram d))"
    using buf by (auto simp: accepted(6) Let_def min_def)
  have k: "key_of h = key_of (wire_hdr d 0)" by (simp add: key_of_def accepted(2))
  have tr2: "ps_tracks st2 LL" using tr accepted(5) by (simp add: ps_tracks_def)
  have len: "unat (gh_chunk_len h) \<le> 64" and w: "unat (gh_worker_id h) < 256"
    and lend: "20 + 4 * unat (gh_chunk_len h) \<le> length d"
    using cov accepted(1,2) by (simp_all add: ps_accepts_def ps_covers_def)
  let ?L = "LL (key_of h)" and ?c = "contribution_of d"
  have log: "ps_log_step LL d = LL(key_of h := log_add ?L ?c)"
    using accepted(1) by (simp add: ps_log_step_def k)
  have c: "fst ?c = unat (gh_worker_id h)"
    "snd ?c = wire_values (ps_packet st2) 20 (unat (gh_chunk_len h))"
    using lend len buf wire_values_recv [of "unat (gh_chunk_len h)" d "ps_packet st"]
    by (simp_all add: contribution_of_def accepted(2) pk del: recvfrom.simps)
  note lat = ps_latched_log(1-4) [OF tr2, where h = h and a = agg_mode and inp = inp]
    ps_latched_log(5,6) [OF tr2, where h = h]
  have invI: "ps_inv st'" if "ps_packet st' = ps_packet st2" "slots_intact (ps_slots st')"
    "ps_tracks st' LL'" for st' LL'
    using that accepted(4) unfolding ps_inv_def sl_arrays_ok_def ps_tracks_def
    by (auto simp: ps_slot_log_def split: option.splits)
  show ?thesis
  proof (cases rule: ps_contribute_cases [OF accepted(4) len w, of agg_mode inp, case_names full dup new])
    case full
    note fl = slot_map_of_full [OF _ full(1)]
    have int2: "slots_intact (ps_slots st2)" using accepted(4) by (simp add: ps_inv_def)
    have "{k. ps_log_step LL d k \<noteq> []} = insert (key_of h) {k. LL k \<noteq> []}"
      unfolding log by auto
    moreover have "key_of h \<notin> {k. LL k \<noteq> []}"
      using fl(2) [OF int2] ps_tracks_dom [OF tr2] by auto
    ultimately show ?thesis
      using room fl(1,3) [OF int2] unfolding ps_tracks_dom [OF tr2] by simp
  next
    case (dup st' evs)
    have "fst ?c \<in> fst ` set ?L" using dup(2) lat(2) c(1) by auto
    then have "log_add ?L ?c = ?L" by (rule log_add_dup)
    moreover have "?L \<noteq> []" using \<open>fst ?c \<in> fst ` set ?L\<close> by auto
    ultimately have "ps_tracks st' (LL(key_of h := log_add ?L ?c))"
      using lat by (intro ps_tracks_upd [OF tr2 dup(5)]) (simp add: ps_slot_log_def)
    moreover have "ps_packet st' = ps_packet st2" by (subst dup(3)) simp
    ultimately show ?thesis using dup(1,4) accepted(3) log invI by auto
  next
    case (new st' evs s)
    have nw: "fst ?c \<notin> fst ` set ?L" using new(2) lat(2) c(1) by auto
    have "ps_slot_log s (log_add ?L ?c)"
      unfolding log_add_new [OF nw] ps_slot_log_def
      using new(7-10) lat nw c by (auto simp: unat_word_ariths)
    then have "ps_tracks st' (LL(key_of h := log_add ?L ?c))"
      by (rule ps_tracks_upd [OF tr2 new(6)])
    then show ?thesis using new(1,3,5) accepted(3) log invI by auto
  qed
qed


section \<open>Whole runs from the initial state\<close>

definition ps_datagrams :: "bytes list \<Rightarrow> ps_input list \<Rightarrow> bool" where
  "ps_datagrams ds inps \<longleftrightarrow> map ps_recv inps = map Datagram ds"

lemma ps_init_tracks:
  assumes "length packet = NETSUM_MAX_PACKET_SIZE"
  shows "ps_inv (ps_init packet)" "ps_tracks (ps_init packet) (\<lambda>_. [])"
proof -
  have i: "slots_intact (\<lambda>_. zero_ps_slot)"
    by (rule slots_intact_empty) (simp add: zero_ps_slot_def)
  have n: "slot_map_of (\<lambda>_. zero_ps_slot) k = None" for k
    unfolding slot_map_of_eq_None [OF i] by (simp add: zero_ps_slot_def)
  show "ps_inv (ps_init packet)" "ps_tracks (ps_init packet) (\<lambda>_. [])"
    using assms i n by (simp_all add: ps_inv_def ps_tracks_def ps_init_def)
qed

lemma ps_log_step_mono: "{k. LL k \<noteq> []} \<subseteq> {k. ps_log_step LL d k \<noteq> []}"
  by (auto simp: ps_log_step_def)

lemma ps_logs_mono: "{k. LL k \<noteq> []} \<subseteq> {k. foldl ps_log_step LL ds k \<noteq> []}"
proof (induction ds arbitrary: LL)
  case (Cons d ds)
  then show ?case using ps_log_step_mono [of LL d] by fastforce
qed simp

lemma ps_logs_finite: "finite {k. LL k \<noteq> []} \<Longrightarrow> finite {k. foldl ps_log_step LL ds k \<noteq> []}"
proof (induction ds arbitrary: LL)
  case (Cons d ds)
  have "{k. ps_log_step LL d k \<noteq> []} \<subseteq> insert (key_of (wire_hdr d 0)) {k. LL k \<noteq> []}"
    by (auto simp: ps_log_step_def)
  then have "finite {k. ps_log_step LL d k \<noteq> []}"
    using Cons.prems by (meson finite.insertI finite_subset)
  then show ?case using Cons.IH by simp
qed simp

lemma ps_run_tracks:
  assumes "ps_inv st" "ps_tracks st LL" "ps_datagrams ds inps" "\<forall>d\<in>set ds. ps_covers d"
    "finite {k. LL k \<noteq> []}" "card {k. foldl ps_log_step LL ds k \<noteq> []} \<le> SLOT_TABLE_CAPACITY"
  shows "\<exists>st' evs. ps_run agg_mode 0 inps st = Some (st', evs) \<and> ps_inv st' \<and>
    ps_tracks st' (foldl ps_log_step LL ds)"
  using assms
proof (induction inps arbitrary: st LL ds)
  case Nil
  then show ?case by (simp add: ps_datagrams_def)
next
  case (Cons inp inps)
  then obtain d ds' where ds: "ds = d # ds'" "ps_recv inp = Datagram d" "ps_datagrams ds' inps"
    by (auto simp: ps_datagrams_def Cons_eq_map_conv)
  have fin: "finite {k. ps_log_step LL d k \<noteq> []}"
    using ps_logs_finite [OF Cons.prems(5), of "[d]"] by simp
  have "card {k. ps_log_step LL d k \<noteq> []} \<le> card {k. foldl ps_log_step LL ds k \<noteq> []}"
    using ps_logs_finite [OF Cons.prems(5), of ds] ps_logs_mono [of "ps_log_step LL d" ds']
    unfolding ds(1) by (intro card_mono) simp_all
  with Cons.prems(6) have room: "card {k. ps_log_step LL d k \<noteq> []} \<le> SLOT_TABLE_CAPACITY" by simp
  obtain st1 evs1 where st1: "ps_step agg_mode inp st = Some (st1, evs1)" "ps_inv st1"
    "ps_tracks st1 (ps_log_step LL d)"
    using ps_step_tracks [OF Cons.prems(1,2) _ room ds(2), where agg_mode = agg_mode] Cons.prems(4) ds(1) by auto
  then obtain st2 evs2 where "ps_run agg_mode 0 inps st1 = Some (st2, evs2)" "ps_inv st2"
    "ps_tracks st2 (foldl ps_log_step LL ds)"
    using Cons.IH [OF st1(2,3) ds(3) _ fin] Cons.prems(4,6) ds(1) by auto
  with st1(1) show ?case by simp
qed

end
