(* ===== verification/Paramserver_Rounds.thy ===== *)
theory Paramserver_Rounds
  imports Paramserver
begin

text \<open>
  When the parameter server completes a slot: with the contribution of the last of the workers
  the first one announced, in aggregated mode with the first. Also what it adds up when a
  datagram is shorter than its header says.
\<close>

section \<open>A contribution of a new worker\<close>

text \<open>The slot of a key, if any, has taken the log \<open>lg\<close> and waits for \<open>n\<close> workers.\<close>

definition ps_pending :: "ps_slot option \<Rightarrow> nat \<Rightarrow> contribution list \<Rightarrow> bool" where
  "ps_pending m n lg \<longleftrightarrow> (case m of None \<Rightarrow> lg = []
     | Some s \<Rightarrow> ps_slot_log s lg \<and> unat (sl_num_workers_expected s) = n \<and> sl_completed_micros s = 0)"

lemma ps_latched_pending:
  fixes h :: grad_hdr and inp :: ps_input
  assumes p: "ps_pending m n lg" and e: "m = None \<Longrightarrow> n = (if agg_mode then 1 else unat (gh_num_workers h))"
  defines "l \<equiv> ps_latched agg_mode inp h m"
  shows "sl_sum l = log_sum lg" "{v. seen_mem (sl_seen_worker l) v} = set (map fst lg)" "length (sl_seen_worker l) = 256"
    "unat (sl_contributions_received l) = length lg" "unat (sl_num_workers_expected l) = n" "sl_completed_micros l = 0"
    "distinct (map fst lg)" "length lg \<le> 256"
proof -
  have "sl_sum l = log_sum lg \<and> {v. seen_mem (sl_seen_worker l) v} = set (map fst lg) \<and> length (sl_seen_worker l) = 256 \<and>
    unat (sl_contributions_received l) = length lg \<and> unat (sl_num_workers_expected l) = n \<and> sl_completed_micros l = 0 \<and>
    distinct (map fst lg) \<and> length lg \<le> 256"
  proof (cases m)
    case None
    then show ?thesis using p e seen.mem_fresh by (auto simp: l_def ps_latched_def ps_pending_def)
  next
    case (Some s)
    with p have s: "ps_slot_log s lg" "unat (sl_num_workers_expected s) = n" "sl_completed_micros s = 0"
      by (simp_all add: ps_pending_def)
    then have "sl_contributions_received s \<noteq> 0" by (auto simp: ps_slot_log_def)
    then have "l = s" using Some by (simp add: l_def ps_latched_def)
    with s ps_slot_log_length [OF s(1)] show ?thesis by (simp add: ps_slot_log_def)
  qed
  then show "sl_sum l = log_sum lg" "{v. seen_mem (sl_seen_worker l) v} = set (map fst lg)" "length (sl_seen_worker l) = 256"
    "unat (sl_contributions_received l) = length lg" "unat (sl_num_workers_expected l) = n" "sl_completed_micros l = 0"
    "distinct (map fst lg)" "length lg \<le> 256"
    by simp_all
qed

text \<open>One datagram for a slot that waits: logged and completed if it is the last, absorbed if not.\<close>

definition ps_completes :: "grad_hdr \<Rightarrow> nat \<Rightarrow> i32 list \<Rightarrow> ps_event \<Rightarrow> bool" where
  "ps_completes h n tot ev \<longleftrightarrow> (\<exists>latency. ev = Ps_complete (gh_job_id h) (gh_round h) (gh_chunk_id h) (word_of_nat n) (tot ! 0) latency)"

lemma ps_step_new:
  fixes d :: bytes
  defines "k \<equiv> key_of (wire_hdr d 0)" and "c \<equiv> contribution_of d"
  assumes inv: "ps_inv st" and inp: "ps_recv inp = Datagram d" and d: "ps_accepts d" "ps_covers d"
    and p: "ps_pending (slot_map_of (ps_slots st) k) n lg" and nw: "fst c \<notin> set (map fst lg)"
    and e: "slot_map_of (ps_slots st) k = None \<Longrightarrow> n = (if agg_mode then 1 else unat (gh_num_workers (wire_hdr d 0)))"
    and room: "probe_slot (ps_slots st) k \<noteq> Table_full"
  obtains st' evs s where "ps_step agg_mode inp st = Some (st', evs)" "ps_inv st'"
    "slot_map_of (ps_slots st') = (slot_map_of (ps_slots st))(k \<mapsto> s)" "ps_slot_log s (lg @ [c])"
    "if length lg + 1 = n then \<exists>ev. evs = [ev] \<and> ps_completes (wire_hdr d 0) n (log_sum (lg @ [c])) ev
     else evs = [] \<and> ps_pending (Some s) n (lg @ [c])"
proof (cases rule: ps_step_cases [OF inv inp, of agg_mode, case_names ignored accepted])
  case (ignored st2)
  with d(1) show ?thesis by simp
next
  case (accepted st2 h)
  have buf: "length (ps_packet st) = 276" using inv by (simp add: ps_inv_def proto_consts)
  have pk: "ps_packet st2 = snd (recvfrom (ps_packet st) (Datagram d))"
    using buf by (auto simp: accepted(6) Let_def min_def)
  have kh: "key_of h = k" by (simp add: key_of_def accepted(2) k_def)
  have len: "unat (gh_chunk_len h) \<le> 64" and w: "unat (gh_worker_id h) < 256"
    and lend: "20 + 4 * unat (gh_chunk_len h) \<le> length d"
    using d accepted(2) by (simp_all add: ps_accepts_def ps_covers_def)
  have c: "fst c = unat (gh_worker_id h)" "snd c = wire_values (ps_packet st2) 20 (unat (gh_chunk_len h))"
    using lend len buf wire_values_recv [of "unat (gh_chunk_len h)" d "ps_packet st"]
    by (simp_all add: c_def contribution_of_def accepted(2) pk del: recvfrom.simps)
  have eh: "slot_map_of (ps_slots st2) (key_of h) = None \<Longrightarrow> n = (if agg_mode then 1 else unat (gh_num_workers h))"
    using e accepted(2,5) kh by simp
  have p2: "ps_pending (slot_map_of (ps_slots st2) (key_of h)) n lg" using p accepted(5) kh by simp
  note L = ps_latched_pending(1-6) [OF p2 eh, where inp = inp] ps_latched_pending(7,8) [OF p2 eh]
  show ?thesis
  proof (cases rule: ps_contribute_cases [OF accepted(4) len w, of agg_mode inp, case_names full dup new])
    case full
    with room accepted(5) kh show ?thesis by simp
  next
    case (dup st' evs)
    with L(2) nw c(1) show ?thesis by auto
  next
    case (new st' evs s)
    have cnt: "unat (sl_contributions_received s) = length (lg @ [c])"
      using new(10) L(4,8) by (simp add: unat_word_ariths)
    have slog: "ps_slot_log s (lg @ [c])"
      unfolding ps_slot_log_def using new(7-9) L(1-3,7) nw c cnt by auto
    have exp: "unat (sl_num_workers_expected s) = n" using new(11) L(5) by simp
    have fin: "sl_contributions_received s = sl_num_workers_expected s \<longleftrightarrow> length lg + 1 = n"
      unfolding word_unat_eq_iff cnt exp by simp
    have inv': "ps_inv st'"
    proof -
      have "sl_arrays_ok t" if "slot_map_of (ps_slots st') k' = Some t" for k' t
      proof (cases "k' = key_of h")
        case True
        then show ?thesis using that new(6) slog by (simp add: ps_slot_log_def sl_arrays_ok_def)
      next
        case False
        then show ?thesis using that new(6) accepted(4) by (auto simp: ps_inv_def)
      qed
      then show ?thesis using new(3,5) accepted(4) by (simp add: ps_inv_def)
    qed
    have cn: "sl_contributions_received s = word_of_nat (length lg + 1)" using arg_cong [OF cnt, of "word_of_nat :: nat \<Rightarrow> u16"] by simp
    have hd: "gh_job_id h = gh_job_id (wire_hdr d 0)" "gh_round h = gh_round (wire_hdr d 0)" "gh_chunk_id h = gh_chunk_id (wire_hdr d 0)"
      by (simp_all add: accepted(2))
    show ?thesis
    proof (rule that [of st' evs s])
      show "ps_step agg_mode inp st = Some (st', evs)" using accepted(3) new(1) by simp
      show "slot_map_of (ps_slots st') = (slot_map_of (ps_slots st))(k \<mapsto> s)" using new(6) accepted(5) kh by simp
      show "if length lg + 1 = n then \<exists>ev. evs = [ev] \<and> ps_completes (wire_hdr d 0) n (log_sum (lg @ [c])) ev
        else evs = [] \<and> ps_pending (Some s) n (lg @ [c])"
        using new(12) L(6) fin slog exp cn hd by (auto simp: ps_completes_def ps_pending_def ps_slot_log_def split: if_splits)
    qed (use inv' slog in simp_all)
  qed
qed

section \<open>A round\<close>

text \<open>The datagrams of one round: acceptable, complete, for the key, announcing \<open>n\<close> workers, all different.\<close>

definition ps_round :: "bool \<Rightarrow> grad_slot_key \<Rightarrow> nat \<Rightarrow> bytes list \<Rightarrow> bool" where
  "ps_round agg_mode k n ds \<longleftrightarrow>
     (\<forall>d\<in>set ds. ps_accepts d \<and> ps_covers d \<and> key_of (wire_hdr d 0) = k \<and>
        n = (if agg_mode then 1 else unat (gh_num_workers (wire_hdr d 0)))) \<and>
     distinct (map (\<lambda>d. fst (contribution_of d)) ds)"

lemma ps_run_pending:
  assumes "ps_inv st" "ps_pending (slot_map_of (ps_slots st) k) n lg" "probe_slot (ps_slots st) k \<noteq> Table_full"
    and "ps_datagrams ds inps" "ps_round agg_mode k n ds" "length lg + length ds = n" "ds \<noteq> []"
    and "set (map fst lg) \<inter> set (map (\<lambda>d. fst (contribution_of d)) ds) = {}"
  shows "\<exists>st' ev s. ps_run agg_mode 0 inps st = Some (st', [ev]) \<and> ps_inv st' \<and>
    ps_completes (wire_hdr (last ds) 0) n (log_sum (lg @ map contribution_of ds)) ev \<and>
    slot_map_of (ps_slots st') k = Some s \<and> sl_sum s = log_sum (lg @ map contribution_of ds)"
  using assms
proof (induction inps arbitrary: st lg ds)
  case Nil
  then show ?case by (simp add: ps_datagrams_def)
next
  case (Cons inp inps)
  then obtain d ds' where ds: "ds = d # ds'" "ps_recv inp = Datagram d" "ps_datagrams ds' inps"
    by (auto simp: ps_datagrams_def Cons_eq_map_conv)
  have d: "ps_accepts d" "ps_covers d" and k: "key_of (wire_hdr d 0) = k"
    and n: "n = (if agg_mode then 1 else unat (gh_num_workers (wire_hdr d 0)))"
    using Cons.prems(5) ds(1) by (auto simp: ps_round_def)
  have nw: "fst (contribution_of d) \<notin> set (map fst lg)" using Cons.prems(8) ds(1) by auto
  obtain st1 evs s where 1: "ps_step agg_mode inp st = Some (st1, evs)" "ps_inv st1"
    "slot_map_of (ps_slots st1) = (slot_map_of (ps_slots st))(k \<mapsto> s)" "ps_slot_log s (lg @ [contribution_of d])"
    "if length lg + 1 = n then \<exists>ev. evs = [ev] \<and> ps_completes (wire_hdr d 0) n (log_sum (lg @ [contribution_of d])) ev
     else evs = [] \<and> ps_pending (Some s) n (lg @ [contribution_of d])"
    by (rule ps_step_new [OF Cons.prems(1) ds(2) d Cons.prems(2) [folded k] nw n Cons.prems(3) [folded k], unfolded k]) blast
  show ?case
  proof (cases ds')
    case Nil
    then have "inps = []" using ds(3) by (simp add: ps_datagrams_def)
    then show ?thesis using 1 Nil ds(1) Cons.prems(6) by (auto simp: ps_slot_log_def)
  next
    case (Cons d' ds'')
    then have more: "length lg + 1 \<noteq> n" using Cons.prems(6) ds(1) by simp
    have found: "slot_map_of (ps_slots st1) k = Some s" using 1(3) by simp
    then have "probe_slot (ps_slots st1) k \<noteq> Table_full" by (auto simp: slot_map_of_def)
    then have "\<exists>st' ev s. ps_run agg_mode 0 inps st1 = Some (st', [ev]) \<and> ps_inv st' \<and>
        ps_completes (wire_hdr (last ds') 0) n (log_sum ((lg @ [contribution_of d]) @ map contribution_of ds')) ev \<and>
        slot_map_of (ps_slots st') k = Some s \<and> sl_sum s = log_sum ((lg @ [contribution_of d]) @ map contribution_of ds')"
      using 1(2,5) found more Cons ds(1,3) Cons.prems(5,6,8)
      by (intro Cons.IH) (auto simp: ps_round_def)
    then show ?thesis using 1(1,5) more ds(1) Cons by auto
  qed
qed

section \<open>Short datagrams\<close>

text \<open>What is added when the datagram may be shorter than its header announces.\<close>

lemma ps_step_short:
  assumes inv: "ps_inv st" and inp: "ps_recv inp = Datagram d" and d: "ps_accepts d"
    and fresh: "slot_map_of (ps_slots st) (key_of (wire_hdr d 0)) = None" "probe_slot (ps_slots st) (key_of (wire_hdr d 0)) \<noteq> Table_full"
  shows "\<exists>st' evs s. ps_step agg_mode inp st = Some (st', evs) \<and> slot_map_of (ps_slots st') (key_of (wire_hdr d 0)) = Some s \<and>
    sl_sum s = add_values (replicate 64 0)
      (wire_values (take 276 d @ drop (length d) (ps_packet st)) 20 (unat (gh_chunk_len (wire_hdr d 0))))"
proof (cases rule: ps_step_cases [OF inv inp, of agg_mode, case_names ignored accepted])
  case (ignored st2)
  with d show ?thesis by simp
next
  case (accepted st2 h)
  have h: "unat (gh_chunk_len h) \<le> 64" "unat (gh_worker_id h) < 256" "key_of h = key_of (wire_hdr d 0)"
    "gh_chunk_len h = gh_chunk_len (wire_hdr d 0)"
    using d accepted(2) by (simp_all add: ps_accepts_def key_of_def)
  show ?thesis
  proof (cases rule: ps_contribute_cases [OF accepted(4) h(1,2), of agg_mode inp, case_names full dup new])
    case full
    with fresh(2) accepted(5) h(3) show ?thesis by simp
  next
    case (dup st' evs)
    with fresh(1) accepted(5) h(3) seen.mem_fresh show ?thesis by auto
  next
    case (new st' evs s)
    then show ?thesis using fresh(1) accepted(3,5,6) h(3,4) by auto
  qed
qed

section \<open>No input makes the loop fault\<close>

lemma ps_step_safe:
  assumes inv: "ps_inv st"
  shows "\<exists>st' evs. ps_step agg_mode inp st = Some (st', evs) \<and> ps_inv st'"
proof (cases "ps_recv inp")
  case Recv_none
  then show ?thesis using inv by (simp add: ps_step_def NETSUM_HDR_SIZE_def)
next
  case (Datagram d)
  show ?thesis
  proof (cases rule: ps_step_cases [OF inv Datagram, of agg_mode, case_names ignored accepted])
    case (accepted st2 h)
    have h: "unat (gh_chunk_len h) \<le> 64" "unat (gh_worker_id h) < 256"
      using accepted(1,2) by (simp_all add: ps_accepts_def)
    have ok: "\<And>k s. slot_map_of (ps_slots st2) k = Some s \<Longrightarrow> sl_arrays_ok s" and pk: "length (ps_packet st2) = NETSUM_MAX_PACKET_SIZE"
      using accepted(4) by (auto simp: ps_inv_def)
    have l: "sl_arrays_ok (ps_latched agg_mode inp h (slot_map_of (ps_slots st2) (key_of h)))"
      using ok [of "key_of h"] by (auto simp: ps_latched_def Let_def sl_arrays_ok_def ps_fresh_def zero_ps_slot_def split: option.split)
    have inv': "ps_inv st'" if "ps_packet st' = ps_packet st2" "slots_intact (ps_slots st')"
      "slot_map_of (ps_slots st') = (slot_map_of (ps_slots st2))(key_of h \<mapsto> s)" "sl_arrays_ok s" for st' s
      using that ok pk by (auto simp: ps_inv_def)
    show ?thesis
    proof (cases rule: ps_contribute_cases [OF accepted(4) h, of agg_mode inp, case_names full dup new])
      case full
      then show ?thesis using accepted(3,4) by simp
    next
      case (dup st' evs)
      have "ps_packet st' = ps_packet st2" by (subst dup(3)) simp
      then show ?thesis using dup(1,4,5) inv' l accepted(3) by auto
    next
      case (new st' evs s)
      then have "sl_arrays_ok s" using l by (simp add: sl_arrays_ok_def)
      then show ?thesis using new(1,3,5,6) inv' accepted(3) by auto
    qed
  qed auto
qed

lemma ps_run_safe: "ps_inv st \<Longrightarrow> \<exists>st' evs. ps_run agg_mode max_packets inps st = Some (st', evs) \<and> ps_inv st'"
proof (induction inps arbitrary: st)
  case (Cons inp inps)
  obtain st1 evs1 where 1: "ps_step agg_mode inp st = Some (st1, evs1)" "ps_inv st1"
    using ps_step_safe [OF Cons.prems] by blast
  from Cons.IH [OF 1(2)] 1(1) Cons.prems show ?case by auto
qed simp

end
