(* ===== verification/Counters.thy ===== *)
theory Counters
  imports Agg_Guards Paramserver_Rounds
begin

text \<open>
  The counters the aggregator and the parameter server print when they exit: what they count. The
  tables and the sums do not matter here; each step adds its packet and what it logged.
\<close>

section \<open>What is printed\<close>

text \<open>The two numbers of the last line of either program.\<close>

definition agg_summary :: "agg_state \<Rightarrow> int \<times> int" where
  "agg_summary st = (ag_packets_in st, ag_packets_out st)"

definition ps_summary :: "ps_state \<Rightarrow> int \<times> int" where
  "ps_summary st = (ps_packets_seen st, ps_slots_completed st)"

section \<open>What is tallied\<close>

definition is_packet :: "recv \<Rightarrow> bool" where
  "is_packet r \<longleftrightarrow> (case r of Datagram d \<Rightarrow> NETSUM_HDR_SIZE \<le> length d | Recv_none \<Rightarrow> False)"

definition is_sent :: "agg_event \<Rightarrow> bool" where
  "is_sent ev \<longleftrightarrow> (case ev of Ag_send d ok \<Rightarrow> ok | _ \<Rightarrow> False)"

definition is_completion :: "ps_event \<Rightarrow> bool" where
  "is_completion ev \<longleftrightarrow> (case ev of Ps_complete _ _ _ _ _ _ \<Rightarrow> True | _ \<Rightarrow> False)"

definition tallied :: "('a \<Rightarrow> bool) \<Rightarrow> 'a list \<Rightarrow> int" where
  "tallied P xs = int (length (filter P xs))"

lemma tallied_simps [simp]:
  "tallied P [] = 0" "tallied P (x # xs) = (if P x then 1 else 0) + tallied P xs" "tallied P (xs @ ys) = tallied P xs + tallied P ys"
  by (simp_all add: tallied_def)

lemma tallied_none: "(\<And>x. x \<in> set xs \<Longrightarrow> \<not> P x) \<Longrightarrow> tallied P xs = 0"
  by (simp add: tallied_def filter_empty_conv)

lemma recvfrom_packet:
  assumes "recvfrom buf r = (n, b)" "NETSUM_HDR_SIZE \<le> length buf"
  shows "n < int NETSUM_HDR_SIZE \<longleftrightarrow> \<not> is_packet r" "length b = length buf"
proof -
  show "length b = length buf" using recvfrom_length [of buf r] assms(1) by simp
  show "n < int NETSUM_HDR_SIZE \<longleftrightarrow> \<not> is_packet r"
    using assms by (cases r) (auto simp: is_packet_def Let_def min_less_iff_disj)
qed

section \<open>The aggregator\<close>

lemma agg_maintenance_counts:
  assumes "agg_maintenance cfg inp st = (st', evs)"
  shows "ag_packets_in st' = ag_packets_in st" "ag_packets_out st' = ag_packets_out st" "ag_in_packet st' = ag_in_packet st"
    "tallied is_sent evs = 0"
proof -
  obtain g J evs1 where r: "reap_expired_slots (ai_now_reap inp) (ac_slot_ttl_ms cfg) (ag_slots st) (ag_jobs st) = (g, J, evs1)"
    by (cases "reap_expired_slots (ai_now_reap inp) (ac_slot_ttl_ms cfg) (ag_slots st) (ag_jobs st)") auto
  have e: "tallied is_sent evs1 = 0"
    using r reap_slots [of 0 "ai_now_reap inp" "ac_slot_ttl_ms cfg * 1000" "ag_slots st" "ag_jobs st" g J evs1]
    by (intro tallied_none) (auto simp: reap_expired_slots_def is_sent_def)
  have d: "tallied is_sent (dump_job_stats J') = 0" for J'
    by (intro tallied_none) (auto simp: dump_job_stats_def is_sent_def Let_def split: if_splits)
  show "ag_packets_in st' = ag_packets_in st" "ag_packets_out st' = ag_packets_out st" "ag_in_packet st' = ag_in_packet st"
    "tallied is_sent evs = 0"
    using assms e d by (auto simp: agg_maintenance_def r Let_def split: if_splits)
qed

definition keeps_count :: "agg_state \<Rightarrow> agg_state \<Rightarrow> agg_event list \<Rightarrow> bool" where
  "keeps_count st st' evs \<longleftrightarrow> ag_packets_in st' = ag_packets_in st \<and> ag_in_packet st' = ag_in_packet st \<and>
     ag_packets_out st' = ag_packets_out st + tallied is_sent evs"

lemma agg_emit_counts: "agg_emit inp h i st = Some (st', evs) \<Longrightarrow> keeps_count st st' evs"
  by (auto simp: keeps_count_def agg_emit_def is_sent_def Let_def bind_eq_Some_conv split_beta)

lemma agg_contribute_counts:
  assumes c: "agg_contribute cfg inp h st = Some (st', evs)"
  shows "keeps_count st st' evs"
proof -
  obtain r g J where f: "find_or_create_slot (ac_job_quota cfg) (ag_slots st) (ag_jobs st) (key_of h) = (r, g, J)"
    by (cases "find_or_create_slot (ac_job_quota cfg) (ag_slots st) (ag_jobs st) (key_of h)") auto
  show ?thesis
  proof (cases rule: agg_contribute_cases [OF c f, case_names rejected mismatch dup absorbed emitted])
    case (emitted i s)
    from agg_emit_counts [OF emitted(4)] show ?thesis by (simp add: keeps_count_def)
  qed (simp_all add: keeps_count_def is_sent_def)
qed

lemma agg_step_counts:
  assumes "agg_step cfg inp st = Some (st', evs)" "NETSUM_HDR_SIZE \<le> length (ag_in_packet st)"
  shows "ag_packets_in st' = ag_packets_in st + (if is_packet (ai_recv inp) then 1 else 0)"
    "ag_packets_out st' = ag_packets_out st + tallied is_sent evs" "length (ag_in_packet st') = length (ag_in_packet st)"
proof -
  obtain st1 evs1 where m: "agg_maintenance cfg inp st = (st1, evs1)" by (cases "agg_maintenance cfg inp st")
  obtain evs2 where r: "agg_receive cfg inp st1 = Some (st', evs2)" "evs = evs1 @ evs2"
    using assms(1) m by (auto simp: agg_step_def bind_eq_Some_conv)
  note m = agg_maintenance_counts [OF m]
  obtain n b where b: "recvfrom (ag_in_packet st1) (ai_recv inp) = (n, b)" by fastforce
  have "NETSUM_HDR_SIZE \<le> length (ag_in_packet st1)" using assms(2) m(3) by simp
  note n = recvfrom_packet [OF b this]
  define st2 where "st2 = (if ai_sigusr1 inp then handle_sigusr1 (st1\<lparr>ag_in_packet := b\<rparr>) else st1\<lparr>ag_in_packet := b\<rparr>)"
  have st2: "ag_packets_in st2 = ag_packets_in st1" "ag_packets_out st2 = ag_packets_out st1" "ag_in_packet st2 = b"
    by (simp_all add: st2_def handle_sigusr1_def)
  note r' = r(1) [unfolded agg_receive_def b Let_def, simplified, folded st2_def]
  have "keeps_count (if is_packet (ai_recv inp) then st2\<lparr>ag_packets_in := ag_packets_in st2 + 1\<rparr> else st2) st' evs2"
  proof (cases "is_packet (ai_recv inp)")
    case False
    then show ?thesis using r' n(1) by (simp add: keeps_count_def)
  next
    case True
    let ?st3 = "st2\<lparr>ag_packets_in := ag_packets_in st2 + 1\<rparr>"
    obtain h where "agg_load_hdr b = Some h" using r' True n(1) by (auto simp: bind_eq_Some_conv)
    then have "(st', evs2) = (?st3, []) \<or> agg_contribute cfg inp h ?st3 = Some (st', evs2)"
      using r' True n(1) by (auto split: if_splits)
    then show ?thesis
    proof
      assume "(st', evs2) = (?st3, [])"
      then show ?thesis using True by (simp add: keeps_count_def)
    next
      assume "agg_contribute cfg inp h ?st3 = Some (st', evs2)"
      then show ?thesis using True agg_contribute_counts by simp
    qed
  qed
  then show "ag_packets_in st' = ag_packets_in st + (if is_packet (ai_recv inp) then 1 else 0)"
    "ag_packets_out st' = ag_packets_out st + tallied is_sent evs" "length (ag_in_packet st') = length (ag_in_packet st)"
    using st2 n(2) m r(2) by (auto simp: keeps_count_def split: if_splits)
qed

lemma agg_run_counts:
  assumes "agg_run cfg inps st = Some (st', evss)" "NETSUM_HDR_SIZE \<le> length (ag_in_packet st)"
  shows "ag_packets_in st' = ag_packets_in st + tallied (\<lambda>inp. is_packet (ai_recv inp)) (take (length evss) inps) \<and>
    ag_packets_out st' = ag_packets_out st + tallied is_sent (concat evss)"
  using assms
proof (induction inps arbitrary: st evss)
  case (Cons inp inps)
  show ?case
  proof (cases "ac_max_packets cfg = 0 \<or> ag_packets_in st < ac_max_packets cfg")
    case True
    then obtain st1 evs evss1 where 1: "agg_step cfg inp st = Some (st1, evs)" "agg_run cfg inps st1 = Some (st', evss1)" "evss = evs # evss1"
      using Cons.prems(1) by (auto simp: bind_eq_Some_conv)
    note s = agg_step_counts [OF 1(1) Cons.prems(2)]
    from Cons.IH [OF 1(2)] s Cons.prems(2) 1(3) show ?thesis by simp
  qed (use Cons.prems in auto)
qed simp

section \<open>The parameter server\<close>

lemma ps_contribute_counts:
  assumes "ps_contribute agg_mode inp h st = Some (st', evs)"
  shows "ps_packets_seen st' = ps_packets_seen st" "ps_packet st' = ps_packet st"
    "ps_slots_completed st' = ps_slots_completed st + tallied is_completion evs"
proof -
  have "ps_packets_seen st' = ps_packets_seen st \<and> ps_packet st' = ps_packet st \<and>
    ps_slots_completed st' = ps_slots_completed st + tallied is_completion evs"
  proof (cases "ps_find_or_create_slot (ps_slots st) (key_of h)")
    case None
    with assms show ?thesis by (auto simp: ps_contribute_def is_completion_def)
  next
    case (Some ig)
    obtain i g where ig: "ig = (i, g)" by (cases ig)
    define slot where "slot = (if sl_contributions_received (g i) = 0
        then (g i)\<lparr>sl_first_seen_micros := ps_now_first inp, sl_chunk_len := gh_chunk_len h,
               sl_num_workers_expected := (if agg_mode then 1 else gh_num_workers h)\<rparr> else g i)"
    note c = assms [unfolded ps_contribute_def Some ig option.case prod.case Let_def, folded slot_def]
    show ?thesis
      using c by (auto simp: bind_eq_Some_conv is_completion_def split: if_splits)
  qed
  then show "ps_packets_seen st' = ps_packets_seen st" "ps_packet st' = ps_packet st"
    "ps_slots_completed st' = ps_slots_completed st + tallied is_completion evs"
    by simp_all
qed

lemma ps_step_counts:
  assumes "ps_step agg_mode inp st = Some (st', evs)" "NETSUM_HDR_SIZE \<le> length (ps_packet st)"
  shows "ps_packets_seen st' = ps_packets_seen st + (if is_packet (ps_recv inp) then 1 else 0)"
    "ps_slots_completed st' = ps_slots_completed st + tallied is_completion evs" "length (ps_packet st') = length (ps_packet st)"
proof -
  obtain n b where b: "recvfrom (ps_packet st) (ps_recv inp) = (n, b)" by fastforce
  note n = recvfrom_packet [OF b assms(2)]
  have "ps_packets_seen st' = ps_packets_seen st + (if is_packet (ps_recv inp) then 1 else 0) \<and>
    ps_slots_completed st' = ps_slots_completed st + tallied is_completion evs \<and> length (ps_packet st') = length (ps_packet st)"
  proof (cases "is_packet (ps_recv inp)")
    case False
    then show ?thesis using assms(1) n by (auto simp: ps_step_def b)
  next
    case True
    let ?st = "st\<lparr>ps_packet := b, ps_packets_seen := ps_packets_seen st + 1\<rparr>"
    obtain h where "(st', evs) = (?st, []) \<or> ps_contribute agg_mode inp h ?st = Some (st', evs)"
      using assms(1) True n(1) by (auto simp: ps_step_def b Let_def bind_eq_Some_conv split: if_splits)
    then show ?thesis
    proof
      assume "ps_contribute agg_mode inp h ?st = Some (st', evs)"
      from ps_contribute_counts [OF this] True n(2) show ?thesis by simp
    qed (use True n(2) in simp)
  qed
  then show "ps_packets_seen st' = ps_packets_seen st + (if is_packet (ps_recv inp) then 1 else 0)"
    "ps_slots_completed st' = ps_slots_completed st + tallied is_completion evs" "length (ps_packet st') = length (ps_packet st)"
    by simp_all
qed

lemma ps_run_counts:
  assumes "ps_run agg_mode max_packets inps st = Some (st', evs)" "NETSUM_HDR_SIZE \<le> length (ps_packet st)"
  shows "\<exists>m\<le>length inps. ps_packets_seen st' = ps_packets_seen st + tallied (\<lambda>inp. is_packet (ps_recv inp)) (take m inps) \<and>
    (m < length inps \<longrightarrow> max_packets \<noteq> 0 \<and> max_packets \<le> ps_packets_seen st') \<and>
    ps_slots_completed st' = ps_slots_completed st + tallied is_completion evs"
  using assms
proof (induction inps arbitrary: st evs)
  case (Cons inp inps)
  show ?case
  proof (cases "max_packets = 0 \<or> ps_packets_seen st < max_packets")
    case True
    then obtain st1 evs1 evs2 where 1: "ps_step agg_mode inp st = Some (st1, evs1)" "ps_run agg_mode max_packets inps st1 = Some (st', evs2)"
      "evs = evs1 @ evs2"
      using Cons.prems(1) by (auto simp: bind_eq_Some_conv)
    note s = ps_step_counts [OF 1(1) Cons.prems(2)]
    have "NETSUM_HDR_SIZE \<le> length (ps_packet st1)" using s(3) Cons.prems(2) by simp
    from Cons.IH [OF 1(2) this] obtain m where "m \<le> length inps"
      "ps_packets_seen st' = ps_packets_seen st1 + tallied (\<lambda>inp. is_packet (ps_recv inp)) (take m inps)"
      "m < length inps \<longrightarrow> max_packets \<noteq> 0 \<and> max_packets \<le> ps_packets_seen st'"
      "ps_slots_completed st' = ps_slots_completed st1 + tallied is_completion evs2" by blast
    then show ?thesis using s(1,2) 1(3) by (intro exI [of _ "Suc m"]) auto
  next
    case False
    then show ?thesis using Cons.prems by (intro exI [of _ 0]) auto
  qed
qed simp

end
