(* ===== verification/Samples.thy ===== *)
theory Samples
  imports Packet
begin

text \<open>Concrete gradient packets the witnesses share: rounds of two workers and two values.\<close>

definition pair_hdr :: "grad_slot_key \<Rightarrow> u16 \<Rightarrow> grad_hdr" where
  "pair_hdr k w = \<lparr>gh_job_id = k_job_id k, gh_round = k_round k, gh_chunk_id = k_chunk_id k, gh_worker_id = w,
     gh_num_workers = 2, gh_chunk_len = 2, gh_flags = 0\<rparr>"

lemma key_of_pair_hdr [simp]: "key_of (pair_hdr k w) = k"
  by (simp add: pair_hdr_def key_of_def)

lemma pair_hdr_sel [simp]:
  "gh_worker_id (pair_hdr k w) = w" "gh_num_workers (pair_hdr k w) = 2" "gh_chunk_len (pair_hdr k w) = 2"
  "gh_job_id (pair_hdr k w) = k_job_id k"
  by (simp_all add: pair_hdr_def)

definition pair_packet :: "grad_slot_key \<Rightarrow> u16 \<Rightarrow> i32 list \<Rightarrow> bytes" where
  "pair_packet k w vs = encode_packet (pair_hdr k w) vs"

lemma pair_packet_simps [simp]:
  "wire_hdr (pair_packet k w vs) 0 = pair_hdr k w" "length (pair_packet k w vs) = 20 + 4 * length vs"
  by (simp_all add: pair_packet_def)

lemma pair_packet_wire16 [simp]:
  "wire16 (pair_packet k w vs) 12 = w" "wire16 (pair_packet k w vs) 14 = 2" "wire16 (pair_packet k w vs) 16 = 2"
  using wire_hdr_sel(4-6) [of "pair_packet k w vs" 0, unfolded pair_packet_simps(1)] by simp_all

lemma pair_packet_values [simp]: "length vs = 2 \<Longrightarrow> wire_values (pair_packet k w vs) 20 2 = vs"
  using wire_values_encode [of "pair_hdr k w" vs] by (simp add: pair_packet_def)

text \<open>Two keys whose slots have the same place in the tables of the userspace programs.\<close>

definition key_a :: grad_slot_key where "key_a = \<lparr>k_job_id = 3, k_round = 0, k_chunk_id = 37\<rparr>"
definition key_b :: grad_slot_key where "key_b = \<lparr>k_job_id = 5, k_round = 3, k_chunk_id = 16\<rparr>"

lemma keys_differ: "key_a \<noteq> key_b"
  by (simp add: key_a_def key_b_def)

end
