(* ===== verification/Agg_Properties.thy ===== *)
theory Agg_Properties
  imports Agg_Chains Counters Samples
begin

text \<open>The properties of the userspace aggregator, each with a witness on concrete datagrams.\<close>

section \<open>Sample inputs\<close>

definition sample_input :: "bytes \<Rightarrow> agg_input" where
  "sample_input d = \<lparr>ai_recv = Datagram d, ai_sigusr1 = False, ai_now_loop = 0, ai_now_reap = 0, ai_now_first = 0,
     ai_now_touched = 0, ai_now_completed = 0, ai_sendto_ok = True\<rparr>"

definition sample_agg :: agg_config where
  "sample_agg = \<lparr>ac_max_packets = 0, ac_job_quota = 0, ac_slot_ttl_ms = 0\<rparr>"

abbreviation pair_input :: "grad_slot_key \<Rightarrow> u16 \<Rightarrow> i32 list \<Rightarrow> agg_input" where
  "pair_input k w vs \<equiv> sample_input (pair_packet k w vs)"

abbreviation zeros :: bytes where "zeros \<equiv> replicate 276 0"

abbreviation sample_start :: agg_state where "sample_start \<equiv> agg_init zeros zeros 0"

lemma sample_input_simps [simp]: "ai_recv (sample_input d) = Datagram d" "ai_now_loop (sample_input d) = 0"
  by (simp_all add: sample_input_def)

lemma sample_agg_simps [simp]:
  "ac_max_packets sample_agg = 0" "ac_job_quota sample_agg = 0" "ac_slot_ttl_ms sample_agg = 0" "quiet sample_agg inp st"
  by (simp_all add: sample_agg_def quiet_def)

lemma pair_accepts [simp]: "length vs = 2 \<Longrightarrow> unat w < 256 \<Longrightarrow> agg_accepts (pair_packet k w vs)"
  by (simp add: agg_accepts_def)

lemma pair_values [simp]: "length vs = 2 \<Longrightarrow> agg_values (pair_packet k w vs) = vs"
  by (simp add: agg_values_def)

lemma pair_round [simp]: "round_datagrams k 2 2 [pair_packet k 0 [a, b], pair_packet k 1 [c, d]]"
  by (simp add: round_datagrams_def)

lemma fresh_probe: "\<exists>i. probe_slot (ag_slots (agg_init b b' now)) k = Free i"
  using probe_home_free [of "ag_slots (agg_init b b' now)" k] by (simp add: agg_init_def zero_agg_slot_def)

lemma sample_jobs: "jobs_intact (ag_jobs sample_start)" "\<not> jobs_full (ag_jobs sample_start)"
  using jobs_intact_zero by (auto simp: agg_init_def jobs_full_def zero_job_def JOB_TABLE_CAPACITY_def intro!: exI [of _ 0])

section \<open>Aggregation\<close>

text \<open>
  C3. The aggregator only ever sends sums of complete rounds. For every command line and every sequence of
  inputs (datagrams of any content and length, errors, clock readings, signals) and whatever the two
  packet buffers hold at the start, the receive loop runs without an access outside an array, and an
  iteration sends nothing or exactly one datagram: the aggregate, byte for byte, of one complete round,
  that is of accepted datagrams received so far, the last of them in this very iteration, for one
  (job, round, chunk), of one length, from pairwise different workers and as many as the first
  of them announced. Bytes of earlier datagrams left in the buffers never enter a sum.
\<close>
theorem agg_sends_complete_rounds:
  assumes "length b = 276" "length b' = 276"
  shows "\<exists>st evss. agg_run cfg inps (agg_init b b' now) = Some (st, evss) \<and> length evss \<le> length inps \<and>
    (\<forall>j<length evss. sent (evss ! j) = [] \<or>
      (\<exists>js. packet_round agg_accepts agg_hdr (datagrams inps) (js @ [j]) \<and>
        sent (evss ! j) = [agg_sum_packet (datagrams inps) (js @ [j])]))"
  using assms by (rule agg_sends)

theorem agg_sends_complete_rounds_witness:
  "\<exists>st evss. agg_run sample_agg [pair_input key_a 0 [5, 7], sample_input [1, 2, 3]] sample_start = Some (st, evss) \<and> length evss \<le> 2"
  using agg_sends_complete_rounds [of zeros zeros sample_agg "[pair_input key_a 0 [5, 7], sample_input [1, 2, 3]]" 0] by auto

text \<open>
  C11. A round completes, whatever else arrives. With no limit on the packets to receive and after any run, let the key have no slot, its probe sequence end at the
  free entry \<open>i\<close>, its job be admitted and no sweep of the reaper be due. If \<open>i\<close> is where the probe sequence
  starts, the datagrams that follow may be for any keys, malformed or repeated and in any order, those for the key of one length (an entry further on is cut off
  when one before it closes, so no other round may intervene then): nothing is sent for the key until the last of the
  announced workers comes in; its datagram sends the sum of the first datagram of each worker, and the entry is free again.
\<close>
theorem agg_round_completes:
  assumes "length b = 276" "length b' = 276" "agg_run cfg before (agg_init b b' now) = Some (st, evss0)"
    and "\<forall>inp\<in>set inps. quiet cfg inp st" "ac_max_packets cfg = 0"
    and "probe_slot (ag_slots st) k = Free i" "agg_admits cfg (ag_jobs st) (k_job_id k)"
    and "inps \<noteq> []" "ds = datagrams inps" "agg_for_key k (hd ds)" "agg_for_key k (last ds)"
    and "i = slot_index k 0 \<or> (\<forall>d\<in>set ds. agg_accepts d \<longrightarrow> agg_for_key k d)"
    and "\<forall>d\<in>set ds. agg_for_key k d \<longrightarrow> unat (gh_chunk_len (agg_hdr d)) = len"
    and "card (agg_workers k (butlast ds)) + 1 = unat (gh_num_workers (agg_hdr (hd ds)))"
    and "gh_worker_id (agg_hdr (last ds)) \<notin> agg_workers k (butlast ds)"
  shows "\<exists>st' evss evs. agg_run cfg inps st = Some (st', evss @ [evs]) \<and> length evss = length inps - 1 \<and>
    (\<forall>j<length evss. agg_for_key k (ds ! j) \<longrightarrow> sent (evss ! j) = []) \<and>
    sent evs = [encode_packet (sum_hdr k len) (column_sum len (mset (map snd (agg_counted [] k ds))))] \<and>
    \<not> sl_in_use (ag_slots st' i)"
proof -
  let ?rs = "map (\<lambda>inp. agg_request (ai_recv inp)) before"
  obtain u where "agg_simulates ?rs u st"
    using agg_run_simulates [OF agg_simulates_init [OF assms(1,2), of ?rs now], of before cfg] assms(3) by auto
  then obtain R where "entries_track (ag_slots st) R" "agg_buffers st" by (auto simp: agg_simulates_def)
  then show ?thesis by (rule agg_traffic_completes) (fact assms)+
qed

text \<open>
  Between the two workers: a round for a key with the same home entry, the first worker once more with other values,
  and a datagram that is too short.
\<close>

definition sample_datagrams :: "bytes list" where
  "sample_datagrams = [pair_packet key_a 1 [1, -9], pair_packet key_b 0 [3, 3], pair_packet key_a 1 [8, 8], [1, 2, 3],
     pair_packet key_a 0 [5, 7]]"

lemma pair_for_key [simp]: "length vs = 2 \<Longrightarrow> unat w < 256 \<Longrightarrow> agg_for_key k (pair_packet k' w vs) \<longleftrightarrow> k' = k"
  by (simp add: agg_for_key_def)

lemma short_for_key [simp]: "\<not> agg_for_key k [1, 2, 3]"
  by (simp add: agg_for_key_def agg_accepts_def)

lemma sample_datagrams_counted: "map snd (agg_counted [] key_a sample_datagrams) = [[1, -9], [5, 7]]"
  using keys_differ by (simp add: sample_datagrams_def contribution_of_def log_add_def)

lemma sample_datagrams_workers: "agg_workers key_a (butlast sample_datagrams) = {1}"
proof -
  have "{d \<in> set (butlast sample_datagrams). agg_for_key key_a d} = {pair_packet key_a 1 [1, -9], pair_packet key_a 1 [8, 8]}"
    using keys_differ by (auto simp: sample_datagrams_def)
  then show ?thesis by (simp add: workers_among_def)
qed

theorem agg_round_completes_witness:
  "\<exists>st' evss evs. agg_run sample_agg (map sample_input sample_datagrams) sample_start = Some (st', evss @ [evs]) \<and>
     length evss = 4 \<and> sent (evss ! 2) = [] \<and> sent evs = [encode_packet (sum_hdr key_a 2) [6, -2]]"
proof -
  let ?inps = "map sample_input sample_datagrams" and ?i = "slot_index key_a 0"
  have ds: "datagrams ?inps = sample_datagrams" by (simp add: comp_def)
  have free: "probe_slot (ag_slots sample_start) key_a = Free ?i"
    by (rule probe_home_free) (simp add: agg_init_def zero_agg_slot_def)
  have adm: "agg_admits sample_agg (ag_jobs sample_start) (k_job_id key_a)" by (rule agg_admits_unlimited) simp
  have ends: "?inps \<noteq> []" "agg_for_key key_a (hd sample_datagrams)" "agg_for_key key_a (last sample_datagrams)"
    by (simp_all add: sample_datagrams_def)
  have len: "\<forall>d\<in>set sample_datagrams. agg_for_key key_a d \<longrightarrow> unat (gh_chunk_len (agg_hdr d)) = 2"
    by (simp add: sample_datagrams_def)
  have n: "card (agg_workers key_a (butlast sample_datagrams)) + 1 = unat (gh_num_workers (agg_hdr (hd sample_datagrams)))"
    unfolding sample_datagrams_workers by (simp add: sample_datagrams_def)
  have w: "gh_worker_id (agg_hdr (last sample_datagrams)) \<notin> agg_workers key_a (butlast sample_datagrams)"
    unfolding sample_datagrams_workers by (simp add: sample_datagrams_def)
  obtain st' evss evs where r: "agg_run sample_agg ?inps sample_start = Some (st', evss @ [evs])" "length evss = length ?inps - 1"
    "\<forall>j<length evss. agg_for_key key_a (sample_datagrams ! j) \<longrightarrow> sent (evss ! j) = []"
    "sent evs = [encode_packet (sum_hdr key_a 2) (column_sum 2 (mset (map snd (agg_counted [] key_a sample_datagrams))))]"
    using agg_round_completes [where b = zeros and b' = zeros and cfg = sample_agg and before = "[]" and now = 0 and st = sample_start
        and ?evss0.0 = "[]" and inps = ?inps and ds = sample_datagrams, OF _ _ _ _ _ free adm ends(1) ds [symmetric] ends(2,3) _ len n w]
    by auto
  have "length evss = 4" using r(2) by (simp add: sample_datagrams_def)
  moreover have "sent (evss ! 2) = []" using r(3) \<open>length evss = 4\<close> by (simp add: sample_datagrams_def)
  moreover have "column_sum 2 (mset (map snd (agg_counted [] key_a sample_datagrams))) = [6, -2]"
    unfolding sample_datagrams_counted by (simp add: column_sum_def upt_rec)
  ultimately show ?thesis using r(1,4) by metis
qed

text \<open>
  C28. A contribution that must not count changes nothing: a datagram whose slot exists and has
  already seen its worker, or has another \<open>chunk_len\<close>, is logged and leaves the slot and job tables as they were.
\<close>
theorem agg_duplicate_changes_nothing:
  assumes "agg_buffers st" "d = datagram (ai_recv inp)" "agg_accepts d"
    and "probe_slot (ag_slots st) (key_of (agg_hdr d)) = Found i" "sl_arrays_ok (ag_slots st i)"
    and "sl_contributions_received (ag_slots st i) \<noteq> 0"
    and "sl_chunk_len (ag_slots st i) \<noteq> gh_chunk_len (agg_hdr d) \<or>
      unat (gh_worker_id (agg_hdr d)) \<in> sl_workers (ag_slots st i)"
  shows "\<exists>st' ev. agg_receive cfg inp st = Some (st', [ev]) \<and> ag_slots st' = ag_slots st \<and> ag_jobs st' = ag_jobs st \<and>
    sent [ev] = []"
  using assms by (rule agg_ignores)

definition sample_open_slot :: agg_slot where
  "sample_open_slot = (new_slot key_a)\<lparr>sl_chunk_len := 2, sl_num_workers_expected := 2, sl_contributions_received := 1,
     sl_seen_worker := (replicate 256 0)[0 := 1]\<rparr>"

definition sample_open :: agg_state where
  "sample_open = sample_start\<lparr>ag_slots := (\<lambda>_. zero_agg_slot)(slot_index key_a 0 := sample_open_slot)\<rparr>"

lemma sample_open_simps:
  "sl_in_use sample_open_slot" "sl_key sample_open_slot = key_a" "sl_arrays_ok sample_open_slot"
  "sl_contributions_received sample_open_slot = 1" "seen_mem (sl_seen_worker sample_open_slot) 0"
  by (simp_all add: sample_open_slot_def sl_arrays_ok_def seen_mem_def)

theorem agg_duplicate_changes_nothing_witness:
  "\<exists>st' ev. agg_receive sample_agg (pair_input key_a 0 [5, 7]) sample_open = Some (st', [ev]) \<and>
     ag_slots st' = ag_slots sample_open \<and> ag_jobs st' = ag_jobs sample_open \<and> sent [ev] = []"
proof (rule agg_duplicate_changes_nothing [OF _ refl])
  show "agg_buffers sample_open" by (simp add: sample_open_def agg_buffers_def agg_init_def)
  have "probe_slot (ag_slots sample_open) key_a = Found (slot_index key_a 0)"
    by (rule probe_home_found) (simp_all add: sample_open_def sample_open_simps)
  then show "probe_slot (ag_slots sample_open) (key_of (agg_hdr (datagram (ai_recv (pair_input key_a 0 [5, 7]))))) =
      Found (slot_index key_a 0)" by simp
qed (simp_all add: sample_open_def sample_open_simps)

section \<open>Losing a round\<close>

text \<open>
  C25. Freeing a slot breaks the probe sequences that run through its entry. For any two keys with the same
  home entry, whose rounds of two workers interleave as a, b, a, b: the first round is sent, its entry
  is freed, and the last datagram of the second round no longer reaches the second round's slot. It opens a
  second slot for the same key at the freed entry; both slots are left half open and the
  complete second round is never sent.
\<close>
theorem agg_displaced_round_lost:
  assumes "length b = 276" "length b' = 276"
    and "ac_job_quota cfg \<le> 0" "ac_slot_ttl_ms cfg \<le> 0" "ac_max_packets cfg = 0"
    and "k1 \<noteq> k2" "slot_index k1 0 = slot_index k2 0"
    and "round_datagrams k1 2 len1 [datagram (ai_recv a0), datagram (ai_recv a1)]"
    and "round_datagrams k2 2 len2 [datagram (ai_recv c0), datagram (ai_recv c1)]"
  shows "\<exists>st evss. agg_run cfg [a0, c0, a1, c1] (agg_init b b' now) = Some (st, evss) \<and>
    map sent evss = [[], [], [encode_packet (sum_hdr k1 len1)
       (column_sum len1 {#agg_values (datagram (ai_recv a0)), agg_values (datagram (ai_recv a1))#})], []] \<and>
    half_open st (slot_index k2 0) k2 \<and> half_open st (slot_index k2 1) k2"
  using assms by (rule agg_chain_breaks)

lemma keys_collide: "slot_index key_a 0 = slot_index key_b 0"
  by (simp add: slot_index_def masked_index_def slot_key_def mem32_def key_a_def key_b_def SLOT_TABLE_CAPACITY_def)

theorem agg_displaced_round_lost_witness:
  "\<exists>st evss. agg_run sample_agg [pair_input key_a 0 [5, 7], pair_input key_b 0 [1, 2], pair_input key_a 1 [1, -9],
       pair_input key_b 1 [3, 4]] sample_start = Some (st, evss) \<and>
     map sent evss = [[], [], [encode_packet (sum_hdr key_a 2) [6, -2]], []]"
proof -
  have "column_sum 2 {#[5, 7], [1, -9]#} = [6, -2]" by (simp add: column_sum_def upt_rec)
  then show ?thesis
    using agg_displaced_round_lost [OF _ _ _ _ _ keys_differ keys_collide, of zeros zeros sample_agg 2 "pair_input key_a 0 [5, 7]"
        "pair_input key_a 1 [1, -9]" 2 "pair_input key_b 0 [1, 2]" "pair_input key_b 1 [3, 4]" 0]
    by auto
qed

section \<open>The reaper\<close>

text \<open>
  C27. A sweep of the reaper evicts exactly the slots whose last contribution is at least \<open>slot_ttl_ms\<close>
  old: it clears \<open>in_use\<close> of those entries, touches no other field and no other entry, and logs each
  evicted slot once, in table order, with its age in milliseconds. The quota comes back with the slots: if the accounting was
  exact it still is, and a job all of whose slots had expired has none left, so that under any quota below \<open>2^32\<close> its next slot
  is admitted.
\<close>
theorem agg_reaper_exact:
  "case reap_expired_slots now slot_ttl_ms g J of (g', J', evs) \<Rightarrow>
     g' = (\<lambda>j. if j < SLOT_TABLE_CAPACITY \<and> expired now (slot_ttl_ms * 1000) (g j) then (g j)\<lparr>sl_in_use := False\<rparr> else g j) \<and>
     evs = map (\<lambda>j. Ag_reaped (sl_job_id (g j)) (sl_round (g j)) (sl_chunk_id (g j)) ((now - sl_last_touched_micros (g j)) div 1000))
       (filter (\<lambda>j. expired now (slot_ttl_ms * 1000) (g j)) [0..<SLOT_TABLE_CAPACITY]) \<and>
     (jobs_accounted cfg g J \<longrightarrow> jobs_accounted cfg g' J' \<and>
       (\<forall>job. (\<forall>j<SLOT_TABLE_CAPACITY. sl_in_use (g j) \<longrightarrow> sl_job_id (g j) = job \<longrightarrow> expired now (slot_ttl_ms * 1000) (g j)) \<longrightarrow>
          slots_of job g' = 0 \<and> (ac_job_quota cfg < 2 ^ 32 \<longrightarrow> agg_admits cfg J' job)))"
  by (rule agg_reaper_gives_back)

text \<open>Job 3 opens its first slot under a quota of one; two milliseconds later a limit of one has passed.\<close>
theorem agg_reaper_exact_witness:
  "\<exists>i g J g' J' evs. find_or_create_slot 1 (\<lambda>_. zero_agg_slot) (\<lambda>_. zero_job) key_a = (Some i, g, J) \<and>
     reap_expired_slots 2000 1 g J = (g', J', evs) \<and> slots_of 3 g' = 0 \<and> agg_admits (sample_agg\<lparr>ac_job_quota := 1\<rparr>) J' 3"
proof -
  let ?cfg = "sample_agg\<lparr>ac_job_quota := 1\<rparr>"
  have init: "jobs_accounted ?cfg (\<lambda>_. zero_agg_slot) (\<lambda>_. zero_job)"
    using accounted_init [of ?cfg zeros zeros 0] by (simp add: agg_init_def)
  have free: "probe_slot (\<lambda>_. zero_agg_slot) key_a = Free (slot_index key_a 0)"
    by (rule probe_home_free) (simp add: zero_agg_slot_def)
  have jobs: "jobs_intact (\<lambda>_. zero_job)" "\<not> jobs_full (\<lambda>_. zero_job)" using sample_jobs by (simp_all add: agg_init_def)
  obtain i J where f: "find_or_create_slot 1 (\<lambda>_. zero_agg_slot) (\<lambda>_. zero_job) key_a =
      (Some i, (\<lambda>_. zero_agg_slot)(i := new_slot key_a), J)"
  proof (cases rule: find_or_create_slot_cases [of "\<lambda>_. zero_agg_slot" key_a 1 "\<lambda>_. zero_job"])
    case (rejected i j J1)
    have "job_map_of (\<lambda>_. zero_job) (k_job_id key_a) = None"
      using job_map_of_eq_Some [OF jobs(1)] by (cases "job_map_of (\<lambda>_. zero_job) (k_job_id key_a)") (auto simp: zero_job_def)
    then show ?thesis using find_or_create_job_Some(7) [OF jobs(1) rejected(2)] rejected(4) by simp
  next
    case (untracked i J1)
    then show ?thesis using find_or_create_job_None(3) [OF jobs(1)] jobs(2) by blast
  qed (use free that in auto)
  let ?g = "(\<lambda>_. zero_agg_slot)(i := new_slot key_a)"
  have acc: "jobs_accounted ?cfg ?g J" using accounted_lookup [OF init, of key_a "Some i" ?g J] f by simp
  have old: "\<forall>j<SLOT_TABLE_CAPACITY. sl_in_use (?g j) \<longrightarrow> sl_job_id (?g j) = 3 \<longrightarrow> expired 2000 (1 * 1000) (?g j)"
    by (simp add: expired_def new_slot_def zero_agg_slot_def)
  obtain g' J' evs where r: "reap_expired_slots 2000 1 ?g J = (g', J', evs)" by (cases "reap_expired_slots 2000 1 ?g J") auto
  then show ?thesis using agg_reaper_exact [where cfg = ?cfg and now = 2000 and slot_ttl_ms = 1 and g = ?g and J = J] acc old f by auto
qed

section \<open>The quota\<close>

text \<open>
  C26. The fairness accounting is exact after any run: the counter of every tracked job is the number of
  slots it has open, and at most the quota when a quota below 2^32 is set; a job without an
  entry has no open slot unless the job table is full. Completions and evictions give the slot back.
\<close>
theorem agg_quota_exact:
  assumes "agg_run cfg inps (agg_init b b' now) = Some (st, evss)"
  shows "jobs_accounted cfg (ag_slots st) (ag_jobs st)"
  using assms accounted_init by (rule accounted.run)

theorem agg_quota_exact_witness:
  "\<exists>st evss. agg_run sample_agg [pair_input key_a 0 [5, 7]] sample_start = Some (st, evss) \<and>
     jobs_accounted sample_agg (ag_slots st) (ag_jobs st)"
proof -
  obtain st evss where "agg_run sample_agg [pair_input key_a 0 [5, 7]] sample_start = Some (st, evss)"
    using agg_sends [of zeros zeros sample_agg "[pair_input key_a 0 [5, 7]]" 0] by auto
  with agg_quota_exact [OF this] show ?thesis by blast
qed

text \<open>
  C29. What the aggregator reports is true, after any run. Of the two numbers it prints at the end the first is the number of
  datagrams of at least 20 bytes it received and the second the number of sums \<open>sendto\<close> took. When an iteration dumps the job
  table, the \<open>concurrent_slots\<close> of every line is the number of slots the job has open at that point, the reaper's evictions of
  the same iteration included.
\<close>
theorem agg_stats_truthful:
  assumes "agg_run cfg inps (agg_init b b' now) = Some (st0, evss)" "length b = NETSUM_MAX_PACKET_SIZE"
  shows "agg_summary st0 = (tallied (\<lambda>inp. is_packet (ai_recv inp)) (take (length evss) inps), tallied is_sent (concat evss)) \<and>
    (\<forall>inp st evs job c a r. agg_maintenance cfg inp st0 = (st, evs) \<longrightarrow> Ag_stats job c a r \<in> set evs \<longrightarrow>
       unat c = slots_of job (ag_slots st))"
proof -
  have "jobs_accounted cfg (ag_slots st0) (ag_jobs st0)" using assms(1) accounted_init by (rule accounted.run)
  moreover have "NETSUM_HDR_SIZE \<le> length (ag_in_packet (agg_init b b' now))" using assms(2) by (simp add: agg_init_def proto_consts)
  ultimately show ?thesis
    using agg_run_counts [OF assms(1)] agg_stats_truthful_state [of cfg st0] by (auto simp: agg_summary_def agg_init_def)
qed

lemma sample_tracked:
  obtains st evss j where "agg_run sample_agg [pair_input key_a 0 [5, 7]] sample_start = Some (st, evss)"
    "j < JOB_TABLE_CAPACITY" "je_in_use (ag_jobs st j)" "je_job_id (ag_jobs st j) = 3"
proof -
  let ?inp = "pair_input key_a 0 [5, 7]" and ?k = key_a and ?i = "slot_index key_a 0"
  note jobs = sample_jobs
  have free: "\<not> sl_in_use (ag_slots sample_start n)" for n by (simp add: agg_init_def zero_agg_slot_def)
  have pf: "probe_slot (ag_slots sample_start) ?k = Free ?i" by (rule probe_home_free) (rule free)
  have b: "agg_buffers sample_start" by (simp add: agg_buffers_def agg_init_def)
  have tr: "entries_track (ag_slots sample_start) (\<lambda>_. None)" using free by (simp add: entries_track_def)
  have r: "entry_ready sample_agg sample_start ?k ?i" using pf by (simp add: entry_ready_def agg_admits_unlimited)
  have ac: "agg_accepts (datagram (ai_recv ?inp))" "?k = key_of (agg_hdr (datagram (ai_recv ?inp)))" by simp_all
  have rq: "agg_request (ai_recv ?inp) = Some (?k, 2, 0, [5, 7])"
    by (simp add: agg_request_datagram agg_packets.packet_request_def)
  have sp: "spec_request (entry_map ?k None) (agg_request (ai_recv ?inp)) =
      (Absorbed, entry_map ?k (Some \<lparr>r_len = 2, r_expected = 2, r_log = [(0, [5, 7])]\<rparr>))"
    unfolding rq by (simp add: spec_first [of _ 2])
  obtain st evs where s: "agg_step sample_agg ?inp sample_start = Some (st, evs)" "probe_slot (ag_slots st) ?k = Found ?i"
    using agg_step_serves [OF tr b sample_agg_simps(4) ac r sp] by (metis entry_map_simps(1) option.distinct(1))
  obtain evs0 where m: "agg_maintenance sample_agg ?inp sample_start = (sample_start\<lparr>ag_dump_stats_requested := False\<rparr>, evs0)"
    using agg_maintenance_quiet [OF sample_agg_simps(4)] by blast
  let ?st = "sample_start\<lparr>ag_dump_stats_requested := False\<rparr>"
  have b': "agg_buffers ?st" using b by (simp add: agg_buffers_def)
  obtain st1 h where "agg_receive sample_agg ?inp ?st = agg_contribute sample_agg ?inp h st1"
    "ag_slots st1 = ag_slots ?st" "ag_jobs st1 = ag_jobs ?st" "key_of h = key_of (agg_hdr (datagram (ai_recv ?inp)))"
    by (rule agg_receive_accepted [OF b' ac(1), of sample_agg]) blast
  then have h: "agg_receive sample_agg ?inp ?st = agg_contribute sample_agg ?inp h st1"
    "ag_slots st1 = ag_slots sample_start" "ag_jobs st1 = ag_jobs sample_start" "key_of h = ?k"
    by simp_all
  then obtain evs2 where c: "agg_contribute sample_agg ?inp h st1 = Some (st, evs2)"
    using s(1) m by (auto simp: agg_step_def bind_eq_Some_conv)
  obtain i j J1 where f: "find_or_create_job (ag_jobs sample_start) 3 = (Some j, J1)"
    "find_or_create_slot 0 (ag_slots st1) (ag_jobs st1) (key_of h) = (Some i, (ag_slots sample_start)(i := new_slot ?k), J1(j := (J1 j)
         \<lparr>je_concurrent_slots := je_concurrent_slots (J1 j) + 1, je_admitted_count := je_admitted_count (J1 j) + 1\<rparr>))"
  proof (cases rule: find_or_create_slot_cases [of "ag_slots st1" "key_of h" 0 "ag_jobs st1"])
    case (untracked i J1)
    from find_or_create_job_None(3) [OF jobs(1) untracked(2) [unfolded h(3)]] jobs(2) show ?thesis by simp
  next
    case (admitted i j J1)
    then show ?thesis using h(2-4) by (intro that [of j J1 i]) (simp_all add: key_a_def)
  qed (use pf h(2-4) in simp_all)
  note js = find_or_create_job_Some [OF jobs(1) f(1)]
  note jf = probe_job_Found [OF js(2)]
  have "je_in_use (ag_jobs st j) \<and> je_job_id (ag_jobs st j) = 3"
  proof (cases rule: agg_contribute_tables [OF c f(2) [folded sample_agg_simps(2)], case_names same stored close])
    case (close i' s)
    have "\<not> sl_in_use (ag_slots st ?i)"
      using free_slot_slots [OF close(4)] free close(1) by (auto simp: fun_upd_def)
    with probe_slot_Found(2) [OF s(2)] show ?thesis by simp
  qed (use js(3,4) in simp_all)
  with s(1) jf(1) show ?thesis by (intro that [of st "[evs]" j]) simp_all
qed

theorem agg_stats_truthful_witness:
  "\<exists>st0 evss st evs c a r. agg_run sample_agg [pair_input key_a 0 [5, 7], (sample_input [])\<lparr>ai_recv := Recv_none, ai_sigusr1 := True\<rparr>]
       sample_start = Some (st0, evss) \<and>
     agg_maintenance sample_agg (sample_input []) st0 = (st, evs) \<and> Ag_stats 3 c a r \<in> set evs \<and> unat c = slots_of 3 (ag_slots st) \<and>
     fst (agg_summary st0) = 1"
proof -
  obtain st1 evss1 j where 1: "agg_run sample_agg [pair_input key_a 0 [5, 7]] sample_start = Some (st1, evss1)"
    "j < JOB_TABLE_CAPACITY" "je_in_use (ag_jobs st1 j)" "je_job_id (ag_jobs st1 j) = 3"
    by (rule sample_tracked)
  let ?i2 = "(sample_input [])\<lparr>ai_recv := Recv_none, ai_sigusr1 := True\<rparr>"
  let ?st0 = "st1\<lparr>ag_dump_stats_requested := True\<rparr>"
  obtain evs2 where 2: "agg_step sample_agg ?i2 st1 = Some (?st0, evs2)"
    by (cases "ag_dump_stats_requested st1")
      (auto simp: agg_step_def agg_maintenance_def agg_receive_def handle_sigusr1_def NETSUM_HDR_SIZE_def)
  obtain evs1 where s1: "agg_step sample_agg (pair_input key_a 0 [5, 7]) sample_start = Some (st1, evs1)"
    using 1(1) by (auto simp: bind_eq_Some_conv)
  have run: "agg_run sample_agg [pair_input key_a 0 [5, 7], ?i2] sample_start = Some (?st0, [evs1, evs2])"
    using s1 2 by simp
  have m: "agg_maintenance sample_agg (sample_input []) ?st0 = (st1\<lparr>ag_dump_stats_requested := False\<rparr>, dump_job_stats (ag_jobs st1))"
    by (simp add: agg_maintenance_def)
  let ?e = "ag_jobs st1 j"
  have e: "Ag_stats 3 (je_concurrent_slots ?e) (je_admitted_count ?e) (je_rejected_count ?e) \<in> set (dump_job_stats (ag_jobs st1))"
    unfolding dump_job_stats_def using 1(2-4) by (auto simp: Let_def intro!: bexI [of _ j])
  have "length zeros = NETSUM_MAX_PACKET_SIZE" by (simp add: proto_consts)
  note true = agg_stats_truthful [OF run this]
  then have "fst (agg_summary ?st0) = 1" by (simp add: is_packet_def NETSUM_HDR_SIZE_def)
  with run m e true show ?thesis by blast
qed

lemma agg_quota_wraps_to_zero:
  assumes "agg_buffers st" "d = datagram (ai_recv inp)" "agg_accepts d"
    and "probe_slot (ag_slots st) (key_of (agg_hdr d)) = Free i"
    and "find_or_create_job (ag_jobs st) (k_job_id (key_of (agg_hdr d))) = (Some j, J)"
    and "0 < ac_job_quota cfg" "2 ^ 32 dvd ac_job_quota cfg"
  shows "\<exists>st'. agg_receive cfg inp st =
      Some (st', [Ag_admission_reject (gh_job_id (agg_hdr d)) (gh_round (agg_hdr d)) (gh_chunk_id (agg_hdr d))]) \<and>
    ag_slots st' = ag_slots st \<and> ag_jobs st' = J(j := (J j)\<lparr>je_rejected_count := je_rejected_count (J j) + 1\<rparr>)"
  using assms(1-6) by (rule agg_rejects) (simp only: quota_wraps [OF assms(7)] word_zero_le)

lemma agg_untracked_job_unlimited:
  assumes "jobs_full J" "\<forall>j<JOB_TABLE_CAPACITY. je_job_id (J j) \<noteq> k_job_id k" "probe_slot g k = Free i"
  shows "find_or_create_slot g_job_quota g J k = (Some i, g(i := new_slot k), J)"
  using assms by (simp add: find_or_create_slot_def job_untracked new_slot_def)

text \<open>
  C30. The quota check fails in two ways. A quota that is a multiple of \<open>2^32\<close> admits nobody: the check compares with
  \<open>(uint32_t)g_job_quota\<close>, which is 0 then, so an acceptable datagram that needs a new slot of a tracked job is refused, its
  values are lost, and only the job's \<open>rejected_count\<close> grows. And whatever the quota is, it is not enforced for a
  job that found no entry in the job table: once 256 other job ids have entries, which are never given back,
  each new key of a further job gets a slot, however many the job has.
\<close>
theorem agg_quota_misjudges:
  assumes "agg_buffers st" "d = datagram (ai_recv inp)" "agg_accepts d"
    and "probe_slot (ag_slots st) (key_of (agg_hdr d)) = Free i" "0 < ac_job_quota cfg"
  shows "(find_or_create_job (ag_jobs st) (k_job_id (key_of (agg_hdr d))) = (Some j, J) \<longrightarrow> 2 ^ 32 dvd ac_job_quota cfg \<longrightarrow>
      (\<exists>st'. agg_receive cfg inp st =
          Some (st', [Ag_admission_reject (gh_job_id (agg_hdr d)) (gh_round (agg_hdr d)) (gh_chunk_id (agg_hdr d))]) \<and>
        ag_slots st' = ag_slots st \<and> ag_jobs st' = J(j := (J j)\<lparr>je_rejected_count := je_rejected_count (J j) + 1\<rparr>))) \<and>
    (jobs_full (ag_jobs st) \<longrightarrow> (\<forall>j<JOB_TABLE_CAPACITY. je_job_id (ag_jobs st j) \<noteq> gh_job_id (agg_hdr d)) \<longrightarrow>
      find_or_create_slot (ac_job_quota cfg) (ag_slots st) (ag_jobs st) (key_of (agg_hdr d)) =
        (Some i, (ag_slots st)(i := new_slot (key_of (agg_hdr d))), ag_jobs st))"
proof (intro conjI impI)
  show "\<exists>st'. agg_receive cfg inp st =
      Some (st', [Ag_admission_reject (gh_job_id (agg_hdr d)) (gh_round (agg_hdr d)) (gh_chunk_id (agg_hdr d))]) \<and>
    ag_slots st' = ag_slots st \<and> ag_jobs st' = J(j := (J j)\<lparr>je_rejected_count := je_rejected_count (J j) + 1\<rparr>)"
    if "find_or_create_job (ag_jobs st) (k_job_id (key_of (agg_hdr d))) = (Some j, J)" "2 ^ 32 dvd ac_job_quota cfg"
    using assms(1-4) that(1) assms(5) that(2) by (rule agg_quota_wraps_to_zero)
  show "find_or_create_slot (ac_job_quota cfg) (ag_slots st) (ag_jobs st) (key_of (agg_hdr d)) =
      (Some i, (ag_slots st)(i := new_slot (key_of (agg_hdr d))), ag_jobs st)"
    if "jobs_full (ag_jobs st)" "\<forall>j<JOB_TABLE_CAPACITY. je_job_id (ag_jobs st j) \<noteq> gh_job_id (agg_hdr d)"
    using that assms(4) by (intro agg_untracked_job_unlimited) (simp_all add: key_of_def)
qed

definition crowded_jobs :: "nat \<Rightarrow> job_entry" where
  "crowded_jobs i = zero_job\<lparr>je_in_use := True, je_job_id := word_of_nat (i + 1000)\<rparr>"

lemma crowded_jobs_simps:
  "jobs_full crowded_jobs" "\<forall>i<JOB_TABLE_CAPACITY. je_job_id (crowded_jobs i) \<noteq> k_job_id key_a"
proof -
  have "unat (word_of_nat (i + 1000) :: u32) = i + 1000" if "i < 256" for i
    using that by (simp add: unsigned_of_nat take_bit_nat_eq_self del: of_nat_add)
  then have "(word_of_nat (i + 1000) :: u32) \<noteq> 3" if "i < 256" for i
    using that arg_cong [of "word_of_nat (i + 1000) :: u32" 3 unat] by fastforce
  then show "jobs_full crowded_jobs" "\<forall>i<JOB_TABLE_CAPACITY. je_job_id (crowded_jobs i) \<noteq> k_job_id key_a"
    by (simp_all add: jobs_full_def crowded_jobs_def key_a_def JOB_TABLE_CAPACITY_def del: of_nat_add)
qed

text \<open>The quota \<open>2^32\<close> refuses the first slot of job 3; with 256 other jobs in the table, it and any other quota are passed.\<close>
theorem agg_quota_misjudges_witness:
  "\<exists>st' i. agg_receive (sample_agg\<lparr>ac_job_quota := 4294967296\<rparr>) (pair_input key_a 0 [5, 7]) sample_start =
       Some (st', [Ag_admission_reject 3 0 37]) \<and> ag_slots st' = ag_slots sample_start \<and>
     find_or_create_slot 1 (\<lambda>_. zero_agg_slot) crowded_jobs key_a =
       (Some i, (\<lambda>_. zero_agg_slot)(i := new_slot key_a), crowded_jobs)"
proof -
  note jobs = sample_jobs
  obtain j J where j: "find_or_create_job (ag_jobs sample_start) 3 = (Some j, J)"
    using find_or_create_job_None [OF jobs(1)] jobs(2) by (metis option.exhaust surj_pair)
  obtain i where i: "probe_slot (ag_slots sample_start) key_a = Free i" using fresh_probe by blast
  have h: "gh_job_id (pair_hdr key_a 0) = 3" "gh_round (pair_hdr key_a 0) = 0" "gh_chunk_id (pair_hdr key_a 0) = 37" "k_job_id key_a = 3"
    by (simp_all add: pair_hdr_def key_a_def)
  have b: "agg_buffers sample_start" "agg_buffers (sample_start\<lparr>ag_jobs := crowded_jobs\<rparr>)" by (simp_all add: agg_buffers_def agg_init_def)
  have i': "probe_slot (\<lambda>_. zero_agg_slot) key_a = Free i" using i by (simp add: agg_init_def)
  have "\<exists>st'. agg_receive (sample_agg\<lparr>ac_job_quota := 4294967296\<rparr>) (pair_input key_a 0 [5, 7]) sample_start =
      Some (st', [Ag_admission_reject 3 0 37]) \<and> ag_slots st' = ag_slots sample_start"
    using agg_quota_misjudges [OF b(1) refl, of "pair_input key_a 0 [5, 7]" i "sample_agg\<lparr>ac_job_quota := 4294967296\<rparr>" j J]
      i j h by (auto simp del: wire_hdr_sel)
  moreover have "find_or_create_slot 1 (\<lambda>_. zero_agg_slot) crowded_jobs key_a = (Some i, (\<lambda>_. zero_agg_slot)(i := new_slot key_a), crowded_jobs)"
    using agg_quota_misjudges [OF b(2) refl, of "pair_input key_a 0 [5, 7]" i "sample_agg\<lparr>ac_job_quota := 1\<rparr>"]
      i i' h crowded_jobs_simps by (simp add: agg_init_def del: wire_hdr_sel)
  ultimately show ?thesis by blast
qed

end
