(* ===== verification/Paramserver_Traffic.thy ===== *)
theory Paramserver_Traffic
  imports Paramserver_Rounds
begin

text \<open>
  Rounds at the parameter server in the middle of other traffic: its slots are never freed, so a slot that has been
  opened collects the first datagram of each worker and is completed by the one that brings the last.
\<close>

section \<open>The datagrams for a key\<close>

definition ps_for_key :: "grad_slot_key \<Rightarrow> bytes \<Rightarrow> bool" where
  "ps_for_key k d \<longleftrightarrow> ps_accepts d \<and> key_of (wire_hdr d 0) = k"

abbreviation ps_workers :: "grad_slot_key \<Rightarrow> bytes list \<Rightarrow> u16 set" where
  "ps_workers k \<equiv> workers_among (ps_for_key k) (\<lambda>d. wire_hdr d 0)"

abbreviation ps_counted :: "contribution list \<Rightarrow> grad_slot_key \<Rightarrow> bytes list \<Rightarrow> contribution list" where
  "ps_counted L k \<equiv> counted_among (ps_for_key k) contribution_of L"

lemma ps_logs_counted: "ps_logs ds k = ps_counted [] k ds"
proof -
  have "foldl ps_log_step LL ds k = ps_counted (LL k) k ds" for LL
    by (induction ds arbitrary: LL) (auto simp: ps_log_step_def ps_for_key_def counted_among_def)
  then show ?thesis by (simp add: ps_logs_def)
qed

section \<open>An open slot\<close>

text \<open>The line that reports the slot of the key complete.\<close>

definition ps_reports :: "grad_slot_key \<Rightarrow> ps_event \<Rightarrow> bool" where
  "ps_reports k ev \<longleftrightarrow> (\<exists>n s latency. ev = Ps_complete (k_job_id k) (k_round k) (k_chunk_id k) n s latency)"

lemma ps_step_elsewhere:
  assumes inv: "ps_inv st" and inp: "ps_recv inp = Datagram d" and other: "\<not> ps_for_key k d"
  shows "\<exists>st' evs. ps_step agg_mode inp st = Some (st', evs) \<and> ps_inv st' \<and>
    slot_map_of (ps_slots st') k = slot_map_of (ps_slots st) k \<and> (\<forall>ev\<in>set evs. \<not> ps_reports k ev)"
proof -
  obtain st' evs where r: "ps_step agg_mode inp st = Some (st', evs)" "ps_inv st'" using ps_step_safe [OF inv] by blast
  have "slot_map_of (ps_slots st') k = slot_map_of (ps_slots st) k \<and> (\<forall>ev\<in>set evs. \<not> ps_reports k ev)"
  proof (cases rule: ps_step_cases [OF inv inp, of agg_mode, case_names ignored accepted])
    case (ignored st2)
    then show ?thesis using r(1) by simp
  next
    case (accepted st2 h)
    have kh: "key_of h \<noteq> k" using other accepted(1,2) by (simp add: ps_for_key_def key_of_def)
    then have none: "\<not> ps_reports k (Ps_complete (gh_job_id h) (gh_round h) (gh_chunk_id h) n s latency)" for n s latency
      by (auto simp: ps_reports_def key_of_def)
    have h: "unat (gh_chunk_len h) \<le> 64" "unat (gh_worker_id h) < 256" using accepted(1,2) by (simp_all add: ps_accepts_def)
    show ?thesis
    proof (cases rule: ps_contribute_cases [OF accepted(4) h, of agg_mode inp, case_names full dup new])
      case full
      then show ?thesis using r(1) accepted(3,5) by (auto simp: ps_reports_def)
    next
      case (dup st1 evs1)
      then show ?thesis using r(1) accepted(3,5) kh by (auto simp: ps_reports_def)
    next
      case (new st1 evs1 s)
      then show ?thesis using r(1) accepted(3,5) kh none by (auto split: if_splits)
    qed
  qed
  with r show ?thesis by blast
qed

text \<open>A worker that has been counted changes nothing.\<close>

lemma ps_step_again:
  assumes inv: "ps_inv st" and inp: "ps_recv inp = Datagram d" and d: "ps_for_key k d"
    and s: "slot_map_of (ps_slots st) k = Some s" "ps_slot_log s lg" and w: "fst (contribution_of d) \<in> fst ` set lg"
  shows "\<exists>st' evs. ps_step agg_mode inp st = Some (st', evs) \<and> ps_inv st' \<and>
    slot_map_of (ps_slots st') k = Some s \<and> (\<forall>ev\<in>set evs. \<not> ps_reports k ev)"
proof -
  obtain st' evs where r: "ps_step agg_mode inp st = Some (st', evs)" "ps_inv st'" using ps_step_safe [OF inv] by blast
  have "slot_map_of (ps_slots st') k = Some s \<and> (\<forall>ev\<in>set evs. \<not> ps_reports k ev)"
  proof (cases rule: ps_step_cases [OF inv inp, of agg_mode, case_names ignored accepted])
    case (ignored st2)
    then show ?thesis using d by (simp add: ps_for_key_def)
  next
    case (accepted st2 h)
    have kh: "key_of h = k" using d accepted(2) by (simp add: ps_for_key_def key_of_def)
    have h: "unat (gh_chunk_len h) \<le> 64" "unat (gh_worker_id h) < 256" using accepted(1,2) by (simp_all add: ps_accepts_def)
    have "sl_contributions_received s \<noteq> 0" using s(2) by (auto simp: ps_slot_log_def)
    then have l: "ps_latched agg_mode inp h (Some s) = s" by (simp add: ps_latched_def)
    have seen: "seen_mem (sl_seen_worker s) (unat (gh_worker_id h))"
      using w s(2) accepted(2) by (auto simp: ps_slot_log_def contribution_of_def)
    show ?thesis
    proof (cases rule: ps_contribute_cases [OF accepted(4) h, of agg_mode inp, case_names full dup new])
      case full
      then show ?thesis using s(1) kh accepted(5) by (simp add: slot_map_of_def)
    next
      case (dup st1 evs1)
      then show ?thesis using r(1) accepted(3,5) kh s(1) l by (auto simp: ps_reports_def)
    next
      case (new st1 evs1 s1)
      then show ?thesis using seen kh s(1) l accepted(5) by simp
    qed
  qed
  with r show ?thesis by blast
qed

lemma ps_step_pending:
  assumes inv: "ps_inv st" and inp: "ps_recv inp = Datagram d"
    and s: "slot_map_of (ps_slots st) k = Some s" "ps_pending (Some s) n lg"
    and d: "ps_for_key k d \<longrightarrow> ps_covers d" "length (ps_counted lg k [d]) < n"
  shows "\<exists>st' evs s'. ps_step agg_mode inp st = Some (st', evs) \<and> ps_inv st' \<and> slot_map_of (ps_slots st') k = Some s' \<and>
    ps_pending (Some s') n (ps_counted lg k [d]) \<and> (\<forall>ev\<in>set evs. \<not> ps_reports k ev)"
proof (cases "ps_for_key k d")
  case False
  then show ?thesis using ps_step_elsewhere [OF inv inp False, of agg_mode] s by auto
next
  case True
  show ?thesis
  proof (cases "fst (contribution_of d) \<in> fst ` set lg")
    case dup: True
    have "ps_slot_log s lg" using s(2) by (simp add: ps_pending_def)
    from ps_step_again [OF inv inp True s(1) this dup, of agg_mode] show ?thesis
      using s(2) True dup by (auto simp: log_add_dup)
  next
    case False
    have k: "key_of (wire_hdr d 0) = k" and acc: "ps_accepts d" "ps_covers d" using True d(1) by (simp_all add: ps_for_key_def)
    have pend: "ps_pending (slot_map_of (ps_slots st) (key_of (wire_hdr d 0))) n lg" using s k by simp
    have room: "probe_slot (ps_slots st) (key_of (wire_hdr d 0)) \<noteq> Table_full" using s(1) k by (auto simp: slot_map_of_def)
    have nw: "fst (contribution_of d) \<notin> set (map fst lg)" using False by simp
    obtain st' evs s' where 1: "ps_step agg_mode inp st = Some (st', evs)" "ps_inv st'"
      "slot_map_of (ps_slots st') = (slot_map_of (ps_slots st))(k \<mapsto> s')"
      "if length lg + 1 = n then \<exists>ev. evs = [ev] \<and> ps_completes (wire_hdr d 0) n (log_sum (lg @ [contribution_of d])) ev
       else evs = [] \<and> ps_pending (Some s') n (lg @ [contribution_of d])"
      by (rule ps_step_new [OF inv inp acc pend nw _ room]) (use s(1) k in simp_all)
    have lg: "ps_counted lg k [d] = lg @ [contribution_of d]" using True False by (simp add: log_add_new)
    then have "length lg + 1 \<noteq> n" using d(2) by simp
    then show ?thesis using 1 unfolding lg by (intro exI [of _ st'] exI [of _ evs] exI [of _ s']) simp
  qed
qed

text \<open>A slot takes in the datagrams for it until the last worker comes.\<close>

lemma ps_traffic_pending:
  assumes "ps_inv st" "slot_map_of (ps_slots st) k = Some s" "ps_pending (Some s) n lg" "ps_datagrams ds inps"
    and "\<forall>d\<in>set ds. ps_for_key k d \<longrightarrow> ps_covers d" "length (ps_counted lg k ds) < n"
  shows "\<exists>st' evs s'. ps_run agg_mode 0 inps st = Some (st', evs) \<and> ps_inv st' \<and> slot_map_of (ps_slots st') k = Some s' \<and>
    ps_pending (Some s') n (ps_counted lg k ds) \<and> (\<forall>ev\<in>set evs. \<not> ps_reports k ev)"
  using assms
proof (induction inps arbitrary: st s lg ds)
  case Nil
  then show ?case by (auto simp: ps_datagrams_def)
next
  case (Cons inp inps)
  obtain d ds' where ds: "ds = d # ds'" "ps_recv inp = Datagram d" "ps_datagrams ds' inps"
    using Cons.prems(4) by (auto simp: ps_datagrams_def Cons_eq_map_conv)
  have lg: "ps_counted lg k ds = ps_counted (ps_counted lg k [d]) k ds'" unfolding ds(1) by (cases "ps_for_key k d") simp_all
  have n: "length (ps_counted lg k [d]) < n"
    using Cons.prems(6) counted_among_length [of "ps_counted lg k [d]" "ps_for_key k" contribution_of ds'] unfolding lg by simp
  obtain st1 evs s1 where 1: "ps_step agg_mode inp st = Some (st1, evs)" "ps_inv st1" "slot_map_of (ps_slots st1) k = Some s1"
    "ps_pending (Some s1) n (ps_counted lg k [d])" "\<forall>ev\<in>set evs. \<not> ps_reports k ev"
    using ps_step_pending [OF Cons.prems(1) ds(2) Cons.prems(2,3) _ n, of agg_mode] Cons.prems(5) ds(1) by auto
  obtain st' evs' s' where 2: "ps_run agg_mode 0 inps st1 = Some (st', evs')" "ps_inv st'" "slot_map_of (ps_slots st') k = Some s'"
    "ps_pending (Some s') n (ps_counted (ps_counted lg k [d]) k ds')" "\<forall>ev\<in>set evs'. \<not> ps_reports k ev"
    using Cons.IH [OF 1(2-4) ds(3)] Cons.prems(5,6) ds(1) unfolding lg by auto
  have "ps_run agg_mode 0 (inp # inps) st = Some (st', evs @ evs')" using 1(1) 2(1) by simp
  then show ?case using 1(5) 2 unfolding lg by (intro exI [of _ st'] exI [of _ "evs @ evs'"] exI [of _ s']) auto
qed

section \<open>A round in its traffic\<close>

lemma ps_run_append:
  assumes "ps_run agg_mode 0 inps st = Some (st1, evs)"
  shows "ps_run agg_mode 0 (inps @ inps') st = map_option (\<lambda>(st', evs'). (st', evs @ evs')) (ps_run agg_mode 0 inps' st1)"
  using assms
proof (induction inps arbitrary: st evs)
  case Nil
  then show ?case by (cases "ps_run agg_mode 0 inps' st1") auto
next
  case (Cons inp inps)
  then obtain st2 evs1 evs2 where "ps_step agg_mode inp st = Some (st2, evs1)" "ps_run agg_mode 0 inps st2 = Some (st1, evs2)" "evs = evs1 @ evs2"
    by (auto simp: bind_eq_Some_conv)
  with Cons show ?case by (cases "ps_run agg_mode 0 inps' st1") auto
qed

lemma ps_traffic_completes:
  assumes st: "ps_inv st" "slot_map_of (ps_slots st) k = None" "probe_slot (ps_slots st) k \<noteq> Table_full" "ps_datagrams ds inps"
    and ends: "ds \<noteq> []" "ps_for_key k (hd ds)" "ps_for_key k (last ds)" and cov: "\<forall>d\<in>set ds. ps_for_key k d \<longrightarrow> ps_covers d"
    and n: "n = (if agg_mode then 1 else unat (gh_num_workers (wire_hdr (hd ds) 0)))" "card (ps_workers k (butlast ds)) + 1 = n"
    and last: "gh_worker_id (wire_hdr (last ds) 0) \<notin> ps_workers k (butlast ds)"
  shows "\<exists>st' evs ev s. ps_run agg_mode 0 inps st = Some (st', evs @ [ev]) \<and> (\<forall>ev\<in>set evs. \<not> ps_reports k ev) \<and>
    ps_completes (wire_hdr (last ds) 0) n (log_sum (ps_logs ds k)) ev \<and>
    slot_map_of (ps_slots st') k = Some s \<and> sl_sum s = log_sum (ps_logs ds k)"
proof -
  obtain init d where ds: "ds = init @ [d]" using ends(1) by (metis append_butlast_last_id)
  obtain inps1 inp where inps: "inps = inps1 @ [inp]" "ps_datagrams init inps1" "ps_recv inp = Datagram d"
    using st(4) unfolding ds ps_datagrams_def by (auto simp: map_eq_append_conv)
  have bl: "butlast ds = init" and d: "ps_for_key k d" "ps_accepts d" "ps_covers d" "key_of (wire_hdr d 0) = k"
    and w: "gh_worker_id (wire_hdr d 0) \<notin> ps_workers k init"
    using ends(3) cov last unfolding ds by (simp_all add: ps_for_key_def)
  note c = wire_log.counted_new [where p = d, OF w]
  have new: "fst (contribution_of d) \<notin> set (map fst (ps_counted [] k init))" using c(1) by simp
  have snoc: "ps_logs ds k = ps_counted [] k init @ [contribution_of d]"
    using c(2) [OF d(1)] unfolding ps_logs_counted ds .
  have ln: "length (ps_counted [] k init) + 1 = n" using n(2) unfolding bl wire_log.counted_size .
  have final: "\<exists>st' ev s. ps_step agg_mode inp st2 = Some (st', [ev]) \<and> ps_completes (wire_hdr d 0) n (log_sum (ps_logs ds k)) ev \<and>
      slot_map_of (ps_slots st') k = Some s \<and> sl_sum s = log_sum (ps_logs ds k)"
    if st2: "ps_inv st2" "ps_pending (slot_map_of (ps_slots st2) k) n (ps_counted [] k init)" "probe_slot (ps_slots st2) k \<noteq> Table_full"
      "slot_map_of (ps_slots st2) k = None \<Longrightarrow> n = (if agg_mode then 1 else unat (gh_num_workers (wire_hdr d 0)))" for st2
  proof -
    have pend: "ps_pending (slot_map_of (ps_slots st2) (key_of (wire_hdr d 0))) n (ps_counted [] k init)" using st2(2) d(4) by simp
    obtain st' evs s where "ps_step agg_mode inp st2 = Some (st', evs)" "slot_map_of (ps_slots st') = (slot_map_of (ps_slots st2))(k \<mapsto> s)"
      "ps_slot_log s (ps_counted [] k init @ [contribution_of d])"
      "if length (ps_counted [] k init) + 1 = n then \<exists>ev. evs = [ev] \<and> ps_completes (wire_hdr d 0) n (log_sum (ps_counted [] k init @ [contribution_of d])) ev
       else evs = [] \<and> ps_pending (Some s) n (ps_counted [] k init @ [contribution_of d])"
      by (rule ps_step_new [OF st2(1) inps(3) d(2,3) pend new st2(4) [folded d(4)] st2(3) [folded d(4)], unfolded d(4)]) blast
    then show ?thesis using ln snoc by (auto simp: ps_slot_log_def)
  qed
  show ?thesis
  proof (cases init)
    case Nil
    have "ps_pending (slot_map_of (ps_slots st) k) n (ps_counted [] k init)" using st(2) Nil by (simp add: ps_pending_def)
    moreover have "n = (if agg_mode then 1 else unat (gh_num_workers (wire_hdr d 0)))" using n(1) unfolding ds Nil by simp
    ultimately obtain st' ev s where f: "ps_step agg_mode inp st = Some (st', [ev])" "ps_completes (wire_hdr d 0) n (log_sum (ps_logs ds k)) ev"
      "slot_map_of (ps_slots st') k = Some s" "sl_sum s = log_sum (ps_logs ds k)"
      using final [OF st(1) _ st(3)] by blast
    have "inps1 = []" using inps(2) Nil by (simp add: ps_datagrams_def)
    then show ?thesis using f ds inps(1) by (intro exI [of _ st'] exI [of _ "[]"] exI [of _ ev] exI [of _ s]) simp
  next
    case (Cons first mid)
    obtain inp1 inps2 where inps1: "inps1 = inp1 # inps2" "ps_recv inp1 = Datagram first" "ps_datagrams mid inps2"
      using inps(2) Cons by (auto simp: ps_datagrams_def map_eq_Cons_conv)
    have p: "ps_for_key k first" "ps_accepts first" "ps_covers first" "key_of (wire_hdr first 0) = k"
      and cov1: "\<forall>d\<in>set mid. ps_for_key k d \<longrightarrow> ps_covers d"
      and n1: "n = (if agg_mode then 1 else unat (gh_num_workers (wire_hdr first 0)))"
      using ends(2) cov n(1) unfolding ds Cons by (simp_all add: ps_for_key_def)
    have L: "ps_counted [] k init = ps_counted [contribution_of first] k mid" using p(1) Cons by (simp add: log_add_new)
    have n2: "n \<noteq> 1" using ln counted_among_length [of "[contribution_of first]" "ps_for_key k" contribution_of mid] unfolding L by simp
    have pend: "ps_pending (slot_map_of (ps_slots st) k) n []" using st(2) by (simp add: ps_pending_def)
    obtain st1 evs1 s1 where 1: "ps_step agg_mode inp1 st = Some (st1, evs1)" "ps_inv st1"
      "slot_map_of (ps_slots st1) = (slot_map_of (ps_slots st))(k \<mapsto> s1)"
      "if length ([] :: contribution list) + 1 = n then \<exists>ev. evs1 = [ev] \<and> ps_completes (wire_hdr first 0) n (log_sum ([] @ [contribution_of first])) ev
       else evs1 = [] \<and> ps_pending (Some s1) n ([] @ [contribution_of first])"
      by (rule ps_step_new [OF st(1) inps1(2) p(2,3) pend [folded p(4)] _ n1 st(3) [folded p(4)], unfolded p(4)]) simp
    have s1: "evs1 = []" "ps_pending (Some s1) n [contribution_of first]" "slot_map_of (ps_slots st1) k = Some s1"
      using 1(3,4) n2 by simp_all
    have "length (ps_counted [contribution_of first] k mid) < n" using ln unfolding L by simp
    from ps_traffic_pending [OF 1(2) s1(3,2) inps1(3) cov1 this, of agg_mode]
    obtain st2 evs s2 where 2: "ps_run agg_mode 0 inps2 st1 = Some (st2, evs)" "ps_inv st2" "slot_map_of (ps_slots st2) k = Some s2"
      "ps_pending (Some s2) n (ps_counted [] k init)" "\<forall>ev\<in>set evs. \<not> ps_reports k ev"
      unfolding L by blast
    have room: "probe_slot (ps_slots st2) k \<noteq> Table_full" using 2(3) by (auto simp: slot_map_of_def)
    obtain st' ev s where f: "ps_step agg_mode inp st2 = Some (st', [ev])" "ps_completes (wire_hdr d 0) n (log_sum (ps_logs ds k)) ev"
      "slot_map_of (ps_slots st') k = Some s" "sl_sum s = log_sum (ps_logs ds k)"
      using final [OF 2(2) _ room] 2(3,4) by auto
    have "ps_run agg_mode 0 inps1 st = Some (st2, evs)" using 1(1) 2(1) s1(1) inps1(1) by simp
    from ps_run_append [OF this, of "[inp]"] f(1) have "ps_run agg_mode 0 inps st = Some (st', evs @ [ev])" by (simp add: inps(1))
    then show ?thesis using f(2-4) 2(5) ds by (intro exI [of _ st'] exI [of _ evs] exI [of _ ev] exI [of _ s]) simp
  qed
qed

end
