(* ===== verification/Paramserver_Properties.thy ===== *)
theory Paramserver_Properties
  imports Counters Paramserver_Traffic Samples
begin

text \<open>The properties of the parameter server, each with a witness on concrete datagrams.\<close>

definition ps_sample_input :: "bytes \<Rightarrow> ps_input" where
  "ps_sample_input d = \<lparr>ps_recv = Datagram d, ps_now_first = 1, ps_now_completed = 2\<rparr>"

lemma ps_sample_input_simps [simp]: "ps_recv (ps_sample_input d) = Datagram d"
  by (simp add: ps_sample_input_def)

lemma ps_sample_datagrams [simp]: "ps_datagrams ds (map ps_sample_input ds)"
  by (simp add: ps_datagrams_def)

abbreviation ps_zeros :: bytes where "ps_zeros \<equiv> replicate 276 0"

lemma ps_zeros_length [simp]: "length ps_zeros = NETSUM_MAX_PACKET_SIZE"
  by (simp add: proto_consts)

lemma pair_ps_accepts [simp]: "length vs = 2 \<Longrightarrow> unat w < 256 \<Longrightarrow> ps_accepts (pair_packet k w vs)"
  by (simp add: ps_accepts_def)

lemma pair_ps_covers [simp]: "length vs = 2 \<Longrightarrow> ps_covers (pair_packet k w vs)"
  by (simp add: ps_covers_def)

lemma pair_contribution [simp]: "length vs = 2 \<Longrightarrow> contribution_of (pair_packet k w vs) = (unat w, vs)"
  by (simp add: contribution_of_def)

lemma ps_fresh_table:
  "slot_map_of (ps_slots (ps_init b)) k = None" "probe_slot (ps_slots (ps_init b)) k \<noteq> Table_full"
proof -
  have "\<not> sl_in_use (ps_slots (ps_init b) i)" for i by (simp add: ps_init_def zero_ps_slot_def)
  then show "slot_map_of (ps_slots (ps_init b)) k = None" "probe_slot (ps_slots (ps_init b)) k \<noteq> Table_full"
    using probe_slot_full [of "ps_slots (ps_init b)" k 0] by (auto simp: slot_map_of_def SLOT_TABLE_CAPACITY_def
        dest: probe_slot_Found split: probe_result.split)
qed

text \<open>
  C4. The parameter server loses and invents nothing. Whatever it receives, datagrams of any content and
  length or errors, the loop makes no access outside the packet buffer or a slot's arrays, and the two numbers printed at the end
  are those of the datagrams of at least 20 bytes received and of the completions logged. When every datagram holds the values its
  header announces and they are for at most 65536 keys, then in either mode the
  table holds, for each (job, round, chunk) and no other, a slot whose sum is the sum of the contributions of the
  acceptable datagrams for it, one per worker (the worker's first), with that many contributions
  counted and those workers marked as seen.
\<close>
theorem ps_accumulates:
  assumes "length packet = NETSUM_MAX_PACKET_SIZE"
  shows "\<exists>st evs. ps_run agg_mode max_packets inps (ps_init packet) = Some (st, evs) \<and>
    (\<exists>m\<le>length inps. ps_summary st = (tallied (\<lambda>inp. is_packet (ps_recv inp)) (take m inps), tallied is_completion evs) \<and>
       (m < length inps \<longrightarrow> max_packets \<noteq> 0 \<and> max_packets \<le> ps_packets_seen st)) \<and>
    (max_packets = 0 \<longrightarrow> ps_datagrams ds inps \<longrightarrow> (\<forall>d\<in>set ds. ps_covers d) \<longrightarrow> card {k. ps_logs ds k \<noteq> []} \<le> SLOT_TABLE_CAPACITY \<longrightarrow>
       ps_tracks st (ps_logs ds))"
proof -
  obtain st evs where r: "ps_run agg_mode max_packets inps (ps_init packet) = Some (st, evs)"
    using ps_run_safe [OF ps_init_tracks(1) [OF assms], of agg_mode max_packets inps] by blast
  have "NETSUM_HDR_SIZE \<le> length (ps_packet (ps_init packet))" using assms by (simp add: ps_init_def proto_consts)
  from ps_run_counts [OF r this]
  have s: "\<exists>m\<le>length inps. ps_summary st = (tallied (\<lambda>inp. is_packet (ps_recv inp)) (take m inps), tallied is_completion evs) \<and>
      (m < length inps \<longrightarrow> max_packets \<noteq> 0 \<and> max_packets \<le> ps_packets_seen st)"
    by (auto simp: ps_summary_def ps_init_def)
  have "ps_tracks st (ps_logs ds)"
    if "max_packets = 0" "ps_datagrams ds inps" "\<forall>d\<in>set ds. ps_covers d" "card {k. ps_logs ds k \<noteq> []} \<le> SLOT_TABLE_CAPACITY"
    using ps_run_tracks [OF ps_init_tracks [OF assms] that(2,3), of agg_mode] that(1,4) r unfolding ps_logs_def by fastforce
  with r s show ?thesis by blast
qed

text \<open>Two datagrams of one worker and one of another; one completion.\<close>
theorem ps_accumulates_witness:
  "\<exists>st evs s. ps_run False 0 (map ps_sample_input [pair_packet key_a 0 [5, 7], pair_packet key_a 0 [1, 1], pair_packet key_a 1 [1, -9]])
     (ps_init ps_zeros) = Some (st, evs) \<and> slot_map_of (ps_slots st) key_a = Some s \<and> take 2 (sl_sum s) = [6, -2] \<and> fst (ps_summary st) = 3"
proof -
  let ?ds = "[pair_packet key_a 0 [5, 7], pair_packet key_a 0 [1, 1], pair_packet key_a 1 [1, -9]]"
  have logs: "ps_logs ?ds = (\<lambda>_. [])(key_a := [(0, [5, 7]), (1, [1, -9])])"
    by (simp add: ps_logs_def ps_log_step_def log_add_def)
  have keys: "{k. ps_logs ?ds k \<noteq> []} = {key_a}" unfolding logs by auto
  have "\<exists>st evs. ps_run False 0 (map ps_sample_input ?ds) (ps_init ps_zeros) = Some (st, evs) \<and> fst (ps_summary st) = 3 \<and>
      ps_tracks st (ps_logs ?ds)"
    using ps_accumulates [OF ps_zeros_length, of False 0 "map ps_sample_input ?ds" ?ds] keys ps_sample_datagrams [of ?ds]
    by (auto simp: SLOT_TABLE_CAPACITY_def is_packet_def NETSUM_HDR_SIZE_def le_Suc_eq)
  then obtain st evs where r: "ps_run False 0 (map ps_sample_input ?ds) (ps_init ps_zeros) = Some (st, evs)" "ps_tracks st (ps_logs ?ds)"
    "fst (ps_summary st) = 3" by blast
  then obtain s where s: "slot_map_of (ps_slots st) key_a = Some s" "ps_slot_log s [(0, [5, 7]), (1, [1, -9])]"
    unfolding ps_tracks_def logs by (auto dest: spec [of _ key_a] split: option.splits)
  have "take 2 (log_sum [(0, [5, 7]), (1, [1, -9])]) = column_sum 2 {#[5, 7], [1, -9]#}"
    by (subst log_sum_column) simp_all
  also have "\<dots> = [6, -2]" by (simp add: column_sum_def upt_rec)
  finally show ?thesis using r(1,3) s by (auto simp: ps_slot_log_def)
qed

text \<open>
  C31. A round completes exactly with its last contribution, whatever else arrives. After any run that left room in the table
  and no slot for the key, let datagrams follow, among them others for any keys, malformed ones and repetitions, in any
  order; of those for the key that are accepted each holds the values it announces. No completion of the key is logged until the last of the
  workers announced by its first datagram comes in (in aggregated mode that one already); then one is, with their number and the
  first component of the sum of each worker's first datagram, and the slot holds that sum.
\<close>
theorem ps_completes_round:
  assumes "length packet = NETSUM_MAX_PACKET_SIZE" "ps_run agg_mode 0 before (ps_init packet) = Some (st0, evs0)"
    and "slot_map_of (ps_slots st0) k = None" "card (dom (slot_map_of (ps_slots st0))) < SLOT_TABLE_CAPACITY"
    and "ps_datagrams ds inps" "ds \<noteq> []" "ps_for_key k (hd ds)" "ps_for_key k (last ds)"
    and "\<forall>d\<in>set ds. ps_for_key k d \<longrightarrow> ps_covers d"
    and "n = (if agg_mode then 1 else unat (gh_num_workers (wire_hdr (hd ds) 0)))"
    and "card (ps_workers k (butlast ds)) + 1 = n" "gh_worker_id (wire_hdr (last ds) 0) \<notin> ps_workers k (butlast ds)"
  shows "\<exists>st evs ev s. ps_run agg_mode 0 inps st0 = Some (st, evs @ [ev]) \<and> (\<forall>ev\<in>set evs. \<not> ps_reports k ev) \<and>
    ps_completes (wire_hdr (last ds) 0) n (log_sum (ps_logs ds k)) ev \<and>
    slot_map_of (ps_slots st) k = Some s \<and> sl_sum s = log_sum (ps_logs ds k)"
proof -
  have inv: "ps_inv st0" using ps_run_safe [OF ps_init_tracks(1) [OF assms(1)], of agg_mode 0 before] assms(2) by auto
  have "probe_slot (ps_slots st0) k \<noteq> Table_full"
    using slot_map_of_full(1) [of "ps_slots st0" k] inv assms(4) by (auto simp: ps_inv_def)
  then show ?thesis using assms(5-12) by (rule ps_traffic_completes [OF inv assms(3)])
qed

text \<open>
  Between the two workers: a datagram for another key, the first worker once more with other values, and a datagram that
  is too short.
\<close>

definition ps_sample_traffic :: "bytes list" where
  "ps_sample_traffic = [pair_packet key_a 1 [1, -9], pair_packet key_b 0 [3, 3], pair_packet key_a 1 [8, 8], [1, 2, 3],
     pair_packet key_a 0 [5, 7]]"

lemma ps_pair_for_key [simp]: "length vs = 2 \<Longrightarrow> unat w < 256 \<Longrightarrow> ps_for_key k (pair_packet k' w vs) \<longleftrightarrow> k' = k"
  by (simp add: ps_for_key_def)

lemma ps_short_for_key [simp]: "\<not> ps_for_key k [1, 2, 3]"
  by (simp add: ps_for_key_def ps_accepts_def)

lemma ps_sample_logs: "ps_logs ps_sample_traffic key_a = [(1, [1, -9]), (0, [5, 7])]"
  using keys_differ by (simp add: ps_logs_counted ps_sample_traffic_def log_add_def)

lemma ps_sample_workers: "ps_workers key_a (butlast ps_sample_traffic) = {1}"
proof -
  have "{d \<in> set (butlast ps_sample_traffic). ps_for_key key_a d} = {pair_packet key_a 1 [1, -9], pair_packet key_a 1 [8, 8]}"
    using keys_differ by (auto simp: ps_sample_traffic_def)
  then show ?thesis by (simp add: workers_among_def)
qed

theorem ps_completes_round_witness:
  "\<exists>st evs ev. ps_run False 0 (map ps_sample_input ps_sample_traffic) (ps_init ps_zeros) = Some (st, evs @ [ev]) \<and>
     (\<forall>ev\<in>set evs. \<not> ps_reports key_a ev) \<and> ps_completes (pair_hdr key_a 0) 2 (log_sum [(1, [1, -9]), (0, [5, 7])]) ev"
proof -
  have r: "ps_run False 0 [] (ps_init ps_zeros) = Some (ps_init ps_zeros, [])" by simp
  have "dom (slot_map_of (ps_slots (ps_init ps_zeros))) = {}" using ps_fresh_table(1) [of ps_zeros] by (auto simp: dom_def)
  then have room: "card (dom (slot_map_of (ps_slots (ps_init ps_zeros)))) < SLOT_TABLE_CAPACITY" by (simp add: SLOT_TABLE_CAPACITY_def)
  have ends: "ps_sample_traffic \<noteq> []" "ps_for_key key_a (hd ps_sample_traffic)" "ps_for_key key_a (last ps_sample_traffic)"
    by (simp_all add: ps_sample_traffic_def)
  have cov: "\<forall>d\<in>set ps_sample_traffic. ps_for_key key_a d \<longrightarrow> ps_covers d" by (simp add: ps_sample_traffic_def)
  have n: "2 = (if False then 1 else unat (gh_num_workers (wire_hdr (hd ps_sample_traffic) 0)))" by (simp add: ps_sample_traffic_def)
  have w: "card (ps_workers key_a (butlast ps_sample_traffic)) + 1 = 2"
    "gh_worker_id (wire_hdr (last ps_sample_traffic) 0) \<notin> ps_workers key_a (butlast ps_sample_traffic)"
    unfolding ps_sample_workers by (simp_all add: ps_sample_traffic_def)
  have l: "wire_hdr (last ps_sample_traffic) 0 = pair_hdr key_a 0" by (simp add: ps_sample_traffic_def)
  show ?thesis
    using ps_completes_round [OF ps_zeros_length r ps_fresh_table(1) room ps_sample_datagrams ends cov n w]
    unfolding l ps_sample_logs by blast
qed

text \<open>
  C32. The parameter server does not check that a datagram holds the values its header announces: the
  first datagram for a key adds, besides what it carries, the bytes that earlier datagrams left
  in the packet buffer behind its end.
\<close>
theorem ps_sums_stale_bytes:
  assumes "ps_inv st" "ps_recv inp = Datagram d" "ps_accepts d"
    and "slot_map_of (ps_slots st) (key_of (wire_hdr d 0)) = None" "probe_slot (ps_slots st) (key_of (wire_hdr d 0)) \<noteq> Table_full"
  shows "\<exists>st' evs s. ps_step agg_mode inp st = Some (st', evs) \<and> slot_map_of (ps_slots st') (key_of (wire_hdr d 0)) = Some s \<and>
    sl_sum s = add_values (replicate 64 0)
      (wire_values (take 276 d @ drop (length d) (ps_packet st)) 20 (unat (gh_chunk_len (wire_hdr d 0))))"
  using assms by (rule ps_step_short)

text \<open>A datagram without any values, into a buffer that still holds a packet with the values 5 and 7.\<close>
theorem ps_sums_stale_bytes_witness:
  "\<exists>st' evs s. ps_step False (ps_sample_input (pair_packet key_b 0 [])) (ps_init (pair_packet key_a 0 [5, 7] @ replicate 248 0)) = Some (st', evs) \<and>
     slot_map_of (ps_slots st') key_b = Some s \<and> take 2 (sl_sum s) = [5, 7]"
proof -
  let ?b = "pair_packet key_a 0 [5, 7] @ replicate 248 0" and ?d = "pair_packet key_b 0 []"
  have inv: "ps_inv (ps_init ?b)" by (rule ps_init_tracks) (simp add: proto_consts)
  have acc: "ps_accepts ?d" by (simp add: ps_accepts_def)
  have buf: "take 276 ?d @ drop (length ?d) (ps_packet (ps_init ?b)) = pair_packet key_b 0 [5, 7] @ replicate 248 0"
    by (simp add: ps_init_def pair_packet_def encode_packet_def)
  have "wire_values (pair_packet key_b 0 [5, 7] @ replicate 248 0) 20 2 = wire_values (pair_packet key_b 0 [5, 7]) 20 2"
    by (simp add: wire_values_def wire32_append upt_rec)
  then have v: "wire_values (take 276 ?d @ drop (length ?d) (ps_packet (ps_init ?b))) 20 2 = [5, 7]"
    unfolding buf by simp
  have k: "key_of (wire_hdr ?d 0) = key_b" "unat (gh_chunk_len (wire_hdr ?d 0)) = 2" by simp_all
  obtain st' evs s where r: "ps_step False (ps_sample_input ?d) (ps_init ?b) = Some (st', evs)"
    "slot_map_of (ps_slots st') key_b = Some s" "sl_sum s = add_values (replicate 64 0) [5, 7]"
    using ps_sums_stale_bytes [OF inv ps_sample_input_simps acc, of False] ps_fresh_table [of ?b key_b] unfolding k v by auto
  have "take 2 (add_values (replicate 64 0) [5, 7 :: i32]) = add_values (take 2 (replicate 64 0)) [5, 7]"
    by (rule take_add_values) simp_all
  then have "take 2 (sl_sum s) = [5, 7]" unfolding r(3) by (simp add: numeral_2_eq_2)
  with r show ?thesis by blast
qed

end
