(* ===== verification/Checksum.thy ===== *)
theory Checksum
  imports Packet
begin

text \<open>
  The IPv4 header checksum of \<open>xdp_agg.c\<close> (\<open>ip_checksum\<close>), against the rule a receiver applies
  (RFC 791 and RFC 1071): the ones' complement sum of the ten big-endian 16-bit words of the
  header, the checksum field included, is \<open>0xffff\<close>.
\<close>

section \<open>ip_checksum\<close>

text \<open>The ten-halfword loop, which skips the checksum field itself (halfword 5).\<close>

function ip_checksum_loop :: "bytes \<Rightarrow> nat \<Rightarrow> nat \<Rightarrow> u32 \<Rightarrow> u32 option" where
  "ip_checksum_loop p iph i acc =
     (if i < 10
      then if i = 5 then ip_checksum_loop p iph (i + 1) acc
      else do {
        w \<leftarrow> ld16 p (iph + 2 * i);
        ip_checksum_loop p iph (i + 1) (acc + ucast w) }
      else Some acc)"
  by pat_completeness auto
termination
  by (relation "measure (\<lambda>(p, iph, i, acc). 10 - i)") auto

declare ip_checksum_loop.simps [simp del]

definition ip_checksum :: "bytes \<Rightarrow> nat \<Rightarrow> u16 option" where
  "ip_checksum p iph = do {
     acc \<leftarrow> ip_checksum_loop p iph 0 0;
     let acc = (acc AND 0xffff) + drop_bit 16 acc;
     let acc = (acc AND 0xffff) + drop_bit 16 acc;
     Some (ucast (NOT acc)) }"

section \<open>The receiver's rule\<close>

text \<open>End-around carry, repeated until the sum fits 16 bits.\<close>

lemma fold_step_eq: "(n :: nat) = 65535 * (n div 65536) + (n mod 65536 + n div 65536)"
  using div_mult_mod_eq [of n 65536] by linarith

function ones_fold :: "nat \<Rightarrow> nat" where
  "ones_fold n = (if n < 65536 then n else ones_fold (n mod 65536 + n div 65536))"
  by pat_completeness auto
termination
proof (relation "measure id")
  fix n :: nat
  assume n: "\<not> n < 65536"
  then have "1 \<le> n div 65536" using div_le_mono [of 65536 n 65536] by simp
  with fold_step_eq [of n] have "n mod 65536 + n div 65536 < n" by linarith
  then show "(n mod 65536 + n div 65536, n) \<in> measure id" by simp
qed simp

declare ones_fold.simps [simp del]

definition ip_header_valid :: "bytes \<Rightarrow> nat \<Rightarrow> bool" where
  "ip_header_valid p iph \<longleftrightarrow> ones_fold (\<Sum>i<10. unat (wire16 p (iph + 2 * i))) = 65535"

section \<open>Ones' complement arithmetic\<close>

lemma fold_step_cong: "(n mod 65536 + n div 65536) mod 65535 = (n :: nat) mod 65535"
proof -
  have "n mod 65535 = (65535 * (n div 65536) + (n mod 65536 + n div 65536)) mod 65535"
    using fold_step_eq [of n] by (rule arg_cong)
  also have "\<dots> = (n mod 65536 + n div 65536) mod 65535" by (rule mod_mult_self4)
  finally show ?thesis ..
qed

lemma fold_step_pos: "0 < (n :: nat) \<Longrightarrow> 0 < n mod 65536 + n div 65536"
  using fold_step_eq [of n] by (cases "n div 65536") auto

lemma ones_fold_props:
  "ones_fold n < 65536 \<and> ones_fold n mod 65535 = n mod 65535 \<and> (ones_fold n = 0 \<longleftrightarrow> n = 0)"
proof (induction n rule: ones_fold.induct)
  case (1 n)
  show ?case
  proof (cases "n < 65536")
    case True
    then show ?thesis by (simp add: ones_fold.simps [of n])
  next
    case False
    with 1 fold_step_pos [of n] show ?thesis
      by (simp add: ones_fold.simps [of n] fold_step_cong)
  qed
qed

lemma ones_fold_full: "0 < n \<Longrightarrow> n mod 65535 = 0 \<Longrightarrow> ones_fold n = 65535"
proof -
  assume n: "0 < n" "n mod 65535 = 0"
  let ?f = "ones_fold n"
  from n have f: "?f < 65536" "?f mod 65535 = 0" "0 < ?f"
    using ones_fold_props [of n] by auto
  then obtain k where k: "?f = 65535 * k" by (auto simp: mod_eq_0_iff_dvd elim: dvdE)
  with f have "k = 1" by (cases k) auto
  with k show ?thesis by simp
qed

lemma ones_fold_full_iff: "ones_fold n = 65535 \<longleftrightarrow> 0 < n \<and> n mod 65535 = 0"
  using ones_fold_props [of n] ones_fold_full [of n] by auto

text \<open>Two folds are enough for the sum of ten halfwords.\<close>

lemma two_folds:
  assumes "s \<le> 10 * (65535 :: nat)"
  defines "t \<equiv> s mod 65536 + s div 65536"
  defines "u \<equiv> t mod 65536 + t div 65536"
  shows "u < 65536" "u mod 65535 = s mod 65535" "u \<le> s"
proof -
  have s: "s div 65536 \<le> 9" using assms(1) div_le_mono [of s "10 * 65535" 65536] by simp
  then have t: "t < 65536 + 9" unfolding t_def using mod_less_divisor [of 65536 s] by linarith
  have "t div 65536 \<le> 1" using t div_le_mono [of t "65536 + 9" 65536] by simp
  then consider "t div 65536 = 0" | "t div 65536 = 1" by linarith
  then show "u < 65536"
    using t mod_less_divisor [of 65536 t] div_mult_mod_eq [of t 65536] unfolding u_def by cases linarith+
  show "u mod 65535 = s mod 65535" unfolding u_def t_def by (simp only: fold_step_cong)
  show "u \<le> s" using fold_step_eq [of s] fold_step_eq [of t] unfolding u_def t_def by linarith
qed

lemma unat_fold_step:
  "unat ((a AND 0xffff) + drop_bit 16 (a :: u32)) = unat a mod 65536 + unat a div 65536"
proof -
  have m: "(0xffff :: u32) = mask 16" by (simp add: mask_eq_exp_minus_1)
  have "unat a mod 65536 + unat a div 65536 < 2 ^ 32"
    using unsigned_less [of a, where ?'a = nat] fold_step_eq [of "unat a"] by (simp only: len_num1 len_bit0) simp
  moreover have "unat (a AND 0xffff) = unat a mod 65536"
    unfolding m by (simp only: take_bit_eq_mask [symmetric] unsigned_take_bit_eq) (simp add: take_bit_eq_mod)
  moreover have "unat (drop_bit 16 a) = unat a div 65536"
    by (simp only: unat_drop_bit_eq) (simp add: drop_bit_eq_div)
  ultimately show ?thesis by (simp add: unat_word_ariths)
qed


section \<open>The computed checksum is valid\<close>

definition halfword :: "bytes \<Rightarrow> nat \<Rightarrow> nat \<Rightarrow> u16" where
  "halfword p iph i = le16 (p ! (iph + 2 * i)) (p ! (iph + 2 * i + 1))"

lemma unat_add_ucast16:
  "unat (a :: u32) \<le> 10 * 65535 \<Longrightarrow> unat (a + ucast (w :: u16)) = unat a + unat w"
proof -
  assume a: "unat a \<le> 10 * 65535"
  have w: "unat (ucast w :: u32) = unat w"
    by (simp add: unsigned_ucast_eq take_bit_nat_eq_self [OF less_trans [OF u16_bound]])
  show ?thesis using a u16_bound [of w] by (simp add: unat_word_ariths w)
qed

lemma ip_checksum_loop_sum:
  assumes "iph + 20 \<le> length p" "i \<le> 10" "unat acc \<le> i * 65535"
  shows "\<exists>r. ip_checksum_loop p iph i acc = Some r \<and>
    unat r = unat acc + (\<Sum>j\<in>{i..<10} - {5}. unat (halfword p iph j)) \<and> unat r \<le> 10 * 65535"
  using assms(2,3)
proof (induction i arbitrary: acc rule: inc_induct)
  case base
  then show ?case by (simp add: ip_checksum_loop.simps)
next
  case (step i)
  have split: "{i..<10} = insert i {Suc i..<10}" using step.hyps by auto
  show ?case
  proof (cases "i = 5")
    case True
    then have "{i..<10} - {5} = {Suc i..<10} - {5}" using split by auto
    with step.IH [of acc] step.prems True show ?thesis
      by (subst ip_checksum_loop.simps) simp
  next
    case False
    let ?acc = "acc + ucast (halfword p iph i)"
    have ld: "ld16 p (iph + 2 * i) = Some (halfword p iph i)"
      using step.hyps assms(1) by (simp add: ld16_in halfword_def)
    have acc: "unat ?acc = unat acc + unat (halfword p iph i)"
      using step.prems step.hyps by (intro unat_add_ucast16) simp
    then have "unat ?acc \<le> Suc i * 65535"
      using step.prems u16_bound [of "halfword p iph i"] by simp
    moreover have "(\<Sum>j\<in>{i..<10} - {5}. unat (halfword p iph j)) =
        unat (halfword p iph i) + (\<Sum>j\<in>{Suc i..<10} - {5}. unat (halfword p iph j))"
      using False split by (simp add: insert_Diff_if)
    ultimately show ?thesis
      using step.IH [of ?acc] step.hyps False acc
      by (subst ip_checksum_loop.simps) (simp add: ld add.assoc)
  qed
qed

text \<open>The checksum is the complement of a 16-bit value congruent to the sum of the other halfwords.\<close>

lemma ip_checksum_value:
  assumes "iph + 20 \<le> length p"
  defines "s \<equiv> \<Sum>j\<in>{0..<10} - {5}. unat (halfword p iph j)"
  shows "\<exists>c. ip_checksum p iph = Some c \<and>
    (\<exists>u. unat c = 65535 - u \<and> u < 65536 \<and> u mod 65535 = s mod 65535 \<and> u \<le> s)"
proof -
  obtain r where r: "ip_checksum_loop p iph 0 0 = Some r" "unat r = s" "unat r \<le> 10 * 65535"
    using ip_checksum_loop_sum [OF assms(1), of 0 0] by (auto simp: s_def)
  define t where "t = (r AND 0xffff) + drop_bit 16 r"
  define u where "u = (t AND 0xffff) + drop_bit 16 t"
  have uu: "unat u = (s mod 65536 + s div 65536) mod 65536 + (s mod 65536 + s div 65536) div 65536"
    by (simp only: u_def t_def unat_fold_step r(2))
  have u: "unat u < 65536" "unat u mod 65535 = s mod 65535" "unat u \<le> s"
    unfolding uu by (rule two_folds; use r(2,3) in simp)+
  have "unat (ucast (NOT u) :: u16) = unat (NOT u) mod 65536"
    by (simp add: unsigned_ucast_eq take_bit_eq_mod)
  also have "unat (NOT u) = 2 ^ 32 - 1 - unat u"
  proof -
    have "NOT u = -1 - u" by (simp add: not_eq_complement)
    moreover have "unat (-1 :: u32) = 2 ^ 32 - 1"
      by (simp add: unsigned_minus_1_eq_mask mask_eq_exp_minus_1)
    ultimately show ?thesis by (simp add: unat_sub)
  qed
  also have "(2 ^ 32 - 1 - unat u) mod 65536 = 65535 - unat u"
  proof -
    have "2 ^ 32 - 1 - unat u = (65535 - unat u) + 65535 * 65536" using u(1) by simp
    then show ?thesis by (simp only: mod_mult_self1) simp
  qed
  finally have "unat (ucast (NOT u) :: u16) = 65535 - unat u" .
  with u r(1) show ?thesis
    by (intro exI [of _ "ucast (NOT u)"]) (auto simp: ip_checksum_def Let_def t_def u_def)
qed

lemma halfword_wire: "(256 * unat (halfword p iph i)) mod 65535 = unat (wire16 p (iph + 2 * i)) mod 65535"
proof -
  let ?a = "unat (p ! (iph + 2 * i))" and ?b = "unat (p ! (iph + 2 * i + 1))"
  have "le16 (p ! (iph + 2 * i)) (p ! (iph + 2 * i + 1)) = be16 (p ! (iph + 2 * i + 1)) (p ! (iph + 2 * i))"
    by (simp add: le16_def be16_def ac_simps)
  then have eq: "256 * unat (halfword p iph i) = (?a * 256 + ?b) + 65535 * ?b"
    by (simp add: halfword_def unat_be16)
  show ?thesis unfolding eq wire16_def unat_be16 by (rule mod_mult_self2)
qed

lemma halfword_zero: "unat (halfword p iph i) = 0 \<longleftrightarrow> unat (wire16 p (iph + 2 * i)) = 0"
proof -
  have "le16 a b = be16 b a" for a b by (simp add: le16_def be16_def ac_simps)
  then show ?thesis by (auto simp: halfword_def wire16_def unat_be16)
qed

lemma sum_mod_cong:
  "finite A \<Longrightarrow> (\<And>i. i \<in> A \<Longrightarrow> f i mod m = g i mod m) \<Longrightarrow> sum f A mod m = sum g A mod (m :: nat)"
  by (induction A rule: finite_induct) (simp_all, metis mod_add_eq)

lemma ip_header_valid_iff:
  "ip_header_valid p iph \<longleftrightarrow>
     0 < (\<Sum>i<10. unat (halfword p iph i)) \<and> (\<Sum>i<10. unat (halfword p iph i)) mod 65535 = 0"
proof -
  let ?h = "\<Sum>i<10. unat (halfword p iph i)" and ?w = "\<Sum>i<10. unat (wire16 p (iph + 2 * i))"
  have "(256 * ?h) mod 65535 = ?w mod 65535"
    unfolding sum_distrib_left by (rule sum_mod_cong) (simp_all add: halfword_wire)
  moreover have "(256 * ?h) mod 65535 = 0 \<longleftrightarrow> ?h mod 65535 = 0"
  proof -
    have "coprime (65535 :: nat) 256" by (simp add: coprime_iff_gcd_eq_1 gcd_nat.simps)
    then show ?thesis by (simp only: mod_eq_0_iff_dvd) (simp add: coprime_dvd_mult_right_iff)
  qed
  moreover have "?h = 0 \<longleftrightarrow> ?w = 0"
    by (simp add: halfword_zero)
  moreover have "ones_fold ?w = 65535 \<longleftrightarrow> 0 < ?w \<and> ?w mod 65535 = 0"
    by (rule ones_fold_full_iff)
  ultimately show ?thesis
    unfolding ip_header_valid_def by (metis not_gr_zero)
qed

text \<open>
  The main result: with the value \<open>ip_checksum\<close> returns stored in the checksum field (offset 10 of
  the header), the receiver's check succeeds.
\<close>

lemma ip_checksum_valid:
  assumes "iph + 20 \<le> length p"
  shows "\<exists>c q. ip_checksum p iph = Some c \<and> st16 p (iph + 10) c = Some q \<and> ip_header_valid q iph"
proof -
  let ?s = "\<Sum>j\<in>{0..<10} - {5}. unat (halfword p iph j)"
  obtain c u where c: "ip_checksum p iph = Some c" and
    u: "unat c = 65535 - u" "u < 65536" "u mod 65535 = ?s mod 65535" "u \<le> ?s"
    using ip_checksum_value [OF assms] by blast
  define q where "q = patch p (iph + 10) [ucast c, ucast (drop_bit 8 c)]"
  have q: "st16 p (iph + 10) c = Some q"
    using assms by (simp add: st16_in q_def)
  have "halfword q iph 5 = c"
    using assms by (simp add: halfword_def q_def patch_nth le16_split)
  moreover have "halfword q iph j = halfword p iph j" if "j < 10" "j \<noteq> 5" for j
  proof -
    have "j \<le> 4 \<or> 6 \<le> j" using that by auto
    then show ?thesis using assms that(1) by (auto simp: halfword_def q_def patch_nth)
  qed
  moreover have "(\<Sum>i<10. unat (halfword q iph i)) =
      unat (halfword q iph 5) + (\<Sum>i\<in>{0..<10} - {5}. unat (halfword q iph i))"
    unfolding lessThan_atLeast0 by (rule sum.remove) auto
  ultimately have "(\<Sum>i<10. unat (halfword q iph i)) = unat c + ?s"
    by simp
  moreover have "(unat c + ?s) mod 65535 = 0"
  proof -
    have "(unat c + ?s) mod 65535 = ((65535 - u) + u) mod 65535"
      unfolding u(1) by (rule mod_add_cong [OF refl u(3) [symmetric]])
    also have "(65535 - u) + u = 65535" using u(2) by linarith
    finally show ?thesis by simp
  qed
  moreover have "0 < unat c + ?s"
    using u(1,2,4) by (cases "u = 65535") auto
  ultimately have "ip_header_valid q iph"
    unfolding ip_header_valid_iff by simp
  with c q show ?thesis by blast
qed

end
