(* ===== verification/Bpf_Maps.thy ===== *)
theory Bpf_Maps
  imports NetSum_Prelude
begin

text \<open>
  The BPF hash maps as the program sees them. The contents of a map are a partial function from
  keys to values: lookup applies it, delete removes a key, and a write through the pointer a lookup
  returned replaces the value at the key. What the program cannot know is whether the kernel has
  room for one more element; that decision is a parameter, \<open>room\<close>, which only the update of an
  absent key consults. \<open>room_up_to n\<close> is the behaviour documented for \<open>max_entries = n\<close>.
\<close>

type_synonym ('k, 'v) room = "('k \<rightharpoonup> 'v) \<Rightarrow> 'k \<Rightarrow> bool"

datatype update_flag = BPF_ANY | BPF_NOEXIST | BPF_EXIST

definition bpf_map_lookup_elem :: "('k \<rightharpoonup> 'v) \<Rightarrow> 'k \<Rightarrow> 'v option" where
  "bpf_map_lookup_elem m k = m k"

text \<open>The return codes are 0, \<open>-EEXIST\<close>, \<open>-ENOENT\<close> and \<open>-E2BIG\<close>.\<close>

definition bpf_map_update_elem ::
    "('k, 'v) room \<Rightarrow> ('k \<rightharpoonup> 'v) \<Rightarrow> 'k \<Rightarrow> 'v \<Rightarrow> update_flag \<Rightarrow> int \<times> ('k \<rightharpoonup> 'v)" where
  "bpf_map_update_elem room m k v flags =
     (case m k of
        Some _ \<Rightarrow> (if flags = BPF_NOEXIST then (-17, m) else (0, m(k \<mapsto> v)))
      | None \<Rightarrow> (if flags = BPF_EXIST then (-2, m)
                 else if room m k then (0, m(k \<mapsto> v)) else (-7, m)))"

definition bpf_map_delete_elem :: "('k \<rightharpoonup> 'v) \<Rightarrow> 'k \<Rightarrow> ('k \<rightharpoonup> 'v)" where
  "bpf_map_delete_elem m k = m(k := None)"

definition room_up_to :: "nat \<Rightarrow> ('k, 'v) room \<Rightarrow> bool" where
  "room_up_to n room \<longleftrightarrow> (\<forall>m k. finite (dom m) \<longrightarrow> (room m k \<longleftrightarrow> card (dom m) < n))"

lemma room_up_toD: "room_up_to n room \<Longrightarrow> finite (dom m) \<Longrightarrow> card (dom m) < n \<Longrightarrow> room m k"
  by (simp add: room_up_to_def)

lemma bpf_lookup [simp]: "bpf_map_lookup_elem m k = m k"
  by (simp add: bpf_map_lookup_elem_def)

lemma bpf_delete [simp]: "bpf_map_delete_elem m k = m(k := None)"
  by (simp add: bpf_map_delete_elem_def)

lemma bpf_update_absent [simp]:
  "m k = None \<Longrightarrow> flags \<noteq> BPF_EXIST \<Longrightarrow>
     bpf_map_update_elem room m k v flags = (if room m k then (0, m(k \<mapsto> v)) else (-7, m))"
  by (simp add: bpf_map_update_elem_def)

lemma bpf_update_present [simp]:
  "m k = Some w \<Longrightarrow> bpf_map_update_elem room m k v flags =
     (if flags = BPF_NOEXIST then (-17, m) else (0, m(k \<mapsto> v)))"
  by (simp add: bpf_map_update_elem_def)

text \<open>Counting the elements of a map with a given property, across insertion and removal.\<close>

definition count_keys :: "('k \<Rightarrow> bool) \<Rightarrow> ('k \<rightharpoonup> 'v) \<Rightarrow> nat" where
  "count_keys P m = card {k \<in> dom m. P k}"

lemma count_keys_insert:
  assumes "finite (dom m)" "m k = None"
  shows "count_keys P (m(k \<mapsto> v)) = count_keys P m + (if P k then 1 else 0)"
proof -
  have "{j \<in> dom (m(k \<mapsto> v)). P j} = (if P k then insert k {j \<in> dom m. P j} else {j \<in> dom m. P j})"
    by auto
  moreover have "k \<notin> dom m" using assms(2) by auto
  ultimately show ?thesis using assms(1) unfolding count_keys_def by (auto simp: card_insert_if)
qed

lemma count_keys_replace: "m k = Some w \<Longrightarrow> count_keys P (m(k \<mapsto> v)) = count_keys P m"
  unfolding count_keys_def by (rule arg_cong [where f = card]) auto

lemma count_keys_delete:
  assumes "finite (dom m)" "m k = Some v"
  shows "count_keys P m = count_keys P (m(k := None)) + (if P k then 1 else 0)"
proof -
  have "m = (m(k := None))(k \<mapsto> v)" using assms(2) by auto
  moreover have "finite (dom (m(k := None)))" using assms(1) by simp
  ultimately show ?thesis using count_keys_insert [of "m(k := None)" k P v] by (metis fun_upd_same)
qed

end
