(* ===== verification/Headers.thy ===== *)
theory Headers
  imports Wire
begin

text \<open>
  The headers around a gradient packet as the XDP program declares them (\<open>struct ethhdr\<close>, \<open>iphdr\<close> and \<open>udphdr\<close> of
  \<open>xdp_agg/xdp_agg.c\<close>), with their layout in the frame. The fields are as in memory: what is in network byte order stays so.
\<close>

section \<open>The headers\<close>

definition ETH_P_IP :: u16 where "ETH_P_IP = 0x0800"
definition IPPROTO_UDP :: u8 where "IPPROTO_UDP = 17"

record ethhdr =
  h_dest :: bytes
  h_source :: bytes
  h_proto :: u16

record iphdr =
  ihl_version :: u8
  ip_tos :: u8
  ip_tot_len :: u16
  ip_id :: u16
  ip_frag_off :: u16
  ip_ttl :: u8
  ip_protocol :: u8
  ip_check :: u16
  ip_saddr :: u32
  ip_daddr :: u32

record udphdr =
  udp_source :: u16
  udp_dest :: u16
  udp_len :: u16
  udp_check :: u16

section \<open>Their layout\<close>

definition arr_slice :: "'a list \<Rightarrow> nat \<Rightarrow> nat \<Rightarrow> 'a list option" where
  "arr_slice xs off n = (if off + n \<le> length xs then Some (take n (drop off xs)) else None)"

definition load_ethhdr :: "bytes \<Rightarrow> nat \<Rightarrow> ethhdr option" where
  "load_ethhdr p off = do {
     dst \<leftarrow> arr_slice p off 6;
     src \<leftarrow> arr_slice p (off + 6) 6;
     proto \<leftarrow> ld16 p (off + 12);
     Some \<lparr>h_dest = dst, h_source = src, h_proto = proto\<rparr> }"

definition load_iphdr :: "bytes \<Rightarrow> nat \<Rightarrow> iphdr option" where
  "load_iphdr p off = do {
     ihl \<leftarrow> arr_get p off;
     tos \<leftarrow> arr_get p (off + 1);
     tot_len \<leftarrow> ld16 p (off + 2);
     ident \<leftarrow> ld16 p (off + 4);
     frag_off \<leftarrow> ld16 p (off + 6);
     ttl \<leftarrow> arr_get p (off + 8);
     protocol \<leftarrow> arr_get p (off + 9);
     check \<leftarrow> ld16 p (off + 10);
     saddr \<leftarrow> ld32 p (off + 12);
     daddr \<leftarrow> ld32 p (off + 16);
     Some \<lparr>ihl_version = ihl, ip_tos = tos, ip_tot_len = tot_len, ip_id = ident, ip_frag_off = frag_off, ip_ttl = ttl,
       ip_protocol = protocol, ip_check = check, ip_saddr = saddr, ip_daddr = daddr\<rparr> }"

definition load_udphdr :: "bytes \<Rightarrow> nat \<Rightarrow> udphdr option" where
  "load_udphdr p off = do {
     source \<leftarrow> ld16 p off;
     dst \<leftarrow> ld16 p (off + 2);
     len \<leftarrow> ld16 p (off + 4);
     check \<leftarrow> ld16 p (off + 6);
     Some \<lparr>udp_source = source, udp_dest = dst, udp_len = len, udp_check = check\<rparr> }"

text \<open>A load succeeds when the header is there, and only then.\<close>

lemma load_ethhdr_in:
  "off + 14 \<le> length p \<Longrightarrow> load_ethhdr p off =
     Some \<lparr>h_dest = take 6 (drop off p), h_source = take 6 (drop (off + 6) p), h_proto = le16 (p ! (off + 12)) (p ! (off + 13))\<rparr>"
  by (simp add: load_ethhdr_def arr_slice_def ld16_in add.commute)

lemma load_iphdr_in:
  "off + 20 \<le> length p \<Longrightarrow> load_iphdr p off =
     Some \<lparr>ihl_version = p ! off, ip_tos = p ! (off + 1), ip_tot_len = le16 (p ! (off + 2)) (p ! (off + 3)),
       ip_id = le16 (p ! (off + 4)) (p ! (off + 5)), ip_frag_off = le16 (p ! (off + 6)) (p ! (off + 7)), ip_ttl = p ! (off + 8),
       ip_protocol = p ! (off + 9), ip_check = le16 (p ! (off + 10)) (p ! (off + 11)),
       ip_saddr = le32 (p ! (off + 12)) (p ! (off + 13)) (p ! (off + 14)) (p ! (off + 15)),
       ip_daddr = le32 (p ! (off + 16)) (p ! (off + 17)) (p ! (off + 18)) (p ! (off + 19))\<rparr>"
  by (simp add: load_iphdr_def ld16_in ld32_in arr_get_in add.commute numeral_3_eq_3)

lemma load_udphdr_in:
  "off + 8 \<le> length p \<Longrightarrow> load_udphdr p off =
     Some \<lparr>udp_source = le16 (p ! off) (p ! (off + 1)), udp_dest = le16 (p ! (off + 2)) (p ! (off + 3)),
       udp_len = le16 (p ! (off + 4)) (p ! (off + 5)), udp_check = le16 (p ! (off + 6)) (p ! (off + 7))\<rparr>"
  by (simp add: load_udphdr_def ld16_in add.commute numeral_3_eq_3)

lemmas load_in = load_ethhdr_in load_iphdr_in load_udphdr_in

end
