(* ===== verification/Xdp.thy ===== *)
theory Xdp
  imports Checksum Worker_Set Accumulate Bpf_Maps Headers
begin

text \<open>
  The kernel aggregator (\<open>xdp_agg/xdp_agg.c\<close>): its maps, their helpers and the XDP program
  \<open>netsum_xdp_aggregate\<close>, cut at the points where the source changes phase (parse, slot lookup or
  creation, the section under the spin lock, forwarding). One call handles one packet; the section
  under the lock is atomic.
\<close>

section \<open>Data\<close>

datatype xdp_action = XDP_ABORTED | XDP_DROP | XDP_PASS | XDP_TX | XDP_REDIRECT

record grad_slot =
  gs_sum :: "i32 list"
  gs_chunk_len :: u16
  gs_num_workers_expected :: u16
  gs_contributions_received :: u16
  gs_seen_worker :: bytes

definition zero_grad_slot :: grad_slot where
  "zero_grad_slot = \<lparr>gs_sum = replicate 64 0, gs_chunk_len = 0, gs_num_workers_expected = 0,
     gs_contributions_received = 0, gs_seen_worker = replicate 32 0\<rparr>"

record netsum_config =
  ps_mac :: bytes
  ps_ip :: u32   \<comment> \<open>as in memory: network byte order\<close>
  ps_port :: u16 \<comment> \<open>as in memory: network byte order\<close>
  max_slots_per_job :: u32

record job_quota_entry =
  concurrent_slots :: u32

abbreviation (input) STAT_DROPPED_NO_CONFIG :: u32 where "STAT_DROPPED_NO_CONFIG \<equiv> 0"
abbreviation (input) STAT_DROPPED_FAIRNESS_QUOTA :: u32 where "STAT_DROPPED_FAIRNESS_QUOTA \<equiv> 1"

record xdp_maps =
  slot_map :: "grad_slot_key \<rightharpoonup> grad_slot"
  config_map :: "u32 \<rightharpoonup> netsum_config"
  job_quota_map :: "u32 \<rightharpoonup> job_quota_entry"
  drop_stats :: "u32 \<rightharpoonup> u64"

text \<open>The kernel's allocation decisions for the three maps the program inserts into.\<close>

record kernel =
  slot_room :: "(grad_slot_key, grad_slot) room"
  quota_room :: "(u32, job_quota_entry) room"
  stats_room :: "(u32, u64) room"

definition xdp_empty :: "xdp_maps" where
  "xdp_empty = \<lparr>slot_map = Map.empty, config_map = Map.empty, job_quota_map = Map.empty, drop_stats = Map.empty\<rparr>"

section \<open>Map helpers\<close>

definition bump_stat :: "kernel \<Rightarrow> u32 \<Rightarrow> xdp_maps \<Rightarrow> xdp_maps" where
  "bump_stat K stat_key M =
     (case bpf_map_lookup_elem (drop_stats M) stat_key of
        Some cnt \<Rightarrow> M\<lparr>drop_stats := (drop_stats M)(stat_key \<mapsto> cnt + 1)\<rparr>
      | None \<Rightarrow> M\<lparr>drop_stats := snd (bpf_map_update_elem (stats_room K) (drop_stats M) stat_key 1 BPF_ANY)\<rparr>)"

definition add_slots :: "u32 \<Rightarrow> u32 \<Rightarrow> (u32 \<rightharpoonup> job_quota_entry) \<Rightarrow> (u32 \<rightharpoonup> job_quota_entry)" where
  "add_slots job n m =
     (case m job of
        Some jq \<Rightarrow> m(job \<mapsto> jq\<lparr>concurrent_slots := concurrent_slots jq + n\<rparr>)
      | None \<Rightarrow> m)"

definition job_quota_increment :: "kernel \<Rightarrow> u32 \<Rightarrow> xdp_maps \<Rightarrow> xdp_maps" where
  "job_quota_increment K job M =
     (case bpf_map_lookup_elem (job_quota_map M) job of
        Some jq \<Rightarrow> M\<lparr>job_quota_map := add_slots job 1 (job_quota_map M)\<rparr>
      | None \<Rightarrow>
          let (rc, m) = bpf_map_update_elem (quota_room K) (job_quota_map M) job \<lparr>concurrent_slots = 1\<rparr> BPF_NOEXIST
          in if rc \<noteq> 0 then M\<lparr>job_quota_map := add_slots job 1 m\<rparr>
             else M\<lparr>job_quota_map := m\<rparr>)"

definition job_quota_decrement :: "u32 \<Rightarrow> xdp_maps \<Rightarrow> xdp_maps" where
  "job_quota_decrement job M =
     (case bpf_map_lookup_elem (job_quota_map M) job of
        Some jq \<Rightarrow> (if concurrent_slots jq > 0 then M\<lparr>job_quota_map := add_slots job (-1) (job_quota_map M)\<rparr> else M)
      | None \<Rightarrow> M)"

section \<open>Parse\<close>

text \<open>Offsets of the headers and of the fields the program touches.\<close>

abbreviation (input) eth :: nat where "eth \<equiv> 0"
abbreviation (input) iph :: nat where "iph \<equiv> 14"
abbreviation (input) udp :: nat where "udp \<equiv> 34"
abbreviation (input) hdr :: nat where "hdr \<equiv> 42"
abbreviation (input) vals :: nat where "vals \<equiv> 62"

record xdp_parsed =
  xp_key :: grad_slot_key
  xp_chunk_len :: u16
  xp_worker_id :: u16

text \<open>
  Lines 362 to 394: every check before the slot lookup, each failed one an action. A header is looked at, as the structure it
  is, only after the check that it ends inside the packet.
\<close>

definition xdp_parse :: "bytes \<Rightarrow> (xdp_action + xdp_parsed) option" where
  "xdp_parse p =
     (if eth + 14 > length p then Some (Inl XDP_PASS) else do {
      e \<leftarrow> load_ethhdr p eth;
      if netsum_bpf_ntohs (h_proto e) \<noteq> ETH_P_IP then Some (Inl XDP_PASS)
      else if iph + 20 > length p then Some (Inl XDP_PASS) else do {
      i \<leftarrow> load_iphdr p iph;
      if ihl_version i AND 0x0f \<noteq> 5 then Some (Inl XDP_PASS)
      else if ip_protocol i \<noteq> IPPROTO_UDP then Some (Inl XDP_PASS)
      else if udp + 8 > length p then Some (Inl XDP_PASS) else do {
      u \<leftarrow> load_udphdr p udp;
      if netsum_bpf_ntohs (udp_dest u) \<noteq> NETSUM_PORT then Some (Inl XDP_PASS)
      else if hdr + 20 > length p then Some (Inl XDP_PASS) else do {
      chunk_len \<leftarrow> map_option netsum_bpf_ntohs (ld16 p (hdr + at_chunk_len));
      if unat chunk_len > NETSUM_MAX_CHUNK_LEN then Some (Inl XDP_DROP)
      else if vals + 4 * unat chunk_len > length p then Some (Inl XDP_DROP) else do {
      worker_id \<leftarrow> map_option netsum_bpf_ntohs (ld16 p (hdr + at_worker_id));
      if unat worker_id \<ge> MAX_TRACKED_WORKERS_BITMAP_BYTES * 8 then Some (Inl XDP_DROP) else do {
      job_id \<leftarrow> map_option netsum_bpf_ntohl (ld32 p (hdr + at_job_id));
      round_id \<leftarrow> map_option netsum_bpf_ntohl (ld32 p (hdr + at_round));
      chunk_id \<leftarrow> map_option netsum_bpf_ntohl (ld32 p (hdr + at_chunk_id));
      Some (Inr \<lparr>xp_key = \<lparr>k_job_id = job_id, k_round = round_id, k_chunk_id = chunk_id\<rparr>,
                 xp_chunk_len = chunk_len, xp_worker_id = worker_id\<rparr>) }}}}}})"

section \<open>Slot lookup or creation\<close>

text \<open>Lines 396 to 464: \<open>None\<close> in the result is \<open>return XDP_DROP\<close>.\<close>

definition xdp_slot_for :: "kernel \<Rightarrow> bytes \<Rightarrow> xdp_parsed \<Rightarrow> xdp_maps \<Rightarrow> (grad_slot option \<times> xdp_maps) option" where
  "xdp_slot_for K p x M =
     (case bpf_map_lookup_elem (slot_map M) (xp_key x) of
        Some slot \<Rightarrow> Some (Some slot, M)
      | None \<Rightarrow> do {
          num_workers_hdr \<leftarrow> map_option netsum_bpf_ntohs (ld16 p (hdr + at_num_workers));
          if num_workers_hdr = 0 \<or> unat num_workers_hdr > MAX_TRACKED_WORKERS_BITMAP_BYTES * 8 then Some (None, M)
          else do {
            let precheck_cfg = bpf_map_lookup_elem (config_map M) 0;
            let max_slots = (case precheck_cfg of Some cfg \<Rightarrow> max_slots_per_job cfg | None \<Rightarrow> 0);
            let over_quota = (max_slots > 0 \<and>
              (case bpf_map_lookup_elem (job_quota_map M) (k_job_id (xp_key x)) of
                 Some jq \<Rightarrow> concurrent_slots jq \<ge> max_slots
               | None \<Rightarrow> False));
            if over_quota then Some (None, bump_stat K STAT_DROPPED_FAIRNESS_QUOTA M)
            else do {
              let fresh = zero_grad_slot\<lparr>gs_chunk_len := xp_chunk_len x, gs_num_workers_expected := num_workers_hdr\<rparr>;
              let (create_rc, m) = bpf_map_update_elem (slot_room K) (slot_map M) (xp_key x) fresh BPF_NOEXIST;
              let M = M\<lparr>slot_map := m\<rparr>;
              case bpf_map_lookup_elem (slot_map M) (xp_key x) of
                None \<Rightarrow> Some (None, M)
              | Some slot \<Rightarrow>
                  Some (Some slot, if create_rc = 0 then job_quota_increment K (k_job_id (xp_key x)) M else M) } } })"

section \<open>The section under the spin lock\<close>

text \<open>
  Lines 478 to 551: the slot and the packet afterwards, \<open>is_complete\<close> and \<open>final_chunk_len\<close>; \<open>None\<close>
  is the \<open>chunk_len\<close> mismatch, which returns \<open>XDP_DROP\<close>.
\<close>

definition xdp_locked ::
    "bytes \<Rightarrow> xdp_parsed \<Rightarrow> grad_slot \<Rightarrow> ((grad_slot \<times> bytes \<times> bool \<times> u16) option) option" where
  "xdp_locked p x slot =
     (if gs_chunk_len slot \<noteq> xp_chunk_len x then Some None
      else do {
        seen \<leftarrow> bitmap_test (gs_seen_worker slot) (unat (xp_worker_id x));
        if \<not> seen then do {
          seen_worker \<leftarrow> bitmap_mark (gs_seen_worker slot) (unat (xp_worker_id x));
          acc \<leftarrow> xdp_accumulate p vals (unat (xp_chunk_len x)) 0 (gs_sum slot);
          let slot = slot\<lparr>gs_seen_worker := seen_worker, gs_sum := acc,
                gs_contributions_received := gs_contributions_received slot + 1\<rparr>;
          if gs_contributions_received slot = gs_num_workers_expected slot then do {
            let final_chunk_len = gs_chunk_len slot;
            p \<leftarrow> xdp_write_back p vals (unat final_chunk_len) 0 (gs_sum slot);
            Some (Some (slot, p, True, final_chunk_len)) }
          else Some (Some (slot, p, False, 0)) }
        else Some (Some (slot, p, False, 0)) })"

section \<open>Forwarding\<close>

text \<open>The six-byte MAC copy.\<close>

fun copy_mac :: "bytes \<Rightarrow> nat \<Rightarrow> bytes \<Rightarrow> nat \<Rightarrow> bytes option" where
  "copy_mac p off mac 0 = Some p"
| "copy_mac p off mac (Suc n) = do {
     p \<leftarrow> copy_mac p off mac n;
     b \<leftarrow> arr_get mac n;
     arr_set p (off + n) b }"

text \<open>Lines 582 to 598: the packet rewritten for the parameter server.\<close>

definition xdp_rewrite :: "netsum_config \<Rightarrow> u16 \<Rightarrow> bytes \<Rightarrow> bytes option" where
  "xdp_rewrite cfg final_chunk_len p = do {
     p \<leftarrow> st16 p (hdr + at_worker_id) (netsum_bpf_htons 0);
     p \<leftarrow> st16 p (hdr + at_num_workers) (netsum_bpf_htons 1);
     p \<leftarrow> st16 p (hdr + at_chunk_len) (netsum_bpf_htons final_chunk_len);
     p \<leftarrow> copy_mac p eth (ps_mac cfg) 6;
     p \<leftarrow> st32 p (iph + 16) (ps_ip cfg);
     p \<leftarrow> st16 p (udp + 2) (ps_port cfg);
     p \<leftarrow> st16 p (udp + 6) 0;
     p \<leftarrow> st16 p (iph + 10) 0;
     check \<leftarrow> ip_checksum p iph;
     st16 p (iph + 10) check }"

text \<open>Lines 553 to 600: what follows the unlock.\<close>

definition xdp_finish ::
    "kernel \<Rightarrow> grad_slot_key \<Rightarrow> bool \<Rightarrow> u16 \<Rightarrow> bytes \<Rightarrow> xdp_maps \<Rightarrow> (xdp_action \<times> bytes \<times> xdp_maps) option" where
  "xdp_finish K key is_complete final_chunk_len p M =
     (if \<not> is_complete then Some (XDP_DROP, p, M)
      else case bpf_map_lookup_elem (config_map M) 0 of
        None \<Rightarrow>
          let M = M\<lparr>slot_map := bpf_map_delete_elem (slot_map M) key\<rparr>;
              M = job_quota_decrement (k_job_id key) M
          in Some (XDP_DROP, p, bump_stat K STAT_DROPPED_NO_CONFIG M)
      | Some cfg \<Rightarrow> do {
          let M = M\<lparr>slot_map := bpf_map_delete_elem (slot_map M) key\<rparr>;
          let M = job_quota_decrement (k_job_id key) M;
          p \<leftarrow> xdp_rewrite cfg final_chunk_len p;
          Some (XDP_TX, p, M) })"

section \<open>The program\<close>

definition netsum_xdp_aggregate ::
    "kernel \<Rightarrow> xdp_maps \<Rightarrow> bytes \<Rightarrow> (xdp_action \<times> bytes \<times> xdp_maps) option" where
  "netsum_xdp_aggregate K M p = do {
     parsed \<leftarrow> xdp_parse p;
     case parsed of
       Inl action \<Rightarrow> Some (action, p, M)
     | Inr x \<Rightarrow> do {
         (found, M) \<leftarrow> xdp_slot_for K p x M;
         case found of
           None \<Rightarrow> Some (XDP_DROP, p, M)
         | Some slot \<Rightarrow> do {
             unlocked \<leftarrow> xdp_locked p x slot;
             case unlocked of
               None \<Rightarrow> Some (XDP_DROP, p, M)
             | Some (slot, p, is_complete, final_chunk_len) \<Rightarrow>
                 xdp_finish K (xp_key x) is_complete final_chunk_len p
                   (M\<lparr>slot_map := (slot_map M)(xp_key x \<mapsto> slot)\<rparr>) } } }"

text \<open>A sequence of packets through the program, with the action and the packet each leaves.\<close>

fun xdp_run :: "kernel \<Rightarrow> xdp_maps \<Rightarrow> bytes list \<Rightarrow> ((xdp_action \<times> bytes) list \<times> xdp_maps) option" where
  "xdp_run K M [] = Some ([], M)"
| "xdp_run K M (p # ps) = do {
     (action, q, M) \<leftarrow> netsum_xdp_aggregate K M p;
     (outs, M) \<leftarrow> xdp_run K M ps;
     Some ((action, q) # outs, M) }"

end
