(* ===== verification/Xdp_Steps.thy ===== *)
theory Xdp_Steps
  imports Xdp Contribution
begin

text \<open>
  What each phase of \<open>netsum_xdp_aggregate\<close> does, in terms of the bytes on the wire: the parse as a
  total decision, the slot lookup, the locked section and the rewrite case by case. The later
  theories use these equations and never unfold the program again.
\<close>

section \<open>Parse\<close>

text \<open>An aggregation packet, and one whose header is acceptable.\<close>

definition xdp_match :: "bytes \<Rightarrow> bool" where
  "xdp_match p \<longleftrightarrow> 62 \<le> length p \<and> wire16 p 12 = 0x0800 \<and> p ! 14 AND 0x0f = 5 \<and> p ! 23 = 17 \<and>
     wire16 p 36 = NETSUM_PORT"

definition xdp_valid :: "bytes \<Rightarrow> bool" where
  "xdp_valid p \<longleftrightarrow> unat (wire16 p 58) \<le> 64 \<and> 62 + 4 * unat (wire16 p 58) \<le> length p \<and> unat (wire16 p 54) < 256"

abbreviation xdp_hdr :: "bytes \<Rightarrow> grad_hdr" where "xdp_hdr p \<equiv> wire_hdr p 42"

definition parsed_of :: "bytes \<Rightarrow> xdp_parsed" where
  "parsed_of p = \<lparr>xp_key = key_of (xdp_hdr p), xp_chunk_len = gh_chunk_len (xdp_hdr p),
     xp_worker_id = gh_worker_id (xdp_hdr p)\<rparr>"

lemma xdp_parse_eq:
  "xdp_parse p = Some
     (if \<not> xdp_match p then Inl XDP_PASS
      else if \<not> xdp_valid p then Inl XDP_DROP
      else Inr (parsed_of p))"
proof (cases "62 \<le> length p")
  case True
  then show ?thesis
    by (simp add: xdp_parse_def xdp_match_def xdp_valid_def parsed_of_def key_of_def wire_load load_in wire16_def bpf16.n2h_le16
        ETH_P_IP_def IPPROTO_UDP_def proto_consts MAX_TRACKED_WORKERS_BITMAP_BYTES_def not_less not_le)
next
  case False
  then show ?thesis
    by (simp add: xdp_parse_def xdp_match_def load_in not_less not_le cong: if_cong)
qed

lemma xdp_parse_ok: "xdp_match p \<Longrightarrow> xdp_valid p \<Longrightarrow> xdp_parse p = Some (Inr (parsed_of p))"
  by (simp add: xdp_parse_eq)

section \<open>Slot lookup or creation\<close>

definition over_quota :: "xdp_maps \<Rightarrow> u32 \<Rightarrow> bool" where
  "over_quota M job \<longleftrightarrow>
     (\<exists>cfg jq. config_map M 0 = Some cfg \<and> job_quota_map M job = Some jq \<and>
        0 < max_slots_per_job cfg \<and> max_slots_per_job cfg \<le> concurrent_slots jq)"

definition workers_ok :: "u16 \<Rightarrow> bool" where
  "workers_ok n \<longleftrightarrow> 0 < unat n \<and> unat n \<le> 256"

definition fresh_slot :: "bytes \<Rightarrow> grad_slot" where
  "fresh_slot p = zero_grad_slot
     \<lparr>gs_chunk_len := gh_chunk_len (xdp_hdr p), gs_num_workers_expected := gh_num_workers (xdp_hdr p)\<rparr>"

text \<open>The maps after a slot was created for the packet's key.\<close>

definition created :: "kernel \<Rightarrow> bytes \<Rightarrow> xdp_maps \<Rightarrow> xdp_maps" where
  "created K p M = job_quota_increment K (gh_job_id (xdp_hdr p))
     (M\<lparr>slot_map := (slot_map M)(key_of (xdp_hdr p) \<mapsto> fresh_slot p)\<rparr>)"

lemma xdp_slot_for_cases:
  assumes "xdp_match p"
  obtains (found) s where "slot_map M (key_of (xdp_hdr p)) = Some s"
      "xdp_slot_for K p (parsed_of p) M = Some (Some s, M)"
    | (workers) "slot_map M (key_of (xdp_hdr p)) = None" "\<not> workers_ok (gh_num_workers (xdp_hdr p))"
      "xdp_slot_for K p (parsed_of p) M = Some (None, M)"
    | (quota) "slot_map M (key_of (xdp_hdr p)) = None" "workers_ok (gh_num_workers (xdp_hdr p))"
      "over_quota M (gh_job_id (xdp_hdr p))"
      "xdp_slot_for K p (parsed_of p) M = Some (None, bump_stat K STAT_DROPPED_FAIRNESS_QUOTA M)"
    | (full) "slot_map M (key_of (xdp_hdr p)) = None" "workers_ok (gh_num_workers (xdp_hdr p))"
      "\<not> over_quota M (gh_job_id (xdp_hdr p))" "\<not> slot_room K (slot_map M) (key_of (xdp_hdr p))"
      "xdp_slot_for K p (parsed_of p) M = Some (None, M)"
    | (created) "slot_map M (key_of (xdp_hdr p)) = None" "workers_ok (gh_num_workers (xdp_hdr p))"
      "\<not> over_quota M (gh_job_id (xdp_hdr p))" "slot_room K (slot_map M) (key_of (xdp_hdr p))"
      "xdp_slot_for K p (parsed_of p) M = Some (Some (fresh_slot p), created K p M)"
proof -
  have ld: "map_option netsum_bpf_ntohs (ld16 p 56) = Some (wire16 p 56)"
    using assms by (simp add: xdp_match_def wire_load)
  have k: "xp_key (parsed_of p) = key_of (xdp_hdr p)" "k_job_id (key_of (xdp_hdr p)) = gh_job_id (xdp_hdr p)"
    by (simp_all add: parsed_of_def key_of_def)
  have w: "(n = 0 \<or> MAX_TRACKED_WORKERS_BITMAP_BYTES * 8 < unat n) \<longleftrightarrow> \<not> workers_ok n" for n
    by (auto simp: workers_ok_def MAX_TRACKED_WORKERS_BITMAP_BYTES_def unat_gt_0)
  have q: "((case config_map M 0 of Some cfg \<Rightarrow> max_slots_per_job cfg | None \<Rightarrow> 0) > 0 \<and>
      (case job_quota_map M j of Some jq \<Rightarrow> concurrent_slots jq \<ge>
         (case config_map M 0 of Some cfg \<Rightarrow> max_slots_per_job cfg | None \<Rightarrow> 0) | None \<Rightarrow> False)) \<longleftrightarrow>
      over_quota M j" for j
    by (auto simp: over_quota_def split: option.splits)
  note d = xdp_slot_for_def ld k Let_def w q
  show ?thesis
  proof (cases "slot_map M (key_of (xdp_hdr p))")
    case (Some s)
    then show ?thesis by (intro found [OF Some]) (simp add: d)
  next
    case None
    show ?thesis
    proof (cases "workers_ok (gh_num_workers (xdp_hdr p))")
      case False
      then show ?thesis by (intro workers [OF None]) (simp_all add: d None)
    next
      case W: True
      show ?thesis
      proof (cases "over_quota M (gh_job_id (xdp_hdr p))")
        case True
        then show ?thesis using W by (intro quota [OF None]) (simp_all add: d None)
      next
        case Q: False
        show ?thesis
        proof (cases "slot_room K (slot_map M) (key_of (xdp_hdr p))")
          case True
          with W Q show ?thesis
            by (intro created [OF None]) (simp_all add: d None fresh_slot_def created_def parsed_of_def)
        next
          case False
          with W Q show ?thesis by (intro full [OF None]) (simp_all add: d None)
        qed
      qed
    qed
  qed
qed

section \<open>The section under the lock\<close>

definition gs_arrays_ok :: "grad_slot \<Rightarrow> bool" where
  "gs_arrays_ok s \<longleftrightarrow> length (gs_sum s) = 64 \<and> length (gs_seen_worker s) = 32"

abbreviation gs_workers :: "grad_slot \<Rightarrow> nat set" where
  "gs_workers s \<equiv> {w. bitmap_mem (gs_seen_worker s) w}"

definition xdp_values :: "bytes \<Rightarrow> i32 list" where
  "xdp_values p = wire_values p 62 (unat (gh_chunk_len (xdp_hdr p)))"

lemma length_xdp_values [simp]: "length (xdp_values p) = unat (wire16 p 58)"
  by (simp add: xdp_values_def)

text \<open>The slot after a packet was added to it.\<close>

definition added :: "bytes \<Rightarrow> grad_slot \<Rightarrow> grad_slot \<Rightarrow> bool" where
  "added p s s' \<longleftrightarrow> gs_arrays_ok s' \<and> gs_sum s' = add_values (gs_sum s) (xdp_values p) \<and>
     gs_workers s' = insert (unat (gh_worker_id (xdp_hdr p))) (gs_workers s) \<and>
     gs_contributions_received s' = gs_contributions_received s + 1 \<and>
     gs_num_workers_expected s' = gs_num_workers_expected s \<and> gs_chunk_len s' = gs_chunk_len s"

lemma xdp_locked_cases:
  assumes p: "xdp_match p" "xdp_valid p" and s: "gs_arrays_ok s"
  obtains (mismatch) "gs_chunk_len s \<noteq> gh_chunk_len (xdp_hdr p)" "xdp_locked p (parsed_of p) s = Some None"
    | (dup) "gs_chunk_len s = gh_chunk_len (xdp_hdr p)" "unat (gh_worker_id (xdp_hdr p)) \<in> gs_workers s"
      "xdp_locked p (parsed_of p) s = Some (Some (s, p, False, 0))"
    | (absorbed) s' where "gs_chunk_len s = gh_chunk_len (xdp_hdr p)" "unat (gh_worker_id (xdp_hdr p)) \<notin> gs_workers s"
      "added p s s'" "gs_contributions_received s' \<noteq> gs_num_workers_expected s'"
      "xdp_locked p (parsed_of p) s = Some (Some (s', p, False, 0))"
    | (complete) s' where "gs_chunk_len s = gh_chunk_len (xdp_hdr p)" "unat (gh_worker_id (xdp_hdr p)) \<notin> gs_workers s"
      "added p s s'" "gs_contributions_received s' = gs_num_workers_expected s'"
      "xdp_locked p (parsed_of p) s = Some (Some (s',
         patch p 62 (encode_values (take (unat (gs_chunk_len s)) (gs_sum s'))), True, gs_chunk_len s))"
proof -
  let ?w = "unat (wire16 p 54)"
  have w: "?w < 256" "length (gs_seen_worker s) = 32" "length (gs_sum s) = 64"
    and len: "unat (wire16 p 58) \<le> 64" "62 + 4 * unat (wire16 p 58) \<le> length p"
    using p s by (simp_all add: xdp_valid_def gs_arrays_ok_def)
  have x: "xp_chunk_len (parsed_of p) = wire16 p 58" "xp_worker_id (parsed_of p) = wire16 p 54"
    by (simp_all add: parsed_of_def)
  have t: "bitmap_test (gs_seen_worker s) ?w = Some (bitmap_mem (gs_seen_worker s) ?w)"
    using w by (intro bitmap.test)
  obtain b where b: "bitmap_mark (gs_seen_worker s) ?w = Some b" "length b = 32"
    "{v. bitmap_mem b v} = insert ?w (gs_workers s)"
    using bitmap.mark_obtain [of "gs_seen_worker s" ?w] w by auto
  have acc: "xdp_accumulate p 62 (unat (wire16 p 58)) 0 (gs_sum s) = Some (add_values (gs_sum s) (xdp_values p))"
    using len w by (simp add: xdp_accumulate_eq xdp_values_def)
  define s' where "s' = s\<lparr>gs_seen_worker := b, gs_sum := add_values (gs_sum s) (xdp_values p),
      gs_contributions_received := gs_contributions_received s + 1\<rparr>"
  have a: "added p s s'" using b w by (simp add: added_def s'_def gs_arrays_ok_def)
  show ?thesis
  proof (cases "gs_chunk_len s = wire16 p 58")
    case False
    then show ?thesis by (intro mismatch) (simp_all add: xdp_locked_def x)
  next
    case len_eq: True
    show ?thesis
    proof (cases "bitmap_mem (gs_seen_worker s) ?w")
      case True
      then show ?thesis using len_eq by (intro dup) (simp_all add: xdp_locked_def x t)
    next
      case False
      show ?thesis
      proof (cases "gs_contributions_received s' = gs_num_workers_expected s'")
        case True
        have "xdp_write_back p 62 (unat (wire16 p 58)) 0 (gs_sum s') =
            Some (patch p 62 (encode_values (take (unat (wire16 p 58)) (gs_sum s'))))"
          using len w by (intro xdp_write_back_eq) (simp_all add: s'_def)
        with True False len_eq show ?thesis
          by (intro complete [OF _ _ a]) (simp_all add: xdp_locked_def x t b acc s'_def Let_def)
      next
        case incomplete: False
        with False len_eq show ?thesis
          by (intro absorbed [OF _ _ a]) (simp_all add: xdp_locked_def x t b acc s'_def)
      qed
    qed
  qed
qed

section \<open>Forwarding\<close>

lemma copy_mac_eq [safe_access]:
  assumes "n \<le> length mac" "off + n \<le> length p"
  shows "copy_mac p off mac n = Some (patch p off (take n mac))"
  using assms
proof (induction n)
  case (Suc n)
  have "patch p off (take (Suc n) mac) = (patch p off (take n mac))[off + n := mac ! n]"
    using Suc.prems
    by (intro list_eq_patch [symmetric]) (auto simp: nth_list_update patch_nth take_Suc_conv_app_nth nth_append min_def)
  with Suc show ?case by (simp add: safe_access)
qed simp

text \<open>
  What a forwarded packet \<open>q\<close> is, given the packet \<open>p\<close> it was made from, the configuration and the
  values: the values and every rewritten field are in place, the header checksum is one a receiver
  accepts, and no other byte differs.
\<close>

definition rewritten_bytes :: "nat \<Rightarrow> nat set" where
  "rewritten_bytes n = {0..<6} \<union> {24..<26} \<union> {30..<34} \<union> {36..<38} \<union> {40..<42} \<union> {54..<60} \<union> {62..<62 + 4 * n}"

definition forwarded :: "netsum_config \<Rightarrow> bytes \<Rightarrow> i32 list \<Rightarrow> bytes \<Rightarrow> bool" where
  "forwarded cfg p vs q \<longleftrightarrow>
     length q = length p \<and>
     take 6 q = ps_mac cfg \<and> ld32 q 30 = Some (ps_ip cfg) \<and> ld16 q 36 = Some (ps_port cfg) \<and>
     wire16 q 40 = 0 \<and> ip_header_valid q 14 \<and>
     xdp_hdr q = (xdp_hdr p)\<lparr>gh_worker_id := 0, gh_num_workers := 1, gh_chunk_len := word_of_nat (length vs)\<rparr> \<and>
     wire_values q 62 (length vs) = vs \<and>
     (\<forall>i<length p. i \<notin> rewritten_bytes (length vs) \<longrightarrow> q ! i = p ! i)"

lemma wire_values_patch:
  assumes "off + 4 * length vs \<le> length p"
  shows "wire_values (patch p off (encode_values vs)) off (length vs) = vs"
proof (rule nth_equalityI)
  fix i assume i: "i < length (wire_values (patch p off (encode_values vs)) off (length vs))"
  then have "wire_values (patch p off (encode_values vs)) off (length vs) ! i =
      wire32 (take off p @ encode_values vs @ drop (off + 4 * length vs) p) (length (take off p) + 4 * i)"
    using assms by (simp add: patch_def)
  also have "\<dots> = vs ! i"
    unfolding wire32_shift using i by (simp add: wire32_append wire32_encode)
  finally show "wire_values (patch p off (encode_values vs)) off (length vs) ! i = vs ! i" .
qed simp

text \<open>The bytes before the values, after every store but that of the checksum.\<close>

definition retargeted :: "netsum_config \<Rightarrow> u16 \<Rightarrow> bytes \<Rightarrow> bytes" where
  "retargeted cfg n p =
     patch (patch (patch (patch (patch (patch (patch (patch p 54 (be16_bytes 0)) 56 (be16_bytes 1)) 58 (be16_bytes n))
       0 (ps_mac cfg)) 30 ([ucast (ps_ip cfg), ucast (drop_bit 8 (ps_ip cfg)), ucast (drop_bit 16 (ps_ip cfg)), ucast (drop_bit 24 (ps_ip cfg))])) 36 [ucast (ps_port cfg), ucast (drop_bit 8 (ps_port cfg))])
       40 [0, 0]) 24 [0, 0]"

lemma xdp_rewrite_eq:
  assumes "62 \<le> length p" "length (ps_mac cfg) = 6" "ip_checksum (retargeted cfg n p) 14 = Some c"
  shows "xdp_rewrite cfg n p = st16 (retargeted cfg n p) 24 c"
proof -
  have b: "[ucast (netsum_bpf_htons v), ucast (drop_bit 8 (netsum_bpf_htons v))] = be16_bytes v" for v
    by (simp add: bpf16.h2n_eq bytes_le16 be16_bytes_def)
  show ?thesis
    using assms(1,2) assms(3) [unfolded retargeted_def]
    by (simp add: xdp_rewrite_def retargeted_def copy_mac_eq st16_in st32_in b)
qed

lemma length_retargeted [simp]:
  "62 \<le> length p \<Longrightarrow> length (ps_mac cfg) = 6 \<Longrightarrow> length (retargeted cfg n p) = length p"
  by (simp add: retargeted_def)

lemma retargeted_nth:
  assumes "62 \<le> length p" "length (ps_mac cfg) = 6" "i < length p"
  shows "retargeted cfg n p ! i =
    (if 24 \<le> i \<and> i < 26 then [0, 0] ! (i - 24)
     else if 40 \<le> i \<and> i < 42 then [0, 0] ! (i - 40)
     else if 36 \<le> i \<and> i < 38 then [ucast (ps_port cfg), ucast (drop_bit 8 (ps_port cfg))] ! (i - 36)
     else if 30 \<le> i \<and> i < 34 then [ucast (ps_ip cfg), ucast (drop_bit 8 (ps_ip cfg)),
       ucast (drop_bit 16 (ps_ip cfg)), ucast (drop_bit 24 (ps_ip cfg))] ! (i - 30)
     else if i < 6 then ps_mac cfg ! i
     else if 58 \<le> i \<and> i < 60 then be16_bytes n ! (i - 58)
     else if 56 \<le> i \<and> i < 58 then be16_bytes 1 ! (i - 56)
     else if 54 \<le> i \<and> i < 56 then be16_bytes 0 ! (i - 54)
     else p ! i)"
  unfolding retargeted_def using assms
  by (simp add: patch_nth split del: if_split cong: if_cong)

lemma xdp_rewrite_forwarded:
  assumes len: "62 + 4 * length vs \<le> length p" "length vs = unat n" and mac: "length (ps_mac cfg) = 6"
  shows "\<exists>q. xdp_rewrite cfg n (patch p 62 (encode_values vs)) = Some q \<and> forwarded cfg p vs q"
proof -
  let ?p = "patch p 62 (encode_values vs)"
  let ?r = "retargeted cfg n ?p"
  have lp: "length ?p = length p" "62 \<le> length ?p" using len by simp_all
  have lr: "length ?r = length p" using lp mac by simp
  obtain c q where q: "ip_checksum ?r 14 = Some c" "st16 ?r (14 + 10) c = Some q" "ip_header_valid q 14"
    using ip_checksum_valid [of 14 ?r] lp lr by auto
  then have "xdp_rewrite cfg n ?p = Some q" using lp mac by (simp add: xdp_rewrite_eq)
  moreover have "forwarded cfg p vs q"
  proof -
    have qp: "q = patch ?r 24 [ucast c, ucast (drop_bit 8 c)]" using q(2) lp lr by (simp add: st16_in)
    then have lq: "length q = length p" using lp lr by simp
    have qn: "q ! i = (if i = 24 then ucast c else if i = 25 then ucast (drop_bit 8 c) else ?r ! i)"
      if "i < length p" for i
      using that lp lr unfolding qp by (auto simp: patch_nth nth_Cons')
    note rn = retargeted_nth [OF lp(2) mac, unfolded lp(1)]
    have pn: "?p ! i = p ! i" if "i < 62 \<or> 62 + 4 * length vs \<le> i" "i < length p" for i
      using that len by (auto simp: patch_nth)
    have "take 6 q = ps_mac cfg"
      using lq lp mac by (intro nth_equalityI) (simp_all add: qn rn)
    moreover have "ld32 q 30 = Some (ps_ip cfg)" "ld16 q 36 = Some (ps_port cfg)"
      using lq lp by (simp_all add: ld32_in ld16_in qn rn le32_split le16_split)
    moreover have "wire16 q 40 = 0"
      using lq lp by (simp add: wire16_def qn rn be16_def)
    moreover have "xdp_hdr q = (xdp_hdr p)\<lparr>gh_worker_id := 0, gh_num_workers := 1, gh_chunk_len := word_of_nat (length vs)\<rparr>"
      using lq lp len(2) by (simp add: wire_hdr_def wire16_def wire32_def qn rn pn be16_bytes_def be16_split) (simp add: be16_def)
    moreover have "wire_values q 62 (length vs) = vs"
    proof -
      have "wire_values q 62 (length vs) = wire_values ?p 62 (length vs)"
        using len lp by (simp add: wire_values_def wire32_def qn rn)
      also have "\<dots> = vs" using len(1) by (rule wire_values_patch)
      finally show ?thesis .
    qed
    moreover have "q ! i = p ! i" if "i < length p" "i \<notin> rewritten_bytes (length vs)" for i
    proof -
      have "\<not> i < 6" "\<not> (24 \<le> i \<and> i < 26)" "i \<noteq> 24" "i \<noteq> 25" "\<not> (40 \<le> i \<and> i < 42)" "\<not> (30 \<le> i \<and> i < 34)" "\<not> (36 \<le> i \<and> i < 38)"
        "\<not> (54 \<le> i \<and> i < 56)" "\<not> (56 \<le> i \<and> i < 58)" "\<not> (58 \<le> i \<and> i < 60)"
        "i < 62 \<or> 62 + 4 * length vs \<le> i"
        using that(2) by (simp_all add: rewritten_bytes_def) linarith+
      then show ?thesis using that(1) by (simp only: qn rn pn if_False simp_thms)
    qed
    ultimately show ?thesis using q(3) lq by (simp add: forwarded_def)
  qed
  ultimately show ?thesis by blast
qed

end
