(* ===== verification/Xdp_Refine.thy ===== *)
theory Xdp_Refine
  imports Xdp_Steps Packet_Rounds
begin

text \<open>
  The kernel aggregator implements the abstract aggregator: a simulation between the slot map and
  the open rounds of \<open>Aggregator_Spec\<close>. Each packet is one request; the simulation also gives memory
  safety, since the step is shown to return.
\<close>

section \<open>Bookkeeping leaves slots and configuration alone\<close>

lemma bump_stat_frame [simp]:
  "slot_map (bump_stat K s M) = slot_map M" "config_map (bump_stat K s M) = config_map M"
  "job_quota_map (bump_stat K s M) = job_quota_map M"
  by (simp_all add: bump_stat_def split: option.split)

lemma job_quota_increment_frame [simp]:
  "slot_map (job_quota_increment K j M) = slot_map M" "config_map (job_quota_increment K j M) = config_map M"
  "drop_stats (job_quota_increment K j M) = drop_stats M"
  by (simp_all add: job_quota_increment_def Let_def split_beta split: option.split)

lemma job_quota_decrement_frame [simp]:
  "slot_map (job_quota_decrement j M) = slot_map M" "config_map (job_quota_decrement j M) = config_map M"
  "drop_stats (job_quota_decrement j M) = drop_stats M"
  by (simp_all add: job_quota_decrement_def split: option.split)

lemma created_frame [simp]:
  "slot_map (created K p M) = (slot_map M)(key_of (xdp_hdr p) \<mapsto> fresh_slot p)"
  "config_map (created K p M) = config_map M" "drop_stats (created K p M) = drop_stats M"
  by (simp_all add: created_def)

section \<open>Slots and rounds\<close>

definition config_ok :: "xdp_maps \<Rightarrow> bool" where
  "config_ok M \<longleftrightarrow> (\<forall>cfg. config_map M 0 = Some cfg \<longrightarrow> length (ps_mac cfg) = 6)"

definition slot_round :: "grad_slot \<Rightarrow> round \<Rightarrow> bool" where
  "slot_round s r \<longleftrightarrow> gs_arrays_ok s \<and> r_len r = unat (gs_chunk_len s) \<and> r_len r \<le> 64 \<and>
     r_expected r = unat (gs_num_workers_expected s) \<and> r_expected r \<le> 256 \<and>
     length (r_log r) = unat (gs_contributions_received s) \<and> length (r_log r) < r_expected r \<and>
     gs_sum s = log_sum (r_log r) \<and> gs_workers s = fst ` set (r_log r) \<and> distinct (map fst (r_log r)) \<and>
     (\<forall>c\<in>set (r_log r). length (snd c) = r_len r)"

definition xdp_tracks :: "xdp_maps \<Rightarrow> open_rounds \<Rightarrow> bool" where
  "xdp_tracks M A \<longleftrightarrow> (\<forall>k. rel_option slot_round (slot_map M k) (A k))"

lemma xdp_tracks_Some: "xdp_tracks M A \<Longrightarrow> slot_map M k = Some s \<Longrightarrow> \<exists>r. A k = Some r \<and> slot_round s r"
  unfolding xdp_tracks_def by (metis option_rel_Some1)

lemma xdp_tracks_None: "xdp_tracks M A \<Longrightarrow> slot_map M k = None \<longleftrightarrow> A k = None"
  unfolding xdp_tracks_def by (metis option.rel_distinct(1,2) option.exhaust)

lemma xdp_tracks_frame: "slot_map M' = slot_map M \<Longrightarrow> xdp_tracks M' A \<longleftrightarrow> xdp_tracks M A"
  by (simp add: xdp_tracks_def)

lemma xdp_tracks_upd:
  "xdp_tracks M A \<Longrightarrow> slot_map M' = (slot_map M)(k := so) \<Longrightarrow> rel_option slot_round so ro \<Longrightarrow>
     xdp_tracks M' (A(k := ro))"
  by (simp add: xdp_tracks_def)

text \<open>A slot just created stands for a round with an empty log.\<close>

lemma fresh_slot_round:
  assumes "xdp_valid p" "workers_ok (gh_num_workers (xdp_hdr p))"
  shows "slot_round (fresh_slot p) \<lparr>r_len = length (xdp_values p),
     r_expected = unat (gh_num_workers (xdp_hdr p)), r_log = []\<rparr>"
proof -
  have "gs_workers (fresh_slot p) = {}"
    using bitmap.workers_fresh by (simp add: fresh_slot_def zero_grad_slot_def)
  with assms show ?thesis
    by (simp add: slot_round_def fresh_slot_def zero_grad_slot_def gs_arrays_ok_def xdp_valid_def workers_ok_def)
qed

section \<open>One packet is one request\<close>

definition xdp_contribution :: "bytes \<Rightarrow> contribution" where
  "xdp_contribution p = (unat (gh_worker_id (xdp_hdr p)), xdp_values p)"

definition xdp_admits :: "kernel \<Rightarrow> xdp_maps \<Rightarrow> bytes \<Rightarrow> bool" where
  "xdp_admits K M p \<longleftrightarrow> slot_map M (key_of (xdp_hdr p)) \<noteq> None \<or>
     workers_ok (gh_num_workers (xdp_hdr p)) \<and> \<not> over_quota M (gh_job_id (xdp_hdr p)) \<and>
     slot_room K (slot_map M) (key_of (xdp_hdr p))"

definition xdp_request :: "kernel \<Rightarrow> xdp_maps \<Rightarrow> bytes \<Rightarrow> request" where
  "xdp_request K M p =
     (if xdp_match p \<and> xdp_valid p \<and> xdp_admits K M p
      then Some (key_of (xdp_hdr p), unat (gh_num_workers (xdp_hdr p)), xdp_contribution p)
      else None)"

text \<open>What the verdict of the abstract aggregator means for action and packet.\<close>

definition xdp_outcome :: "xdp_maps \<Rightarrow> bytes \<Rightarrow> verdict \<Rightarrow> xdp_action \<Rightarrow> bytes \<Rightarrow> bool" where
  "xdp_outcome M p v action q \<longleftrightarrow>
     (case v of
        Summed tot \<Rightarrow>
          (case config_map M 0 of
             Some cfg \<Rightarrow> action = XDP_TX \<and> forwarded cfg p tot q
           | None \<Rightarrow> action = XDP_DROP \<and> length q = length p)
      | _ \<Rightarrow> action = (if xdp_match p then XDP_DROP else XDP_PASS) \<and> q = p)"

lemma xdp_outcome_frame:
  assumes "config_map M' = config_map M"
  shows "xdp_outcome M' p v action q \<longleftrightarrow> xdp_outcome M p v action q"
  unfolding xdp_outcome_def assms ..

lemma xdp_outcome_facts:
  assumes "xdp_outcome M p v action q"
  shows "length q = length p" "xdp_match p \<Longrightarrow> action \<in> {XDP_DROP, XDP_TX}"
  using assms
  by (cases v; cases "config_map M 0"; simp add: xdp_outcome_def forwarded_def)+

lemma xdp_outcome_TX:
  "xdp_outcome M p v XDP_TX q \<Longrightarrow> \<exists>cfg tot. config_map M 0 = Some cfg \<and> v = Summed tot \<and> forwarded cfg p tot q"
  by (auto simp: xdp_outcome_def split: verdict.splits option.splits if_splits)

text \<open>What it means for the drop counters: a sum nobody is configured to receive is counted, and so is a refusal.\<close>

definition quota_refusal :: "xdp_maps \<Rightarrow> bytes \<Rightarrow> bool" where
  "quota_refusal M p \<longleftrightarrow> xdp_match p \<and> xdp_valid p \<and> slot_map M (key_of (xdp_hdr p)) = None \<and>
     workers_ok (gh_num_workers (xdp_hdr p)) \<and> over_quota M (gh_job_id (xdp_hdr p))"

definition is_sum :: "verdict \<Rightarrow> bool" where
  "is_sum v \<longleftrightarrow> (case v of Summed _ \<Rightarrow> True | _ \<Rightarrow> False)"

lemma is_sum_simps [simp]: "is_sum (Summed tot)" "\<not> is_sum Ignored" "\<not> is_sum Absorbed"
  by (simp_all add: is_sum_def)

definition stats_after :: "kernel \<Rightarrow> xdp_maps \<Rightarrow> bytes \<Rightarrow> verdict \<Rightarrow> (u32 \<rightharpoonup> u64)" where
  "stats_after K M p v =
     (if is_sum v \<and> config_map M 0 = None then drop_stats (bump_stat K STAT_DROPPED_NO_CONFIG M)
      else if quota_refusal M p then drop_stats (bump_stat K STAT_DROPPED_FAIRNESS_QUOTA M)
      else drop_stats M)"

lemma bump_stat_cong: "drop_stats M' = drop_stats M \<Longrightarrow> drop_stats (bump_stat K s M') = drop_stats (bump_stat K s M)"
  by (simp add: bump_stat_def split: option.split)

text \<open>A slot with one more contribution stands for the round with the longer log.\<close>

lemma added_round:
  assumes s: "slot_round s r" and a: "added p s s'" and w: "fst c \<notin> fst ` set (r_log r)"
    and c: "c = xdp_contribution p" and len: "length (snd c) = r_len r"
  shows "unat (gs_contributions_received s') = length (r_log r @ [c])"
    and "gs_sum s' = log_sum (r_log r @ [c])"
    and "gs_contributions_received s' = gs_num_workers_expected s' \<longleftrightarrow> length (r_log r @ [c]) = r_expected r"
    and "gs_contributions_received s' \<noteq> gs_num_workers_expected s' \<Longrightarrow> slot_round s' (r\<lparr>r_log := r_log r @ [c]\<rparr>)"
proof -
  have "unat (gs_contributions_received s) + 1 < 2 ^ 16"
    using s by (simp add: slot_round_def)
  then show n: "unat (gs_contributions_received s') = length (r_log r @ [c])"
    using s a by (simp add: slot_round_def added_def unat_word_ariths)
  show v: "gs_sum s' = log_sum (r_log r @ [c])"
    using s a by (simp add: slot_round_def added_def c xdp_contribution_def)
  show e: "gs_contributions_received s' = gs_num_workers_expected s' \<longleftrightarrow> length (r_log r @ [c]) = r_expected r"
    using s a n by (simp add: slot_round_def added_def word_unat_eq_iff)
  assume i: "gs_contributions_received s' \<noteq> gs_num_workers_expected s'"
  with n v e a s w len show "slot_round s' (r\<lparr>r_log := r_log r @ [c]\<rparr>)"
    unfolding slot_round_def added_def by (auto simp: c xdp_contribution_def)
qed

lemma completed_sum:
  assumes "slot_round s r" "length (snd c) = r_len r"
  shows "take (r_len r) (log_sum (r_log r @ [c])) = column_sum (r_len r) (mset (map snd (r_log r @ [c])))"
  using assms by (intro log_sum_column) (auto simp: slot_round_def)

text \<open>The locked section and what follows it, on a slot that stands for a round.\<close>

definition xdp_contribute ::
    "kernel \<Rightarrow> bytes \<Rightarrow> grad_slot \<Rightarrow> xdp_maps \<Rightarrow> (xdp_action \<times> bytes \<times> xdp_maps) option" where
  "xdp_contribute K p s M = do {
       unlocked \<leftarrow> xdp_locked p (parsed_of p) s;
       case unlocked of
         None \<Rightarrow> Some (XDP_DROP, p, M)
       | Some (slot, p', is_complete, final_chunk_len) \<Rightarrow>
           xdp_finish K (key_of (xdp_hdr p)) is_complete final_chunk_len p'
             (M\<lparr>slot_map := (slot_map M)(key_of (xdp_hdr p) \<mapsto> slot)\<rparr>) }"

lemma xdp_contribute_refines:
  fixes K :: kernel and M :: xdp_maps and p :: bytes and A :: open_rounds
  defines "k \<equiv> key_of (xdp_hdr p)" and "c \<equiv> xdp_contribution p"
  assumes p: "xdp_match p" "xdp_valid p" and cfg: "config_ok M" and tr: "xdp_tracks M (A(k \<mapsto> r))"
    and s: "slot_map M k = Some s" "slot_round s r" and r: "round_of A k n c = r"
  shows "\<exists>action q M' v A'. xdp_contribute K p s M = Some (action, q, M') \<and>
    spec_contribute A k n c = (v, A') \<and> xdp_outcome M p v action q \<and>
    xdp_tracks M' (if v = Ignored then A(k \<mapsto> r) else A') \<and> config_map M' = config_map M \<and>
    drop_stats M' = (if is_sum v \<and> config_map M 0 = None then drop_stats (bump_stat K STAT_DROPPED_NO_CONFIG M) else drop_stats M)"
proof -
  have ok: "gs_arrays_ok s" using s(2) by (simp add: slot_round_def)
  have wk: "unat (gh_worker_id (xdp_hdr p)) \<in> gs_workers s \<longleftrightarrow> fst c \<in> fst ` set (r_log r)"
    using s(2) by (simp add: slot_round_def c_def xdp_contribution_def)
  have ln: "gs_chunk_len s = gh_chunk_len (xdp_hdr p) \<longleftrightarrow> length (snd c) = r_len r"
    using s(2) by (auto simp: slot_round_def c_def xdp_contribution_def word_unat_eq_iff)
  have k: "key_of (xdp_hdr p) = k" by (simp add: k_def)
  show ?thesis
  proof (cases rule: xdp_locked_cases [OF p ok, case_names mismatch dup absorbed complete])
    case mismatch
    then have "spec_contribute A k n c = (Ignored, A)" using r ln by (simp add: spec_contribute_def)
    with mismatch tr p show ?thesis by (simp add: xdp_contribute_def xdp_outcome_def)
  next
    case dup
    then have "spec_contribute A k n c = (Ignored, A)" using r wk by (simp add: spec_contribute_def)
    moreover have "M\<lparr>slot_map := (slot_map M)(k \<mapsto> s)\<rparr> = M" using s(1) by (simp add: fun_upd_idem)
    ultimately show ?thesis using dup tr p by (simp add: xdp_contribute_def xdp_outcome_def xdp_finish_def k)
  next
    case (absorbed s')
    have len: "length (snd c) = r_len r" and new: "fst c \<notin> fst ` set (r_log r)"
      using absorbed(1,2) ln wk by simp_all
    note ar = added_round [OF s(2) absorbed(3) new c_def [THEN meta_eq_to_obj_eq] len]
    have "spec_contribute A k n c = (Absorbed, A(k \<mapsto> r\<lparr>r_log := r_log r @ [c]\<rparr>))"
      using r len new absorbed(4) ar(3) by (simp add: spec_contribute_def)
    moreover have "xdp_tracks (M\<lparr>slot_map := (slot_map M)(k \<mapsto> s')\<rparr>) ((A(k \<mapsto> r))(k \<mapsto> r\<lparr>r_log := r_log r @ [c]\<rparr>))"
      using ar(4) [OF absorbed(4)] by (intro xdp_tracks_upd [OF tr, where so = "Some s'"]) simp_all
    ultimately show ?thesis
      using absorbed(5) p by (simp add: xdp_contribute_def xdp_outcome_def xdp_finish_def k)
  next
    case (complete s')
    have len: "length (snd c) = r_len r" and new: "fst c \<notin> fst ` set (r_log r)"
      using complete(1,2) ln wk by simp_all
    note ar = added_round [OF s(2) complete(3) new c_def [THEN meta_eq_to_obj_eq] len]
    let ?vs = "column_sum (r_len r) (mset (map snd (r_log r @ [c])))"
    have spec: "spec_contribute A k n c = (Summed ?vs, A(k := None))"
      using r len new complete(4) ar(3) by (simp add: spec_contribute_def)
    have rl: "unat (gs_chunk_len s) = r_len r" using s(2) by (simp add: slot_round_def)
    have vs: "take (unat (gs_chunk_len s)) (gs_sum s') = ?vs"
      unfolding ar(2) rl by (rule completed_sum [OF s(2) len])
    have fits: "62 + 4 * length ?vs \<le> length p" "length ?vs = unat (gs_chunk_len s)"
      using p(2) len rl by (simp_all add: xdp_valid_def c_def xdp_contribution_def)
    have tr': "xdp_tracks M' (A(k := None))" if "slot_map M' = (slot_map M)(k := None)" for M'
      using xdp_tracks_upd [OF tr that, of None] by simp
    show ?thesis
    proof (cases "config_map M 0")
      case None
      have "drop_stats (bump_stat K 0 (job_quota_decrement (k_job_id k) (M\<lparr>slot_map := (slot_map M)(k := None)\<rparr>))) =
          drop_stats (bump_stat K 0 M)" by (rule bump_stat_cong) simp
      with None complete(5) spec vs fits tr' show ?thesis
        by (simp add: xdp_contribute_def xdp_outcome_def xdp_finish_def k)
    next
      case (Some cf)
      with cfg have mac: "length (ps_mac cf) = 6" by (simp add: config_ok_def)
      obtain q where "xdp_rewrite cf (gs_chunk_len s) (patch p 62 (encode_values ?vs)) = Some q" "forwarded cf p ?vs q"
        using xdp_rewrite_forwarded [OF fits mac] by blast
      with complete(5) spec vs tr' Some show ?thesis
        by (simp add: xdp_contribute_def xdp_outcome_def xdp_finish_def k)
    qed
  qed
qed

section \<open>The program refines the abstract aggregator\<close>

lemma netsum_parsed:
  assumes "xdp_match p" "xdp_valid p"
  shows "netsum_xdp_aggregate K M p = do {
     (found, M) \<leftarrow> xdp_slot_for K p (parsed_of p) M;
     case found of None \<Rightarrow> Some (XDP_DROP, p, M) | Some slot \<Rightarrow> xdp_contribute K p slot M }"
proof -
  have "xp_key (parsed_of p) = key_of (xdp_hdr p)" by (simp add: parsed_of_def)
  with assms show ?thesis by (simp add: netsum_xdp_aggregate_def xdp_parse_ok xdp_contribute_def cong del: option.case_cong_weak)
qed

lemma netsum_rejected:
  "\<not> xdp_match p \<Longrightarrow> netsum_xdp_aggregate K M p = Some (XDP_PASS, p, M)"
  "xdp_match p \<Longrightarrow> \<not> xdp_valid p \<Longrightarrow> netsum_xdp_aggregate K M p = Some (XDP_DROP, p, M)"
  by (simp_all add: netsum_xdp_aggregate_def xdp_parse_eq)

lemma xdp_step_counted:
  assumes cfg: "config_ok M" and tr: "xdp_tracks M A"
  shows "\<exists>action q M' v A'. netsum_xdp_aggregate K M p = Some (action, q, M') \<and>
    spec_request A (xdp_request K M p) = (v, A') \<and> xdp_outcome M p v action q \<and>
    xdp_tracks M' A' \<and> config_map M' = config_map M \<and> drop_stats M' = stats_after K M p v"
proof (cases "xdp_match p \<and> xdp_valid p")
  case False
  then show ?thesis
    using tr netsum_rejected [of p K M]
    by (cases "xdp_match p") (auto simp: xdp_request_def xdp_outcome_def stats_after_def quota_refusal_def)
next
  case True
  then have p: "xdp_match p" "xdp_valid p" by simp_all
  let ?k = "key_of (xdp_hdr p)" and ?n = "unat (gh_num_workers (xdp_hdr p))" and ?c = "xdp_contribution p"
  have dropped: ?thesis if "xdp_slot_for K p (parsed_of p) M = Some (None, M')" "\<not> xdp_admits K M p"
    "slot_map M' = slot_map M" "config_map M' = config_map M" "drop_stats M' = stats_after K M p Ignored" for M'
    using that p tr by (simp add: netsum_parsed xdp_request_def xdp_outcome_def xdp_tracks_frame [OF that(3)])
  show ?thesis
  proof (cases rule: xdp_slot_for_cases [OF p(1), of M K, case_names found workers quota full created])
    case (found s)
    obtain r where r: "A ?k = Some r" "slot_round s r" using xdp_tracks_Some [OF tr found(1)] by blast
    have up: "A(?k \<mapsto> r) = A" using r(1) by (simp add: fun_upd_idem)
    obtain action q M' v A' where "xdp_contribute K p s M = Some (action, q, M')"
      "spec_contribute A ?k ?n ?c = (v, A')" "xdp_outcome M p v action q"
      "xdp_tracks M' (if v = Ignored then A else A')" "config_map M' = config_map M" "drop_stats M' = stats_after K M p v"
      using xdp_contribute_refines [OF p cfg, of A r s ?n K, unfolded up, OF tr found(1) r(2)] r(1) found(1)
      by (auto simp: round_of_def stats_after_def quota_refusal_def split: if_splits)
    moreover have "v = Ignored \<Longrightarrow> A' = A"
      using calculation(2) by (cases rule: spec_contribute_cases [of A ?k ?n ?c]) simp_all
    moreover have "xdp_request K M p = Some (?k, ?n, ?c)"
      using p found(1) by (simp add: xdp_request_def xdp_admits_def)
    ultimately show ?thesis
      using found(2) p by (auto simp: netsum_parsed split: if_splits)
  next
    case workers
    then show ?thesis by (intro dropped) (auto simp: xdp_admits_def stats_after_def quota_refusal_def)
  next
    case quota
    then show ?thesis
      by (intro dropped [OF quota(4)]) (use p in \<open>auto simp: xdp_admits_def stats_after_def quota_refusal_def\<close>)
  next
    case full
    then show ?thesis by (intro dropped) (auto simp: xdp_admits_def stats_after_def quota_refusal_def)
  next
    case created
    let ?r = "\<lparr>r_len = length (xdp_values p), r_expected = ?n, r_log = []\<rparr>"
    let ?M = "created K p M"
    have none: "A ?k = None" using xdp_tracks_None [OF tr] created(1) by simp
    have ro: "round_of A ?k ?n ?c = ?r" by (simp add: round_of_def none xdp_contribution_def)
    have sr: "slot_round (fresh_slot p) ?r" using p(2) created(2) by (rule fresh_slot_round)
    have tr': "xdp_tracks ?M (A(?k \<mapsto> ?r))"
      using sr by (intro xdp_tracks_upd [OF tr, where so = "Some (fresh_slot p)"]) simp_all
    have cfg': "config_ok ?M" using cfg by (simp add: config_ok_def)
    obtain action q M' v A' where *: "xdp_contribute K p (fresh_slot p) ?M = Some (action, q, M')"
      "spec_contribute A ?k ?n ?c = (v, A')" "xdp_outcome ?M p v action q"
      "xdp_tracks M' (if v = Ignored then A(?k \<mapsto> ?r) else A')" "config_map M' = config_map ?M"
      "drop_stats M' = (if is_sum v \<and> config_map ?M 0 = None then drop_stats (bump_stat K STAT_DROPPED_NO_CONFIG ?M) else drop_stats ?M)"
      using xdp_contribute_refines [OF p cfg' tr' _ sr ro, of K] by (simp only: created_frame) auto
    have st: "drop_stats M' = stats_after K M p v"
      using *(6) created(3) bump_stat_cong [of ?M M] by (simp add: stats_after_def quota_refusal_def)
    have "v \<noteq> Ignored"
      using *(2) ro by (cases rule: spec_contribute_cases [of A ?k ?n ?c]) (auto simp: xdp_contribution_def)
    moreover have "xdp_request K M p = Some (?k, ?n, ?c)"
      using p created by (simp add: xdp_request_def xdp_admits_def)
    moreover have "xdp_outcome M p v action q" using *(3) by (simp only: xdp_outcome_frame [OF created_frame(2)])
    ultimately show ?thesis
      using *(1,2,4,5) st created(5) p by (auto simp: netsum_parsed)
  qed
qed

lemma xdp_step_refines:
  assumes "config_ok M" "xdp_tracks M A"
  shows "\<exists>action q M' v A'. netsum_xdp_aggregate K M p = Some (action, q, M') \<and>
    spec_request A (xdp_request K M p) = (v, A') \<and> xdp_outcome M p v action q \<and>
    xdp_tracks M' A' \<and> config_map M' = config_map M"
  using xdp_step_counted [OF assms] by blast

section \<open>Sequences of packets\<close>

fun xdp_requests :: "kernel \<Rightarrow> xdp_maps \<Rightarrow> bytes list \<Rightarrow> request list" where
  "xdp_requests K M [] = []"
| "xdp_requests K M (p # ps) = xdp_request K M p #
     (case netsum_xdp_aggregate K M p of None \<Rightarrow> [] | Some (_, _, M') \<Rightarrow> xdp_requests K M' ps)"

lemma xdp_run_refines:
  assumes "config_ok M" "xdp_tracks M A"
  shows "\<exists>outs M' vs A'. xdp_run K M ps = Some (outs, M') \<and> spec_run A (xdp_requests K M ps) = (vs, A') \<and>
    length outs = length ps \<and> length (xdp_requests K M ps) = length ps \<and>
    (\<forall>j<length ps. xdp_outcome M (ps ! j) (vs ! j) (fst (outs ! j)) (snd (outs ! j))) \<and>
    xdp_tracks M' A' \<and> config_map M' = config_map M"
  using assms
proof (induction ps arbitrary: M A)
  case (Cons p ps)
  obtain action q M1 v A1 where 1: "netsum_xdp_aggregate K M p = Some (action, q, M1)"
    "spec_request A (xdp_request K M p) = (v, A1)" "xdp_outcome M p v action q" "xdp_tracks M1 A1"
    "config_map M1 = config_map M"
    using xdp_step_refines [OF Cons.prems, of K p] by blast
  have ok: "config_ok M1" using Cons.prems(1) 1(5) by (simp add: config_ok_def)
  obtain outs M' vs A' where 2: "xdp_run K M1 ps = Some (outs, M')"
    "spec_run A1 (xdp_requests K M1 ps) = (vs, A')" "length outs = length ps"
    "length (xdp_requests K M1 ps) = length ps"
    "\<forall>j<length ps. xdp_outcome M1 (ps ! j) (vs ! j) (fst (outs ! j)) (snd (outs ! j))"
    "xdp_tracks M' A'" "config_map M' = config_map M1"
    using Cons.IH [OF ok 1(4)] by blast
  have "\<forall>j<Suc (length ps). xdp_outcome M ((p # ps) ! j) ((v # vs) ! j) (fst (((action, q) # outs) ! j)) (snd (((action, q) # outs) ! j))"
    using 1(3) 2(5) xdp_outcome_frame [OF 1(5)] by (auto simp: nth_Cons split: nat.split)
  with 1 2 show ?case by simp
qed simp

lemma xdp_requests_nth:
  "j < length (xdp_requests K M ps) \<Longrightarrow> xdp_requests K M ps ! j = Some (k, n, c) \<Longrightarrow>
     xdp_match (ps ! j) \<and> xdp_valid (ps ! j) \<and> k = key_of (xdp_hdr (ps ! j)) \<and>
     n = unat (gh_num_workers (xdp_hdr (ps ! j))) \<and> c = xdp_contribution (ps ! j)"
proof (induction ps arbitrary: M j)
  case (Cons p ps)
  then show ?case
    by (cases j) (auto simp: xdp_request_def split: if_splits option.splits)
qed simp

text \<open>The packets a forwarded sum is made of.\<close>

definition xdp_round :: "bytes list \<Rightarrow> nat list \<Rightarrow> bool" where
  "xdp_round = packet_round (\<lambda>p. xdp_match p \<and> xdp_valid p) xdp_hdr"

definition xdp_total :: "bytes list \<Rightarrow> nat list \<Rightarrow> i32 list" where
  "xdp_total = packet_total xdp_hdr xdp_values"

interpretation xdp_packets: packet_client "\<lambda>p. xdp_match p \<and> xdp_valid p" xdp_hdr xdp_values
  by unfold_locales (simp add: xdp_values_def)

lemma sum_explained_round:
  assumes ex: "sum_explained (xdp_requests K M ps) j k tot" and len: "length (xdp_requests K M ps) = length ps"
    and j: "j < length ps"
  shows "\<exists>js. xdp_round ps (js @ [j]) \<and> tot = xdp_total ps (js @ [j])"
proof -
  have "(xdp_match (ps ! i) \<and> xdp_valid (ps ! i)) \<and> q = xdp_packets.packet_request (ps ! i)"
    if "i < length ps" "xdp_requests K M ps ! i = Some q" for i q
    using that xdp_requests_nth [of i K M ps "fst q" "fst (snd q)" "snd (snd q)"] len
    by (auto simp: xdp_packets.packet_request_def xdp_contribution_def prod_eq_iff)
  from xdp_packets.request_round [OF this ex j] show ?thesis
    by (auto simp: xdp_round_def xdp_total_def)
qed

text \<open>Every packet the program transmits is the sum of the packets of a complete round.\<close>

lemma xdp_transmits:
  assumes run: "xdp_run K M ps = Some (outs, M')" and start: "slot_map M = Map.empty" "config_ok M"
    and j: "j < length outs" "outs ! j = (XDP_TX, q)"
  shows "\<exists>cfg js. config_map M 0 = Some cfg \<and> xdp_round ps (js @ [j]) \<and>
    forwarded cfg (ps ! j) (xdp_total ps (js @ [j])) q"
proof -
  have "xdp_tracks M Map.empty" using start(1) by (simp add: xdp_tracks_def)
  then obtain vs A' where r: "spec_run Map.empty (xdp_requests K M ps) = (vs, A')" "length outs = length ps"
    "length (xdp_requests K M ps) = length ps"
    "\<forall>j<length ps. xdp_outcome M (ps ! j) (vs ! j) (fst (outs ! j)) (snd (outs ! j))"
    using xdp_run_refines [OF start(2), of Map.empty K ps] run by auto
  have "xdp_outcome M (ps ! j) (vs ! j) XDP_TX q" using r(2,4) j by force
  then obtain cfg tot where tx: "config_map M 0 = Some cfg" "vs ! j = Summed tot" "forwarded cfg (ps ! j) tot q"
    using xdp_outcome_TX by blast
  have "length vs = length ps" using spec_run_length [of Map.empty "xdp_requests K M ps"] r(1,3) by simp
  then have "\<exists>k. sum_explained (xdp_requests K M ps) j k tot"
    using j(1) r(2) by (intro spec_sound [OF r(1) _ tx(2)]) simp
  with tx show ?thesis using sum_explained_round [OF _ r(3), of j _ tot] j(1) r(2) by auto
qed

text \<open>A worker already counted, or one of another length, leaves packet and maps exactly as they were.\<close>

lemma xdp_ignores:
  assumes p: "xdp_match p" "xdp_valid p" and s: "slot_map M (key_of (xdp_hdr p)) = Some s" "gs_arrays_ok s"
    and ign: "gs_chunk_len s \<noteq> gh_chunk_len (xdp_hdr p) \<or> unat (gh_worker_id (xdp_hdr p)) \<in> gs_workers s"
  shows "netsum_xdp_aggregate K M p = Some (XDP_DROP, p, M)"
proof -
  have same: "M\<lparr>slot_map := (slot_map M)(key_of (xdp_hdr p) \<mapsto> s)\<rparr> = M" using s(1) by (simp add: fun_upd_idem)
  have f: "xdp_slot_for K p (parsed_of p) M = Some (Some s, M)"
    by (cases rule: xdp_slot_for_cases [OF p(1), of M K]) (use s(1) in simp_all)
  show ?thesis
    by (cases rule: xdp_locked_cases [OF p s(2), case_names mismatch dup absorbed complete])
      (use f ign same p in \<open>auto simp: netsum_parsed xdp_contribute_def xdp_finish_def\<close>)
qed

lemma xdp_run_returns:
  assumes "config_ok M" "xdp_tracks M A"
  shows "\<exists>outs M'. xdp_run K M ps = Some (outs, M') \<and> length outs = length ps \<and>
    (\<forall>j<length ps. length (snd (outs ! j)) = length (ps ! j) \<and>
       (fst (outs ! j) = XDP_PASS \<longleftrightarrow> \<not> xdp_match (ps ! j)) \<and> (\<not> xdp_match (ps ! j) \<longrightarrow> snd (outs ! j) = ps ! j))"
  using assms
proof (induction ps arbitrary: M A)
  case (Cons p ps)
  obtain action q M1 v A1 where 1: "netsum_xdp_aggregate K M p = Some (action, q, M1)" "xdp_outcome M p v action q"
    "xdp_tracks M1 A1" "config_map M1 = config_map M"
    using xdp_step_refines [OF Cons.prems, of K p] by blast
  have "config_ok M1" using Cons.prems(1) 1(4) by (simp add: config_ok_def)
  from Cons.IH [OF this 1(3)] obtain outs M' where 2: "xdp_run K M1 ps = Some (outs, M')" "length outs = length ps"
    "\<forall>j<length ps. length (snd (outs ! j)) = length (ps ! j) \<and>
       (fst (outs ! j) = XDP_PASS \<longleftrightarrow> \<not> xdp_match (ps ! j)) \<and> (\<not> xdp_match (ps ! j) \<longrightarrow> snd (outs ! j) = ps ! j)" by blast
  have "length q = length p \<and> (action = XDP_PASS \<longleftrightarrow> \<not> xdp_match p) \<and> (\<not> xdp_match p \<longrightarrow> q = p)"
    using xdp_outcome_facts [OF 1(2)] netsum_rejected(1) [of p K M] 1(1) by (cases "xdp_match p") auto
  with 1(1) 2 show ?case by (auto simp: less_Suc_eq_0_disj)
qed simp

text \<open>The first packet of a round of more than one worker opens a slot and is dropped.\<close>

lemma xdp_opens:
  assumes p: "xdp_match p" "xdp_valid p" "gh_num_workers (xdp_hdr p) \<noteq> 1"
    and free: "slot_map M (key_of (xdp_hdr p)) = None" and adm: "xdp_admits K M p"
  obtains s where "netsum_xdp_aggregate K M p =
    Some (XDP_DROP, p, (created K p M)\<lparr>slot_map := (slot_map M)(key_of (xdp_hdr p) \<mapsto> s)\<rparr>)"
proof -
  have cr: "xdp_slot_for K p (parsed_of p) M = Some (Some (fresh_slot p), created K p M)"
    using adm free by (cases rule: xdp_slot_for_cases [OF p(1), of M K]) (auto simp: xdp_admits_def)
  have ok: "gs_arrays_ok (fresh_slot p)" by (simp add: gs_arrays_ok_def fresh_slot_def zero_grad_slot_def)
  have fs: "gs_chunk_len (fresh_slot p) = gh_chunk_len (xdp_hdr p)" "gs_contributions_received (fresh_slot p) = 0"
    "gs_num_workers_expected (fresh_slot p) = gh_num_workers (xdp_hdr p)" "gs_workers (fresh_slot p) = {}"
    using bitmap.workers_fresh by (simp_all add: fresh_slot_def zero_grad_slot_def)
  show thesis
  proof (cases rule: xdp_locked_cases [OF p(1,2) ok, case_names mismatch dup absorbed complete])
    case (absorbed s')
    then show ?thesis
      using that [of s'] p(1,2) cr by (simp add: netsum_parsed xdp_contribute_def xdp_finish_def)
  next
    case (complete s')
    then show ?thesis using fs p(3) by (auto simp: added_def)
  qed (use fs in auto)
qed

text \<open>With a configuration and room, what a first packet does shows in the maps or in the packet sent.\<close>

lemma xdp_takes:
  assumes p: "xdp_match p" "xdp_valid p" "workers_ok (gh_num_workers (xdp_hdr p))"
    and free: "slot_map M (key_of (xdp_hdr p)) = None" and cfg: "config_map M 0 = Some cfg" "length (ps_mac cfg) = 6" "max_slots_per_job cfg = 0"
    and room: "slot_room K (slot_map M) (key_of (xdp_hdr p))"
  shows "\<exists>action q M'. netsum_xdp_aggregate K M p = Some (action, q, M') \<and> \<not> (action = XDP_DROP \<and> q = p \<and> M' = M)"
proof -
  have adm: "xdp_admits K M p" using p(3) cfg room by (simp add: xdp_admits_def over_quota_def)
  show ?thesis
  proof (cases "gh_num_workers (xdp_hdr p) = 1")
    case False
    obtain s where "netsum_xdp_aggregate K M p =
        Some (XDP_DROP, p, (created K p M)\<lparr>slot_map := (slot_map M)(key_of (xdp_hdr p) \<mapsto> s)\<rparr>)"
      using xdp_opens [OF p(1,2) False free adm] .
    moreover have "(created K p M)\<lparr>slot_map := (slot_map M)(key_of (xdp_hdr p) \<mapsto> s)\<rparr> \<noteq> M" using free
      by (metis fun_upd_same option.distinct(1) xdp_maps.select_convs(1) xdp_maps.surjective xdp_maps.update_convs(1))
    ultimately show ?thesis by simp
  next
    case True
    have cr: "xdp_slot_for K p (parsed_of p) M = Some (Some (fresh_slot p), created K p M)"
      using adm free by (cases rule: xdp_slot_for_cases [OF p(1), of M K]) (auto simp: xdp_admits_def)
    have ok: "gs_arrays_ok (fresh_slot p)" by (simp add: gs_arrays_ok_def fresh_slot_def zero_grad_slot_def)
    have fs: "gs_chunk_len (fresh_slot p) = gh_chunk_len (xdp_hdr p)" "gs_contributions_received (fresh_slot p) = 0"
      "gs_num_workers_expected (fresh_slot p) = gh_num_workers (xdp_hdr p)" "gs_workers (fresh_slot p) = {}"
      using bitmap.workers_fresh by (simp_all add: fresh_slot_def zero_grad_slot_def)
    show ?thesis
    proof (cases rule: xdp_locked_cases [OF p(1,2) ok, case_names mismatch dup absorbed complete])
      case (absorbed s')
      then show ?thesis using fs True by (auto simp: added_def)
    next
      case (complete s')
      let ?v = "take (unat (gs_chunk_len (fresh_slot p))) (gs_sum s')"
      have "length (gs_sum s') = 64" using complete(3) ok by (auto simp: added_def gs_arrays_ok_def)
      then have "62 + 4 * length ?v \<le> length p" "length ?v = unat (gs_chunk_len (fresh_slot p))"
        using p(2) fs(1) by (simp_all add: xdp_valid_def)
      from xdp_rewrite_forwarded [OF this cfg(2)] obtain q where
        "xdp_rewrite cfg (gs_chunk_len (fresh_slot p)) (patch p 62 (encode_values ?v)) = Some q" by blast
      then show ?thesis using complete p(1,2) cr cfg(1)
        by (auto simp: netsum_parsed xdp_contribute_def xdp_finish_def Let_def job_quota_decrement_def split: option.splits)
    qed (use fs in auto)
  qed
qed

end
