(* ===== verification/Xdp_Rounds.thy ===== *)
theory Xdp_Rounds
  imports Xdp_Refine
begin

text \<open>
  Progress: once the first packet of a round is admitted, the packets of the other workers, in any
  order, are absorbed and the last of them is transmitted with the total. The slot is gone then, so
  that the same key can be aggregated again.
\<close>

text \<open>The packets of one round: each worker's, all announcing the same round size.\<close>

definition round_packets :: "grad_slot_key \<Rightarrow> nat \<Rightarrow> nat \<Rightarrow> bytes list \<Rightarrow> bool" where
  "round_packets k n len ps \<longleftrightarrow>
     (\<forall>p\<in>set ps. xdp_match p \<and> xdp_valid p \<and> key_of (xdp_hdr p) = k \<and>
        unat (gh_num_workers (xdp_hdr p)) = n \<and> unat (gh_chunk_len (xdp_hdr p)) = len) \<and>
     distinct (map (\<lambda>p. gh_worker_id (xdp_hdr p)) ps)"

lemma round_packets_Cons:
  "round_packets k n len (p # ps) \<longleftrightarrow>
     xdp_match p \<and> xdp_valid p \<and> key_of (xdp_hdr p) = k \<and> unat (gh_num_workers (xdp_hdr p)) = n \<and>
     unat (gh_chunk_len (xdp_hdr p)) = len \<and>
     gh_worker_id (xdp_hdr p) \<notin> (\<lambda>p. gh_worker_id (xdp_hdr p)) ` set ps \<and> round_packets k n len ps"
  by (auto simp: round_packets_def)

lemma round_packets_contributions:
  assumes "round_packets k n len ps"
  shows "distinct (map fst (map xdp_contribution ps))" "\<forall>c\<in>set (map xdp_contribution ps). length (snd c) = len"
proof -
  have "distinct (map (unat \<circ> (\<lambda>p. gh_worker_id (xdp_hdr p))) ps)"
    using assms unfolding round_packets_def distinct_map inj_on_def by (simp add: word_unat_eq_iff)
  then show "distinct (map fst (map xdp_contribution ps))" by (simp add: o_def xdp_contribution_def)
  show "\<forall>c\<in>set (map xdp_contribution ps). length (snd c) = len"
    using assms by (simp add: round_packets_def xdp_contribution_def)
qed

lemma xdp_request_round:
  assumes "round_packets k n len (p # ps)" "xdp_admits K M p"
  shows "xdp_request K M p = Some (k, n, xdp_contribution p)"
  using assms by (simp add: xdp_request_def round_packets_Cons)

lemma xdp_requests_open:
  assumes "config_ok M" "xdp_tracks M A" "A k = Some \<lparr>r_len = len, r_expected = n, r_log = lg\<rparr>"
    and "round_packets k n len ps" "distinct (map fst (lg @ map xdp_contribution ps))" "length lg + length ps \<le> n"
  shows "xdp_requests K M ps = map (\<lambda>p. Some (k, n, xdp_contribution p)) ps"
  using assms
proof (induction ps arbitrary: M A lg)
  case (Cons p ps)
  let ?c = "xdp_contribution p"
  have "slot_map M k \<noteq> None" using xdp_tracks_None [OF Cons.prems(2), of k] Cons.prems(3) by simp
  then have "xdp_admits K M p" using Cons.prems(4) by (simp add: xdp_admits_def round_packets_Cons)
  then have q: "xdp_request K M p = Some (k, n, ?c)" using xdp_request_round Cons.prems(4) by blast
  obtain action p' M1 v A1 where 1: "netsum_xdp_aggregate K M p = Some (action, p', M1)"
    "spec_request A (xdp_request K M p) = (v, A1)" "xdp_tracks M1 A1" "config_map M1 = config_map M"
    using xdp_step_refines [OF Cons.prems(1,2), of K p] by blast
  show ?case
  proof (cases ps)
    case Nil
    then show ?thesis using q 1(1) by simp
  next
    case ps: (Cons p2 ps2)
    let ?A = "A(k \<mapsto> \<lparr>r_len = len, r_expected = n, r_log = lg @ [?c]\<rparr>)"
    have "length (snd ?c) = len" using round_packets_contributions(2) [OF Cons.prems(4)] by simp
    then have "spec_contribute A k n ?c = (Absorbed, ?A)"
      using Cons.prems(3,5,6) ps by (auto simp: spec_contribute_def round_of_def Let_def)
    then have A1: "A1 = ?A" using 1(2) q by simp
    have "xdp_requests K M1 ps = map (\<lambda>p. Some (k, n, xdp_contribution p)) ps"
    proof (rule Cons.IH [of _ ?A "lg @ [?c]"])
      show "config_ok M1" "xdp_tracks M1 ?A" using 1(3,4) Cons.prems(1) A1 by (simp_all add: config_ok_def)
    qed (use Cons.prems in \<open>auto simp: round_packets_Cons\<close>)
    then show ?thesis using q 1(1) by simp
  qed
qed simp

lemma xdp_requests_round:
  assumes "config_ok M" "xdp_tracks M A" "A k = None" "xdp_admits K M (hd ps)" "ps \<noteq> []"
    and rp: "round_packets k (length ps) len ps"
  shows "xdp_requests K M ps = map (\<lambda>p. Some (k, length ps, xdp_contribution p)) ps"
proof -
  obtain p ps' where ps: "ps = p # ps'" using assms(5) by (cases ps) auto
  let ?c = "xdp_contribution p" and ?n = "length ps"
  have q: "xdp_request K M p = Some (k, ?n, ?c)"
    using xdp_request_round [of k ?n len p ps' K M] assms(4) rp unfolding ps by simp
  obtain action p' M1 v A1 where 1: "netsum_xdp_aggregate K M p = Some (action, p', M1)"
    "spec_request A (xdp_request K M p) = (v, A1)" "xdp_tracks M1 A1" "config_map M1 = config_map M"
    using xdp_step_refines [OF assms(1,2), of K p] by blast
  show ?thesis
  proof (cases "ps' = []")
    case True
    then show ?thesis using q 1(1) ps by simp
  next
    case False
    let ?A = "A(k \<mapsto> \<lparr>r_len = len, r_expected = ?n, r_log = [?c]\<rparr>)"
    have "length (snd ?c) = len" using round_packets_contributions(2) [OF rp] ps by simp
    then have "spec_contribute A k ?n ?c = (Absorbed, ?A)"
      using assms(3) False ps by (auto simp: spec_contribute_def round_of_def Let_def)
    then have A1: "A1 = ?A" using 1(2) q by simp
    have "xdp_requests K M1 ps' = map (\<lambda>p. Some (k, ?n, xdp_contribution p)) ps'"
    proof (rule xdp_requests_open [of _ ?A _ len _ "[?c]"])
      show "config_ok M1" "xdp_tracks M1 ?A" using 1(3,4) assms(1) A1 by (simp_all add: config_ok_def)
      show "round_packets k ?n len ps'" using rp unfolding ps by (simp add: round_packets_Cons)
      show "distinct (map fst ([?c] @ map xdp_contribution ps'))"
        using round_packets_contributions(1) [OF rp] ps by simp
    qed (simp_all add: ps)
    then show ?thesis using q 1(1) ps by simp
  qed
qed

lemma xdp_completes:
  assumes ok: "config_ok M" "xdp_tracks M A" and cfg: "config_map M 0 = Some cfg"
    and free: "slot_map M k = None" "xdp_admits K M (hd ps)" "ps \<noteq> []" "round_packets k (length ps) len ps"
  shows "\<exists>q M'. xdp_run K M ps = Some (map (\<lambda>p. (XDP_DROP, p)) (butlast ps) @ [(XDP_TX, q)], M') \<and>
    forwarded cfg (last ps) (column_sum len (mset (map xdp_values ps))) q \<and> slot_map M' k = None"
proof -
  have none: "A k = None" using xdp_tracks_None [OF ok(2)] free(1) by simp
  let ?cs = "map xdp_contribution ps" and ?tot = "column_sum len (mset (map xdp_values ps))"
  have req: "xdp_requests K M ps = map (\<lambda>c. Some (k, length ps, c)) ?cs"
    using xdp_requests_round [OF ok none free(2,3,4)] by simp
  have vals: "map snd ?cs = map xdp_values ps" by (simp add: xdp_contribution_def)
  have sp: "spec_run A (xdp_requests K M ps) = (replicate (length ps - 1) Absorbed @ [Summed ?tot], A)"
    unfolding req vals [symmetric]
    using round_packets_contributions [OF free(4)] free(3) by (intro spec_round_completes [where A = A and k = k, OF none]) auto
  obtain outs M' where r: "xdp_run K M ps = Some (outs, M')" "length outs = length ps"
    "\<forall>j<length ps. xdp_outcome M (ps ! j) ((replicate (length ps - 1) Absorbed @ [Summed ?tot]) ! j) (fst (outs ! j)) (snd (outs ! j))"
    "xdp_tracks M' A"
    using xdp_run_refines [OF ok, of K ps] sp by auto
  let ?l = "length ps - 1"
  have last: "fst (outs ! ?l) = XDP_TX" "forwarded cfg (last ps) ?tot (snd (outs ! ?l))"
    using r(3) [THEN spec, of ?l] free(3) cfg by (simp_all add: xdp_outcome_def last_conv_nth nth_append)
  have "outs = map (\<lambda>p. (XDP_DROP, p)) (butlast ps) @ [(XDP_TX, snd (outs ! ?l))]"
  proof (rule nth_equalityI)
    fix j assume j: "j < length outs"
    show "outs ! j = (map (\<lambda>p. (XDP_DROP, p)) (butlast ps) @ [(XDP_TX, snd (outs ! ?l))]) ! j"
    proof (cases "j < ?l")
      case True
      have "xdp_match (ps ! j)" using free(4) j r(2) by (simp add: round_packets_def)
      then have "outs ! j = (XDP_DROP, ps ! j)"
        using r(3) [THEN spec, of j] True j r(2) by (simp add: xdp_outcome_def nth_append prod_eq_iff)
      with True show ?thesis by (simp add: nth_append nth_butlast)
    next
      case False
      then have "j = ?l" using j r(2) by simp
      then show ?thesis using last(1) by (simp add: nth_append prod_eq_iff)
    qed
  qed (use r(2) free(3) in simp)
  moreover have "slot_map M' k = None" using xdp_tracks_None [OF r(4)] none by simp
  ultimately show ?thesis using r(1) last(2) by metis
qed

end
