(* ===== verification/Xdp_Traffic.thy ===== *)
theory Xdp_Traffic
  imports Xdp_Rounds
begin

text \<open>
  Rounds in the middle of other traffic, with packets sent again and in any order: the first packet of each worker
  counts, and the round goes out with the packet that brings the last worker. What a packet does that
  comes after that.
\<close>

section \<open>The packets for a key\<close>

definition for_key :: "grad_slot_key \<Rightarrow> bytes \<Rightarrow> bool" where
  "for_key k p \<longleftrightarrow> xdp_match p \<and> xdp_valid p \<and> key_of (xdp_hdr p) = k"

abbreviation workers_for :: "grad_slot_key \<Rightarrow> bytes list \<Rightarrow> u16 set" where
  "workers_for k \<equiv> workers_among (for_key k) (\<lambda>p. wire_hdr p 42)"

text \<open>What counts: each worker's first packet.\<close>

abbreviation counted_log :: "contribution list \<Rightarrow> grad_slot_key \<Rightarrow> bytes list \<Rightarrow> contribution list" where
  "counted_log L k \<equiv> counted_among (for_key k) xdp_contribution L"

interpretation xdp_log: packet_log "\<lambda>p. wire_hdr p 42" xdp_contribution
  by unfold_locales (simp add: xdp_contribution_def)

section \<open>An open round\<close>

lemma xdp_request_key: "xdp_request K M p = Some (k, n, c) \<Longrightarrow> for_key k p \<and> n = unat (gh_num_workers (xdp_hdr p)) \<and> c = xdp_contribution p"
  by (auto simp: xdp_request_def for_key_def split: if_splits)

lemma xdp_request_open:
  assumes "xdp_tracks M A" "A k \<noteq> None" "for_key k p"
  shows "xdp_request K M p = Some (k, unat (gh_num_workers (xdp_hdr p)), xdp_contribution p)"
proof -
  have "slot_map M k \<noteq> None" using xdp_tracks_None [OF assms(1), of k] assms(2) by simp
  then show ?thesis using assms(3) by (simp add: xdp_request_def xdp_admits_def for_key_def)
qed

text \<open>A round takes in the packets for it until the last worker comes.\<close>

lemma xdp_traffic_open:
  assumes "config_ok M" "xdp_tracks M A" "A k = Some \<lparr>r_len = len, r_expected = n, r_log = L\<rparr>"
    and "\<forall>p\<in>set ps. for_key k p \<longrightarrow> unat (gh_chunk_len (xdp_hdr p)) = len" "length (counted_log L k ps) < n"
  shows "\<exists>outs M' A'. xdp_run K M ps = Some (outs, M') \<and> length outs = length ps \<and>
    (\<forall>j<length ps. for_key k (ps ! j) \<longrightarrow> outs ! j = (XDP_DROP, ps ! j)) \<and>
    config_map M' = config_map M \<and> xdp_tracks M' A' \<and>
    A' k = Some \<lparr>r_len = len, r_expected = n, r_log = counted_log L k ps\<rparr>"
  using assms
proof (induction ps arbitrary: M A L)
  case (Cons p ps)
  obtain action q M1 v A1 where 1: "netsum_xdp_aggregate K M p = Some (action, q, M1)"
    "spec_request A (xdp_request K M p) = (v, A1)" "xdp_outcome M p v action q" "xdp_tracks M1 A1" "config_map M1 = config_map M"
    using xdp_step_refines [OF Cons.prems(1,2), of K p] by blast
  have ok: "config_ok M1" using Cons.prems(1) 1(5) by (simp add: config_ok_def)
  obtain L1 where L1: "A1 k = Some \<lparr>r_len = len, r_expected = n, r_log = L1\<rparr>" "counted_log L k (p # ps) = counted_log L1 k ps"
    "for_key k p \<longrightarrow> (action, q) = (XDP_DROP, p)"
  proof (cases "for_key k p")
    case False
    then have "A1 k = A k" using 1(2) xdp_request_key by (intro spec_request_frame [of "xdp_request K M p" k]) auto
    then show ?thesis using that [of L] False Cons.prems(3) by simp
  next
    case True
    let ?c = "xdp_contribution p"
    have m: "xdp_match p" using True by (simp add: for_key_def)
    have q: "xdp_request K M p = Some (k, unat (gh_num_workers (xdp_hdr p)), ?c)"
      using Cons.prems(3) by (intro xdp_request_open [OF Cons.prems(2) _ True]) simp
    have "length (snd ?c) = len" using Cons.prems(4) True by (simp add: xdp_contribution_def)
    then have s: "spec_request A (xdp_request K M p) = (if fst ?c \<in> fst ` set L then (Ignored, A)
        else if length (L @ [?c]) = n then (Summed (column_sum len (mset (map snd (L @ [?c])))), A(k := None))
        else (Absorbed, A(k \<mapsto> \<lparr>r_len = len, r_expected = n, r_log = L @ [?c]\<rparr>)))"
      unfolding q using spec_contribute_open [where A = A and k = k and c = ?c, OF Cons.prems(3)] by simp
    show ?thesis
    proof (cases "fst ?c \<in> fst ` set L")
      case dup: True
      then have "v = Ignored" "A1 = A" using s 1(2) by simp_all
      then show ?thesis using that [of L] 1(3) True m Cons.prems(3) dup by (simp add: xdp_outcome_def log_add_dup)
    next
      case new: False
      have "length (L @ [?c]) \<le> length (counted_log L k (p # ps))"
        using counted_among_length [of "L @ [?c]" "for_key k" xdp_contribution ps] True new by (simp add: log_add_new)
      then have "length (L @ [?c]) \<noteq> n" using Cons.prems(5) by simp
      then have "v = Absorbed" "A1 = A(k \<mapsto> \<lparr>r_len = len, r_expected = n, r_log = L @ [?c]\<rparr>)" using s new 1(2) by simp_all
      then show ?thesis using that [of "L @ [?c]"] 1(3) True m new by (simp add: xdp_outcome_def log_add_new)
    qed
  qed
  have len: "\<forall>p\<in>set ps. for_key k p \<longrightarrow> unat (gh_chunk_len (xdp_hdr p)) = len" and n: "length (counted_log L1 k ps) < n"
    using Cons.prems(4,5) L1(2) by simp_all
  obtain outs M' A' where 2: "xdp_run K M1 ps = Some (outs, M')" "length outs = length ps"
    "\<forall>j<length ps. for_key k (ps ! j) \<longrightarrow> outs ! j = (XDP_DROP, ps ! j)" "config_map M' = config_map M1" "xdp_tracks M' A'"
    "A' k = Some \<lparr>r_len = len, r_expected = n, r_log = counted_log L1 k ps\<rparr>"
    using Cons.IH [OF ok 1(4) L1(1) len n] by blast
  have "\<forall>j<length (p # ps). for_key k ((p # ps) ! j) \<longrightarrow> ((action, q) # outs) ! j = (XDP_DROP, (p # ps) ! j)"
    using 2(3) L1(3) by (auto simp: nth_Cons split: nat.split)
  then show ?case using 1(1,5) 2 L1(2) by (intro exI [of _ "(action, q) # outs"] exI [of _ M'] exI [of _ A']) simp
qed auto

text \<open>The packet that brings the last worker.\<close>

lemma xdp_last_worker:
  assumes ok: "config_ok M" "xdp_tracks M A" "config_map M 0 = Some cfg"
    and r: "A k = Some \<lparr>r_len = len, r_expected = n, r_log = L\<rparr>"
    and p: "for_key k p" "unat (gh_chunk_len (xdp_hdr p)) = len"
    and new: "unat (gh_worker_id (xdp_hdr p)) \<notin> fst ` set L" "Suc (length L) = n"
  shows "\<exists>q M'. netsum_xdp_aggregate K M p = Some (XDP_TX, q, M') \<and>
    forwarded cfg p (column_sum len (mset (map snd (L @ [xdp_contribution p])))) q \<and> slot_map M' k = None"
proof -
  let ?c = "xdp_contribution p"
  obtain action q M1 v A1 where 1: "netsum_xdp_aggregate K M p = Some (action, q, M1)"
    "spec_request A (xdp_request K M p) = (v, A1)" "xdp_outcome M p v action q" "xdp_tracks M1 A1"
    using xdp_step_refines [OF ok(1,2), of K p] by blast
  have q: "xdp_request K M p = Some (k, unat (gh_num_workers (xdp_hdr p)), ?c)"
    using r by (intro xdp_request_open [OF ok(2) _ p(1)]) simp
  have "length (snd ?c) = len" "fst ?c \<notin> fst ` set L" using p(2) new(1) by (simp_all add: xdp_contribution_def)
  then have "v = Summed (column_sum len (mset (map snd (L @ [?c]))))" "A1 = A(k := None)"
    using 1(2) spec_contribute_open [where A = A and k = k and c = ?c, OF r] new(2) by (simp_all add: q)
  then show ?thesis using 1(1,3) ok(3) xdp_tracks_None [OF 1(4), of k] by (simp add: xdp_outcome_def)
qed

section \<open>A round in its traffic\<close>

lemma xdp_run_tracks:
  assumes "xdp_run K M0 before = Some (outs, M)" "slot_map M0 = Map.empty" "config_ok M0"
  obtains A where "xdp_tracks M A" "config_map M = config_map M0" "config_ok M"
proof -
  have "xdp_tracks M0 Map.empty" using assms(2) by (simp add: xdp_tracks_def)
  then obtain A where A: "xdp_tracks M A" "config_map M = config_map M0"
    using xdp_run_refines [OF assms(3), of Map.empty K before] assms(1) by auto
  moreover from this have "config_ok M" using assms(3) by (simp add: config_ok_def)
  ultimately show thesis by (rule that)
qed

text \<open>The first packet of a round, admitted.\<close>

lemma xdp_first_packet:
  assumes ok: "config_ok M" "xdp_tracks M A" and free: "slot_map M k = None" "xdp_admits K M p"
    and p: "for_key k p" "unat (gh_num_workers (xdp_hdr p)) \<noteq> 1"
  shows "\<exists>M' A'. netsum_xdp_aggregate K M p = Some (XDP_DROP, p, M') \<and> config_map M' = config_map M \<and> xdp_tracks M' A' \<and>
    A' k = Some \<lparr>r_len = unat (gh_chunk_len (xdp_hdr p)), r_expected = unat (gh_num_workers (xdp_hdr p)), r_log = [xdp_contribution p]\<rparr>"
proof -
  have none: "A k = None" using xdp_tracks_None [OF ok(2)] free(1) by simp
  have q: "xdp_request K M p = Some (k, unat (gh_num_workers (xdp_hdr p)), xdp_contribution p)"
    using p(1) free(2) by (simp add: xdp_request_def for_key_def)
  obtain action q M1 v A1 where 1: "netsum_xdp_aggregate K M p = Some (action, q, M1)"
    "spec_request A (xdp_request K M p) = (v, A1)" "xdp_outcome M p v action q" "xdp_tracks M1 A1" "config_map M1 = config_map M"
    using xdp_step_refines [OF ok, of K p] by blast
  have "v = Absorbed" "A1 = A(k \<mapsto> \<lparr>r_len = unat (gh_chunk_len (xdp_hdr p)), r_expected = unat (gh_num_workers (xdp_hdr p)),
      r_log = [xdp_contribution p]\<rparr>)"
    using 1(2) none p(2) by (simp_all add: q spec_contribute_def round_of_def Let_def xdp_contribution_def)
  then show ?thesis using 1 p(1) by (intro exI [of _ M1] exI [of _ A1]) (simp add: xdp_outcome_def for_key_def)
qed

lemma xdp_run_append:
  "xdp_run K M (ps @ qs) = do {
     (outs, M1) \<leftarrow> xdp_run K M ps;
     (outs', M') \<leftarrow> xdp_run K M1 qs;
     Some (outs @ outs', M') }"
proof (induction ps arbitrary: M)
  case Nil
  show ?case by (cases "xdp_run K M qs") auto
next
  case (Cons p ps)
  show ?case
  proof (cases "netsum_xdp_aggregate K M p")
    case (Some r)
    obtain a q M1 where r: "r = (a, q, M1)" by (cases r)
    show ?thesis
    proof (cases "xdp_run K M1 ps")
      case 1: (Some r1)
      then show ?thesis using Some r Cons [of M1] by (cases "xdp_run K (snd r1) qs") (auto simp: split_beta)
    qed (use Some r Cons [of M1] in simp)
  qed simp
qed

lemma xdp_traffic_completes:
  assumes ok: "config_ok M" "xdp_tracks M A" "config_map M 0 = Some cfg"
    and ends: "ps \<noteq> []" "for_key k (hd ps)" "for_key k (last ps)" and free: "slot_map M k = None" "xdp_admits K M (hd ps)"
    and len: "\<forall>p\<in>set ps. for_key k p \<longrightarrow> unat (gh_chunk_len (xdp_hdr p)) = len"
    and n: "card (workers_for k (butlast ps)) + 1 = unat (gh_num_workers (xdp_hdr (hd ps)))"
    and last: "gh_worker_id (xdp_hdr (last ps)) \<notin> workers_for k (butlast ps)"
  shows "\<exists>outs q M'. xdp_run K M ps = Some (outs @ [(XDP_TX, q)], M') \<and> length outs = length ps - 1 \<and>
    (\<forall>j<length outs. for_key k (ps ! j) \<longrightarrow> outs ! j = (XDP_DROP, ps ! j)) \<and>
    forwarded cfg (last ps) (column_sum len (mset (map snd (counted_log [] k ps)))) q \<and> slot_map M' k = None"
proof (cases "butlast ps = []")
  case True
  then obtain p where ps: "ps = [p]" using ends(1) by (cases ps) (auto split: if_splits)
  have "round_packets k (length ps) len ps"
    using ends len n ps by (auto simp: round_packets_def for_key_def workers_among_def)
  from xdp_completes [OF ok free ends(1) this] ps ends(2) show ?thesis
    by (auto simp: log_add_new xdp_contribution_def)
next
  case False
  then obtain p0 mid p where ps: "ps = p0 # mid @ [p]" using ends(1)
    by (metis append_butlast_last_id append_Cons list.exhaust)
  have p0: "for_key k p0" and p: "for_key k p" using ends(2,3) ps by simp_all
  let ?n = "unat (gh_num_workers (xdp_hdr p0))" and ?start = "[xdp_contribution p0]"
  let ?L = "counted_log ?start k mid"
  have bl: "butlast ps = p0 # mid" using ps by simp
  have cl: "counted_log [] k (p0 # mid) = ?L" using p0 by (simp add: log_add_new)
  have ln: "Suc (length ?L) = ?n" using n unfolding bl xdp_log.counted_size [symmetric] cl by (simp add: ps)
  then have n1: "?n \<noteq> 1" using counted_among_length [of ?start "for_key k" xdp_contribution mid] by (simp del: wire_hdr_sel)
  have l0: "unat (gh_chunk_len (xdp_hdr p0)) = len" "unat (gh_chunk_len (xdp_hdr p)) = len"
    and lm: "\<forall>p\<in>set mid. for_key k p \<longrightarrow> unat (gh_chunk_len (xdp_hdr p)) = len"
    using len p0 p ps by simp_all
  obtain M1 A1 where 1: "netsum_xdp_aggregate K M p0 = Some (XDP_DROP, p0, M1)" "config_map M1 = config_map M" "xdp_tracks M1 A1"
    "A1 k = Some \<lparr>r_len = len, r_expected = ?n, r_log = ?start\<rparr>"
    using xdp_first_packet [OF ok(1,2) free(1) _ p0 n1, of K] free(2) l0(1) ps by auto
  have ok1: "config_ok M1" using ok(1) 1(2) by (simp add: config_ok_def)
  obtain outs M2 A2 where 2: "xdp_run K M1 mid = Some (outs, M2)" "length outs = length mid"
    "\<forall>j<length mid. for_key k (mid ! j) \<longrightarrow> outs ! j = (XDP_DROP, mid ! j)" "config_map M2 = config_map M1" "xdp_tracks M2 A2"
    "A2 k = Some \<lparr>r_len = len, r_expected = ?n, r_log = ?L\<rparr>"
    using xdp_traffic_open [OF ok1 1(3,4) lm, of K] ln by (auto simp del: wire_hdr_sel)
  have ok2: "config_ok M2" "config_map M2 0 = Some cfg" using ok(3) ok1 1(2) 2(4) by (simp_all add: config_ok_def)
  have "gh_worker_id (xdp_hdr p) \<notin> workers_for k (p0 # mid)" using last unfolding bl by (simp add: ps del: wire_hdr_sel)
  note c = xdp_log.counted_new [where p = p, OF this, unfolded cl]
  have "unat (gh_worker_id (xdp_hdr p)) \<notin> fst ` set ?L" using c(1) by (simp add: xdp_contribution_def)
  from xdp_last_worker [OF ok2(1) 2(5) ok2(2) 2(6) p l0(2) this ln]
  obtain q M' where 3: "netsum_xdp_aggregate K M2 p = Some (XDP_TX, q, M')"
    "forwarded cfg p (column_sum len (mset (map snd (?L @ [xdp_contribution p])))) q" "slot_map M' k = None"
    by blast
  have "counted_log [] k ps = ?L @ [xdp_contribution p]" using c(2) [OF p] by (simp only: ps append_Cons)
  moreover have "xdp_run K M ps = Some (((XDP_DROP, p0) # outs) @ [(XDP_TX, q)], M')"
    unfolding ps using 1(1) 2(1) 3(1) by (simp add: xdp_run_append)
  moreover have "\<forall>j<length ((XDP_DROP, p0) # outs). for_key k (ps ! j) \<longrightarrow> ((XDP_DROP, p0) # outs) ! j = (XDP_DROP, ps ! j)"
    using 2(2,3) unfolding ps by (auto simp: nth_Cons nth_append split: nat.split)
  ultimately show ?thesis using 3(2,3) 2(2) ps
    by (intro exI [of _ "(XDP_DROP, p0) # outs"] exI [of _ q] exI [of _ M']) simp
qed

section \<open>Too late\<close>

text \<open>
  A packet that comes when its round is over opens the slot again, and as long as no other worker does the same
  nothing closes it.
\<close>

lemma xdp_reopens:
  assumes ok: "config_ok M" "xdp_tracks M A" and free: "slot_map M k = None" "xdp_admits K M p"
    and p: "for_key k p" "unat (gh_num_workers (xdp_hdr p)) \<noteq> 1"
    and later: "\<forall>p'\<in>set later. for_key k p' \<longrightarrow> gh_chunk_len (xdp_hdr p') = gh_chunk_len (xdp_hdr p) \<and> gh_worker_id (xdp_hdr p') = gh_worker_id (xdp_hdr p)"
  shows "\<exists>outs M' s. xdp_run K M (p # later) = Some (outs, M') \<and> slot_map M' k = Some s \<and> gs_contributions_received s = 1 \<and>
    (\<forall>j<length outs. for_key k ((p # later) ! j) \<longrightarrow> outs ! j = (XDP_DROP, (p # later) ! j))"
proof -
  let ?n = "unat (gh_num_workers (xdp_hdr p))" and ?L = "[xdp_contribution p]"
  obtain M1 A1 where 1: "netsum_xdp_aggregate K M p = Some (XDP_DROP, p, M1)" "config_map M1 = config_map M" "xdp_tracks M1 A1"
    "A1 k = Some \<lparr>r_len = unat (gh_chunk_len (xdp_hdr p)), r_expected = ?n, r_log = ?L\<rparr>"
    using xdp_first_packet [OF ok free p] by blast
  have "counted_log ?L k later = ?L"
    using later
  proof (induction later)
    case (Cons p' later)
    then show ?case by (cases "for_key k p'") (simp_all add: log_add_dup xdp_contribution_def)
  qed simp
  moreover have "slot_map M1 k \<noteq> None" using xdp_tracks_None [OF 1(3), of k] 1(4) by simp
  then obtain s1 where "slot_round s1 \<lparr>r_len = unat (gh_chunk_len (xdp_hdr p)), r_expected = ?n, r_log = ?L\<rparr>"
    using xdp_tracks_Some [OF 1(3), of k] 1(4) by auto
  then have "1 < ?n" by (simp add: slot_round_def)
  moreover have "config_ok M1" using ok(1) 1(2) by (simp add: config_ok_def)
  ultimately obtain outs M' A' where 2: "xdp_run K M1 later = Some (outs, M')" "length outs = length later"
    "\<forall>j<length later. for_key k (later ! j) \<longrightarrow> outs ! j = (XDP_DROP, later ! j)" "xdp_tracks M' A'"
    "A' k = Some \<lparr>r_len = unat (gh_chunk_len (xdp_hdr p)), r_expected = ?n, r_log = ?L\<rparr>"
    using xdp_traffic_open [OF _ 1(3,4), of later K] later by auto
  obtain s where s: "slot_map M' k = Some s" using xdp_tracks_None [OF 2(4), of k] 2(5) by auto
  then have "gs_contributions_received s = 1"
    using xdp_tracks_Some [OF 2(4) s] 2(5) by (auto simp: slot_round_def word_unat_eq_iff)
  moreover have "\<forall>j<length ((XDP_DROP, p) # outs). for_key k ((p # later) ! j) \<longrightarrow> ((XDP_DROP, p) # outs) ! j = (XDP_DROP, (p # later) ! j)"
    using 2(2,3) by (auto simp: nth_Cons split: nat.split)
  ultimately show ?thesis using 1(1) 2(1) s by (intro exI [of _ "(XDP_DROP, p) # outs"] exI [of _ M'] exI [of _ s]) simp
qed

end
