(* ===== verification/Xdp_Quota.thy ===== *)
theory Xdp_Quota
  imports Xdp_Refine
begin

text \<open>
  The per-job admission quota of the kernel aggregator. The locale \<open>xdp_invariant\<close> reduces a
  statement about all runs to the four ways the program changes its maps (\<open>xdp_key_invariant\<close> when only packets for some keys come); its interpretations are
  the accounting of \<open>job_quota_map\<close>: the counter of a job never exceeds the number of its open
  slots, whatever the maps have room for (\<open>counted\<close>), and is that number, with the quota respected,
  as long as the maps hold what their \<open>max_entries\<close> promise (\<open>exact\<close>).
\<close>

section \<open>The ways the maps change\<close>

text \<open>\<open>Q\<close> says which keys the packets are for.\<close>

locale xdp_key_invariant =
  fixes K :: kernel and P :: "xdp_maps \<Rightarrow> bool" and Q :: "grad_slot_key \<Rightarrow> bool"
  assumes stat: "P M \<Longrightarrow> P (bump_stat K s M)"
    and upd: "P M \<Longrightarrow> Q k \<Longrightarrow> slot_map M k = Some t \<Longrightarrow> P (M\<lparr>slot_map := (slot_map M)(k \<mapsto> t')\<rparr>)"
    and create: "P M \<Longrightarrow> Q k \<Longrightarrow> slot_map M k = None \<Longrightarrow> \<not> over_quota M (k_job_id k) \<Longrightarrow> slot_room K (slot_map M) k \<Longrightarrow>
      P (job_quota_increment K (k_job_id k) (M\<lparr>slot_map := (slot_map M)(k \<mapsto> t')\<rparr>))"
    and close: "P M \<Longrightarrow> Q k \<Longrightarrow> slot_map M k = Some t \<Longrightarrow>
      P (job_quota_decrement (k_job_id k) (M\<lparr>slot_map := (slot_map M)(k := None)\<rparr>))"
begin

lemma contribute:
  assumes c: "xdp_contribute K p s M = Some (action, q, M')" and P: "P M"
    and Q: "Q (key_of (xdp_hdr p))" and s: "slot_map M (key_of (xdp_hdr p)) = Some s"
  shows "P M'"
proof -
  let ?k = "key_of (xdp_hdr p)"
  obtain u where u: "xdp_locked p (parsed_of p) s = Some u"
    using c by (cases "xdp_locked p (parsed_of p) s") (simp_all add: xdp_contribute_def)
  show ?thesis
  proof (cases u)
    case None
    with c u P show ?thesis by (simp add: xdp_contribute_def)
  next
    case (Some t)
    obtain slot p' is_complete n where t: "t = (slot, p', is_complete, n)" by (cases t) auto
    let ?M = "M\<lparr>slot_map := (slot_map M)(?k \<mapsto> slot)\<rparr>"
    have M: "P ?M" using P Q s by (rule upd)
    have closed: "P (job_quota_decrement (k_job_id ?k) (?M\<lparr>slot_map := (slot_map ?M)(?k := None)\<rparr>))"
      using M Q by (rule close) simp
    have fin: "xdp_finish K ?k is_complete n p' ?M = Some (action, q, M')"
      using c u Some t by (simp add: xdp_contribute_def)
    show ?thesis
    proof (cases is_complete)
      case False
      then show ?thesis using fin M by (simp add: xdp_finish_def)
    next
      case True
      then show ?thesis
        using fin closed stat [OF closed] by (auto simp: xdp_finish_def split: option.splits bind_splits)
    qed
  qed
qed

lemma key_step:
  assumes st: "netsum_xdp_aggregate K M p = Some (action, q, M')" and P: "P M"
    and Q: "xdp_match p \<Longrightarrow> xdp_valid p \<Longrightarrow> Q (key_of (xdp_hdr p))"
  shows "P M'"
proof (cases "xdp_match p \<and> xdp_valid p")
  case False
  then show ?thesis using st P netsum_rejected [of p K M] by (cases "xdp_match p") auto
next
  case True
  let ?k = "key_of (xdp_hdr p)"
  have q: "Q ?k" using True Q by blast
  have job: "k_job_id ?k = gh_job_id (xdp_hdr p)" by (simp add: key_of_def)
  note st' = st [unfolded netsum_parsed [OF conjunct1 [OF True] conjunct2 [OF True]]]
  show ?thesis
  proof (cases rule: xdp_slot_for_cases [OF conjunct1 [OF True], of M K, case_names found workers quota full created])
    case (found s)
    then show ?thesis using st' contribute [OF _ P q found(1)] by simp
  next
    case created
    have "P (created K p M)"
      using create [OF P q created(1), of "fresh_slot p"] created(3,4) by (simp add: created_def job)
    then show ?thesis using st' created(5) contribute [of p "fresh_slot p" "created K p M" action _ M'] q by simp
  qed (use st' P stat [OF P] in auto)
qed

end

locale xdp_invariant = xdp_key_invariant K P "\<lambda>k. True" for K :: kernel and P :: "xdp_maps \<Rightarrow> bool"
begin

lemma step: "netsum_xdp_aggregate K M p = Some (action, q, M') \<Longrightarrow> P M \<Longrightarrow> P M'"
  by (rule key_step) simp_all

lemma run: "xdp_run K M ps = Some (outs, M') \<Longrightarrow> P M \<Longrightarrow> P M'"
proof (induction ps arbitrary: M outs)
  case (Cons p ps)
  then show ?case by (auto simp: split_beta split: bind_splits dest: step)
qed simp

end

section \<open>Open slots and the counter\<close>

abbreviation of_job :: "u32 \<Rightarrow> grad_slot_key \<Rightarrow> bool" where "of_job job k \<equiv> k_job_id k = job"

definition open_slots :: "u32 \<Rightarrow> xdp_maps \<Rightarrow> nat" where
  "open_slots job M = count_keys (of_job job) (slot_map M)"

lemma open_slots_frame [simp]:
  "open_slots j (bump_stat K s M) = open_slots j M"
  "open_slots j (job_quota_increment K i M) = open_slots j M"
  "open_slots j (job_quota_decrement i M) = open_slots j M"
  by (simp_all add: open_slots_def)

lemma open_slots_upd:
  "slot_map M k = Some t \<Longrightarrow> open_slots j (M\<lparr>slot_map := (slot_map M)(k \<mapsto> t')\<rparr>) = open_slots j M"
  by (simp add: open_slots_def count_keys_replace)

lemma open_slots_create:
  "finite (dom (slot_map M)) \<Longrightarrow> slot_map M k = None \<Longrightarrow>
     open_slots j (M\<lparr>slot_map := (slot_map M)(k \<mapsto> t)\<rparr>) = open_slots j M + (if k_job_id k = j then 1 else 0)"
  by (simp add: open_slots_def count_keys_insert)

lemma open_slots_close:
  "finite (dom (slot_map M)) \<Longrightarrow> slot_map M k = Some t \<Longrightarrow>
     open_slots j M = open_slots j (M\<lparr>slot_map := (slot_map M)(k := None)\<rparr>) + (if k_job_id k = j then 1 else 0)"
  by (simp add: open_slots_def count_keys_delete)

lemma open_slots_le: "finite (dom (slot_map M)) \<Longrightarrow> open_slots j M \<le> card (dom (slot_map M))"
  unfolding open_slots_def count_keys_def by (intro card_mono) auto

lemma increment_cases:
  obtains (counted) jq where "job_quota_map M job = Some jq"
      "job_quota_map (job_quota_increment K job M) =
         (job_quota_map M)(job \<mapsto> jq\<lparr>concurrent_slots := concurrent_slots jq + 1\<rparr>)"
    | (first) "job_quota_map M job = None" "quota_room K (job_quota_map M) job"
      "job_quota_map (job_quota_increment K job M) = (job_quota_map M)(job \<mapsto> \<lparr>concurrent_slots = 1\<rparr>)"
    | (untracked) "job_quota_map M job = None" "\<not> quota_room K (job_quota_map M) job"
      "job_quota_map (job_quota_increment K job M) = job_quota_map M"
proof (cases "job_quota_map M job")
  case None
  then show ?thesis
    by (cases "quota_room K (job_quota_map M) job")
      (rule first untracked; simp add: job_quota_increment_def add_slots_def)+
next
  case (Some jq)
  then show ?thesis by (intro counted) (simp_all add: job_quota_increment_def add_slots_def)
qed

lemma decrement_cases:
  obtains (counted) jq where "job_quota_map M job = Some jq" "concurrent_slots jq \<noteq> 0"
      "job_quota_map (job_quota_decrement job M) =
         (job_quota_map M)(job \<mapsto> jq\<lparr>concurrent_slots := concurrent_slots jq - 1\<rparr>)"
    | (zero) jq where "job_quota_map M job = Some jq" "concurrent_slots jq = 0"
      "job_quota_map (job_quota_decrement job M) = job_quota_map M"
    | (untracked) "job_quota_map M job = None" "job_quota_map (job_quota_decrement job M) = job_quota_map M"
proof (cases "job_quota_map M job")
  case None
  then show ?thesis by (intro untracked) (simp_all add: job_quota_decrement_def)
next
  case (Some jq)
  then show ?thesis
    by (cases "concurrent_slots jq = 0")
      (rule zero [of jq] counted [of jq]; simp add: job_quota_decrement_def add_slots_def word_neq_0_conv)+
qed

lemma unat_word_dec: "x \<noteq> 0 \<Longrightarrow> unat (x - 1 :: u32) = unat x - 1"
  by (simp add: unat_minus_one)

section \<open>The counter never exceeds the open slots\<close>

definition slots_bounded :: "kernel \<Rightarrow> xdp_maps \<Rightarrow> bool" where
  "slots_bounded K M \<longleftrightarrow> room_up_to 65536 (slot_room K) \<and> finite (dom (slot_map M)) \<and> card (dom (slot_map M)) \<le> 65536"

lemma slots_bounded_frame [simp]:
  "slots_bounded K (bump_stat K' s M) = slots_bounded K M"
  "slots_bounded K (job_quota_increment K' j M) = slots_bounded K M"
  "slots_bounded K (job_quota_decrement j M) = slots_bounded K M"
  by (simp_all add: slots_bounded_def)

lemma slots_bounded_upd:
  "slots_bounded K M \<Longrightarrow> slot_map M k = Some t \<Longrightarrow> slots_bounded K (M\<lparr>slot_map := (slot_map M)(k \<mapsto> t')\<rparr>)"
  by (auto simp: slots_bounded_def insert_absorb domI)

lemma slots_bounded_create:
  "slots_bounded K M \<Longrightarrow> slot_map M k = None \<Longrightarrow> slot_room K (slot_map M) k \<Longrightarrow>
     slots_bounded K (M\<lparr>slot_map := (slot_map M)(k \<mapsto> t)\<rparr>)"
  by (auto simp: slots_bounded_def room_up_to_def card_insert_if)

lemma slots_bounded_close:
  "slots_bounded K M \<Longrightarrow> slots_bounded K (M\<lparr>slot_map := (slot_map M)(k := None)\<rparr>)"
  unfolding slots_bounded_def using card_mono [of "dom (slot_map M)" "dom (slot_map M) - {k}"] by auto

lemma slots_bounded_open: "slots_bounded K M \<Longrightarrow> open_slots j M \<le> 65536"
  using open_slots_le [of M j] by (simp add: slots_bounded_def)

definition quota_counted :: "kernel \<Rightarrow> xdp_maps \<Rightarrow> bool" where
  "quota_counted K M \<longleftrightarrow> slots_bounded K M \<and>
     (\<forall>job jq. job_quota_map M job = Some jq \<longrightarrow> unat (concurrent_slots jq) \<le> open_slots job M)"

interpretation counted: xdp_invariant K "quota_counted K" for K
proof unfold_locales
  fix M :: xdp_maps and k :: grad_slot_key and t t' :: grad_slot and s :: u32
  assume P: "quota_counted K M"
  then have b: "slots_bounded K M" and le: "\<And>job jq. job_quota_map M job = Some jq \<Longrightarrow>
      unat (concurrent_slots jq) \<le> open_slots job M"
    by (auto simp: quota_counted_def)
  have fin: "finite (dom (slot_map M))" using b by (simp add: slots_bounded_def)
  show "quota_counted K (bump_stat K s M)" using P by (simp add: quota_counted_def)
  show "quota_counted K (M\<lparr>slot_map := (slot_map M)(k \<mapsto> t')\<rparr>)" if "slot_map M k = Some t"
    using b le slots_bounded_upd [OF b that] by (simp add: quota_counted_def open_slots_upd [OF that])
  show "quota_counted K (job_quota_increment K (k_job_id k) (M\<lparr>slot_map := (slot_map M)(k \<mapsto> t')\<rparr>))"
    if none: "slot_map M k = None" and room: "slot_room K (slot_map M) k"
  proof -
    let ?M = "M\<lparr>slot_map := (slot_map M)(k \<mapsto> t')\<rparr>"
    have c: "open_slots j ?M = open_slots j M + (if k_job_id k = j then 1 else 0)" for j
      using fin none by (rule open_slots_create)
    have inc: "unat (x + 1) \<le> Suc n" if "unat x \<le> n" "n \<le> 65536" for x :: u32 and n
      using that by (simp add: unat_word_ariths)
    show ?thesis
      unfolding quota_counted_def open_slots_frame c slots_bounded_frame
      using slots_bounded_create [OF b none room]
      by (cases rule: increment_cases [of ?M "k_job_id k" K])
        (auto simp: fun_upd_def intro: le inc slots_bounded_open [OF b] order_trans [OF le] split: if_splits)
  qed
  show "quota_counted K (job_quota_decrement (k_job_id k) (M\<lparr>slot_map := (slot_map M)(k := None)\<rparr>))"
    if some: "slot_map M k = Some t"
  proof -
    let ?M = "M\<lparr>slot_map := (slot_map M)(k := None)\<rparr>"
    have c: "open_slots j M = open_slots j ?M + (if k_job_id k = j then 1 else 0)" for j
      using fin some by (rule open_slots_close)
    have "unat (concurrent_slots jq') \<le> open_slots j ?M"
      if q: "job_quota_map (job_quota_decrement (k_job_id k) ?M) j = Some jq'" for j jq'
    proof (cases rule: decrement_cases [of ?M "k_job_id k"])
      case (counted jq)
      then show ?thesis using q le [of "k_job_id k" jq] le [of j jq'] c [of j]
        by (auto simp: unat_word_dec split: if_splits)
    next
      case (zero jq)
      then show ?thesis using q le [of j jq'] c [of j] by (cases "j = k_job_id k") auto
    next
      case untracked
      then show ?thesis using q le [of j jq'] c [of j] by (cases "j = k_job_id k") auto
    qed
    then show ?thesis using slots_bounded_close [OF b] by (simp add: quota_counted_def)
  qed
qed

section \<open>Exact accounting\<close>

definition quota_entry_ok :: "xdp_maps \<Rightarrow> u32 \<Rightarrow> nat \<Rightarrow> bool" where
  "quota_entry_ok M job n \<longleftrightarrow>
     (case job_quota_map M job of
        Some jq \<Rightarrow> unat (concurrent_slots jq) = n \<and>
          (\<forall>cfg. config_map M 0 = Some cfg \<longrightarrow> 0 < max_slots_per_job cfg \<longrightarrow> n \<le> unat (max_slots_per_job cfg))
      | None \<Rightarrow> n = 0 \<or> 256 \<le> card (dom (job_quota_map M)))"

definition quota_exact :: "kernel \<Rightarrow> xdp_maps \<Rightarrow> bool" where
  "quota_exact K M \<longleftrightarrow> slots_bounded K M \<and> room_up_to 256 (quota_room K) \<and> finite (dom (job_quota_map M)) \<and>
     (\<forall>job. quota_entry_ok M job (open_slots job M))"

text \<open>What the counter of the job does when a slot is created, and that it does not disturb others.\<close>

lemma quota_create:
  assumes "finite (dom (job_quota_map M))" "room_up_to 256 (quota_room K)" "\<not> over_quota M job"
    and "\<And>j. quota_entry_ok M j (n j)" "\<And>j. n j \<le> 65536"
  shows "finite (dom (job_quota_map (job_quota_increment K job M)))"
    "quota_entry_ok (job_quota_increment K job M) j (n j + (if job = j then 1 else 0))"
proof -
  show "finite (dom (job_quota_map (job_quota_increment K job M)))"
    using assms(1) by (cases rule: increment_cases [of M job K]) auto
  have mono: "quota_entry_ok M' j (n j)" if "job_quota_map M' j = job_quota_map M j" "config_map M' = config_map M"
    "card (dom (job_quota_map M)) \<le> card (dom (job_quota_map M'))" for M' j
    using assms(4) [of j] that by (auto simp: quota_entry_ok_def split: option.splits)
  have card: "card (dom (job_quota_map M)) \<le> card (dom ((job_quota_map M)(job \<mapsto> x)))" for x
    using assms(1) by (intro card_mono) auto
  show "quota_entry_ok (job_quota_increment K job M) j (n j + (if job = j then 1 else 0))"
  proof (cases "job = j")
    case False
    then show ?thesis
      by (cases rule: increment_cases [of M job K]) (use False card in \<open>auto intro!: mono\<close>)
  next
    case True
    show ?thesis
    proof (cases rule: increment_cases [of M job K, case_names counted first untracked])
      case (counted jq)
      have n: "unat (concurrent_slots jq) = n j" using assms(4) [of j] counted(1) True by (simp add: quota_entry_ok_def)
      then have "unat (concurrent_slots jq + 1) = n j + 1" using assms(5) [of j] by (simp add: unat_word_ariths)
      moreover have "n j + 1 \<le> unat (max_slots_per_job cfg)"
        if "config_map M 0 = Some cfg" "0 < max_slots_per_job cfg" for cfg
        using assms(3) that counted(1) n by (auto simp: over_quota_def word_le_nat_alt not_le)
      ultimately show ?thesis using counted True by (simp add: quota_entry_ok_def)
    next
      case first
      then have "card (dom (job_quota_map M)) < 256" using assms(1,2) by (simp add: room_up_to_def)
      then have "n j = 0" using assms(4) [of j] first(1) True by (simp add: quota_entry_ok_def)
      then show ?thesis using first True by (simp add: quota_entry_ok_def word_less_nat_alt)
    next
      case untracked
      then have "256 \<le> card (dom (job_quota_map M))" using assms(1,2) by (simp add: room_up_to_def)
      then show ?thesis using untracked True by (simp add: quota_entry_ok_def)
    qed
  qed
qed

lemma quota_close:
  assumes "finite (dom (job_quota_map M))" "\<And>j. quota_entry_ok M j (n j + (if job = j then 1 else 0))"
  shows "finite (dom (job_quota_map (job_quota_decrement job M)))" "quota_entry_ok (job_quota_decrement job M) j (n j)"
proof -
  note ok = assms(2) [of j, unfolded quota_entry_ok_def] assms(2) [of job, unfolded quota_entry_ok_def]
  show "finite (dom (job_quota_map (job_quota_decrement job M)))"
    using assms(1) by (cases rule: decrement_cases [of M job]) auto
  show "quota_entry_ok (job_quota_decrement job M) j (n j)"
  proof (cases rule: decrement_cases [of M job, case_names counted zero untracked])
    case (counted jq)
    have d: "dom ((job_quota_map M)(job \<mapsto> x)) = dom (job_quota_map M)" for x
      using counted(1) by auto
    show ?thesis using counted ok
      by (auto simp: quota_entry_ok_def unat_word_dec d simp del: dom_fun_upd split: option.splits if_splits)
  next
    case (zero jq)
    then show ?thesis using ok by (auto simp: quota_entry_ok_def split: option.splits if_splits)
  next
    case untracked
    then show ?thesis using ok by (auto simp: quota_entry_ok_def split: option.splits if_splits)
  qed
qed

lemma quota_entry_frame:
  "job_quota_map M' = job_quota_map M \<Longrightarrow> config_map M' = config_map M \<Longrightarrow> quota_entry_ok M' j n \<longleftrightarrow> quota_entry_ok M j n"
  by (simp add: quota_entry_ok_def split: option.split)

interpretation exact: xdp_invariant K "quota_exact K" for K
proof unfold_locales
  fix M :: xdp_maps and k :: grad_slot_key and t t' :: grad_slot and s :: u32
  assume P: "quota_exact K M"
  then have b: "slots_bounded K M" and r: "room_up_to 256 (quota_room K)" and fq: "finite (dom (job_quota_map M))"
    and ok: "\<And>j. quota_entry_ok M j (open_slots j M)"
    by (auto simp: quota_exact_def)
  have fin: "finite (dom (slot_map M))" using b by (simp add: slots_bounded_def)
  show "quota_exact K (bump_stat K s M)"
    using P by (simp add: quota_exact_def quota_entry_frame [of "bump_stat K s M" M])
  show "quota_exact K (M\<lparr>slot_map := (slot_map M)(k \<mapsto> t')\<rparr>)" if "slot_map M k = Some t"
    using P slots_bounded_upd [OF b that]
    by (simp add: quota_exact_def open_slots_upd [OF that] quota_entry_frame [of "M\<lparr>slot_map := _\<rparr>" M])
  show "quota_exact K (job_quota_increment K (k_job_id k) (M\<lparr>slot_map := (slot_map M)(k \<mapsto> t')\<rparr>))"
    if none: "slot_map M k = None" and q: "\<not> over_quota M (k_job_id k)" and room: "slot_room K (slot_map M) k"
  proof -
    let ?M = "M\<lparr>slot_map := (slot_map M)(k \<mapsto> t')\<rparr>"
    have q': "\<not> over_quota ?M (k_job_id k)" using q by (simp add: over_quota_def)
    have ok': "quota_entry_ok ?M j (open_slots j M)" for j
      using ok by (simp add: quota_entry_frame [of ?M M])
    show ?thesis
      using quota_create [where M = ?M and n = "\<lambda>j. open_slots j M", OF _ r q' ok' slots_bounded_open [OF b]]
        fq r slots_bounded_create [OF b none room]
      by (simp add: quota_exact_def open_slots_create [OF fin none])
  qed
  show "quota_exact K (job_quota_decrement (k_job_id k) (M\<lparr>slot_map := (slot_map M)(k := None)\<rparr>))"
    if some: "slot_map M k = Some t"
  proof -
    let ?M = "M\<lparr>slot_map := (slot_map M)(k := None)\<rparr>"
    have ok': "quota_entry_ok ?M j (open_slots j ?M + (if k_job_id k = j then 1 else 0))" for j
      using ok [of j] unfolding open_slots_close [OF fin some, of j] by (simp add: quota_entry_frame [of ?M M])
    show ?thesis
      using quota_close [where M = ?M and n = "\<lambda>j. open_slots j ?M", OF _ ok'] fq r slots_bounded_close [OF b]
      by (simp add: quota_exact_def)
  qed
qed

section \<open>Runs from empty maps\<close>

lemma quota_start:
  assumes "slot_map M = Map.empty" "job_quota_map M = Map.empty" "room_up_to 65536 (slot_room K)"
  shows "quota_counted K M" "room_up_to 256 (quota_room K) \<Longrightarrow> quota_exact K M"
  using assms
  by (simp_all add: quota_counted_def quota_exact_def quota_entry_ok_def slots_bounded_def open_slots_def count_keys_def)

section \<open>A job the quota map has no room for\<close>

text \<open>
  Entries of \<open>job_quota_map\<close> are never deleted. Once 256 other jobs have been seen, a further job is
  not counted, so that none of its slots is ever refused.
\<close>

lemma job_id_of_key [simp]: "k_job_id (key_of h) = gh_job_id h"
  by (simp add: key_of_def)

lemma untracked_opens:
  assumes K: "room_up_to 65536 (slot_room K)" "room_up_to 256 (quota_room K)"
    and full: "finite (dom (job_quota_map M))" "256 \<le> card (dom (job_quota_map M))" "job_quota_map M (gh_job_id (xdp_hdr p)) = None"
    and p: "xdp_match p" "xdp_valid p" "workers_ok (gh_num_workers (xdp_hdr p))" "gh_num_workers (xdp_hdr p) \<noteq> 1"
    and free: "slot_map M (key_of (xdp_hdr p)) = None" "finite (dom (slot_map M))" "card (dom (slot_map M)) < 65536"
  obtains s where "netsum_xdp_aggregate K M p = Some (XDP_DROP, p, M\<lparr>slot_map := (slot_map M)(key_of (xdp_hdr p) \<mapsto> s)\<rparr>)"
proof -
  let ?k = "key_of (xdp_hdr p)"
  have adm: "xdp_admits K M p"
    using K(1) free full(3) p(3) by (simp add: xdp_admits_def over_quota_def room_up_to_def)
  have noroom: "\<not> quota_room K (job_quota_map M) j" for j using K(2) full by (simp add: room_up_to_def)
  have M: "created K p M = M\<lparr>slot_map := (slot_map M)(?k \<mapsto> fresh_slot p)\<rparr>"
    using full(3) noroom by (simp add: created_def job_quota_increment_def add_slots_def)
  show thesis
    using xdp_opens [OF p(1,2,4) free(1) adm] that by (auto simp: M)
qed

lemma untracked_unlimited:
  assumes K: "room_up_to 65536 (slot_room K)" "room_up_to 256 (quota_room K)"
    and full: "finite (dom (job_quota_map M))" "256 \<le> card (dom (job_quota_map M))" "job_quota_map M job = None"
    and slots: "finite (dom (slot_map M))" "card (dom (slot_map M)) + length ps \<le> 65536"
    and ps: "\<forall>p\<in>set ps. xdp_match p \<and> xdp_valid p \<and> workers_ok (gh_num_workers (xdp_hdr p)) \<and>
        gh_num_workers (xdp_hdr p) \<noteq> 1 \<and> gh_job_id (xdp_hdr p) = job \<and> slot_map M (key_of (xdp_hdr p)) = None"
      "distinct (map (\<lambda>p. key_of (xdp_hdr p)) ps)"
  shows "\<exists>outs M'. xdp_run K M ps = Some (outs, M') \<and> open_slots job M' = open_slots job M + length ps"
  using full slots ps
proof (induction ps arbitrary: M)
  case (Cons p ps)
  let ?k = "key_of (xdp_hdr p)"
  have p: "xdp_match p" "xdp_valid p" "workers_ok (gh_num_workers (xdp_hdr p))" "gh_num_workers (xdp_hdr p) \<noteq> 1"
    "gh_job_id (xdp_hdr p) = job" "slot_map M ?k = None"
    using Cons.prems(6) by simp_all
  obtain s where s: "netsum_xdp_aggregate K M p = Some (XDP_DROP, p, M\<lparr>slot_map := (slot_map M)(?k \<mapsto> s)\<rparr>)"
    using untracked_opens [OF K Cons.prems(1,2) _ p(1-4) p(6) Cons.prems(4)] Cons.prems(3,5) p(5) by auto
  let ?M = "M\<lparr>slot_map := (slot_map M)(?k \<mapsto> s)\<rparr>"
  have cd: "card (dom (slot_map ?M)) = card (dom (slot_map M)) + 1"
    using Cons.prems(4) p(6) by (simp add: card_insert_if domIff)
  have "\<exists>outs M'. xdp_run K ?M ps = Some (outs, M') \<and> open_slots job M' = open_slots job ?M + length ps"
  proof (rule Cons.IH)
    show "card (dom (slot_map ?M)) + length ps \<le> 65536" "finite (dom (slot_map ?M))"
      using Cons.prems(4,5) cd by simp_all
  qed (use Cons.prems in \<open>auto simp: image_iff\<close>)
  moreover have "open_slots job ?M = open_slots job M + 1"
    using open_slots_create [OF Cons.prems(4) p(6), of job s] p(5) by simp
  ultimately show ?case using s by auto
qed simp

end
