(* ===== verification/Xdp_Properties.thy ===== *)
theory Xdp_Properties
  imports Xdp_Traffic Xdp_Quota
begin

text \<open>
  The properties of the kernel aggregator, each with a witness on concrete packets. \<open>sample_frame\<close> builds an Ethernet,
  IPv4 and UDP frame around a gradient packet.
\<close>

section \<open>Sample packets\<close>

definition sample_headers :: bytes where
  "sample_headers =
     [2, 0, 0, 0, 0, 1, 2, 0, 0, 0, 0, 2, 8, 0,
      0x45, 0, 0, 48, 0, 0, 0, 0, 64, 17, 0, 0, 10, 0, 0, 1, 10, 0, 0, 2,
      0x30, 0x39, 0x26, 0x94, 0, 28, 0, 0]"

definition sample_frame :: "grad_hdr \<Rightarrow> i32 list \<Rightarrow> bytes" where
  "sample_frame h vs = sample_headers @ encode_packet h vs"

lemma length_sample_headers [simp]: "length sample_headers = 42"
  by (simp add: sample_headers_def)

lemma sample_frame_hdr [simp]: "xdp_hdr (sample_frame h vs) = h"
  using wire_hdr_shift [of sample_headers "encode_packet h vs"] by (simp add: sample_frame_def)

lemma sample_frame_values [simp]: "unat (gh_chunk_len h) = length vs \<Longrightarrow> xdp_values (sample_frame h vs) = vs"
  using wire_values_shift [of sample_headers "encode_packet h vs" 20 "length vs"]
  by (simp only: xdp_values_def sample_frame_hdr) (simp add: sample_frame_def)

lemma sample_frame_wire16:
  "wire16 (sample_frame h vs) 54 = gh_worker_id h" "wire16 (sample_frame h vs) 56 = gh_num_workers h"
  "wire16 (sample_frame h vs) 58 = gh_chunk_len h"
  using wire_hdr_sel(4-6) [of "sample_frame h vs" 42, unfolded sample_frame_hdr] by simp_all

lemma sample_frame_match [simp]: "xdp_match (sample_frame h vs)"
  unfolding xdp_match_def wire16_def sample_frame_def be16_def NETSUM_PORT_def
  by (simp add: nth_append) (simp add: sample_headers_def)

lemma sample_frame_valid [simp]:
  "unat (gh_chunk_len h) = length vs \<Longrightarrow> length vs \<le> 64 \<Longrightarrow> unat (gh_worker_id h) < 256 \<Longrightarrow> xdp_valid (sample_frame h vs)"
  by (simp add: xdp_valid_def sample_frame_wire16) (simp add: sample_frame_def)

definition sample_config :: netsum_config where
  "sample_config = \<lparr>ps_mac = [2, 0, 0, 0, 0, 3], ps_ip = 0x0300000a, ps_port = 0x9426, max_slots_per_job = 1\<rparr>"

definition sample_kernel :: kernel where
  "sample_kernel = \<lparr>slot_room = (\<lambda>m k. card (dom m) < 65536), quota_room = (\<lambda>m k. card (dom m) < 256),
     stats_room = (\<lambda>m k. card (dom m) < 4)\<rparr>"

definition sample_maps :: xdp_maps where
  "sample_maps = xdp_empty\<lparr>config_map := [0 \<mapsto> sample_config]\<rparr>"

lemma sample_rooms [simp]: "room_up_to 65536 (slot_room sample_kernel)" "room_up_to 256 (quota_room sample_kernel)"
  by (simp_all add: room_up_to_def sample_kernel_def)

lemma sample_maps_simps [simp]:
  "slot_map sample_maps = Map.empty" "job_quota_map sample_maps = Map.empty"
  "config_map sample_maps 0 = Some sample_config" "config_ok sample_maps" "\<not> over_quota sample_maps j"
  "length (ps_mac sample_config) = 6" "max_slots_per_job sample_config = 1"
  by (simp_all add: sample_maps_def xdp_empty_def config_ok_def sample_config_def over_quota_def)

definition sample_hdr :: "u32 \<Rightarrow> u16 \<Rightarrow> grad_hdr" where
  "sample_hdr chunk w = \<lparr>gh_job_id = 7, gh_round = 0, gh_chunk_id = chunk, gh_worker_id = w, gh_num_workers = 2,
     gh_chunk_len = 2, gh_flags = 0\<rparr>"

definition sample_packets :: "bytes list" where
  "sample_packets = [sample_frame (sample_hdr 0 0) [5, 7], sample_frame (sample_hdr 0 1) [1, -9]]"

lemma sample_round: "round_packets (key_of (sample_hdr 0 0)) (length sample_packets) 2 sample_packets"
  by (simp add: round_packets_def sample_packets_def sample_frame_wire16) (simp add: sample_hdr_def key_of_def)

lemma sample_admits: "xdp_admits sample_kernel sample_maps (hd sample_packets)"
  by (simp add: xdp_admits_def sample_packets_def sample_frame_wire16) (simp add: sample_hdr_def workers_ok_def sample_kernel_def)

lemma sample_packets_simps:
  "sample_packets \<noteq> []" "butlast sample_packets = [sample_packets ! 0]" "last sample_packets = sample_packets ! 1"
  by (simp_all add: sample_packets_def)

lemma sample_values: "map xdp_values sample_packets = [[5, 7], [1, -9]]"
  by (simp add: sample_packets_def sample_hdr_def)

lemma sample_tracks: "xdp_tracks sample_maps Map.empty"
  by (simp add: xdp_tracks_def)

section \<open>Aggregation\<close>

text \<open>
  C1. Every packet the XDP program transmits (\<open>XDP_TX\<close>), in any run from an empty slot map, is the
  aggregate of one complete round: as many packets of that run as the first of them announced, the
  last of them the one just handled, all for one (job, round, chunk) and of one length, from pairwise
  different workers; its values are their component-wise sum and everything else is that last
  packet, retargeted at the configured parameter server with a valid IPv4 header checksum.
\<close>
theorem xdp_tx_is_complete_round:
  assumes "xdp_run K M ps = Some (outs, M')" "slot_map M = Map.empty" "config_ok M"
    and "j < length outs" "outs ! j = (XDP_TX, q)"
  shows "\<exists>cfg js. config_map M 0 = Some cfg \<and> xdp_round ps (js @ [j]) \<and>
    forwarded cfg (ps ! j) (xdp_total ps (js @ [j])) q"
  using assms by (rule xdp_transmits)

text \<open>The two sample packets do produce a transmission, which the property explains.\<close>
theorem xdp_tx_is_complete_round_witness:
  "\<exists>outs M' q js. xdp_run sample_kernel sample_maps sample_packets = Some (outs, M') \<and>
     outs ! 1 = (XDP_TX, q) \<and> xdp_round sample_packets (js @ [1]) \<and>
     forwarded sample_config (sample_packets ! 1) (xdp_total sample_packets (js @ [1])) q"
proof -
  obtain q M' where r: "xdp_run sample_kernel sample_maps sample_packets =
      Some (map (\<lambda>p. (XDP_DROP, p)) (butlast sample_packets) @ [(XDP_TX, q)], M')"
    using xdp_completes [OF _ sample_tracks _ _ sample_admits _ sample_round, of sample_config]
    by (auto simp: sample_packets_def)
  then show ?thesis
    using xdp_tx_is_complete_round [OF r, of 1 q] by (auto simp: sample_packets_def)
qed

text \<open>
  C8. A round completes, whatever else arrives. With a configuration loaded and after any traffic, let the key have no open slot and a packet for it be
  admitted. Of what follows, where all packets for the key announce the same number of values, packets for other keys, packets that are not for the aggregator and repetitions
  included and in any order, all packets for the key leave as they came, dropped, until the last of the announced workers
  comes in; its packet is transmitted with the sum of the first packet of each worker, and the slot is free again.
\<close>
theorem xdp_round_completes:
  assumes "xdp_run K M0 before = Some (outs0, M)" "slot_map M0 = Map.empty" "config_ok M0" "config_map M0 0 = Some cfg"
    and "ps \<noteq> []" "for_key k (hd ps)" "for_key k (last ps)" "slot_map M k = None" "xdp_admits K M (hd ps)"
    and "\<forall>p\<in>set ps. for_key k p \<longrightarrow> unat (gh_chunk_len (xdp_hdr p)) = len"
    and "card (workers_for k (butlast ps)) + 1 = unat (gh_num_workers (xdp_hdr (hd ps)))"
    and "gh_worker_id (xdp_hdr (last ps)) \<notin> workers_for k (butlast ps)"
  shows "\<exists>outs q M'. xdp_run K M ps = Some (outs @ [(XDP_TX, q)], M') \<and> length outs = length ps - 1 \<and>
    (\<forall>j<length outs. for_key k (ps ! j) \<longrightarrow> outs ! j = (XDP_DROP, ps ! j)) \<and>
    forwarded cfg (last ps) (column_sum len (mset (map snd (counted_log [] k ps)))) q \<and> slot_map M' k = None"
proof -
  obtain A where A: "xdp_tracks M A" "config_map M = config_map M0" "config_ok M"
    by (rule xdp_run_tracks [OF assms(1-3)])
  then show ?thesis using assms(4) by (intro xdp_traffic_completes [OF A(3,1) _ assms(5-12)]) simp
qed

text \<open>Worker 0 sends twice, once more with other values, and something else passes by, before worker 1 comes in.\<close>

definition sample_traffic :: "bytes list" where
  "sample_traffic = [sample_frame (sample_hdr 0 0) [5, 7], sample_frame (sample_hdr 0 0) [5, 7], [1, 2, 3],
     sample_frame (sample_hdr 0 0) [8, 8], sample_frame (sample_hdr 0 1) [1, -9]]"

lemma sample_for_key: "unat w < 256 \<Longrightarrow> for_key (key_of (sample_hdr 0 0)) (sample_frame (sample_hdr 0 w) [x, y])"
  unfolding for_key_def by (intro conjI sample_frame_match sample_frame_valid) (simp_all add: sample_hdr_def key_of_def)

lemma sample_not_for_key: "\<not> for_key k [1, 2, 3]"
  by (simp add: for_key_def xdp_match_def)

lemma sample_contribution: "xdp_contribution (sample_frame (sample_hdr 0 w) [x, y]) = (unat w, [x, y])"
  unfolding xdp_contribution_def by (simp add: sample_frame_wire16) (simp add: sample_hdr_def)

lemma sample_counted: "map snd (counted_log [] (key_of (sample_hdr 0 0)) sample_traffic) = [[5, 7], [1, -9]]"
  by (simp add: sample_traffic_def sample_for_key sample_not_for_key sample_contribution log_add_def)

lemma sample_workers: "workers_for (key_of (sample_hdr 0 0)) (butlast sample_traffic) = {0}"
  unfolding workers_among_def using sample_for_key [of 0]
  by (auto simp: sample_traffic_def sample_not_for_key sample_frame_wire16 sample_hdr_def image_def)

theorem xdp_round_completes_witness:
  "\<exists>outs q M'. xdp_run sample_kernel sample_maps sample_traffic = Some (outs @ [(XDP_TX, q)], M') \<and> length outs = 4 \<and>
     outs ! 3 = (XDP_DROP, sample_frame (sample_hdr 0 0) [8, 8]) \<and> wire_values q 62 2 = [6, -2]"
proof -
  let ?k = "key_of (sample_hdr 0 0)"
  have r: "xdp_run sample_kernel sample_maps [] = Some ([], sample_maps)" by simp
  have hl: "hd sample_traffic = hd sample_packets" "last sample_traffic = sample_frame (sample_hdr 0 1) [1, -9]"
    "sample_traffic \<noteq> []" by (simp_all add: sample_traffic_def sample_packets_def)
  have fk: "for_key ?k (hd sample_traffic)" "for_key ?k (last sample_traffic)"
    by (simp_all add: sample_traffic_def sample_for_key)
  have len: "\<forall>p\<in>set sample_traffic. for_key ?k p \<longrightarrow> unat (gh_chunk_len (xdp_hdr p)) = 2"
    by (simp add: sample_traffic_def sample_frame_wire16 sample_not_for_key) (simp add: sample_hdr_def)
  have n: "card (workers_for ?k (butlast sample_traffic)) + 1 = unat (gh_num_workers (xdp_hdr (hd sample_traffic)))"
    unfolding sample_workers by (simp add: sample_traffic_def sample_frame_wire16) (simp add: sample_hdr_def)
  have w: "gh_worker_id (xdp_hdr (last sample_traffic)) \<notin> workers_for ?k (butlast sample_traffic)"
    unfolding sample_workers by (simp add: sample_traffic_def sample_frame_wire16) (simp add: sample_hdr_def)
  have free: "slot_map sample_maps ?k = None" "xdp_admits sample_kernel sample_maps (hd sample_traffic)"
    using sample_admits hl(1) by simp_all
  obtain outs q M' where q: "xdp_run sample_kernel sample_maps sample_traffic = Some (outs @ [(XDP_TX, q)], M')"
    "length outs = length sample_traffic - 1" "\<forall>j<length outs. for_key ?k (sample_traffic ! j) \<longrightarrow> outs ! j = (XDP_DROP, sample_traffic ! j)"
    "forwarded sample_config (last sample_traffic) (column_sum 2 (mset (map snd (counted_log [] ?k sample_traffic)))) q"
    using xdp_round_completes [OF r sample_maps_simps(1,4,3) hl(3) fk free len n w] by blast
  have "column_sum 2 (mset (map snd (counted_log [] ?k sample_traffic))) = [6, -2]"
    by (simp add: sample_counted column_sum_def upt_rec)
  moreover have "length outs = 4" using q(2) by (simp add: sample_traffic_def)
  moreover have "outs ! 3 = (XDP_DROP, sample_frame (sample_hdr 0 0) [8, 8])"
    using q(3) \<open>length outs = 4\<close> sample_for_key [of 0 8 8] by (auto simp: sample_traffic_def)
  ultimately show ?thesis using q(1,4) by (intro exI [of _ outs] exI [of _ q] exI [of _ M']) (auto simp: forwarded_def numeral_2_eq_2)
qed

text \<open>
  C14. Memory safety and totality: any sequence of byte strings whatsoever can be fed to the program
  in any kernel; no access leaves the packet or a slot's arrays (the run is not \<open>None\<close>), each
  packet gets an action, and no packet changes its length. Traffic that is not for the aggregator is
  handed to the kernel's stack untouched: a packet that is not IPv4 (without options) over Ethernet, UDP to the
  protocol's port and long enough for a gradient header gets \<open>XDP_PASS\<close>, with packet and maps
  unchanged, and no other packet of the run gets it.
\<close>
theorem xdp_never_faults:
  assumes "config_ok M" "slot_map M = Map.empty"
  shows "\<exists>outs M'. xdp_run K M ps = Some (outs, M') \<and> length outs = length ps \<and>
    (\<forall>j<length ps. length (snd (outs ! j)) = length (ps ! j) \<and>
       (fst (outs ! j) = XDP_PASS \<longleftrightarrow> \<not> xdp_match (ps ! j)) \<and> (\<not> xdp_match (ps ! j) \<longrightarrow> snd (outs ! j) = ps ! j)) \<and>
    (\<forall>p M. \<not> xdp_match p \<longrightarrow> netsum_xdp_aggregate K M p = Some (XDP_PASS, p, M))"
proof -
  have "xdp_tracks M Map.empty" using assms(2) by (simp add: xdp_tracks_def)
  from xdp_run_returns [OF assms(1) this, of K ps] netsum_rejected(1) show ?thesis by blast
qed

theorem xdp_never_faults_witness:
  "\<exists>outs M'. xdp_run sample_kernel sample_maps [[], [0, 1, 2], sample_headers @ [1, 2, 3]] = Some (outs, M') \<and> length outs = 3 \<and>
     fst (outs ! 1) = XDP_PASS"
proof -
  have "\<not> xdp_match [0, 1, 2]" by (simp add: xdp_match_def)
  then show ?thesis
    using xdp_never_faults [OF sample_maps_simps(4,1), of sample_kernel "[[], [0, 1, 2], sample_headers @ [1, 2, 3]]"]
    by (auto dest: spec [of _ 1])
qed

text \<open>
  C13. Refinement: on maps that stand for a set of open rounds, handling one packet is one request of
  the abstract aggregator. The action, the packet left behind and the new maps correspond to the
  verdict and the new set of open rounds (absorbed or ignored: dropped unchanged; summed: transmitted
  with the sum when a configuration is loaded, dropped otherwise).
\<close>
theorem xdp_refines_aggregator:
  assumes "config_ok M" "xdp_tracks M A"
  shows "\<exists>action q M' v A'. netsum_xdp_aggregate K M p = Some (action, q, M') \<and>
    spec_request A (xdp_request K M p) = (v, A') \<and> xdp_outcome M p v action q \<and>
    xdp_tracks M' A' \<and> config_map M' = config_map M"
  using assms by (rule xdp_step_refines)

theorem xdp_refines_aggregator_witness:
  "\<exists>q M'. netsum_xdp_aggregate sample_kernel sample_maps (sample_packets ! 0) = Some (XDP_DROP, q, M') \<and>
     xdp_tracks M' [key_of (sample_hdr 0 0) \<mapsto> \<lparr>r_len = 2, r_expected = 2, r_log = [(0, [5, 7])]\<rparr>]"
proof -
  let ?p = "sample_packets ! 0" and ?k = "key_of (sample_hdr 0 0)"
  have p: "?p = sample_frame (sample_hdr 0 0) [5, 7]" by (simp add: sample_packets_def)
  have "xdp_request sample_kernel sample_maps ?p = Some (?k, 2, 0, [5, 7])"
    using sample_admits by (simp add: p xdp_request_def xdp_contribution_def sample_frame_wire16 sample_packets_def)
      (simp add: sample_hdr_def)
  then have "spec_request Map.empty (xdp_request sample_kernel sample_maps ?p) =
      (Absorbed, [?k \<mapsto> \<lparr>r_len = 2, r_expected = 2, r_log = [(0, [5, 7])]\<rparr>])"
    by (simp add: spec_contribute_def round_of_def numeral_2_eq_2)
  then show ?thesis
    using xdp_refines_aggregator [OF sample_maps_simps(4) sample_tracks, of sample_kernel ?p]
    by (auto simp: xdp_outcome_def p)
qed

text \<open>
  C15. What becomes of a packet sent again. While the round of its key is open, a packet from a worker already
  counted, or of another length, is dropped and leaves the packet and every map as they were. When the round
  is over nothing remembers it: the packet opens a new slot, and as long as no other worker does the same the slot stays open,
  whatever else arrives, with that one contribution; nothing ever removes it.
\<close>
theorem xdp_repeated_packet:
  assumes "xdp_run K M0 before = Some (outs0, M)" "slot_map M0 = Map.empty" "config_ok M0" "for_key k p"
  shows "(\<forall>s. slot_map M k = Some s \<longrightarrow>
      gs_chunk_len s \<noteq> gh_chunk_len (xdp_hdr p) \<or> unat (gh_worker_id (xdp_hdr p)) \<in> gs_workers s \<longrightarrow>
      netsum_xdp_aggregate K M p = Some (XDP_DROP, p, M)) \<and>
    (slot_map M k = None \<longrightarrow> xdp_admits K M p \<longrightarrow> unat (gh_num_workers (xdp_hdr p)) \<noteq> 1 \<longrightarrow>
      (\<forall>p'\<in>set later. for_key k p' \<longrightarrow> gh_chunk_len (xdp_hdr p') = gh_chunk_len (xdp_hdr p) \<and> gh_worker_id (xdp_hdr p') = gh_worker_id (xdp_hdr p)) \<longrightarrow>
      (\<exists>outs M' s. xdp_run K M (p # later) = Some (outs, M') \<and> slot_map M' k = Some s \<and> gs_contributions_received s = 1 \<and>
        (\<forall>j<length outs. for_key k ((p # later) ! j) \<longrightarrow> outs ! j = (XDP_DROP, (p # later) ! j))))"
proof -
  obtain A where A: "xdp_tracks M A" "config_map M = config_map M0" "config_ok M"
    by (rule xdp_run_tracks [OF assms(1-3)])
  have p: "xdp_match p" "xdp_valid p" "k = key_of (xdp_hdr p)" using assms(4) by (simp_all add: for_key_def)
  have "netsum_xdp_aggregate K M p = Some (XDP_DROP, p, M)"
    if "slot_map M k = Some s" "gs_chunk_len s \<noteq> gh_chunk_len (xdp_hdr p) \<or> unat (gh_worker_id (xdp_hdr p)) \<in> gs_workers s" for s
    using xdp_ignores [OF p(1,2) _ _ that(2)] that(1) xdp_tracks_Some [OF A(1) that(1)] by (auto simp: p(3) slot_round_def)
  then show ?thesis using xdp_reopens [OF A(3,1) _ _ assms(4), of K later] by blast
qed

definition roomy_kernel :: kernel where
  "roomy_kernel = \<lparr>slot_room = (\<lambda>m k. True), quota_room = (\<lambda>m k. True), stats_room = (\<lambda>m k. True)\<rparr>"

definition unlimited_maps :: xdp_maps where
  "unlimited_maps = xdp_empty\<lparr>config_map := [0 \<mapsto> sample_config\<lparr>max_slots_per_job := 0\<rparr>]\<rparr>"

text \<open>After the sample round, without a quota, its first packet comes twice more.\<close>
theorem xdp_repeated_packet_witness:
  "\<exists>outs M outs' M' s. xdp_run roomy_kernel unlimited_maps sample_packets = Some (outs, M) \<and>
     slot_map M (key_of (sample_hdr 0 0)) = None \<and>
     xdp_run roomy_kernel M [hd sample_packets, hd sample_packets] = Some (outs', M') \<and>
     slot_map M' (key_of (sample_hdr 0 0)) = Some s \<and> gs_contributions_received s = 1"
proof -
  let ?k = "key_of (sample_hdr 0 0)" and ?p = "sample_frame (sample_hdr 0 0) [5, 7]"
  have hd: "hd sample_packets = ?p" by (simp add: sample_packets_def)
  have p: "for_key ?k ?p" "unat (gh_num_workers (xdp_hdr ?p)) \<noteq> 1" "workers_ok (gh_num_workers (xdp_hdr ?p))"
    using sample_for_key [of 0] by (simp_all add: sample_hdr_def workers_ok_def del: wire_hdr_sel)
  have M: "slot_map unlimited_maps = Map.empty" "config_ok unlimited_maps" "xdp_tracks unlimited_maps Map.empty"
    "config_map unlimited_maps 0 = Some (sample_config\<lparr>max_slots_per_job := 0\<rparr>)"
    by (simp_all add: unlimited_maps_def xdp_empty_def config_ok_def sample_config_def xdp_tracks_def)
  have adm: "xdp_admits roomy_kernel M ?p" if "config_map M = config_map unlimited_maps" for M
    using p(3) that M(4) by (simp add: xdp_admits_def over_quota_def roomy_kernel_def del: wire_hdr_sel)
  have free: "slot_map unlimited_maps ?k = None" "xdp_admits roomy_kernel unlimited_maps (hd sample_packets)"
    unfolding hd using M(1) adm [OF refl] by simp_all
  obtain outs M1 where r: "xdp_run roomy_kernel unlimited_maps sample_packets = Some (outs, M1)" "slot_map M1 ?k = None"
    using xdp_completes [OF M(2,3,4) free sample_packets_simps(1) sample_round] by blast
  have cfg: "config_map M1 = config_map unlimited_maps"
    using xdp_run_tracks [OF r(1) M(1,2)] by blast
  have same: "\<forall>p'\<in>set [?p]. for_key ?k p' \<longrightarrow> gh_chunk_len (xdp_hdr p') = gh_chunk_len (xdp_hdr ?p) \<and> gh_worker_id (xdp_hdr p') = gh_worker_id (xdp_hdr ?p)"
    by simp
  from xdp_repeated_packet [OF r(1) M(1,2) p(1), of "[?p]", THEN conjunct2, THEN mp, OF r(2), THEN mp, OF adm [OF cfg], THEN mp, OF p(2), THEN mp, OF same]
  obtain outs' M' s where "xdp_run roomy_kernel M1 (?p # [?p]) = Some (outs', M')" "slot_map M' ?k = Some s" "gs_contributions_received s = 1"
    by (elim exE conjE)
  then show ?thesis using r unfolding hd by blast
qed

section \<open>The quota\<close>

lemma sample_first:
  obtains M' s where "netsum_xdp_aggregate sample_kernel sample_maps (sample_packets ! 0) = Some (XDP_DROP, sample_packets ! 0, M')"
    "over_quota M' 7" "slot_map M' (key_of (sample_hdr 1 0)) = None" "slot_map M' (key_of (sample_hdr 0 0)) = Some s"
proof -
  let ?p = "sample_packets ! 0"
  have p: "?p = sample_frame (sample_hdr 0 0) [5, 7]" "?p = hd sample_packets" by (simp_all add: sample_packets_def)
  have ok: "xdp_match ?p" "xdp_valid ?p" "gh_num_workers (xdp_hdr ?p) \<noteq> 1" "slot_map sample_maps (key_of (xdp_hdr ?p)) = None"
    by (simp_all add: p sample_frame_wire16 del: wire_hdr_sel) (simp_all add: p sample_hdr_def)
  have job: "gh_job_id (xdp_hdr ?p) = 7" "key_of (xdp_hdr ?p) = key_of (sample_hdr 0 0)" "key_of (sample_hdr 1 0) \<noteq> key_of (sample_hdr 0 0)"
    unfolding p sample_frame_hdr by (simp_all add: sample_hdr_def key_of_def)
  obtain s where s: "netsum_xdp_aggregate sample_kernel sample_maps ?p = Some (XDP_DROP, ?p,
      (created sample_kernel ?p sample_maps)\<lparr>slot_map := [key_of (xdp_hdr ?p) \<mapsto> s]\<rparr>)"
    using xdp_opens [OF ok, of sample_kernel] sample_admits p(2) by auto
  have "job_quota_map (created sample_kernel ?p sample_maps) = [7 \<mapsto> \<lparr>concurrent_slots = 1\<rparr>]"
    unfolding created_def job(1) by (simp add: job_quota_increment_def sample_kernel_def)
  then show ?thesis using s job(2,3) by (intro that [of _ s]) (auto simp: over_quota_def)
qed

lemma sample_first_run:
  obtains M' where "xdp_run sample_kernel sample_maps [sample_packets ! 0] = Some ([(XDP_DROP, sample_packets ! 0)], M')"
    "over_quota M' 7"
  by (rule sample_first) simp

text \<open>
  C16. The accounting of the quota is exact: over maps that hold what their \<open>max_entries\<close> promise, after any run from
  empty maps the counter of every job in \<open>job_quota_map\<close> is the number of its open slots, which is
  within the configured quota; a job without an entry has no open slot, unless 256 jobs have one. Even if the quota map holds
  fewer entries no job is refused unjustly: one the admission check finds over its quota
  has as many open slots as the configured limit.
\<close>
theorem xdp_quota_exact:
  assumes "xdp_run K M ps = Some (outs, M')" "slot_map M = Map.empty" "job_quota_map M = Map.empty"
    and "room_up_to 65536 (slot_room K)"
  shows "(room_up_to 256 (quota_room K) \<longrightarrow> quota_entry_ok M' job (open_slots job M')) \<and>
    (over_quota M' job \<longrightarrow>
       (\<exists>cfg. config_map M' 0 = Some cfg \<and> 0 < max_slots_per_job cfg \<and> unat (max_slots_per_job cfg) \<le> open_slots job M'))"
proof (intro conjI impI)
  show "quota_entry_ok M' job (open_slots job M')" if "room_up_to 256 (quota_room K)"
    using exact.run [OF assms(1) quota_start(2) [OF assms(2-4) that]] by (simp add: quota_exact_def)
  have "quota_counted K M'" using counted.run [OF assms(1) quota_start(1) [OF assms(2-4)]] .
  then show "\<exists>cfg. config_map M' 0 = Some cfg \<and> 0 < max_slots_per_job cfg \<and> unat (max_slots_per_job cfg) \<le> open_slots job M'"
    if "over_quota M' job"
    using that by (fastforce simp: quota_counted_def over_quota_def word_le_nat_alt)
qed

text \<open>After its first packet the sample job has one slot open, which is its quota.\<close>
theorem xdp_quota_exact_witness:
  "\<exists>outs M' (cfg :: netsum_config). xdp_run sample_kernel sample_maps [sample_packets ! 0] = Some (outs, M') \<and>
     over_quota M' 7 \<and> quota_entry_ok M' 7 (open_slots 7 M') \<and> unat (max_slots_per_job cfg) \<le> open_slots 7 M'"
proof -
  obtain M' where r: "xdp_run sample_kernel sample_maps [sample_packets ! 0] = Some ([(XDP_DROP, sample_packets ! 0)], M')"
    "over_quota M' 7"
    by (rule sample_first_run)
  show ?thesis
    using xdp_quota_exact [OF r(1) sample_maps_simps(1,2) sample_rooms(1), of 7] r sample_rooms(2) by blast
qed

text \<open>
  C17. The quota does not hold for more than 256 jobs. Entries of \<open>job_quota_map\<close> are never deleted,
  so once 256 other job ids have an entry, live or not, a further job is not counted: whatever
  quota is configured, each of its packets for a new key opens a slot, as many as the slot map holds.
\<close>
theorem xdp_quota_unenforced:
  assumes "room_up_to 65536 (slot_room K)" "room_up_to 256 (quota_room K)"
    and "finite (dom (job_quota_map M))" "256 \<le> card (dom (job_quota_map M))" "job_quota_map M job = None"
    and "finite (dom (slot_map M))" "card (dom (slot_map M)) + length ps \<le> 65536"
    and "\<forall>p\<in>set ps. xdp_match p \<and> xdp_valid p \<and> workers_ok (gh_num_workers (xdp_hdr p)) \<and>
        gh_num_workers (xdp_hdr p) \<noteq> 1 \<and> gh_job_id (xdp_hdr p) = job \<and> slot_map M (key_of (xdp_hdr p)) = None"
    and "distinct (map (\<lambda>p. key_of (xdp_hdr p)) ps)"
  shows "\<exists>outs M'. xdp_run K M ps = Some (outs, M') \<and> open_slots job M' = open_slots job M + length ps"
  using assms by (rule untracked_unlimited)

definition seen_jobs :: "u32 \<rightharpoonup> job_quota_entry" where
  "seen_jobs j = (if 1000 \<le> j \<and> j < 1256 then Some \<lparr>concurrent_slots = 0\<rparr> else None)"

lemma seen_jobs: "finite (dom seen_jobs)" "card (dom seen_jobs) = 256" "seen_jobs 7 = None"
proof -
  have "dom seen_jobs = {1000..<1256}" by (auto simp: seen_jobs_def dom_def)
  moreover have "card {1000..<1256::u32} = 256"
  proof -
    have "unat ` {1000..<1256::u32} = {1000..<1256}"
    proof (intro equalityI subsetI)
      fix n assume n: "n \<in> {1000..<1256::nat}"
      then have "unat (word_of_nat n :: u32) = n" by (simp add: unsigned_of_nat take_bit_nat_eq_self)
      then show "n \<in> unat ` {1000..<1256::u32}"
        using n by (intro image_eqI [of _ _ "word_of_nat n"]) (simp_all add: word_le_nat_alt word_less_nat_alt)
    qed (auto simp: word_le_nat_alt word_less_nat_alt)
    then show ?thesis using card_image [of unat "{1000..<1256::u32}"]
      by (simp add: inj_on_def) (metis unsigned_word_eqI)
  qed
  ultimately show "finite (dom seen_jobs)" "card (dom seen_jobs) = 256" by simp_all
qed (simp add: seen_jobs_def)

text \<open>The quota of the sample configuration is one slot; job 7 opens two.\<close>
theorem xdp_quota_unenforced_witness:
  "max_slots_per_job sample_config = 1 \<and>
   (\<exists>outs M'. xdp_run sample_kernel (sample_maps\<lparr>job_quota_map := seen_jobs\<rparr>)
      [sample_frame (sample_hdr 0 0) [5, 7], sample_frame (sample_hdr 1 0) [5, 7]] = Some (outs, M') \<and>
      open_slots 7 M' = 2)"
proof -
  let ?M = "sample_maps\<lparr>job_quota_map := seen_jobs\<rparr>"
  let ?ps = "[sample_frame (sample_hdr 0 0) [5, 7], sample_frame (sample_hdr 1 0) [5, 7]]"
  have h: "gh_num_workers (sample_hdr c 0) = 2" "gh_job_id (sample_hdr c 0) = 7" "gh_chunk_len (sample_hdr c 0) = 2"
    "gh_worker_id (sample_hdr c 0) = 0" for c
    by (simp_all add: sample_hdr_def)
  have "key_of (sample_hdr 0 0) \<noteq> key_of (sample_hdr 1 0)" by (simp add: key_of_def sample_hdr_def)
  then have d: "distinct (map (\<lambda>p. key_of (xdp_hdr p)) ?ps)" by simp
  have a: "\<forall>p\<in>set ?ps. xdp_match p \<and> xdp_valid p \<and> workers_ok (gh_num_workers (xdp_hdr p)) \<and>
      gh_num_workers (xdp_hdr p) \<noteq> 1 \<and> gh_job_id (xdp_hdr p) = 7 \<and> slot_map ?M (key_of (xdp_hdr p)) = None"
    unfolding sample_frame_hdr by (simp add: h workers_ok_def del: wire_hdr_sel)
  have "open_slots 7 ?M = 0" by (simp add: open_slots_def count_keys_def)
  then show ?thesis
    using xdp_quota_unenforced [OF sample_rooms _ _ _ _ _ a d] seen_jobs by (simp add: numeral_2_eq_2)
qed

end
