(* ===== verification/Fuzz.thy ===== *)
theory Fuzz
  imports Agg_Properties Xdp_Properties
begin

text \<open>
  The differential fuzz harness (\<open>fuzz/parse_shared.h\<close>, \<open>fuzz/fuzz_grad_parse.cpp\<close>): the two extracted
  parsers, copies of the stateless admission checks of the aggregators, and the harness that runs both
  on an input and aborts when they differ. The harness can only sample inputs; here the two parsers are
  shown to agree on all of them, and to be the checks of the programs they were extracted from.
\<close>

section \<open>parse_shared.h\<close>

definition FUZZ_AGG_MAX_TRACKED_WORKERS :: nat where "FUZZ_AGG_MAX_TRACKED_WORKERS = 256"
definition FUZZ_XDP_MAX_TRACKED_WORKERS_BITMAP_BYTES :: nat where "FUZZ_XDP_MAX_TRACKED_WORKERS_BITMAP_BYTES = 32"

datatype netsum_parse_verdict = NETSUM_PARSE_ACCEPT | NETSUM_PARSE_REJECT

record netsum_parse_result =
  pr_verdict :: netsum_parse_verdict
  pr_chunk_len :: u16
  pr_worker_id :: u16
  pr_num_workers :: u16

definition netsum_reject :: netsum_parse_result where
  "netsum_reject = \<lparr>pr_verdict = NETSUM_PARSE_REJECT, pr_chunk_len = 0, pr_worker_id = 0, pr_num_workers = 0\<rparr>"

text \<open>\<open>None\<close> is a read outside the input.\<close>

definition agg_parse_stateless :: "bytes \<Rightarrow> netsum_parse_result option" where
  "agg_parse_stateless data =
     (if length data < NETSUM_HDR_SIZE then Some netsum_reject
      else do {
        worker_id \<leftarrow> map_option ntohs (ld16 data at_worker_id);
        num_workers \<leftarrow> map_option ntohs (ld16 data at_num_workers);
        chunk_len \<leftarrow> map_option ntohs (ld16 data at_chunk_len);
        if unat chunk_len > NETSUM_MAX_CHUNK_LEN then Some netsum_reject
        else if length data < NETSUM_HDR_SIZE + unat chunk_len * 4 then Some netsum_reject
        else if unat worker_id \<ge> FUZZ_AGG_MAX_TRACKED_WORKERS then Some netsum_reject
        else if num_workers = 0 \<or> unat num_workers > FUZZ_AGG_MAX_TRACKED_WORKERS then Some netsum_reject
        else Some \<lparr>pr_verdict = NETSUM_PARSE_ACCEPT, pr_chunk_len = chunk_len, pr_worker_id = worker_id,
                   pr_num_workers = num_workers\<rparr> })"

definition netsum_bpf_style_ntohs :: "u16 \<Rightarrow> u16" where
  "netsum_bpf_style_ntohs v = push_bit 8 v OR drop_bit 8 v"

definition netsum_bpf_style_ntohl :: "u32 \<Rightarrow> u32" where
  "netsum_bpf_style_ntohl v =
     push_bit 24 (v AND 0x000000ff) OR push_bit 8 (v AND 0x0000ff00) OR
     drop_bit 8 (v AND 0x00ff0000) OR drop_bit 24 (v AND 0xff000000)"

definition xdp_parse_stateless :: "bytes \<Rightarrow> netsum_parse_result option" where
  "xdp_parse_stateless data =
     (if length data < NETSUM_HDR_SIZE then Some netsum_reject
      else do {
        chunk_len \<leftarrow> map_option netsum_bpf_style_ntohs (ld16 data at_chunk_len);
        if unat chunk_len > NETSUM_MAX_CHUNK_LEN then Some netsum_reject
        else if length data < NETSUM_HDR_SIZE + unat chunk_len * 4 then Some netsum_reject
        else do {
          worker_id \<leftarrow> map_option netsum_bpf_style_ntohs (ld16 data at_worker_id);
          if unat worker_id \<ge> FUZZ_XDP_MAX_TRACKED_WORKERS_BITMAP_BYTES * 8 then Some netsum_reject
          else do {
            num_workers_hdr \<leftarrow> map_option netsum_bpf_style_ntohs (ld16 data at_num_workers);
            if num_workers_hdr = 0 \<or> unat num_workers_hdr > FUZZ_XDP_MAX_TRACKED_WORKERS_BITMAP_BYTES * 8
            then Some netsum_reject
            else Some \<lparr>pr_verdict = NETSUM_PARSE_ACCEPT, pr_chunk_len = chunk_len, pr_worker_id = worker_id,
                       pr_num_workers = num_workers_hdr\<rparr> } } })"

section \<open>fuzz_grad_parse.cpp\<close>

record fuzz_counters =
  g_inputs :: u64
  g_accepted_both :: u64
  g_rejected_both :: u64

datatype fuzz_outcome = Fuzz_ok fuzz_counters | Fuzz_abort

definition LLVMFuzzerTestOneInput :: "bytes \<Rightarrow> fuzz_counters \<Rightarrow> fuzz_outcome option" where
  "LLVMFuzzerTestOneInput data g = do {
     let g = g\<lparr>g_inputs := g_inputs g + 1\<rparr>;
     agg_r \<leftarrow> agg_parse_stateless data;
     xdp_r \<leftarrow> xdp_parse_stateless data;
     if pr_verdict agg_r \<noteq> pr_verdict xdp_r then Some Fuzz_abort
     else if pr_verdict agg_r = NETSUM_PARSE_ACCEPT
     then let g = g\<lparr>g_accepted_both := g_accepted_both g + 1\<rparr> in
       (if pr_chunk_len agg_r \<noteq> pr_chunk_len xdp_r \<or> pr_worker_id agg_r \<noteq> pr_worker_id xdp_r \<or>
           pr_num_workers agg_r \<noteq> pr_num_workers xdp_r
        then Some Fuzz_abort else Some (Fuzz_ok g))
     else Some (Fuzz_ok (g\<lparr>g_rejected_both := g_rejected_both g + 1\<rparr>)) }"

fun fuzz_session :: "bytes list \<Rightarrow> fuzz_counters \<Rightarrow> fuzz_outcome option" where
  "fuzz_session [] g = Some (Fuzz_ok g)"
| "fuzz_session (data # inputs) g = do {
     r \<leftarrow> LLVMFuzzerTestOneInput data g;
     case r of Fuzz_abort \<Rightarrow> Some Fuzz_abort | Fuzz_ok g \<Rightarrow> fuzz_session inputs g }"

text \<open>The numbers printed at exit.\<close>

definition print_summary :: "fuzz_counters \<Rightarrow> u64 \<times> u64 \<times> u64" where
  "print_summary g = (g_inputs g, g_accepted_both g, g_rejected_both g)"

section \<open>The parsers\<close>

lemma netsum_bpf_style_eq: "netsum_bpf_style_ntohs = netsum_bpf_ntohs" "netsum_bpf_style_ntohl = netsum_bpf_ntohl"
  by (simp_all add: fun_eq_iff netsum_bpf_style_ntohs_def netsum_bpf_ntohs_def netsum_bpf_style_ntohl_def netsum_bpf_ntohl_def)

interpretation style16: network_order16 netsum_bpf_style_ntohs netsum_bpf_htons
  unfolding netsum_bpf_style_eq by (rule bpf16.network_order16_axioms)

interpretation style32: network_order32 netsum_bpf_style_ntohl netsum_bpf_htonl
  unfolding netsum_bpf_style_eq by (rule bpf32.network_order32_axioms)

definition stateless_result :: "bytes \<Rightarrow> netsum_parse_result" where
  "stateless_result d = (if agg_accepts d
     then \<lparr>pr_verdict = NETSUM_PARSE_ACCEPT, pr_chunk_len = gh_chunk_len (agg_hdr d), pr_worker_id = gh_worker_id (agg_hdr d),
           pr_num_workers = gh_num_workers (agg_hdr d)\<rparr>
     else netsum_reject)"

lemma agg_parse_stateless_eq: "agg_parse_stateless d = Some (stateless_result d)"
  by (cases "20 \<le> length d")
    (auto simp: agg_parse_stateless_def stateless_result_def agg_accepts_def wire_load proto_consts
      FUZZ_AGG_MAX_TRACKED_WORKERS_def unat_gt_0 mult.commute)

lemma xdp_parse_stateless_eq: "xdp_parse_stateless d = Some (stateless_result d)"
  by (cases "20 \<le> length d")
    (auto simp: xdp_parse_stateless_def stateless_result_def agg_accepts_def style16.load proto_consts
      FUZZ_XDP_MAX_TRACKED_WORKERS_BITMAP_BYTES_def unat_gt_0 mult.commute)

lemma LLVMFuzzerTestOneInput_eq:
  "LLVMFuzzerTestOneInput d g = Some (Fuzz_ok
     (if agg_accepts d then g\<lparr>g_inputs := g_inputs g + 1, g_accepted_both := g_accepted_both g + 1\<rparr>
      else g\<lparr>g_inputs := g_inputs g + 1, g_rejected_both := g_rejected_both g + 1\<rparr>))"
  by (simp add: LLVMFuzzerTestOneInput_def agg_parse_stateless_eq xdp_parse_stateless_eq stateless_result_def netsum_reject_def Let_def)

lemma fuzz_session_eq:
  "fuzz_session ds g = Some (Fuzz_ok (g\<lparr>g_inputs := g_inputs g + word_of_nat (length ds),
     g_accepted_both := g_accepted_both g + word_of_nat (length (filter agg_accepts ds)),
     g_rejected_both := g_rejected_both g + word_of_nat (length (filter (\<lambda>d. \<not> agg_accepts d) ds))\<rparr>))"
proof (induction ds arbitrary: g)
  case (Cons d ds)
  then show ?case by (simp add: LLVMFuzzerTestOneInput_eq ac_simps)
qed simp

text \<open>The frame behind the headers, and the checks of the XDP program on it.\<close>

lemma xdp_checks_payload:
  assumes "xdp_match p"
  shows "xdp_valid p \<and> workers_ok (gh_num_workers (xdp_hdr p)) \<longleftrightarrow> agg_accepts (drop 42 p)"
    "xdp_hdr p = agg_hdr (drop 42 p)"
proof -
  have len: "62 \<le> length p" using assms by (simp add: xdp_match_def)
  show eq: "xdp_hdr p = agg_hdr (drop 42 p)"
    using wire_hdr_shift [of "take 42 p" "drop 42 p"] len by simp
  have w: "wire16 p 54 = wire16 (drop 42 p) 12" "wire16 p 56 = wire16 (drop 42 p) 14" "wire16 p 58 = wire16 (drop 42 p) 16"
    using len by (simp_all add: wire16_def)
  show "xdp_valid p \<and> workers_ok (gh_num_workers (xdp_hdr p)) \<longleftrightarrow> agg_accepts (drop 42 p)"
    unfolding xdp_valid_def workers_ok_def eq agg_accepts_def using len w by auto
qed

section \<open>Properties\<close>

lemma stateless_verdict:
  "pr_verdict (stateless_result d) = NETSUM_PARSE_ACCEPT \<longleftrightarrow> agg_accepts d"
  "pr_verdict (stateless_result d) = NETSUM_PARSE_REJECT \<longleftrightarrow> \<not> agg_accepts d"
  by (simp_all add: stateless_result_def netsum_reject_def)

lemma stateless_fields:
  "pr_verdict (stateless_result d) = NETSUM_PARSE_ACCEPT \<Longrightarrow> pr_worker_id (stateless_result d) = wire16 d 12 \<and>
     pr_num_workers (stateless_result d) = wire16 d 14 \<and> pr_chunk_len (stateless_result d) = wire16 d 16"
  by (simp add: stateless_result_def netsum_reject_def split: if_split_asm)

lemma xdp_checks_agree:
  assumes p: "xdp_match p" and M: "slot_map M (key_of (xdp_hdr p)) = None" "config_map M 0 = Some cfg" "length (ps_mac cfg) = 6"
      "max_slots_per_job cfg = 0" "slot_room K (slot_map M) (key_of (xdp_hdr p))"
  shows "\<exists>action q M'. netsum_xdp_aggregate K M p = Some (action, q, M') \<and>
    (\<not> agg_accepts (drop 42 p) \<longleftrightarrow> action = XDP_DROP \<and> q = p \<and> M' = M)"
proof (cases "agg_accepts (drop 42 p)")
  case True
  then have "xdp_valid p" "workers_ok (gh_num_workers (xdp_hdr p))" using xdp_checks_payload(1) [OF p] by blast+
  from xdp_takes [OF p this M] True show ?thesis by blast
next
  case no: False
  have "netsum_xdp_aggregate K M p = Some (XDP_DROP, p, M)"
  proof (cases "xdp_valid p")
    case True
    then have w: "\<not> workers_ok (gh_num_workers (xdp_hdr p))" using no xdp_checks_payload(1) [OF p] by blast
    show ?thesis
      by (cases rule: xdp_slot_for_cases [OF p, of M K, case_names found workers quota full created])
        (use w M(1) in \<open>simp_all add: netsum_parsed [OF p True]\<close>)
  qed (use netsum_rejected(2) [OF p] in simp)
  with no show ?thesis by blast
qed

text \<open>
  C33. The two extracted parsers are the same function, and the extraction is faithful. On every byte string both return
  (without reading past its end) the same verdict and, when they accept, the same three fields, those of the header. After any run of the
  userspace aggregator they reject exactly the datagrams that its receive loop drops without a trace, with no log line, nothing
  sent and both tables as before. A gradient frame whose key has no slot, with a configuration loaded, no quota and room for a slot,
  has a payload they reject exactly when the XDP program drops it unchanged and leaves all maps as they were; when they
  accept, the fields are the program's. The harness that compares them never aborts: whatever inputs a session runs, the three numbers it prints at
  exit account for each of them, as accepted or rejected by both parsers. What a campaign tests on samples holds
  for all inputs.
\<close>
theorem fuzz_parsers_equivalent:
  assumes "length b = 276" "length b' = 276" "agg_run cfg before (agg_init b b' now) = Some (st, evss)" "ai_recv inp = Datagram d"
    and "xdp_match p" "slot_map M (key_of (xdp_hdr p)) = None" "config_map M 0 = Some pcfg" "length (ps_mac pcfg) = 6"
      "max_slots_per_job pcfg = 0" "slot_room K (slot_map M) (key_of (xdp_hdr p))"
  shows "\<exists>r r' st' evs action q M' g. agg_parse_stateless d = Some r \<and> xdp_parse_stateless d = Some r \<and>
     (pr_verdict r = NETSUM_PARSE_ACCEPT \<longrightarrow>
        pr_worker_id r = wire16 d 12 \<and> pr_num_workers r = wire16 d 14 \<and> pr_chunk_len r = wire16 d 16) \<and>
     agg_receive cfg inp st = Some (st', evs) \<and>
     (pr_verdict r = NETSUM_PARSE_REJECT \<longleftrightarrow> evs = [] \<and> ag_slots st' = ag_slots st \<and> ag_jobs st' = ag_jobs st) \<and>
     xdp_parse_stateless (drop 42 p) = Some r' \<and> netsum_xdp_aggregate K M p = Some (action, q, M') \<and>
     (pr_verdict r' = NETSUM_PARSE_REJECT \<longleftrightarrow> action = XDP_DROP \<and> q = p \<and> M' = M) \<and>
     (pr_verdict r' = NETSUM_PARSE_ACCEPT \<longrightarrow>
        (\<exists>x. xdp_parse p = Some (Inr x) \<and> xp_chunk_len x = pr_chunk_len r' \<and> xp_worker_id x = pr_worker_id r')) \<and>
     fuzz_session ds \<lparr>g_inputs = 0, g_accepted_both = 0, g_rejected_both = 0\<rparr> = Some (Fuzz_ok g) \<and>
     print_summary g = (word_of_nat (length ds),
       word_of_nat (length (filter (\<lambda>d. map_option pr_verdict (agg_parse_stateless d) = Some NETSUM_PARSE_ACCEPT) ds)),
       word_of_nat (length (filter (\<lambda>d. map_option pr_verdict (agg_parse_stateless d) = Some NETSUM_PARSE_REJECT) ds)))"
proof -
  obtain rs u where "agg_simulates rs u st"
    using agg_run_simulates [OF agg_simulates_init [OF assms(1,2)], of before "map (\<lambda>inp. agg_request (ai_recv inp)) before" cfg now] assms(3) by auto
  from agg_receive_visible [OF this, of cfg inp] assms(4) obtain st' evs where a: "agg_receive cfg inp st = Some (st', evs)"
    "\<not> agg_accepts d \<longleftrightarrow> evs = [] \<and> ag_slots st' = ag_slots st \<and> ag_jobs st' = ag_jobs st" by auto
  from xdp_checks_agree [OF assms(5-10)] obtain action q M' where x: "netsum_xdp_aggregate K M p = Some (action, q, M')"
    "\<not> agg_accepts (drop 42 p) \<longleftrightarrow> action = XDP_DROP \<and> q = p \<and> M' = M" by blast
  have f: "\<exists>x. xdp_parse p = Some (Inr x) \<and> xp_chunk_len x = gh_chunk_len (xdp_hdr p) \<and> xp_worker_id x = gh_worker_id (xdp_hdr p)"
    if "agg_accepts (drop 42 p)"
    using that xdp_checks_payload(1) [OF assms(5)] xdp_parse_ok [OF assms(5)] by (simp add: parsed_of_def)
  let ?g = "\<lparr>g_inputs = word_of_nat (length ds), g_accepted_both = word_of_nat (length (filter agg_accepts ds)),
      g_rejected_both = word_of_nat (length (filter (\<lambda>d. \<not> agg_accepts d) ds))\<rparr>"
  have "fuzz_session ds \<lparr>g_inputs = 0, g_accepted_both = 0, g_rejected_both = 0\<rparr> = Some (Fuzz_ok ?g)"
    by (simp add: fuzz_session_eq)
  moreover have "print_summary ?g = (word_of_nat (length ds),
       word_of_nat (length (filter (\<lambda>d. map_option pr_verdict (agg_parse_stateless d) = Some NETSUM_PARSE_ACCEPT) ds)),
       word_of_nat (length (filter (\<lambda>d. map_option pr_verdict (agg_parse_stateless d) = Some NETSUM_PARSE_REJECT) ds)))"
    by (simp add: print_summary_def agg_parse_stateless_eq stateless_verdict)
  moreover have "\<exists>x. xdp_parse p = Some (Inr x) \<and> xp_chunk_len x = pr_chunk_len (stateless_result (drop 42 p)) \<and>
      xp_worker_id x = pr_worker_id (stateless_result (drop 42 p))" if "pr_verdict (stateless_result (drop 42 p)) = NETSUM_PARSE_ACCEPT"
  proof -
    have acc: "agg_accepts (drop 42 p)" using that by (simp only: stateless_verdict)
    show ?thesis using f [OF acc] acc by (simp add: stateless_result_def xdp_checks_payload(2) [OF assms(5)] del: wire_hdr_sel)
  qed
  ultimately show ?thesis
    using agg_parse_stateless_eq xdp_parse_stateless_eq a [folded stateless_verdict(2)] x [folded stateless_verdict(2)] stateless_fields
    by blast
qed

text \<open>A payload without workers, sent to both programs as they start.\<close>
theorem fuzz_parsers_equivalent_witness:
  "\<exists>st' action q M'. agg_receive sample_agg (sample_input (encode_packet ((sample_hdr 0 0)\<lparr>gh_num_workers := 0\<rparr>) [5, 7])) sample_start = Some (st', []) \<and>
     ag_slots st' = ag_slots sample_start \<and>
     netsum_xdp_aggregate sample_kernel (xdp_empty\<lparr>config_map := [0 \<mapsto> sample_config\<lparr>max_slots_per_job := 0\<rparr>]\<rparr>) (sample_packets ! 0) = Some (action, q, M') \<and>
     \<not> (action = XDP_DROP \<and> q = sample_packets ! 0 \<and> M' = xdp_empty\<lparr>config_map := [0 \<mapsto> sample_config\<lparr>max_slots_per_job := 0\<rparr>]\<rparr>)"
proof -
  let ?d = "encode_packet ((sample_hdr 0 0)\<lparr>gh_num_workers := 0\<rparr>) [5, 7]" and ?p = "sample_packets ! 0"
  let ?M = "xdp_empty\<lparr>config_map := [0 \<mapsto> sample_config\<lparr>max_slots_per_job := 0\<rparr>]\<rparr>"
  have p: "?p = sample_frame (sample_hdr 0 0) [5, 7]" by (simp add: sample_packets_def)
  have run: "agg_run sample_agg [] sample_start = Some (sample_start, [])" by simp
  have hyps: "xdp_match ?p" "slot_map ?M (key_of (xdp_hdr ?p)) = None" "config_map ?M 0 = Some (sample_config\<lparr>max_slots_per_job := 0\<rparr>)"
    "length (ps_mac (sample_config\<lparr>max_slots_per_job := 0\<rparr>)) = 6" "max_slots_per_job (sample_config\<lparr>max_slots_per_job := 0\<rparr>) = 0"
    "slot_room sample_kernel (slot_map ?M) (key_of (xdp_hdr ?p))"
    by (simp_all add: p xdp_empty_def sample_kernel_def sample_config_def)
  have z: "length zeros = 276" by simp
  from fuzz_parsers_equivalent [OF z z run sample_input_simps(1) hyps, of ?d "[]"]
  obtain r r' st' evs action q M' where F: "agg_parse_stateless ?d = Some r"
    "agg_receive sample_agg (sample_input ?d) sample_start = Some (st', evs)"
    "pr_verdict r = NETSUM_PARSE_REJECT \<longleftrightarrow> evs = [] \<and> ag_slots st' = ag_slots sample_start \<and> ag_jobs st' = ag_jobs sample_start"
    "xdp_parse_stateless (drop 42 ?p) = Some r'" "netsum_xdp_aggregate sample_kernel ?M ?p = Some (action, q, M')"
    "pr_verdict r' = NETSUM_PARSE_REJECT \<longleftrightarrow> action = XDP_DROP \<and> q = ?p \<and> M' = ?M" by (elim exE conjE) (rule that)
  have "\<not> agg_accepts ?d" by (simp add: agg_accepts_def del: wire_hdr_sel)
  then have 1: "evs = []" "ag_slots st' = ag_slots sample_start" using F(1,3) by (auto simp: agg_parse_stateless_eq stateless_verdict)
  have "drop 42 ?p = encode_packet (sample_hdr 0 0) [5, 7]" unfolding p sample_frame_def by simp
  then have "agg_accepts (drop 42 ?p)" by (simp add: agg_accepts_def del: wire_hdr_sel) (simp add: sample_hdr_def)
  then have "pr_verdict r' \<noteq> NETSUM_PARSE_REJECT" using F(4) by (auto simp: xdp_parse_stateless_eq stateless_verdict)
  with F(2,5,6) 1 show ?thesis by blast
qed

end
