(* ===== verification/Pipeline.thy ===== *)
theory Pipeline
  imports Agg_Properties Paramserver_Properties Fuzz
begin

text \<open>
  The components composed: what the parameter server makes of a round that reaches it directly, through the
  userspace aggregator, or through the XDP program. All three routes give the same sum.
\<close>

section \<open>A round at the parameter server\<close>

lemma column_sum_single: "length vs = n \<Longrightarrow> column_sum n {#vs#} = vs"
  by (rule nth_equalityI) simp_all

text \<open>All 64 components of the sum of contributions of length \<open>n\<close>.\<close>

definition padded_sum :: "nat \<Rightarrow> i32 list multiset \<Rightarrow> i32 list" where
  "padded_sum n M = column_sum n M @ replicate (64 - n) 0"

lemma log_sum_padded:
  assumes "\<forall>c\<in>set L. length (snd c) = n" "n \<le> 64"
  shows "log_sum L = padded_sum n (mset (map snd L))"
  using assms(1)
proof (induction L rule: rev_induct)
  case Nil
  have "replicate 64 (0 :: i32) = replicate n 0 @ replicate (64 - n) 0" using assms(2) by (simp add: replicate_add [symmetric])
  then show ?case by (simp add: padded_sum_def column_sum_empty)
next
  case (snoc c L)
  have l: "length (snd c) = n" using snoc.prems by simp
  have "log_sum (L @ [c]) = add_values (padded_sum n (mset (map snd L))) (snd c)" using snoc by simp
  also have "\<dots> = padded_sum n (mset (map snd (L @ [c])))"
    by (rule nth_equalityI) (use l in \<open>auto simp: padded_sum_def nth_add_values nth_append\<close>)
  finally show ?case .
qed

text \<open>
  From an empty table, whatever the buffer holds, the server logs one completion, for \<open>k\<close>, and the slot holds \<open>tot\<close>.
\<close>

definition ps_obtains :: "bool \<Rightarrow> ps_input list \<Rightarrow> grad_slot_key \<Rightarrow> i32 list \<Rightarrow> bool" where
  "ps_obtains agg_mode inps k tot \<longleftrightarrow> (\<forall>packet. length packet = NETSUM_MAX_PACKET_SIZE \<longrightarrow>
     (\<exists>st n latency s. ps_run agg_mode 0 inps (ps_init packet) =
          Some (st, [Ps_complete (k_job_id k) (k_round k) (k_chunk_id k) n (tot ! 0) latency]) \<and>
        slot_map_of (ps_slots st) k = Some s \<and> sl_sum s = tot))"

lemma ps_obtains_round:
  assumes "ps_datagrams ds inps" "ps_round agg_mode k (length ds) ds" "ds \<noteq> []"
    and n: "\<forall>d\<in>set ds. unat (gh_chunk_len (wire_hdr d 0)) = n" "n \<le> 64"
  shows "ps_obtains agg_mode inps k (padded_sum n (mset (map (\<lambda>d. snd (contribution_of d)) ds)))"
  unfolding ps_obtains_def
proof (intro allI impI)
  fix packet :: bytes assume p: "length packet = NETSUM_MAX_PACKET_SIZE"
  let ?L = "map contribution_of ds"
  obtain st ev s where r: "ps_run agg_mode 0 inps (ps_init packet) = Some (st, [ev])"
    "ps_completes (wire_hdr (last ds) 0) (length ds) (log_sum ?L) ev" "slot_map_of (ps_slots st) k = Some s" "sl_sum s = log_sum ?L"
    using ps_run_pending [OF ps_init_tracks(1) [OF p] _ _ assms(1,2) _ assms(3), of "[]"] ps_fresh_table [of packet k]
    by (auto simp: ps_pending_def)
  have k: "key_of (wire_hdr (last ds) 0) = k" using assms(2,3) by (simp add: ps_round_def)
  have "log_sum ?L = padded_sum n (mset (map snd ?L))"
    by (rule log_sum_padded) (use n in \<open>auto simp: contribution_of_def\<close>)
  moreover have "map snd ?L = map (\<lambda>d. snd (contribution_of d)) ds" by simp
  ultimately have s: "log_sum ?L = padded_sum n (mset (map (\<lambda>d. snd (contribution_of d)) ds))" by (simp only:)
  show "\<exists>st m latency s. ps_run agg_mode 0 inps (ps_init packet) =
      Some (st, [Ps_complete (k_job_id k) (k_round k) (k_chunk_id k) m
        (padded_sum n (mset (map (\<lambda>d. snd (contribution_of d)) ds)) ! 0) latency]) \<and>
      slot_map_of (ps_slots st) k = Some s \<and> sl_sum s = padded_sum n (mset (map (\<lambda>d. snd (contribution_of d)) ds))"
    using r k by (auto simp: ps_completes_def key_of_def s)
qed

text \<open>A single packet of sums, from either aggregator, in either mode.\<close>

lemma ps_obtains_sum:
  assumes "ps_datagrams [d] inps" "agg_accepts d" "gh_num_workers (agg_hdr d) = 1"
  shows "ps_obtains agg_mode inps (key_of (agg_hdr d))
    (agg_values d @ replicate (64 - unat (gh_chunk_len (agg_hdr d))) 0)"
proof -
  have "ps_round agg_mode (key_of (agg_hdr d)) (length [d]) [d]"
    using assms(2,3) by (simp add: ps_round_def ps_accepts_def ps_covers_def agg_accepts_def)
  from ps_obtains_round [OF assms(1) this _ _ , of "unat (gh_chunk_len (agg_hdr d))"]
  have "ps_obtains agg_mode inps (key_of (agg_hdr d)) (padded_sum (unat (gh_chunk_len (agg_hdr d))) {#agg_values d#})"
    using assms(2) by (simp add: agg_accepts_def contribution_of_def agg_values_def)
  moreover have "padded_sum (unat (gh_chunk_len (agg_hdr d))) {#agg_values d#} = agg_values d @ replicate (64 - unat (gh_chunk_len (agg_hdr d))) 0"
    by (simp add: padded_sum_def column_sum_single agg_values_def)
  ultimately show ?thesis by (simp only:)
qed

lemma ps_obtains_direct:
  assumes "ps_datagrams ds inps" "round_datagrams k (length ds) len ds" "ds \<noteq> []"
  shows "ps_obtains False inps k (padded_sum len (mset (map agg_values ds)))"
proof -
  have d: "agg_accepts d \<and> key_of (agg_hdr d) = k \<and> unat (gh_num_workers (agg_hdr d)) = length ds \<and>
      unat (gh_chunk_len (agg_hdr d)) = len \<and> snd (contribution_of d) = agg_values d" if "d \<in> set ds" for d
    using that assms(2) by (simp add: round_datagrams_def contribution_of_def agg_values_def)
  have "distinct (map unat (map (\<lambda>d. gh_worker_id (agg_hdr d)) ds))"
    using assms(2) unfolding round_datagrams_def distinct_map [of unat] by (simp add: inj_on_def word_unat_eq_iff)
  then have "ps_round False k (length ds) ds"
    using d unfolding ps_round_def by (auto simp: ps_accepts_def ps_covers_def agg_accepts_def contribution_of_def comp_def)
  moreover have "len \<le> 64" using d [of "hd ds"] assms(3) by (auto simp: agg_accepts_def)
  ultimately have "ps_obtains False inps k (padded_sum len (mset (map (\<lambda>d. snd (contribution_of d)) ds)))"
    using d by (intro ps_obtains_round [OF assms(1) _ assms(3)]) auto
  then show ?thesis using d by (simp cong: map_cong)
qed

section \<open>Through the userspace aggregator\<close>

lemma sum_packet_fields:
  assumes "length tot = len" "len \<le> 64"
  shows "agg_hdr (encode_packet (sum_hdr k len) tot) = sum_hdr k len" "agg_values (encode_packet (sum_hdr k len) tot) = tot"
    "agg_accepts (encode_packet (sum_hdr k len) tot)" "key_of (sum_hdr k len) = k"
proof -
  let ?d = "encode_packet (sum_hdr k len) tot"
  show h: "agg_hdr ?d = sum_hdr k len" by simp
  have w: "wire16 ?d 12 = 0" "wire16 ?d 14 = 1" "wire16 ?d 16 = word_of_nat len"
    using wire_hdr_sel(4-6) [of ?d 0, unfolded h] by (simp_all add: sum_hdr_def)
  have u: "unat (word_of_nat len :: u16) = len" using assms(2) by (simp add: unat_of_nat)
  show "agg_values ?d = tot" using assms(1) wire_values_encode [of "sum_hdr k len" tot] by (simp add: agg_values_def w u del: wire_hdr_encode)
  show "agg_accepts ?d" using assms by (simp add: agg_accepts_def sum_hdr_def u)
  show "key_of (sum_hdr k len) = k" by (simp add: sum_hdr_def key_of_def)
qed

lemma agg_round_sent:
  assumes b: "length b = 276" "length b' = 276"
    and q: "\<forall>inp\<in>set inps. quiet cfg inp (agg_init b b' now)" "ac_max_packets cfg = 0" "agg_admits cfg (\<lambda>_. zero_job) (k_job_id k)"
    and rd: "round_datagrams k (length inps) len (datagrams inps)" "inps \<noteq> []"
  shows "\<exists>st evss. agg_run cfg inps (agg_init b b' now) = Some (st, evss) \<and>
    concat (map sent evss) = [encode_packet (sum_hdr k len) (column_sum len (mset (map agg_values (datagrams inps))))]"
proof -
  obtain i where i: "probe_slot (ag_slots (agg_init b b' now)) k = Free i" using fresh_probe by blast
  have "agg_admits cfg (ag_jobs (agg_init b b' now)) (k_job_id k)" using q(3) by (simp add: agg_init_def)
  from agg_completes [OF agg_simulates_init [OF b, of "[]"] q(1,2) i this rd]
  obtain st evss where "agg_run cfg inps (agg_init b b' now) = Some (st, evss)"
    "map sent evss = replicate (length inps - 1) [] @ [[encode_packet (sum_hdr k len) (column_sum len (mset (map agg_values (datagrams inps))))]]"
    by blast
  then show ?thesis by (simp add: concat_replicate_trivial)
qed

lemma round_length_bound: "round_datagrams k n len ds \<Longrightarrow> ds \<noteq> [] \<Longrightarrow> len \<le> 64"
  by (cases ds) (auto simp: round_datagrams_def agg_accepts_def)

lemma agg_route:
  assumes "length b = 276" "length b' = 276"
    and "\<forall>inp\<in>set inps. quiet cfg inp (agg_init b b' now)" "ac_max_packets cfg = 0" "agg_admits cfg (\<lambda>_. zero_job) (k_job_id k)"
    and "round_datagrams k (length inps) len (datagrams inps)" "inps \<noteq> []"
    and "ps_datagrams (datagrams inps) direct"
  shows "\<exists>st evss out. agg_run cfg inps (agg_init b b' now) = Some (st, evss) \<and> concat (map sent evss) = [out] \<and>
    ps_obtains False direct k (padded_sum len (mset (map agg_values (datagrams inps)))) \<and>
    (\<forall>via agg_mode. ps_datagrams [out] via \<longrightarrow>
       ps_obtains agg_mode via k (padded_sum len (mset (map agg_values (datagrams inps)))))"
proof -
  let ?tot = "column_sum len (mset (map agg_values (datagrams inps)))"
  have len: "len \<le> 64" using round_length_bound [OF assms(6)] assms(7) by simp
  note f = sum_packet_fields [of ?tot len k, OF length_column_sum len]
  have one: "gh_num_workers (agg_hdr (encode_packet (sum_hdr k len) ?tot)) = 1" "unat (gh_chunk_len (sum_hdr k len)) = len"
    unfolding f(1) using len by (simp_all add: sum_hdr_def unat_of_nat)
  have "ps_obtains agg_mode via k (padded_sum len (mset (map agg_values (datagrams inps))))"
    if "ps_datagrams [encode_packet (sum_hdr k len) ?tot] via" for via agg_mode
    using ps_obtains_sum [OF that f(3) one(1), of agg_mode] unfolding f(1,2,4) one(2) padded_sum_def .
  moreover have "ps_obtains False direct k (padded_sum len (mset (map agg_values (datagrams inps))))"
    using assms(6,7) by (intro ps_obtains_direct [OF assms(8)]) simp_all
  ultimately show ?thesis using agg_round_sent [OF assms(1-7)] by blast
qed

section \<open>Through the XDP program\<close>

text \<open>The frames of a round carry the datagrams of a round.\<close>

lemma frame_payload:
  assumes "xdp_match p"
  shows "agg_values (drop 42 p) = xdp_values p" "agg_hdr (drop 42 p) = xdp_hdr p"
proof -
  have len: "62 \<le> length p" using assms by (simp add: xdp_match_def)
  show h: "agg_hdr (drop 42 p) = xdp_hdr p" by (rule xdp_checks_payload(2) [OF assms, symmetric])
  have "wire_values (take 42 p @ drop 42 p) (length (take 42 p) + 20) n = wire_values (drop 42 p) 20 n" for n
    by (rule wire_values_shift)
  then have "wire_values p 62 n = wire_values (drop 42 p) 20 n" for n using len by simp
  then show "agg_values (drop 42 p) = xdp_values p" unfolding agg_values_def xdp_values_def h by simp
qed

lemma round_packets_payloads:
  assumes "round_packets k (length ps) len ps" "ps \<noteq> []"
  shows "round_datagrams k (length ps) len (map (drop 42) ps)" "map agg_values (map (drop 42) ps) = map xdp_values ps"
proof -
  note P = assms(1) [unfolded round_packets_def]
  have m: "xdp_match p" "xdp_valid p" "unat (gh_num_workers (xdp_hdr p)) = length ps" if "p \<in> set ps" for p using P that by auto
  let ?ws = "map (\<lambda>p. unat (gh_worker_id (xdp_hdr p))) ps"
  have "distinct (map unat (map (\<lambda>p. gh_worker_id (xdp_hdr p)) ps))"
    using P unfolding distinct_map [of unat] by (simp add: inj_on_def word_unat_eq_iff)
  then have "distinct ?ws" by (simp add: comp_def del: wire_hdr_sel)
  then have "length ps = card (set ?ws)" using distinct_card [of ?ws] by (simp del: wire_hdr_sel)
  also have "\<dots> \<le> card {..<256 :: nat}"
    by (rule card_mono) (use m(2) in \<open>auto simp: xdp_valid_def\<close>)
  finally have n: "0 < length ps" "length ps \<le> 256" using assms(2) by auto
  have acc: "agg_accepts (drop 42 p)" if "p \<in> set ps" for p
    using xdp_checks_payload(1) [OF m(1) [OF that]] m(2,3) [OF that] n by (auto simp: workers_ok_def)
  show "round_datagrams k (length ps) len (map (drop 42) ps)"
    unfolding round_datagrams_def using P acc m by (auto simp: frame_payload comp_def simp del: wire_hdr_sel cong: map_cong)
  show "map agg_values (map (drop 42) ps) = map xdp_values ps" using m(1) by (simp add: frame_payload)
qed

lemma forwarded_payload:
  assumes "xdp_match p" "xdp_valid p" "forwarded cfg p vs q" "length vs = unat (gh_chunk_len (xdp_hdr p))"
  shows "agg_hdr (drop 42 q) = (xdp_hdr p)\<lparr>gh_worker_id := 0, gh_num_workers := 1\<rparr>" "agg_values (drop 42 q) = vs"
    "agg_accepts (drop 42 q)"
proof -
  have len: "62 + 4 * length vs \<le> length q" "length vs \<le> 64"
    using assms by (auto simp: xdp_match_def xdp_valid_def forwarded_def)
  have "xdp_hdr q = (xdp_hdr p)\<lparr>gh_worker_id := 0, gh_num_workers := 1, gh_chunk_len := word_of_nat (length vs)\<rparr>"
    using assms(3) by (simp add: forwarded_def)
  also have "\<dots> = (xdp_hdr p)\<lparr>gh_worker_id := 0, gh_num_workers := 1\<rparr>"
    using assms(4) by (simp add: wire_hdr_def)
  finally have "wire_hdr (take 42 q @ drop 42 q) (length (take 42 q)) = (xdp_hdr p)\<lparr>gh_worker_id := 0, gh_num_workers := 1\<rparr>"
    using len by simp
  then show h: "agg_hdr (drop 42 q) = (xdp_hdr p)\<lparr>gh_worker_id := 0, gh_num_workers := 1\<rparr>"
    unfolding wire_hdr_shift .
  have n: "unat (gh_chunk_len (agg_hdr (drop 42 q))) = length vs" "gh_worker_id (agg_hdr (drop 42 q)) = 0" "gh_num_workers (agg_hdr (drop 42 q)) = 1"
    unfolding h using assms(4) by simp_all
  have "wire_values (drop 42 q) 20 (length vs) = wire_values (take 42 q @ drop 42 q) (length (take 42 q) + 20) (length vs)"
    by (rule wire_values_shift [symmetric])
  also have "\<dots> = wire_values q 62 (length vs)" using len by simp
  also have "\<dots> = vs" using assms(3) by (simp add: forwarded_def)
  finally show "agg_values (drop 42 q) = vs" unfolding agg_values_def n .
  show "agg_accepts (drop 42 q)" unfolding agg_accepts_def n using len by (simp, linarith)
qed

lemma xdp_route:
  assumes "slot_map M = Map.empty" "config_ok M" "config_map M 0 = Some cfg"
    and "xdp_admits K M (hd ps)" "round_packets k (length ps) len ps" "ps \<noteq> []"
    and "ps_datagrams (map (drop 42) ps) direct"
  shows "\<exists>q M'. xdp_run K M ps = Some (map (\<lambda>p. (XDP_DROP, p)) (butlast ps) @ [(XDP_TX, q)], M') \<and>
    ps_obtains False direct k (padded_sum len (mset (map xdp_values ps))) \<and>
    (\<forall>via agg_mode. ps_datagrams [drop 42 q] via \<longrightarrow>
       ps_obtains agg_mode via k (padded_sum len (mset (map xdp_values ps))))"
proof -
  let ?tot = "column_sum len (mset (map xdp_values ps))"
  have "xdp_tracks M Map.empty" using assms(1) by (simp add: xdp_tracks_def)
  from xdp_completes [OF assms(2) this assms(3) _ assms(4,6,5)] assms(1)
  obtain q M' where q: "xdp_run K M ps = Some (map (\<lambda>p. (XDP_DROP, p)) (butlast ps) @ [(XDP_TX, q)], M')"
    "forwarded cfg (last ps) ?tot q"
    by auto
  have l: "xdp_match (last ps)" "xdp_valid (last ps)" "key_of (xdp_hdr (last ps)) = k" "length ?tot = unat (gh_chunk_len (xdp_hdr (last ps)))"
    using assms(5) last_in_set [OF assms(6)] by (auto simp: round_packets_def)
  note f = forwarded_payload [OF l(1,2) q(2) l(4)]
  have o1: "gh_num_workers (agg_hdr (drop 42 q)) = 1" "key_of (agg_hdr (drop 42 q)) = k" "unat (gh_chunk_len (agg_hdr (drop 42 q))) = len"
    unfolding f(1) using l(3,4) by (simp_all add: key_of_def)
  have "ps_obtains agg_mode via k (padded_sum len (mset (map xdp_values ps)))" if "ps_datagrams [drop 42 q] via" for via agg_mode
    using ps_obtains_sum [OF that f(3) o1(1), of agg_mode] unfolding o1 f(2) padded_sum_def .
  moreover have "ps_obtains False direct k (padded_sum len (mset (map agg_values (map (drop 42) ps))))"
    by (rule ps_obtains_direct [OF assms(7)]) (use round_packets_payloads(1) [OF assms(5,6)] assms(6) in simp_all)
  then have "ps_obtains False direct k (padded_sum len (mset (map xdp_values ps)))"
    unfolding round_packets_payloads(2) [OF assms(5,6)] .
  ultimately show ?thesis using q(1) by blast
qed

text \<open>What the two aggregators send for the same round.\<close>

lemma aggregators_wire:
  assumes "slot_map M = Map.empty" "config_ok M" "config_map M 0 = Some xcfg" "xdp_admits K M (hd ps)"
    and "round_packets k (length ps) len ps" "ps \<noteq> []"
    and "length b = 276" "length b' = 276" "\<forall>inp\<in>set inps. quiet cfg inp (agg_init b b' now)" "ac_max_packets cfg = 0"
    and "agg_admits cfg (\<lambda>_. zero_job) (k_job_id k)" "datagrams inps = map (drop 42) ps"
  shows "\<exists>q M' st evss out. xdp_run K M ps = Some (map (\<lambda>p. (XDP_DROP, p)) (butlast ps) @ [(XDP_TX, q)], M') \<and>
    agg_run cfg inps (agg_init b b' now) = Some (st, evss) \<and> concat (map sent evss) = [out] \<and>
    agg_hdr (drop 42 q) = (agg_hdr out)\<lparr>gh_flags := gh_flags (xdp_hdr (last ps))\<rparr> \<and>
    agg_values (drop 42 q) = agg_values out"
proof -
  let ?tot = "column_sum len (mset (map xdp_values ps))"
  have n: "length inps = length ps" using arg_cong [OF assms(12), of length] by simp
  have rd: "round_datagrams k (length inps) len (datagrams inps)" "map agg_values (datagrams inps) = map xdp_values ps"
    unfolding assms(12) n using round_packets_payloads [OF assms(5,6)] by simp_all
  have ne: "inps \<noteq> []" using n assms(6) by auto
  have len: "len \<le> 64" using round_length_bound [OF rd(1)] ne by simp
  obtain st evss where a: "agg_run cfg inps (agg_init b b' now) = Some (st, evss)"
    "concat (map sent evss) = [encode_packet (sum_hdr k len) ?tot]"
    using agg_round_sent [OF assms(7-11) rd(1) ne] unfolding rd(2) by blast
  have "xdp_tracks M Map.empty" using assms(1) by (simp add: xdp_tracks_def)
  from xdp_completes [OF assms(2) this assms(3) _ assms(4,6,5)] assms(1)
  obtain q M' where q: "xdp_run K M ps = Some (map (\<lambda>p. (XDP_DROP, p)) (butlast ps) @ [(XDP_TX, q)], M')"
    "forwarded xcfg (last ps) ?tot q"
    by auto
  have l: "xdp_match (last ps)" "xdp_valid (last ps)" "key_of (xdp_hdr (last ps)) = k" "length ?tot = unat (gh_chunk_len (xdp_hdr (last ps)))"
    using assms(5) last_in_set [OF assms(6)] by (auto simp: round_packets_def)
  note f = forwarded_payload [OF l(1,2) q(2) l(4)] sum_packet_fields [of ?tot len k, OF length_column_sum len]
  have c: "gh_chunk_len (xdp_hdr (last ps)) = word_of_nat len"
    using l(4) by (simp del: wire_hdr_sel add: word_unat_eq_iff)
  have "agg_hdr (drop 42 q) = (sum_hdr k len)\<lparr>gh_flags := gh_flags (xdp_hdr (last ps))\<rparr>"
    unfolding f(1) using l(3) c by (auto simp: sum_hdr_def key_of_def)
  then show ?thesis using q(1) a f(2,4,5) by metis
qed

section \<open>The three routes\<close>

text \<open>
  C40. It makes no difference how a round is aggregated. Take the frames of a complete round that the XDP program admits, and
  their payloads, in any order of the workers: sent straight to a parameter server in \<open>noagg\<close> mode, through the userspace
  aggregator, or through the XDP program, they make the server log exactly one completion, of the same first
  component, and hold the same 64-component sum, that of the round, the server behind an aggregator being in either mode. Each aggregator sends
  one packet, with the same values and the same header but for the flags, which the XDP program leaves as the last worker
  sent them and the userspace aggregator clears.
\<close>
theorem routes_agree:
  assumes "slot_map M = Map.empty" "config_ok M" "config_map M 0 = Some xcfg" "xdp_admits K M (hd ps)"
    and "round_packets k (length ps) len ps" "ps \<noteq> []"
    and "length b = 276" "length b' = 276" "\<forall>inp\<in>set inps. quiet cfg inp (agg_init b b' now)" "ac_max_packets cfg = 0"
    and "agg_admits cfg (\<lambda>_. zero_job) (k_job_id k)" "datagrams inps = map (drop 42) ps"
    and "ps_datagrams (map (drop 42) ps) direct"
  shows "\<exists>q M' st evss out. xdp_run K M ps = Some (map (\<lambda>p. (XDP_DROP, p)) (butlast ps) @ [(XDP_TX, q)], M') \<and>
    agg_run cfg inps (agg_init b b' now) = Some (st, evss) \<and> concat (map sent evss) = [out] \<and>
    agg_hdr (drop 42 q) = (agg_hdr out)\<lparr>gh_flags := gh_flags (xdp_hdr (last ps))\<rparr> \<and> agg_values (drop 42 q) = agg_values out \<and>
    ps_obtains False direct k (padded_sum len (mset (map xdp_values ps))) \<and>
    (\<forall>d via agg_mode. d \<in> {out, drop 42 q} \<longrightarrow> ps_datagrams [d] via \<longrightarrow>
       ps_obtains agg_mode via k (padded_sum len (mset (map xdp_values ps))))"
proof -
  have n: "length inps = length ps" using arg_cong [OF assms(12), of length] by simp
  have rd: "round_datagrams k (length inps) len (datagrams inps)" "map agg_values (datagrams inps) = map xdp_values ps" "inps \<noteq> []"
    unfolding assms(12) using n round_packets_payloads [OF assms(5,6)] assms(6) by auto
  from agg_route [OF assms(7-11) rd(1,3), of direct] assms(12,13) obtain st evss out where
    a: "agg_run cfg inps (agg_init b b' now) = Some (st, evss)" "concat (map sent evss) = [out]"
      "\<forall>via agg_mode. ps_datagrams [out] via \<longrightarrow> ps_obtains agg_mode via k (padded_sum len (mset (map xdp_values ps)))"
    unfolding rd(2) by auto
  from xdp_route [OF assms(1-6,13)] obtain q M' where
    x: "xdp_run K M ps = Some (map (\<lambda>p. (XDP_DROP, p)) (butlast ps) @ [(XDP_TX, q)], M')"
      "ps_obtains False direct k (padded_sum len (mset (map xdp_values ps)))"
      "\<forall>via agg_mode. ps_datagrams [drop 42 q] via \<longrightarrow> ps_obtains agg_mode via k (padded_sum len (mset (map xdp_values ps)))"
    by blast
  from aggregators_wire [OF assms(1-12)] a(1,2) x(1)
  have "agg_hdr (drop 42 q) = (agg_hdr out)\<lparr>gh_flags := gh_flags (xdp_hdr (last ps))\<rparr>" "agg_values (drop 42 q) = agg_values out"
    by auto
  with a x show ?thesis by (intro exI [of _ q] exI [of _ M'] exI [of _ st] exI [of _ evss] exI [of _ out]) simp
qed

theorem routes_agree_witness:
  "\<exists>q M' st evss out. xdp_run sample_kernel sample_maps sample_packets = Some ([(XDP_DROP, sample_packets ! 0), (XDP_TX, q)], M') \<and>
     agg_run sample_agg (map (\<lambda>p. sample_input (drop 42 p)) sample_packets) sample_start = Some (st, evss) \<and>
     concat (map sent evss) = [out] \<and> agg_values (drop 42 q) = agg_values out \<and>
     ps_obtains True [ps_sample_input (drop 42 q)] (key_of (sample_hdr 0 0)) ([6, -2] @ replicate 62 0)"
proof -
  have p: "padded_sum 2 (mset (map xdp_values sample_packets)) = [6, -2] @ replicate 62 0"
    by (simp add: padded_sum_def sample_values column_sum_def upt_rec)
  have "datagrams (map (\<lambda>p. sample_input (drop 42 p)) sample_packets) = map (drop 42) sample_packets" by simp
  from routes_agree [OF sample_maps_simps(1,4,3) sample_admits sample_round sample_packets_simps(1) _ _ _ _ _ this ps_sample_datagrams, of zeros zeros sample_agg 0]
  obtain q M' st evss out where r: "xdp_run sample_kernel sample_maps sample_packets = Some ([(XDP_DROP, sample_packets ! 0), (XDP_TX, q)], M')"
    "agg_run sample_agg (map (\<lambda>p. sample_input (drop 42 p)) sample_packets) sample_start = Some (st, evss)"
    "concat (map sent evss) = [out]" "agg_values (drop 42 q) = agg_values out"
    "ps_datagrams [drop 42 q] [ps_sample_input (drop 42 q)] \<longrightarrow>
       ps_obtains True [ps_sample_input (drop 42 q)] (key_of (sample_hdr 0 0)) (padded_sum 2 (mset (map xdp_values sample_packets)))"
    using sample_packets_simps(2) by (auto simp: agg_admits_unlimited)
  have "ps_datagrams [drop 42 q] [ps_sample_input (drop 42 q)]" by (simp add: ps_datagrams_def)
  with r show ?thesis unfolding p by blast
qed

end
