(* ===== verification/Fixed_Point.thy ===== *)
theory Fixed_Point
  imports Accumulate
begin

text \<open>
  The Q16.16 conversions and the overflow check of \<open>protocol/grad_proto.h\<close>. A finite \<open>double\<close> is its value, a
  rational number. Scaling by \<open>1 << NETSUM_Q_FRAC_BITS\<close> is exact in IEEE 754 arithmetic, any other
  operation rounds: the rounding is the parameter \<open>rnd\<close>, of which \<open>ieee_rounding\<close> says what the proofs rely on. The
  C conversion of a \<open>double\<close> to \<open>int32_t\<close> truncates and is undefined when the result does
  not fit; it is \<open>None\<close> then. Infinities and NaNs are not modelled.
\<close>

definition NETSUM_Q_FRAC_BITS :: nat where "NETSUM_Q_FRAC_BITS = 16"

definition trunc :: "rat \<Rightarrow> int" where
  "trunc x = (if 0 \<le> x then \<lfloor>x\<rfloor> else \<lceil>x\<rceil>)"

text \<open>\<open>(int32_t)x\<close>.\<close>

definition double_to_int32 :: "rat \<Rightarrow> i32 option" where
  "double_to_int32 x = (if - (2 ^ 31) \<le> trunc x \<and> trunc x < 2 ^ 31 then Some (word_of_int (trunc x)) else None)"

definition netsum_to_fixed :: "rat \<Rightarrow> i32 option" where
  "netsum_to_fixed v = double_to_int32 (v * of_nat (2 ^ NETSUM_Q_FRAC_BITS))"

definition netsum_to_double :: "i32 \<Rightarrow> rat" where
  "netsum_to_double fixed = of_int (sint fixed) / of_nat (2 ^ NETSUM_Q_FRAC_BITS)"

definition netsum_sum_fits_i32 :: "(rat \<Rightarrow> rat) \<Rightarrow> int \<Rightarrow> rat \<Rightarrow> bool" where
  "netsum_sum_fits_i32 rnd num_workers max_abs =
     (let max_fixed_sum = rnd (of_int num_workers * max_abs) * of_nat (2 ^ NETSUM_Q_FRAC_BITS)
      in max_fixed_sum < 2147483647 \<and> - max_fixed_sum > - 2147483648)"

text \<open>
  Rounding is monotone and keeps what a \<open>double\<close> can represent; \<open>is_double\<close> names the representable
  numbers that matter here, those with a significand of 53 bits and an exponent that is not large.
\<close>

definition is_double :: "rat \<Rightarrow> bool" where
  "is_double x \<longleftrightarrow> (\<exists>k e. x = of_int k / 2 ^ e \<and> \<bar>k\<bar> \<le> 2 ^ 53 \<and> e \<le> 1000)"

definition ieee_rounding :: "(rat \<Rightarrow> rat) \<Rightarrow> bool" where
  "ieee_rounding rnd \<longleftrightarrow> (\<forall>x y. x \<le> y \<longrightarrow> rnd x \<le> rnd y) \<and> (\<forall>x. is_double x \<longrightarrow> rnd x = x)"

lemma rounding_mono: "ieee_rounding rnd \<Longrightarrow> x \<le> y \<Longrightarrow> rnd x \<le> rnd y"
  by (simp add: ieee_rounding_def)

lemma is_doubleI: "x = of_int k / 2 ^ e \<Longrightarrow> \<bar>k\<bar> \<le> 2 ^ 53 \<Longrightarrow> e \<le> 1000 \<Longrightarrow> is_double x"
  unfolding is_double_def by blast

lemma is_double_minus:
  assumes "is_double x"
  shows "is_double (- x)"
proof -
  obtain k e where "x = of_int k / 2 ^ e" "\<bar>k\<bar> \<le> 2 ^ 53" "e \<le> 1000" using assms unfolding is_double_def by blast
  then show ?thesis by (intro is_doubleI [of _ "- k" e]) simp_all
qed

lemma rounding_double: "ieee_rounding rnd \<Longrightarrow> is_double x \<Longrightarrow> rnd x = x"
  by (simp add: ieee_rounding_def)

lemma rounding_exact: "ieee_rounding rnd \<Longrightarrow> x = of_int k / 2 ^ e \<Longrightarrow> \<bar>k\<bar> \<le> 2 ^ 53 \<Longrightarrow> e \<le> 1000 \<Longrightarrow> rnd x = x"
  by (rule rounding_double [OF _ is_doubleI])

lemma no_rounding: "ieee_rounding (\<lambda>x. x)"
  by (simp add: ieee_rounding_def)

section \<open>Truncation\<close>

lemma trunc_close: "\<bar>x - of_int (trunc x)\<bar> < 1"
  unfolding trunc_def by (simp add: abs_if) linarith

lemma trunc_toward_zero: "\<bar>of_int (trunc x) :: rat\<bar> \<le> \<bar>x\<bar>"
proof (cases "0 \<le> x")
  case True
  then show ?thesis by (simp add: trunc_def)
next
  case False
  then have "\<lceil>x\<rceil> \<le> 0" by simp
  then have "(of_int \<lceil>x\<rceil> :: rat) \<le> 0" by simp
  moreover have "x \<le> of_int \<lceil>x\<rceil>" by (rule le_of_int_ceiling)
  ultimately show ?thesis using False by (simp add: trunc_def)
qed

lemma trunc_of_int [simp]: "trunc (of_int k) = k"
  by (simp add: trunc_def)

lemma trunc_signed: "trunc (signed (x :: i32)) = sint x"
  using trunc_of_int [of "sint x"] by simp

lemma double_to_int32_Some:
  assumes "double_to_int32 x = Some w"
  shows "sint w = trunc x"
  using assms by (auto simp: double_to_int32_def signed_of_int signed_take_bit_int_eq_self split: if_splits)

lemma double_to_int32_defined:
  assumes "\<bar>x\<bar> < 2147483648"
  shows "\<exists>w. double_to_int32 x = Some w"
proof -
  have "\<bar>of_int (trunc x) :: rat\<bar> < of_int 2147483648" using trunc_toward_zero [of x] assms by simp
  then have "\<bar>trunc x\<bar> < 2147483648" by (simp only: of_int_abs [symmetric] of_int_less_iff)
  then show ?thesis by (auto simp: double_to_int32_def)
qed

section \<open>Conversions\<close>

lemma fixed_eqs:
  "netsum_to_fixed v = double_to_int32 (v * 65536)"
  "netsum_to_double x = of_int (sint x) / 65536"
  "netsum_sum_fits_i32 rnd n m \<longleftrightarrow> rnd (of_int n * m) * 65536 < 2147483647"
  by (auto simp: netsum_to_fixed_def netsum_to_double_def netsum_sum_fits_i32_def NETSUM_Q_FRAC_BITS_def Let_def)

lemma to_fixed_defined: "\<bar>v\<bar> < 32768 \<Longrightarrow> \<exists>x. netsum_to_fixed v = Some x"
  unfolding fixed_eqs by (rule double_to_int32_defined) (simp add: abs_mult)

lemma to_fixed_sint: "netsum_to_fixed v = Some x \<Longrightarrow> sint x = trunc (v * 65536)"
  unfolding fixed_eqs by (rule double_to_int32_Some)

lemma to_fixed_to_double: "netsum_to_fixed (netsum_to_double x) = Some x"
proof -
  have "- (2 ^ 31) \<le> sint x" "sint x < 2 ^ 31" using sint_greater_eq [of x] sint_less [of x] by simp_all
  then show ?thesis
    by (simp add: fixed_eqs double_to_int32_def trunc_signed)
qed

lemma to_fixed_error:
  assumes "netsum_to_fixed v = Some x"
  shows "\<bar>netsum_to_double x - v\<bar> < 1 / 65536" "\<bar>netsum_to_double x\<bar> \<le> \<bar>v\<bar>"
proof -
  note s = to_fixed_sint [OF assms]
  have d: "netsum_to_double x = of_int (trunc (v * 65536)) / 65536"
    unfolding fixed_eqs s ..
  have "netsum_to_double x - v = - (v * 65536 - of_int (trunc (v * 65536))) / 65536" unfolding d by (simp add: field_simps)
  then have "\<bar>netsum_to_double x - v\<bar> = \<bar>v * 65536 - of_int (trunc (v * 65536))\<bar> / 65536" by (simp only: abs_divide abs_minus_cancel abs_numeral)
  then show "\<bar>netsum_to_double x - v\<bar> < 1 / 65536"
    using trunc_close [of "v * 65536"] by simp
  show "\<bar>netsum_to_double x\<bar> \<le> \<bar>v\<bar>"
    unfolding d using trunc_toward_zero [of "v * 65536"] by (simp add: abs_divide abs_mult)
qed

text \<open>The check bounds the exact product, although it computes a rounded one.\<close>

lemma sum_fits_exact:
  assumes r: "ieee_rounding rnd" and f: "netsum_sum_fits_i32 rnd n m"
  shows "of_int n * m * 65536 < 2147483647"
proof (rule ccontr)
  assume "\<not> of_int n * m * 65536 < (2147483647 :: rat)"
  then have "of_int 2147483647 / 2 ^ 16 \<le> of_int n * m" by (simp add: field_simps)
  then have "rnd (of_int 2147483647 / 2 ^ 16) \<le> rnd (of_int n * m)" by (rule rounding_mono [OF r])
  moreover have "rnd (of_int 2147483647 / 2 ^ 16) = of_int 2147483647 / 2 ^ 16"
    by (rule rounding_exact [OF r refl]) simp_all
  ultimately have "2147483647 \<le> rnd (of_int n * m) * 65536" by (simp add: field_simps)
  then show False using f by (simp add: fixed_eqs)
qed

section \<open>Sums of gradients\<close>

text \<open>The error of a sum of \<open>n\<close> quantised numbers, when the check passes.\<close>

lemma sum_of_fixed:
  fixes M :: "(rat list \<times> i32 list) multiset"
  assumes r: "ieee_rounding rnd" and f: "netsum_sum_fits_i32 rnd (int (size M)) B"
    and q: "\<forall>(gs, xs)\<in>#M. \<bar>gs ! i\<bar> \<le> B \<and> netsum_to_fixed (gs ! i) = Some (xs ! i)" and i: "i < n"
  shows "sint (column_sum n (image_mset snd M) ! i) = (\<Sum>(gs, xs)\<in>#M. sint (xs ! i))"
    "\<bar>netsum_to_double (column_sum n (image_mset snd M) ! i) - (\<Sum>(gs, xs)\<in>#M. gs ! i)\<bar> * 65536 \<le> of_nat (size M)"
proof -
  let ?b = "\<lfloor>B * 65536\<rfloor>"
  have bound: "\<bar>sint (vs ! i)\<bar> \<le> ?b" if "vs \<in># image_mset snd M" for vs
  proof -
    from that have "vs \<in> snd ` set_mset M" by simp
    then obtain p where "vs = snd p" "p \<in># M" by (rule imageE)
    then have gs: "(fst p, vs) \<in># M" by simp
    let ?g = "fst p ! i"
    from gs q have g: "\<bar>?g\<bar> \<le> B" "netsum_to_fixed ?g = Some (vs ! i)" by auto
    have "\<bar>of_int (trunc (?g * 65536)) :: rat\<bar> \<le> \<bar>?g * 65536\<bar>" by (rule trunc_toward_zero)
    also have "\<dots> \<le> B * 65536" using g(1) by (simp add: abs_mult)
    finally have "of_int \<bar>sint (vs ! i)\<bar> \<le> B * 65536" using to_fixed_sint [OF g(2)] by simp
    then show ?thesis by (simp add: le_floor_iff)
  qed
  have "of_nat (size M) * of_int ?b \<le> of_nat (size M) * (B * 65536)"
    by (intro mult_left_mono) simp_all
  also have "\<dots> < (2147483647 :: rat)"
    using sum_fits_exact [OF r f] by (simp add: mult.assoc)
  finally have "of_int (int (size M) * ?b) < (of_int 2147483647 :: rat)" by simp
  then have "int (size M) * ?b < 2147483647" by (simp only: of_int_less_iff)
  then have fits: "int (size (image_mset snd M)) * ?b < 2 ^ 31" by simp
  have S: "sint (column_sum n (image_mset snd M) ! i) = (\<Sum>vs\<in>#image_mset snd M. sint (vs ! i))"
    by (rule column_sum_exact [OF i bound fits])
  then show *: "sint (column_sum n (image_mset snd M) ! i) = (\<Sum>(gs, xs)\<in>#M. sint (xs ! i))"
    by (simp add: image_mset.compositionality comp_def case_prod_unfold)
  have "\<bar>of_int (\<Sum>(gs, xs)\<in>#M. sint (xs ! i)) - (\<Sum>(gs, xs)\<in>#M. gs ! i) * 65536\<bar> \<le> (of_nat (size M) :: rat)"
    using q
  proof (induction M)
    case (add p M)
    obtain gs xs where p: "p = (gs, xs)" by (cases p)
    have "\<bar>of_int (sint (xs ! i)) - gs ! i * 65536\<bar> < 1"
      using add.prems trunc_close [of "gs ! i * 65536"] to_fixed_sint [of "gs ! i" "xs ! i"] by (auto simp: p abs_minus_commute)
    with add show ?case by (simp add: p distrib_right)
  qed simp
  moreover have "netsum_to_double (column_sum n (image_mset snd M) ! i) * 65536 = of_int (\<Sum>(gs, xs)\<in>#M. sint (xs ! i))"
    unfolding fixed_eqs * by simp
  moreover have "\<bar>a - b\<bar> * 65536 = \<bar>a * 65536 - b * 65536\<bar>" for a b :: rat
    by (simp only: left_diff_distrib [symmetric] abs_mult abs_numeral)
  ultimately show "\<bar>netsum_to_double (column_sum n (image_mset snd M) ! i) - (\<Sum>(gs, xs)\<in>#M. gs ! i)\<bar> * 65536 \<le> of_nat (size M)"
    by simp
qed

section \<open>Properties\<close>

text \<open>
  C35. Quantisation. A fixed-point value survives the trip to \<open>double\<close> and back; a \<open>double\<close> that
  converts at all comes back nearer to zero and by less than 2^-16, and every one below 32768 in
  magnitude converts.
\<close>
theorem fixed_point_roundtrip:
  "netsum_to_fixed (netsum_to_double x) = Some x \<and>
   (\<bar>v\<bar> < 32768 \<longrightarrow> netsum_to_fixed v \<noteq> None) \<and>
   (\<forall>y. netsum_to_fixed v = Some y \<longrightarrow> \<bar>netsum_to_double y - v\<bar> < 1 / 65536 \<and> \<bar>netsum_to_double y\<bar> \<le> \<bar>v\<bar>)"
  using to_fixed_to_double to_fixed_defined to_fixed_error by auto

theorem fixed_point_roundtrip_witness:
  "netsum_to_fixed (netsum_to_double 5) = Some 5 \<and> netsum_to_fixed (1 / 3) = Some 21845 \<and>
   \<bar>netsum_to_double 21845 - 1 / 3\<bar> < 1 / 65536"
proof -
  have "\<lfloor>65536 / 3 :: rat\<rfloor> = 21845" by (rule floor_unique) simp_all
  then have f: "netsum_to_fixed (1 / 3) = Some 21845"
    by (simp add: fixed_eqs double_to_int32_def trunc_def)
  then show ?thesis using fixed_point_roundtrip [of 5 "1 / 3"] by blast
qed

text \<open>
  C34. The overflow check is sound. If \<open>netsum_sum_fits_i32\<close> holds for \<open>n\<close> workers and a bound on the magnitude of the
  gradients, then however the \<open>double\<close> arithmetic rounds, the 32-bit sum of the \<open>n\<close> quantised
  gradients in a component is their exact integer sum, no addition wraps, and it is the real
  sum up to \<open>n\<close> units in the last place.
\<close>
theorem sum_fits_no_overflow:
  fixes M :: "(rat list \<times> i32 list) multiset"
  assumes "ieee_rounding rnd" "netsum_sum_fits_i32 rnd (int (size M)) B"
    and "\<forall>(gs, xs)\<in>#M. \<bar>gs ! i\<bar> \<le> B \<and> netsum_to_fixed (gs ! i) = Some (xs ! i)" "i < n"
  shows "sint (column_sum n (image_mset snd M) ! i) = (\<Sum>(gs, xs)\<in>#M. sint (xs ! i)) \<and>
    \<bar>netsum_to_double (column_sum n (image_mset snd M) ! i) - (\<Sum>(gs, xs)\<in>#M. gs ! i)\<bar> * 65536 \<le> of_nat (size M)"
  using sum_of_fixed [OF assms] by simp

theorem sum_fits_no_overflow_witness:
  "sint (column_sum 1 {#[32768], [65536]#} ! 0) = 98304"
proof -
  let ?M = "{#([1 / 2], [32768]), ([1], [65536])#} :: (rat list \<times> i32 list) multiset"
  have "netsum_to_fixed (1 / 2) = Some 32768" "netsum_to_fixed 1 = Some 65536"
    by (simp_all add: fixed_eqs double_to_int32_def trunc_def)
  then show ?thesis
    using sum_fits_no_overflow [OF no_rounding, of ?M 1 0 1]
    by (simp add: fixed_eqs)
qed

end
