(* ===== verification/Worker.thy ===== *)
theory Worker
  imports Fixed_Point Packet
begin

text \<open>
  The worker (\<open>worker/worker.c\<close>): the xorshift generator of synthetic gradients, the packet of one round
  and the round loop of \<open>main\<close>. The parsed command line, the rounding of \<open>double\<close> arithmetic, what the packet
  buffer holds at the start and the results of \<open>sendto\<close> are parameters; the result is the exit code
  and the datagrams sent. \<open>None\<close> is undefined behaviour: an access outside the buffer, or
  the conversion of a \<open>double\<close> that does not fit an \<open>int32_t\<close>.
\<close>

section \<open>The program\<close>

definition xorshift :: "u64 \<Rightarrow> u64" where
  "xorshift x =
     (let x = x XOR push_bit 13 x;
          x = x XOR drop_bit 7 x
      in x XOR push_bit 17 x)"

definition xorshift_double :: "(rat \<Rightarrow> rat) \<Rightarrow> u64 \<Rightarrow> rat \<times> u64" where
  "xorshift_double rnd state =
     (let x = xorshift state
      in (rnd (rnd (of_nat (unat (x mod 2000000)) / 1000000) - 1), x))"

record worker_args =
  wa_job_id :: u32
  wa_worker_id :: u16
  wa_num_workers :: u16
  wa_num_rounds :: int
  wa_chunk_len :: u16
  wa_max_abs_grad :: rat
  wa_fixed_value :: "rat option"

definition worker_seed :: "u16 \<Rightarrow> u64" where
  "worker_seed worker_id = 0x9E3779B97F4A7C15 XOR push_bit 32 (ucast worker_id) XOR 0xA5A5A5A5"

text \<open>\<open>for (int i = 0; i < chunk_len; i++) { double v = ...; values[i] = htonl((uint32_t)netsum_to_fixed(v)); }\<close>\<close>

function worker_fill :: "(rat \<Rightarrow> rat) \<Rightarrow> worker_args \<Rightarrow> nat \<Rightarrow> u64 \<Rightarrow> bytes \<Rightarrow> (u64 \<times> bytes) option" where
  "worker_fill rnd a i rng_state packet =
     (if i < unat (wa_chunk_len a)
      then do {
        let (v, rng_state) = (case wa_fixed_value a of
            Some fixed_value \<Rightarrow> (fixed_value, rng_state)
          | None \<Rightarrow> let (d, rng_state) = xorshift_double rnd rng_state in (rnd (d * wa_max_abs_grad a), rng_state));
        x \<leftarrow> netsum_to_fixed v;
        packet \<leftarrow> st32 packet (NETSUM_HDR_SIZE + 4 * i) (htonl x);
        worker_fill rnd a (i + 1) rng_state packet }
      else Some (rng_state, packet))"
  by pat_completeness auto
termination
  by (relation "measure (\<lambda>(rnd, a, i, rng, p). unat (wa_chunk_len a) - i)") auto

declare worker_fill.simps [simp del]

definition worker_hdr :: "worker_args \<Rightarrow> nat \<Rightarrow> grad_hdr" where
  "worker_hdr a r = \<lparr>gh_job_id = wa_job_id a, gh_round = word_of_nat r, gh_chunk_id = 0,
     gh_worker_id = wa_worker_id a, gh_num_workers = wa_num_workers a, gh_chunk_len = wa_chunk_len a, gh_flags = 0\<rparr>"

definition worker_round :: "(rat \<Rightarrow> rat) \<Rightarrow> worker_args \<Rightarrow> nat \<Rightarrow> u64 \<Rightarrow> bytes \<Rightarrow> (bytes \<times> u64 \<times> bytes) option" where
  "worker_round rnd a r rng_state packet = do {
     packet \<leftarrow> store_hdr packet 0 (worker_hdr a r);
     (rng_state, packet) \<leftarrow> worker_fill rnd a 0 rng_state packet;
     let packet_len = NETSUM_HDR_SIZE + unat (wa_chunk_len a) * 4;
     Some (take packet_len packet, rng_state, packet) }"

text \<open>The round loop: \<open>m\<close> rounds to go, \<open>sendto_ok\<close> says of each round whether \<open>sendto\<close> succeeds.\<close>

fun worker_rounds ::
    "(rat \<Rightarrow> rat) \<Rightarrow> worker_args \<Rightarrow> (nat \<Rightarrow> bool) \<Rightarrow> nat \<Rightarrow> nat \<Rightarrow> u64 \<Rightarrow> bytes \<Rightarrow> (int \<times> bytes list) option" where
  "worker_rounds rnd a sendto_ok r 0 rng_state packet = Some (0, [])"
| "worker_rounds rnd a sendto_ok r (Suc m) rng_state packet = do {
     (d, rng_state, packet) \<leftarrow> worker_round rnd a r rng_state packet;
     if sendto_ok r
     then do {
       (rc, ds) \<leftarrow> worker_rounds rnd a sendto_ok (r + 1) m rng_state packet;
       Some (rc, d # ds) }
     else Some (1, []) }"

text \<open>
  The result of \<open>main\<close> past the arguments: whether the overflow warning was printed, the exit code, the
  datagrams. \<open>has_dest\<close> says whether there is a socket and the destination is an address.
\<close>

definition worker_main ::
    "(rat \<Rightarrow> rat) \<Rightarrow> worker_args \<Rightarrow> bool \<Rightarrow> (nat \<Rightarrow> bool) \<Rightarrow> bytes \<Rightarrow> (bool \<times> int \<times> bytes list) option" where
  "worker_main rnd a has_dest sendto_ok packet =
     (if unat (wa_chunk_len a) > NETSUM_MAX_CHUNK_LEN then Some (False, 1, [])
      else do {
        let warned = (\<not> netsum_sum_fits_i32 rnd (int (unat (wa_num_workers a))) (wa_max_abs_grad a));
        if \<not> has_dest then Some (warned, 1, [])
        else do {
          (rc, ds) \<leftarrow> worker_rounds rnd a sendto_ok 0 (nat (wa_num_rounds a)) (worker_seed (wa_worker_id a)) packet;
          Some (warned, rc, ds) } })"

section \<open>The generator\<close>

lemma xor_push_inj:
  assumes "0 < n" "x XOR push_bit n x = y XOR push_bit n (y :: u64)"
  shows "x = y"
proof (rule bit_word_eqI)
  fix m assume "m < LENGTH(64)"
  then show "bit x m = bit y m"
  proof (induction m rule: less_induct)
    case (less m)
    have "bit (x XOR push_bit n x) m = bit (y XOR push_bit n y) m" using assms(2) by simp
    then show ?case using less assms(1) by (cases "n \<le> m") (auto simp: bit_simps)
  qed
qed

lemma xor_drop_inj:
  assumes "0 < n" "x XOR drop_bit n x = y XOR drop_bit n (y :: u64)"
  shows "x = y"
proof -
  have "bit x m = bit y m" for m
  proof (induction "64 - m" arbitrary: m rule: less_induct)
    case less
    show ?case
    proof (cases "m < 64")
      case True
      then have "bit x (n + m) = bit y (n + m)" using assms(1) by (intro less) simp
      moreover have "bit (x XOR drop_bit n x) m = bit (y XOR drop_bit n y) m" using assms(2) by simp
      ultimately show ?thesis by (auto simp: bit_simps)
    next
      case False
      then show ?thesis by (auto dest: bit_imp_le_length)
    qed
  qed
  then show ?thesis by (simp add: bit_eq_iff)
qed

lemma xorshift_inj: "xorshift x = xorshift y \<Longrightarrow> x = y"
  unfolding xorshift_def Let_def by (drule xor_push_inj [rotated], simp, drule xor_drop_inj [rotated], simp, erule xor_push_inj [rotated], simp)

lemma xorshift_nonzero: "x \<noteq> 0 \<Longrightarrow> xorshift x \<noteq> 0"
  using xorshift_inj [of x 0] by (auto simp: xorshift_def)

lemma worker_seed_inj: "worker_seed v = worker_seed w \<Longrightarrow> v = w"
proof -
  assume eq: "worker_seed v = worker_seed w"
  have "bit v n = bit w n" if "n < 16" for n
  proof -
    have "bit (worker_seed v) (32 + n) = bit (worker_seed w) (32 + n)" using eq by simp
    then show ?thesis using that by (auto simp: worker_seed_def bit_simps)
  qed
  then show ?thesis by (intro bit_word_eqI) simp
qed

lemma worker_seed_nonzero: "worker_seed w \<noteq> 0"
proof
  assume "worker_seed w = 0"
  then have "\<not> bit (worker_seed w) 4" by simp
  then show False by (simp add: worker_seed_def bit_simps)
qed

lemma xorshift_double_range:
  assumes r: "ieee_rounding rnd"
  shows "- 1 \<le> fst (xorshift_double rnd s)" "fst (xorshift_double rnd s) < 1"
proof -
  define k where "k = unat (xorshift s mod 2000000)"
  define x where "x = rnd (of_nat k / 1000000) - 1"
  let ?top = "of_int (2 ^ 53 - 1) / 2 ^ 52 :: rat" and ?last = "of_int (2 ^ 52 - 1) / 2 ^ 52 :: rat"
  have d: "fst (xorshift_double rnd s) = rnd x"
    unfolding xorshift_double_def Let_def fst_conv k_def x_def ..
  have "k < 2000000" by (simp add: k_def unat_mod_distrib)
  then have k: "of_nat k \<le> (1999999 :: rat)" using \<open>k < 2000000\<close> of_nat_le_iff [of k 1999999, where 'a = rat] by simp
  have z: "rnd 0 = 0" using rounding_exact [OF r, of 0 0 0] by simp
  have lo: "0 \<le> rnd (of_nat k / 1000000)"
    using rounding_mono [OF r, of 0 "of_nat k / 1000000"] z by simp
  have "rnd (of_nat k / 1000000) \<le> rnd ?top"
    using k by (intro rounding_mono [OF r]) simp
  also have "rnd ?top = ?top" by (rule rounding_exact [OF r refl]) simp_all
  finally have hi: "x \<le> ?last" by (simp add: x_def)
  have m: "rnd (- 1) = - 1" by (rule rounding_exact [OF r, of _ "- 1" 0]) simp_all
  have "rnd (- 1) \<le> rnd x" using lo by (intro rounding_mono [OF r]) (simp add: x_def)
  then show "- 1 \<le> fst (xorshift_double rnd s)" unfolding d m .
  have "rnd x \<le> rnd ?last" using hi by (rule rounding_mono [OF r])
  also have "rnd ?last = ?last" by (rule rounding_exact [OF r refl]) simp_all
  finally show "fst (xorshift_double rnd s) < 1" unfolding d by simp
qed

end
