(* ===== verification/Worker_Rounds.thy ===== *)
theory Worker_Rounds
  imports Worker
begin

text \<open>
  What a worker sends: one well-formed packet per round, whose values are the quantised gradients of the round, each
  within the configured magnitude; and the properties of the generator.
\<close>

section \<open>The values of a round\<close>

definition worker_in_range :: "worker_args \<Rightarrow> bool" where
  "worker_in_range a \<longleftrightarrow> (case wa_fixed_value a of
     None \<Rightarrow> 0 \<le> wa_max_abs_grad a \<and> wa_max_abs_grad a < 32768 \<and> is_double (wa_max_abs_grad a)
   | Some f \<Rightarrow> \<bar>f\<bar> < 32768)"

definition worker_bound :: "worker_args \<Rightarrow> rat" where
  "worker_bound a = (case wa_fixed_value a of None \<Rightarrow> wa_max_abs_grad a | Some f \<Rightarrow> \<bar>f\<bar>)"

definition quantised :: "rat \<Rightarrow> rat list \<Rightarrow> i32 list \<Rightarrow> bool" where
  "quantised B gs xs \<longleftrightarrow> list_all2 (\<lambda>g x. \<bar>g\<bar> \<le> B \<and> netsum_to_fixed g = Some x) gs xs"

lemma quantised_length: "quantised B gs xs \<Longrightarrow> length gs = length xs"
  unfolding quantised_def by (rule list_all2_lengthD)

lemma quantised_nth: "quantised B gs xs \<Longrightarrow> i < length xs \<Longrightarrow> \<bar>gs ! i\<bar> \<le> B \<and> netsum_to_fixed (gs ! i) = Some (xs ! i)"
  unfolding quantised_def by (auto simp: list_all2_conv_all_nth)

lemma scaled_bounded:
  assumes r: "ieee_rounding rnd" and m: "0 \<le> m" "is_double m" and d: "- 1 \<le> d" "d < 1"
  shows "\<bar>rnd (d * m)\<bar> \<le> m"
proof -
  have "d * m \<le> m" "- m \<le> d * m" using mult_right_mono [of d 1 m] mult_right_mono [of "- 1" d m] m(1) d by simp_all
  then have "rnd (d * m) \<le> rnd m" "rnd (- m) \<le> rnd (d * m)" by (auto intro: rounding_mono [OF r])
  then show ?thesis using rounding_double [OF r] m(2) is_double_minus [OF m(2)] by (simp add: abs_le_iff)
qed

text \<open>
  The \<open>k\<close>-th gradient component a worker draws: the fixed value, or the \<open>k\<close>-th double of its generator, scaled.
\<close>

definition worker_gradient :: "(rat \<Rightarrow> rat) \<Rightarrow> worker_args \<Rightarrow> nat \<Rightarrow> rat" where
  "worker_gradient rnd a k = (case wa_fixed_value a of
     Some f \<Rightarrow> f
   | None \<Rightarrow> rnd (fst (xorshift_double rnd ((xorshift ^^ k) (worker_seed (wa_worker_id a)))) * wa_max_abs_grad a))"

definition worker_gradients :: "(rat \<Rightarrow> rat) \<Rightarrow> worker_args \<Rightarrow> nat \<Rightarrow> rat list" where
  "worker_gradients rnd a r =
     map (worker_gradient rnd a) [r * unat (wa_chunk_len a)..<Suc r * unat (wa_chunk_len a)]"

definition worker_state :: "worker_args \<Rightarrow> nat \<Rightarrow> u64 \<Rightarrow> bool" where
  "worker_state a k s \<longleftrightarrow> (wa_fixed_value a = None \<longrightarrow> s = (xorshift ^^ k) (worker_seed (wa_worker_id a)))"

lemma worker_value:
  assumes r: "ieee_rounding rnd" and a: "worker_in_range a" and s: "worker_state a k s"
  obtains s' x where "(case wa_fixed_value a of Some f \<Rightarrow> (f, s)
      | None \<Rightarrow> let (d, s) = xorshift_double rnd s in (rnd (d * wa_max_abs_grad a), s)) = (worker_gradient rnd a k, s')"
    "worker_state a (Suc k) s'" "\<bar>worker_gradient rnd a k\<bar> \<le> worker_bound a"
    "netsum_to_fixed (worker_gradient rnd a k) = Some x"
proof -
  define v where "v = worker_gradient rnd a k"
  obtain s' where v: "(case wa_fixed_value a of Some f \<Rightarrow> (f, s)
      | None \<Rightarrow> let (d, s) = xorshift_double rnd s in (rnd (d * wa_max_abs_grad a), s)) = (v, s')" "worker_state a (Suc k) s'"
    using s by (cases "wa_fixed_value a")
      (simp_all add: worker_state_def v_def worker_gradient_def xorshift_double_def Let_def)
  have b: "\<bar>v\<bar> \<le> worker_bound a"
  proof (cases "wa_fixed_value a")
    case None
    then show ?thesis
      using scaled_bounded [OF r _ _ xorshift_double_range [OF r]] a
      by (simp add: worker_in_range_def worker_bound_def v_def worker_gradient_def)
  next
    case (Some f)
    then show ?thesis by (simp add: worker_bound_def v_def worker_gradient_def)
  qed
  have "worker_bound a < 32768" using a by (auto simp: worker_in_range_def worker_bound_def split: option.splits)
  then obtain x where "netsum_to_fixed v = Some x" using to_fixed_defined [of v] b by auto
  with v b show ?thesis unfolding v_def by (rule that)
qed

lemma worker_fill_from:
  assumes r: "ieee_rounding rnd" and a: "worker_in_range a" and n: "unat (wa_chunk_len a) \<le> 64"
    and "i \<le> unat (wa_chunk_len a)" "length p = 276" "worker_state a k s"
  shows "\<exists>s' xs. worker_fill rnd a i s p = Some (s', patch p (20 + 4 * i) (encode_values xs)) \<and>
    length xs = unat (wa_chunk_len a) - i \<and> worker_state a (k + (unat (wa_chunk_len a) - i)) s' \<and>
    quantised (worker_bound a) (map (worker_gradient rnd a) [k..<k + (unat (wa_chunk_len a) - i)]) xs"
  using assms(4-6)
proof (induction i arbitrary: s p k rule: inc_induct)
  case base
  then show ?case by (intro exI [of _ s] exI [of _ "[]"]) (simp add: worker_fill.simps quantised_def)
next
  case (step i)
  let ?v = "worker_gradient rnd a k"
  obtain s1 x where v: "(case wa_fixed_value a of Some f \<Rightarrow> (f, s)
      | None \<Rightarrow> let (d, s) = xorshift_double rnd s in (rnd (d * wa_max_abs_grad a), s)) = (?v, s1)"
    "worker_state a (Suc k) s1" "\<bar>?v\<bar> \<le> worker_bound a" "netsum_to_fixed ?v = Some x"
    by (rule worker_value [OF r a step.prems(2)])
  let ?p = "patch p (20 + 4 * i) (be32_bytes x)"
  have len: "20 + 4 * i + 4 \<le> length p" using step n by simp
  have "length ?p = 276" using len step.prems by simp
  then obtain s' xs where IH: "worker_fill rnd a (Suc i) s1 ?p = Some (s', patch ?p (20 + 4 * Suc i) (encode_values xs))"
    "length xs = unat (wa_chunk_len a) - Suc i" "worker_state a (Suc k + (unat (wa_chunk_len a) - Suc i)) s'"
    "quantised (worker_bound a) (map (worker_gradient rnd a) [Suc k..<Suc k + (unat (wa_chunk_len a) - Suc i)]) xs"
    using step.IH v(2) by blast
  have st: "st32 p (NETSUM_HDR_SIZE + 4 * i) (htonl x) = Some ?p"
    using len by (simp add: NETSUM_HDR_SIZE_def safe_access)
  have "worker_fill rnd a i s p = worker_fill rnd a (Suc i) s1 ?p"
    using step.hyps by (subst worker_fill.simps) (simp add: v(1,4) st)
  moreover have "patch ?p (20 + 4 * Suc i) (encode_values xs) = patch p (20 + 4 * i) (encode_values (x # xs))"
    using patch_append [of "20 + 4 * i" "be32_bytes x" "encode_values xs" p] IH(2) step n by (simp add: add.assoc)
  moreover have k: "Suc k + (unat (wa_chunk_len a) - Suc i) = k + (unat (wa_chunk_len a) - i)" using step.hyps by simp
  moreover have "[k..<k + (unat (wa_chunk_len a) - i)] = k # [Suc k..<k + (unat (wa_chunk_len a) - i)]"
    using step.hyps by (simp add: upt_conv_Cons)
  then have "quantised (worker_bound a) (map (worker_gradient rnd a) [k..<k + (unat (wa_chunk_len a) - i)]) (x # xs)"
    using IH(4) v(3,4) unfolding k by (simp add: quantised_def)
  moreover have "length (x # xs) = unat (wa_chunk_len a) - i" using IH(2) step.hyps by simp
  ultimately show ?case using IH(1,3) by metis
qed

section \<open>The packet of a round\<close>

definition worker_packet :: "worker_args \<Rightarrow> nat \<Rightarrow> rat list \<Rightarrow> i32 list \<Rightarrow> bytes \<Rightarrow> bool" where
  "worker_packet a r gs xs d \<longleftrightarrow>
     d = encode_packet \<lparr>gh_job_id = wa_job_id a, gh_round = word_of_nat r, gh_chunk_id = 0, gh_worker_id = wa_worker_id a,
       gh_num_workers = wa_num_workers a, gh_chunk_len = wa_chunk_len a, gh_flags = 0\<rparr> xs \<and> length xs = unat (wa_chunk_len a) \<and>
     quantised (worker_bound a) gs xs"

lemma worker_round_eq:
  assumes r: "ieee_rounding rnd" and a: "worker_in_range a" and n: "unat (wa_chunk_len a) \<le> 64" and p: "length p = 276"
    and s: "worker_state a (j * unat (wa_chunk_len a)) s"
  shows "\<exists>d s' p' xs. worker_round rnd a j s p = Some (d, s', p') \<and> worker_packet a j (worker_gradients rnd a j) xs d \<and>
    worker_state a (Suc j * unat (wa_chunk_len a)) s' \<and> length p' = 276"
proof -
  let ?p = "patch p 0 (encode_hdr (worker_hdr a j))"
  obtain s' xs where f: "worker_fill rnd a 0 s ?p = Some (s', patch ?p 20 (encode_values xs))"
    "length xs = unat (wa_chunk_len a)" "worker_state a (Suc j * unat (wa_chunk_len a)) s'"
    "quantised (worker_bound a) (worker_gradients rnd a j) xs"
    using worker_fill_from [OF r a n, of 0 ?p "j * unat (wa_chunk_len a)" s] p s by (auto simp: worker_gradients_def add.commute)
  have "take (20 + unat (wa_chunk_len a) * 4) (patch ?p 20 (encode_values xs)) = encode_packet (worker_hdr a j) xs"
    using take_patch2 [of "encode_hdr (worker_hdr a j)" "encode_values xs" p] f(2) n p by (simp add: encode_packet_def mult.commute)
  then show ?thesis
    using f n p by (auto simp: worker_round_def safe_access NETSUM_HDR_SIZE_def worker_packet_def worker_hdr_def)
qed

lemma worker_rounds_eq:
  assumes r: "ieee_rounding rnd" and a: "worker_in_range a" and n: "unat (wa_chunk_len a) \<le> 64"
    and "length p = 276" "worker_state a (j * unat (wa_chunk_len a)) s"
  shows "\<exists>ds. worker_rounds rnd a ok j m s p = Some (if length ds = m then 0 else 1, ds) \<and> length ds \<le> m \<and>
    (\<forall>i<length ds. ok (j + i)) \<and> (length ds < m \<longrightarrow> \<not> ok (j + length ds)) \<and>
    (\<forall>i<length ds. \<exists>xs. worker_packet a (j + i) (worker_gradients rnd a (j + i)) xs (ds ! i))"
  using assms(4,5)
proof (induction m arbitrary: j s p)
  case (Suc m)
  obtain d s1 p1 xs where 1: "worker_round rnd a j s p = Some (d, s1, p1)" "worker_packet a j (worker_gradients rnd a j) xs d"
    "worker_state a (Suc j * unat (wa_chunk_len a)) s1" "length p1 = 276"
    using worker_round_eq [OF r a n Suc.prems] by blast
  show ?case
  proof (cases "ok j")
    case True
    have "worker_state a ((j + 1) * unat (wa_chunk_len a)) s1" using 1(3) by simp
    from Suc.IH [OF 1(4) this]
    obtain ds where 2: "worker_rounds rnd a ok (j + 1) m s1 p1 = Some (if length ds = m then 0 else 1, ds)" "length ds \<le> m"
      "\<forall>i<length ds. ok (j + 1 + i)" "length ds < m \<longrightarrow> \<not> ok (j + 1 + length ds)"
      "\<forall>i<length ds. \<exists>xs. worker_packet a (j + 1 + i) (worker_gradients rnd a (j + 1 + i)) xs (ds ! i)"
      by blast
    have "\<forall>i<length (d # ds). ok (j + i) \<and>
        (\<exists>xs. worker_packet a (j + i) (worker_gradients rnd a (j + i)) xs ((d # ds) ! i))"
      using 1(2) 2(3,5) True by (auto simp: nth_Cons less_Suc_eq_0_disj split: nat.split)
    then show ?thesis using 1(1) 2(1,2,4) True by (intro exI [of _ "d # ds"]) simp
  next
    case False
    then show ?thesis using 1(1) by (intro exI [of _ "[]"]) simp
  qed
qed simp

lemma worker_main_sends:
  assumes "ieee_rounding rnd" "worker_in_range a" "unat (wa_chunk_len a) \<le> NETSUM_MAX_CHUNK_LEN"
    and "length packet = NETSUM_MAX_PACKET_SIZE"
  shows "\<exists>ds. worker_main rnd a True ok packet = Some
      (\<not> netsum_sum_fits_i32 rnd (int (unat (wa_num_workers a))) (wa_max_abs_grad a),
       if length ds = nat (wa_num_rounds a) then 0 else 1, ds) \<and>
    length ds \<le> nat (wa_num_rounds a) \<and> (\<forall>r<length ds. ok r) \<and> (length ds < nat (wa_num_rounds a) \<longrightarrow> \<not> ok (length ds)) \<and>
    (\<forall>r<length ds. \<exists>xs. worker_packet a r (worker_gradients rnd a r) xs (ds ! r))"
proof -
  have s: "worker_state a (0 * unat (wa_chunk_len a)) (worker_seed (wa_worker_id a))" by (simp add: worker_state_def)
  have n: "unat (wa_chunk_len a) \<le> 64" and p: "length packet = 276" using assms(3,4) by (simp_all add: proto_consts)
  from worker_rounds_eq [OF assms(1,2) n p s, of ok "nat (wa_num_rounds a)"]
  obtain ds where "worker_rounds rnd a ok 0 (nat (wa_num_rounds a)) (worker_seed (wa_worker_id a)) packet =
      Some (if length ds = nat (wa_num_rounds a) then 0 else 1, ds)" "length ds \<le> nat (wa_num_rounds a)"
    "\<forall>r<length ds. ok r" "length ds < nat (wa_num_rounds a) \<longrightarrow> \<not> ok (length ds)"
    "\<forall>r<length ds. \<exists>xs. worker_packet a r (worker_gradients rnd a r) xs (ds ! r)"
    by auto
  then show ?thesis using n by (intro exI [of _ ds]) (simp add: worker_main_def NETSUM_MAX_CHUNK_LEN_def)
qed

section \<open>Properties\<close>

text \<open>
  C36. What a worker sends. With a chunk length that fits and gradients below 32768 in magnitude, however
  \<open>double\<close> arithmetic rounds: the program has no undefined behaviour; it sends the packets of rounds 0, 1, 2
  and so on until \<open>sendto\<close> fails or all are sent, and exits with 1 or 0 accordingly. Packet \<open>r\<close> carries the job, the round
  number \<open>r\<close>, chunk 0, the worker's own id, the number of workers and the chunk length, no flags, all in network byte order, and then the
  fixed-point values of the round's gradients, as many as announced and none larger than configured: component \<open>i\<close> of round \<open>r\<close> is
  the number \<open>r * chunk_len + i\<close> of the worker's generator.
\<close>
theorem worker_sends_rounds:
  assumes "ieee_rounding rnd" "worker_in_range a" "unat (wa_chunk_len a) \<le> NETSUM_MAX_CHUNK_LEN"
    and "length packet = NETSUM_MAX_PACKET_SIZE"
  shows "\<exists>ds. worker_main rnd a True ok packet = Some
      (\<not> netsum_sum_fits_i32 rnd (int (unat (wa_num_workers a))) (wa_max_abs_grad a),
       if length ds = nat (wa_num_rounds a) then 0 else 1, ds) \<and>
    length ds \<le> nat (wa_num_rounds a) \<and> (\<forall>r<length ds. ok r) \<and> (length ds < nat (wa_num_rounds a) \<longrightarrow> \<not> ok (length ds)) \<and>
    (\<forall>r<length ds. \<exists>xs. length xs = unat (wa_chunk_len a) \<and>
      ds ! r = be32_bytes (wa_job_id a) @ be32_bytes (word_of_nat r) @ be32_bytes 0 @ be16_bytes (wa_worker_id a) @
        be16_bytes (wa_num_workers a) @ be16_bytes (wa_chunk_len a) @ be16_bytes 0 @ concat (map be32_bytes xs) \<and>
      quantised (worker_bound a) (worker_gradients rnd a r) xs)"
  using worker_main_sends [OF assms, of ok]
  by (simp only: worker_packet_def encode_packet_def encode_hdr_def encode_values_def grad_hdr.simps append_assoc) metis

definition sample_worker :: worker_args where
  "sample_worker = \<lparr>wa_job_id = 7, wa_worker_id = 1, wa_num_workers = 2, wa_num_rounds = 3, wa_chunk_len = 1,
     wa_max_abs_grad = 1, wa_fixed_value = Some (1 / 2)\<rparr>"

text \<open>Three rounds with the fixed value 1/2, the last of which cannot be sent.\<close>
theorem worker_sends_rounds_witness:
  "worker_main (\<lambda>x. x) sample_worker True (\<lambda>r. r < 2) (replicate 276 0) = Some (False, 1,
     [[0, 0, 0, 7, 0, 0, 0, 0, 0, 0, 0, 0, 0, 1, 0, 2, 0, 1, 0, 0, 0, 0, 128, 0],
      [0, 0, 0, 7, 0, 0, 0, 1, 0, 0, 0, 0, 0, 1, 0, 2, 0, 1, 0, 0, 0, 0, 128, 0]])"
proof -
  have a: "worker_in_range sample_worker" "unat (wa_chunk_len sample_worker) \<le> NETSUM_MAX_CHUNK_LEN"
    "length (replicate 276 0 :: bytes) = NETSUM_MAX_PACKET_SIZE"
    by (simp_all add: sample_worker_def worker_in_range_def proto_consts)
  have W: "wa_job_id sample_worker = 7" "wa_worker_id sample_worker = 1" "wa_num_workers sample_worker = 2"
    "wa_chunk_len sample_worker = 1" "wa_num_rounds sample_worker = 3" by (simp_all add: sample_worker_def)
  obtain ds where ds: "worker_main (\<lambda>x. x) sample_worker True (\<lambda>r. r < 2) (replicate 276 0) =
      Some (False, if length ds = 3 then 0 else 1, ds)" "length ds \<le> 3" "\<forall>r<length ds. r < 2" "length ds < 3 \<longrightarrow> \<not> length ds < 2"
    "\<forall>r<length ds. \<exists>xs. length xs = unat (wa_chunk_len sample_worker) \<and>
      ds ! r = be32_bytes 7 @ be32_bytes (word_of_nat r) @ be32_bytes 0 @ be16_bytes 1 @
        be16_bytes 2 @ be16_bytes 1 @ be16_bytes 0 @ concat (map be32_bytes xs) \<and>
      quantised (worker_bound sample_worker) (worker_gradients (\<lambda>x. x) sample_worker r) xs"
    using worker_sends_rounds [OF no_rounding a, of "\<lambda>r. r < 2"] unfolding W by (auto simp: sample_worker_def fixed_eqs)
  then have "length ds \<noteq> 3" using spec [OF ds(3), of 2] by auto
  with ds(2,4) have l: "length ds = 2" by auto
  have half: "netsum_to_fixed (1 / 2) = Some 32768" by (simp add: fixed_eqs double_to_int32_def trunc_def)
  have "ds ! r = be32_bytes 7 @ be32_bytes (word_of_nat r) @ be32_bytes 0 @ be16_bytes 1 @
      be16_bytes 2 @ be16_bytes 1 @ be16_bytes 0 @ be32_bytes 32768" if r: "r < 2" for r
  proof -
    obtain xs where xs: "length xs = 1" "ds ! r = be32_bytes 7 @ be32_bytes (word_of_nat r) @ be32_bytes 0 @ be16_bytes 1 @
        be16_bytes 2 @ be16_bytes 1 @ be16_bytes 0 @ concat (map be32_bytes xs)"
      "quantised (worker_bound sample_worker) (worker_gradients (\<lambda>x. x) sample_worker r) xs"
      using spec [OF ds(5), of r] r l W by auto
    obtain x where x: "xs = [x]" using xs(1) by (auto simp: length_Suc_conv)
    have "netsum_to_fixed (1 / 2) = Some x" using quantised_nth [OF xs(3), of 0]
      by (simp add: x worker_gradients_def worker_gradient_def sample_worker_def)
    with xs(2) x half show ?thesis by simp
  qed
  from this [of 0] this [of 1] l have "ds = [be32_bytes 7 @ be32_bytes 0 @ be32_bytes 0 @ be16_bytes 1 @
      be16_bytes 2 @ be16_bytes 1 @ be16_bytes 0 @ be32_bytes 32768,
      be32_bytes 7 @ be32_bytes 1 @ be32_bytes 0 @ be16_bytes 1 @
      be16_bytes 2 @ be16_bytes 1 @ be16_bytes 0 @ be32_bytes 32768]"
    by (auto simp: length_Suc_conv numeral_2_eq_2)
  with ds(1) show ?thesis by (simp add: be32_bytes_def be16_bytes_def)
qed

text \<open>
  C37. The generator. One step is a permutation of the 64-bit words that keeps 0 apart, no worker starts at 0, and
  different workers start differently: so no worker's sequence degenerates to the fixed point 0, and
  two workers are never in the same state after the same number of steps. The doubles made of the states lie
  in [-1, 1), as the comment in the source says, although quotient and difference are rounded.
\<close>
theorem worker_generator_sound:
  assumes "ieee_rounding rnd"
  shows "bij xorshift \<and> (xorshift ^^ n) (worker_seed w) \<noteq> 0 \<and>
   ((xorshift ^^ n) (worker_seed v) = (xorshift ^^ n) (worker_seed w) \<longleftrightarrow> v = w) \<and>
   - 1 \<le> fst (xorshift_double rnd s) \<and> fst (xorshift_double rnd s) < 1"
proof (intro conjI)
  have inj: "inj xorshift" by (rule injI) (rule xorshift_inj)
  then show "bij xorshift" by (simp add: bij_def finite_UNIV_inj_surj)
  show "(xorshift ^^ n) (worker_seed w) \<noteq> 0"
    by (induction n) (simp_all add: worker_seed_nonzero xorshift_nonzero)
  show "(xorshift ^^ n) (worker_seed v) = (xorshift ^^ n) (worker_seed w) \<longleftrightarrow> v = w"
    by (induction n) (auto dest: worker_seed_inj xorshift_inj)
qed (use xorshift_double_range [OF assms] in simp_all)

theorem worker_generator_sound_witness:
  "(xorshift ^^ 2) (worker_seed 3) \<noteq> (xorshift ^^ 2) (worker_seed 4) \<and>
   - 1 \<le> fst (xorshift_double (\<lambda>x. x) (worker_seed 3)) \<and> fst (xorshift_double (\<lambda>x. x) (worker_seed 3)) < 1"
  using worker_generator_sound [OF no_rounding, of 2 4 3 "worker_seed 3"] by simp

end
