(* ===== verification/Training.thy ===== *)
theory Training
  imports Pipeline Worker_Rounds
begin

text \<open>
  From gradients to the parameter server: the packets of a round of workers, aggregated in the network, give the
  real sum of the gradients up to one unit of Q16.16 per worker.
\<close>

section \<open>A worker's packet\<close>

lemma worker_packet_fields:
  assumes "worker_packet a r gs xs d"
  shows "agg_hdr d = worker_hdr a r" "agg_values d = xs" "length d = 20 + 4 * unat (wa_chunk_len a)"
proof -
  have d: "d = encode_packet (worker_hdr a r) xs" "length xs = unat (wa_chunk_len a)" using assms by (simp_all add: worker_packet_def worker_hdr_def)
  show "agg_hdr d = worker_hdr a r" "length d = 20 + 4 * unat (wa_chunk_len a)" by (simp_all add: d)
  show "agg_values d = xs"
    using wire_values_encode [of "worker_hdr a r" xs] d by (simp add: agg_values_def worker_hdr_def del: wire_hdr_sel)
qed

text \<open>The workers of one job: the same job, chunk length and number of workers, different ids.\<close>

definition team :: "u32 \<Rightarrow> u16 \<Rightarrow> worker_args list \<Rightarrow> bool" where
  "team job len as \<longleftrightarrow> as \<noteq> [] \<and> unat len \<le> 64 \<and> distinct (map wa_worker_id as) \<and>
     (\<forall>a\<in>set as. wa_job_id a = job \<and> wa_chunk_len a = len \<and> unat (wa_num_workers a) = length as \<and> unat (wa_worker_id a) < 256)"

definition team_sends :: "worker_args list \<Rightarrow> nat \<Rightarrow> rat list list \<Rightarrow> bytes list \<Rightarrow> bool" where
  "team_sends as r G ds \<longleftrightarrow> length G = length as \<and> length ds = length as \<and>
     (\<forall>j<length as. \<exists>xs. worker_packet (as ! j) r (G ! j) xs (ds ! j))"

definition round_key :: "u32 \<Rightarrow> nat \<Rightarrow> grad_slot_key" where
  "round_key job r = \<lparr>k_job_id = job, k_round = word_of_nat r, k_chunk_id = 0\<rparr>"

lemma team_length:
  assumes "team job len as"
  shows "length as \<le> 256"
proof -
  have "distinct (map unat (map wa_worker_id as))"
    using assms unfolding team_def distinct_map [of unat] by (simp add: inj_on_def word_unat_eq_iff)
  then have "length as = card (set (map unat (map wa_worker_id as)))" using distinct_card [of "map unat (map wa_worker_id as)"] by simp
  also have "\<dots> \<le> card {..<256 :: nat}" by (rule card_mono) (use assms in \<open>auto simp: team_def\<close>)
  finally show ?thesis by simp
qed

lemma team_round:
  assumes t: "team job len as" and s: "team_sends as r G ds"
  shows "round_datagrams (round_key job r) (length ds) (unat len) ds"
proof -
  have f: "\<exists>a\<in>set as. agg_hdr (ds ! j) = worker_hdr a r \<and> length (ds ! j) = 20 + 4 * unat len" if j: "j < length ds" for j
  proof -
    obtain xs where w: "worker_packet (as ! j) r (G ! j) xs (ds ! j)" "j < length as" using s j by (auto simp: team_sends_def)
    then have a: "as ! j \<in> set as" "wa_chunk_len (as ! j) = len" using t by (simp_all add: team_def)
    show ?thesis using worker_packet_fields(1,3) [OF w(1)] a by (intro bexI [of _ "as ! j"]) simp_all
  qed
  have d: "agg_accepts d \<and> key_of (agg_hdr d) = round_key job r \<and> unat (gh_num_workers (agg_hdr d)) = length ds \<and>
      unat (gh_chunk_len (agg_hdr d)) = unat len" if mem: "d \<in> set ds" for d
  proof -
    obtain j where j: "j < length ds" "ds ! j = d" using mem by (auto simp: in_set_conv_nth)
    then obtain a where a: "a \<in> set as" "agg_hdr d = worker_hdr a r" "length d = 20 + 4 * unat len" using f [OF j(1)] by auto
    have "length ds = length as" using s by (simp add: team_sends_def)
    moreover have "0 < length as" "length as \<le> 256" using t team_length [OF t] by (auto simp: team_def)
    moreover have "wa_job_id a = job" "wa_chunk_len a = len" "unat (wa_num_workers a) = length as" "unat (wa_worker_id a) < 256" "unat len \<le> 64"
      using t a(1) by (auto simp: team_def)
    ultimately show ?thesis
      unfolding agg_accepts_def a(2,3) by (simp add: worker_hdr_def key_of_def round_key_def)
  qed
  have "map (\<lambda>d. gh_worker_id (agg_hdr d)) ds = map wa_worker_id as"
  proof (rule nth_equalityI)
    fix j assume j: "j < length (map (\<lambda>d. gh_worker_id (agg_hdr d)) ds)"
    then obtain xs where "worker_packet (as ! j) r (G ! j) xs (ds ! j)" using s by (auto simp: team_sends_def)
    then show "map (\<lambda>d. gh_worker_id (agg_hdr d)) ds ! j = map wa_worker_id as ! j"
      using worker_packet_fields(1) j s by (simp add: team_sends_def worker_hdr_def del: wire_hdr_sel)
  qed (use s in \<open>simp add: team_sends_def\<close>)
  then have "distinct (map (\<lambda>d. gh_worker_id (agg_hdr d)) ds)" using t by (simp add: team_def del: wire_hdr_sel)
  then show ?thesis unfolding round_datagrams_def using d by blast
qed

section \<open>The error of the aggregate\<close>

definition approximates :: "nat \<Rightarrow> rat list list \<Rightarrow> i32 list \<Rightarrow> bool" where
  "approximates n G tot \<longleftrightarrow>
     (\<forall>i<n. \<bar>netsum_to_double (tot ! i) - (\<Sum>g\<leftarrow>G. g ! i)\<bar> * 65536 \<le> of_nat (length G))"

lemma team_approximates:
  assumes r: "ieee_rounding rnd" and fits: "netsum_sum_fits_i32 rnd (int (length as)) B"
    and t: "team job len as" and B: "\<forall>a\<in>set as. worker_bound a \<le> B" and s: "team_sends as r0 G ds"
  shows "approximates (unat len) G (padded_sum (unat len) (mset (map agg_values ds)))"
  unfolding approximates_def
proof (intro allI impI)
  fix i assume i: "i < unat len"
  define X where "X = map agg_values ds"
  let ?M = "mset (zip G X)"
  have l: "length G = length as" "length X = length as" using s by (simp_all add: team_sends_def X_def)
  have q: "\<bar>G ! j ! i\<bar> \<le> B \<and> netsum_to_fixed (G ! j ! i) = Some (X ! j ! i)" if j: "j < length as" for j
  proof -
    obtain xs where w: "worker_packet (as ! j) r0 (G ! j) xs (ds ! j)" using s j by (auto simp: team_sends_def)
    then have q: "length xs = unat len" "quantised (worker_bound (as ! j)) (G ! j) xs"
      using t j by (auto simp: worker_packet_def team_def)
    have x: "X ! j = xs" using worker_packet_fields(2) [OF w] j s by (simp add: team_sends_def X_def)
    have "worker_bound (as ! j) \<le> B" using B j by simp
    with quantised_nth [OF q(2), of i] q(1) x i show ?thesis by simp
  qed
  have M: "size ?M = length as" "image_mset snd ?M = mset X" "(\<Sum>(gs, xs)\<in>#?M. gs ! i) = (\<Sum>g\<leftarrow>G. g ! i)"
  proof -
    show "size ?M = length as" using l by simp
    have z: "map snd (zip G X) = X" "map fst (zip G X) = G" using l by simp_all
    show "image_mset snd ?M = mset X" by (metis z(1) mset_map)
    have "(\<Sum>(gs, xs)\<in>#?M. gs ! i) = sum_mset (mset (map (\<lambda>p. fst p ! i) (zip G X)))"
      by (simp add: case_prod_unfold)
    also have "map (\<lambda>p. fst p ! i) (zip G X) = map (\<lambda>g. g ! i) (map fst (zip G X))" by simp
    finally show "(\<Sum>(gs, xs)\<in>#?M. gs ! i) = (\<Sum>g\<leftarrow>G. g ! i)" unfolding z by (simp only: sum_mset_sum_list)
  qed
  have "\<forall>(gs, xs)\<in>#?M. \<bar>gs ! i\<bar> \<le> B \<and> netsum_to_fixed (gs ! i) = Some (xs ! i)"
    using q l by (auto simp: in_set_zip)
  from sum_of_fixed(2) [OF r _ this i] fits
  have "\<bar>netsum_to_double (column_sum (unat len) (mset X) ! i) - (\<Sum>g\<leftarrow>G. g ! i)\<bar> * 65536 \<le> of_nat (length as)"
    unfolding M by simp
  then show "\<bar>netsum_to_double (padded_sum (unat len) (mset (map agg_values ds)) ! i) - (\<Sum>g\<leftarrow>G. g ! i)\<bar> * 65536 \<le> of_nat (length G)"
    using i l by (simp add: padded_sum_def nth_append X_def)
qed

section \<open>A training round\<close>

text \<open>
  Workers of one job with different ids that announce their number send the packets of a round, quantised gradients of
  magnitude at most \<open>B\<close>, and \<open>netsum_sum_fits_i32\<close> passed for their number and \<open>B\<close>. Whatever the order of
  arrival: the aggregator sends one packet, on which the parameter server completes the round with the sum.
\<close>

lemma training_round:
  assumes "ieee_rounding rnd" "netsum_sum_fits_i32 rnd (int (length as)) B"
    and "team job len as" "\<forall>a\<in>set as. worker_bound a \<le> B" "team_sends as r G (datagrams inps)"
    and "length b = 276" "length b' = 276" "\<forall>inp\<in>set inps. quiet cfg inp (agg_init b b' now)" "ac_max_packets cfg = 0"
    and "agg_admits cfg (\<lambda>_. zero_job) job"
  shows "\<exists>st evss out tot. agg_run cfg inps (agg_init b b' now) = Some (st, evss) \<and> concat (map sent evss) = [out] \<and>
    (\<forall>via agg_mode. ps_datagrams [out] via \<longrightarrow> ps_obtains agg_mode via (round_key job r) tot) \<and>
    approximates (unat len) G tot"
proof -
  have n: "length inps = length as" using assms(5) by (simp add: team_sends_def)
  then have ne: "inps \<noteq> []" using assms(3) by (auto simp: team_def)
  have rd: "round_datagrams (round_key job r) (length inps) (unat len) (datagrams inps)"
    using team_round [OF assms(3,5)] by simp
  have adm: "agg_admits cfg (\<lambda>_. zero_job) (k_job_id (round_key job r))" using assms(10) by (simp add: round_key_def)
  have "ps_datagrams (datagrams inps) (map ps_sample_input (datagrams inps))" by (rule ps_sample_datagrams)
  from agg_route [OF assms(6-9) adm rd ne this]
  show ?thesis using team_approximates [OF assms(1-5)] by blast
qed

end
