(* ===== verification/Loader.thy ===== *)
theory Loader
  imports Xdp_Properties Command_Line
begin

text \<open>
  The configuration loader (\<open>ci/netsum_cfg_loader.c\<close>): the MAC parser with the \<open>sscanf\<close> conversion it uses, and
  \<open>main\<close>, which fills \<open>config_map[0]\<close> of the XDP program. What \<open>inet_pton\<close> makes of
  the address and whether the two BPF system calls succeed are parameters; \<open>Startup\<close> reads the arguments.
\<close>

section \<open>sscanf's %x\<close>

definition hex_digit :: "char \<Rightarrow> nat option" where
  "hex_digit c = (let n = of_char c :: nat in
     if 48 \<le> n \<and> n \<le> 57 then Some (n - 48)
     else if 97 \<le> n \<and> n \<le> 102 then Some (n - 87)
     else if 65 \<le> n \<and> n \<le> 70 then Some (n - 55)
     else None)"

fun scan_digits :: "nat \<Rightarrow> string \<Rightarrow> nat \<times> string" where
  "scan_digits acc [] = (acc, [])"
| "scan_digits acc (c # cs) = (case hex_digit c of Some d \<Rightarrow> scan_digits (16 * acc + d) cs | None \<Rightarrow> (acc, c # cs))"

fun scan_prefix :: "string \<Rightarrow> string" where
  "scan_prefix (c # d # cs) = (if c = CHR ''0'' \<and> (d = CHR ''x'' \<or> d = CHR ''X'') then cs else c # d # cs)"
| "scan_prefix cs = cs"

text \<open>
  \<open>%x\<close> into an \<open>unsigned int\<close>: blanks, a sign, a \<open>0x\<close>, digits, at least one of them. The value is that of
  \<open>strtoul\<close>, which stops at \<open>ULONG_MAX\<close>, cut to 32 bits.
\<close>

definition scan_x :: "string \<Rightarrow> (u32 \<times> string) option" where
  "scan_x s =
     (let (neg, s) = scan_sign (dropWhile is_space s); s = scan_prefix s in
      case s of
        [] \<Rightarrow> None
      | c # _ \<Rightarrow> if hex_digit c = None then None
          else let (v, rest) = scan_digits 0 s;
                   w = (if v \<ge> 2 ^ 64 then - 1 else if neg then - word_of_nat v else word_of_nat v)
               in Some (w, rest))"

fun scan_fields :: "nat \<Rightarrow> string \<Rightarrow> u32 list option" where
  "scan_fields 0 s = Some []"
| "scan_fields (Suc 0) s = map_option (\<lambda>(v, _). [v]) (scan_x s)"
| "scan_fields (Suc (Suc n)) s = do {
     (v, rest) \<leftarrow> scan_x s;
     case rest of
       c # rest \<Rightarrow> if c = CHR '':'' then map_option ((#) v) (scan_fields (Suc n) rest) else None
     | [] \<Rightarrow> None }"

section \<open>The program\<close>

text \<open>\<open>sscanf(s, "%x:%x:%x:%x:%x:%x", ...) != 6\<close> is \<open>-1\<close>, here \<open>None\<close>.\<close>

definition parse_mac :: "string \<Rightarrow> bytes option" where
  "parse_mac s = map_option (map ucast) (scan_fields 6 s)"

record loader_args =
  la_mac_str :: string
  la_inet_pton :: "u32 option" \<comment> \<open>the address in network byte order, if the string is one\<close>
  la_port :: int
  la_max_slots_per_job :: u32

definition loader_config :: "bytes \<Rightarrow> u32 \<Rightarrow> loader_args \<Rightarrow> netsum_config" where
  "loader_config mac ip a = \<lparr>ps_mac = mac, ps_ip = ip, ps_port = htons (word_of_int (la_port a)),
     max_slots_per_job = la_max_slots_per_job a\<rparr>"

text \<open>The exit code and the maps of the XDP program afterwards.\<close>

definition loader_main :: "loader_args \<Rightarrow> bool \<Rightarrow> (u32, netsum_config) room \<Rightarrow> xdp_maps \<Rightarrow> int \<times> xdp_maps" where
  "loader_main a obj_get_ok config_room M =
     (case parse_mac (la_mac_str a) of
        None \<Rightarrow> (1, M)
      | Some mac \<Rightarrow> (case la_inet_pton a of
            None \<Rightarrow> (1, M)
          | Some ip \<Rightarrow>
              if \<not> obj_get_ok then (1, M)
              else let (rc, m) = bpf_map_update_elem config_room (config_map M) 0 (loader_config mac ip a) BPF_ANY
                   in if rc \<noteq> 0 then (1, M\<lparr>config_map := m\<rparr>) else (0, M\<lparr>config_map := m\<rparr>)))"

section \<open>Parsing what is printed\<close>

text \<open>The loader's own way to print a MAC address, \<open>%02x\<close> with colons.\<close>

definition hex_char :: "nat \<Rightarrow> char" where
  "hex_char n = char_of (if n < 10 then 48 + n else 87 + n)"

definition print_byte :: "u8 \<Rightarrow> string" where
  "print_byte b = [hex_char (unat b div 16), hex_char (unat b mod 16)]"

fun print_mac :: "bytes \<Rightarrow> string" where
  "print_mac [] = []"
| "print_mac [b] = print_byte b"
| "print_mac (b # bs) = print_byte b @ CHR '':'' # print_mac bs"

lemma hex_char_code: "n < 16 \<Longrightarrow> (of_char (hex_char n) :: nat) = (if n < 10 then 48 + n else 87 + n)"
  by (simp add: hex_char_def)

lemma hex_digit_char: "n < 16 \<Longrightarrow> hex_digit (hex_char n) = Some n"
  by (simp add: hex_digit_def hex_char_code Let_def)

lemma hex_char_plain:
  assumes "n < 16"
  shows "\<not> is_space (hex_char n)" "hex_char n \<noteq> CHR ''-''" "hex_char n \<noteq> CHR ''+''" "hex_char n \<noteq> CHR ''x''" "hex_char n \<noteq> CHR ''X''"
proof -
  have code: "hex_char n \<noteq> c" if "(of_char c :: nat) \<notin> {48..57} \<union> {97..102}" for c
    using hex_char_code [OF assms] assms that by (auto split: if_splits)
  show "\<not> is_space (hex_char n)" using hex_char_code [OF assms] assms by (simp add: is_space_def Let_def)
  show "hex_char n \<noteq> CHR ''-''" "hex_char n \<noteq> CHR ''+''" "hex_char n \<noteq> CHR ''x''" "hex_char n \<noteq> CHR ''X''"
    by (rule code; simp)+
qed

lemma scan_print_byte:
  assumes "case rest of [] \<Rightarrow> True | c # _ \<Rightarrow> hex_digit c = None"
  shows "scan_x (print_byte b @ rest) = Some (word_of_nat (unat b), rest)"
proof -
  let ?h = "unat b div 16" and ?l = "unat b mod 16"
  have b: "unat b < 256" using unsigned_less [of b] by simp
  then have h: "?h < 16" "?l < 16" by auto
  have e: "16 * ?h + ?l = unat b" by simp
  have r: "scan_digits v rest = (v, rest)" for v using assms by (cases rest) simp_all
  show ?thesis
    using h b e r
    by (simp add: scan_x_def print_byte_def hex_char_plain hex_digit_char Let_def)
qed

lemma colon_not_hex: "hex_digit CHR '':'' = None"
  by (simp add: hex_digit_def)

lemma scan_print_mac: "bs \<noteq> [] \<Longrightarrow> scan_fields (length bs) (print_mac bs) = Some (map (\<lambda>b. word_of_nat (unat b)) bs)"
proof (induction bs rule: print_mac.induct)
  case (2 b)
  show ?case using scan_print_byte [of "[]" b] by simp
next
  case (3 b c bs)
  then show ?case using scan_print_byte [of "CHR '':'' # print_mac (c # bs)" b] by (simp add: colon_not_hex)
qed simp

lemma ucast_back: "ucast (ucast b :: u32) = b" for b :: u8
  by (rule bit_word_eqI) (auto simp: bit_simps)

lemma scan_fields_length: "scan_fields n s = Some vs \<Longrightarrow> length vs = n"
proof (induction n s arbitrary: vs rule: scan_fields.induct)
  case (3 n s)
  from 3(2) obtain v rest where x: "scan_x s = Some (v, rest)" by (auto simp: bind_eq_Some_conv)
  with 3(2) obtain cs where cs: "rest = CHR '':'' # cs" by (cases rest) (auto split: if_splits)
  with 3(2) x obtain ws where ws: "scan_fields (Suc n) cs = Some ws" "vs = v # ws" by auto
  have "length ws = Suc n" by (rule 3(1) [OF x]) (use x cs ws in auto)
  with ws show ?case by simp
qed auto

lemma ld16_bound: "ld16 p off = Some v \<Longrightarrow> off + 2 \<le> length p"
  by (auto simp: ld16_def arr_get_def bind_eq_Some_conv split: if_splits)

lemma parse_mac_unroll: "parse_mac s = map_option (map ucast) (scan_fields (Suc (Suc (Suc (Suc (Suc (Suc 0)))))) s)"
  by (simp add: parse_mac_def eval_nat_numeral)

lemmas scan_eval = parse_mac_unroll scan_x_def is_space_def hex_digit_def Let_def

section \<open>Properties\<close>

text \<open>The MAC parser reads back what the loader prints, but it is not strict about anything else.\<close>

lemma parse_print_mac:
  assumes "length mac = 6"
  shows "parse_mac (print_mac mac) = Some mac"
proof -
  have "map (ucast \<circ> (\<lambda>b. word_of_nat (unat b) :: u32)) mac = mac"
    by (rule map_idI) (simp add: ucast_back)
  moreover have "mac \<noteq> []" using assms by auto
  ultimately show ?thesis using scan_print_mac [of mac] assms by (simp add: parse_mac_def)
qed

lemma parse_mac_lenient:
  "parse_mac ''1ff:0:0:0:0:1 garbage'' = Some [255, 0, 0, 0, 0, 1]" "parse_mac ''02:00:00:00:01'' = None"
  by (simp_all add: scan_eval)

lemma loader_cases:
  assumes "loader_main a obj_get_ok room M = (rc, M')"
  shows "(rc = 0 \<and> (\<exists>mac ip. parse_mac (la_mac_str a) = Some mac \<and> length mac = 6 \<and> la_inet_pton a = Some ip \<and>
      M' = M\<lparr>config_map := (config_map M)(0 \<mapsto> loader_config mac ip a)\<rparr> \<and> config_ok M' \<and>
      ntohs (ps_port (loader_config mac ip a)) = word_of_int (la_port a))) \<or> (rc = 1 \<and> M' = M)"
proof (cases "parse_mac (la_mac_str a)")
  case None
  with assms show ?thesis by (simp add: loader_main_def)
next
  case (Some mac)
  have mac: "length mac = 6" using Some scan_fields_length by (auto simp: parse_mac_def)
  have port: "ntohs (ps_port (loader_config mac ip a)) = word_of_int (la_port a)" for ip
    by (simp add: loader_config_def libc16.n2h_h2n)
  show ?thesis
  proof (cases "la_inet_pton a")
    case None
    with assms Some show ?thesis by (simp add: loader_main_def)
  next
    case ip: (Some ip)
    show ?thesis
      using assms Some ip mac port
      by (cases "config_map M 0")
        (auto simp: loader_main_def Let_def config_ok_def loader_config_def split: if_splits)
  qed
qed

text \<open>When it gets that far.\<close>

lemma loader_succeeds:
  assumes "loader_main a obj_get_ok room M = (rc, M')"
  shows "rc = 0 \<longleftrightarrow> parse_mac (la_mac_str a) \<noteq> None \<and> la_inet_pton a \<noteq> None \<and> obj_get_ok \<and>
    (config_map M 0 = None \<longrightarrow> room (config_map M) 0)"
  using assms by (auto simp: loader_main_def bpf_map_update_elem_def split: option.splits if_splits)

text \<open>
  C39. The loader installs exactly the configuration asked for, or nothing. It exits with 0 when the MAC address and the
  IP address parse, the pinned map is there and takes the entry, else with 1. On 0 the entry 0 of \<open>config_map\<close> holds the
  parsed MAC address, six bytes, the IP address as \<open>inet_pton\<close> gives it, the port cut to 16 bits in network byte order and the quota of
  the command line, and the maps are otherwise as before; on 1 they are as before. A MAC address printed as the
  loader prints it, six bytes as \<open>%02x\<close> with colons, is read back as it was. The parser is not strict about anything else: a field of
  more than 8 bits is silently cut, and what follows the sixth field is ignored.
\<close>
theorem loader_installs_config:
  assumes "loader_main a obj_get_ok room M = (rc, M')"
  shows "((rc = 0 \<and> (\<exists>cfg. M' = M\<lparr>config_map := (config_map M)(0 \<mapsto> cfg)\<rparr> \<and>
        parse_mac (la_mac_str a) = Some (ps_mac cfg) \<and> length (ps_mac cfg) = 6 \<and> la_inet_pton a = Some (ps_ip cfg) \<and>
        ntohs (ps_port cfg) = word_of_int (la_port a) \<and> max_slots_per_job cfg = la_max_slots_per_job a)) \<or>
      (rc = 1 \<and> M' = M)) \<and>
    (rc = 0 \<longleftrightarrow> parse_mac (la_mac_str a) \<noteq> None \<and> la_inet_pton a \<noteq> None \<and> obj_get_ok \<and>
      (config_map M 0 = None \<longrightarrow> room (config_map M) 0)) \<and>
    (length mac = 6 \<longrightarrow> parse_mac (print_mac mac) = Some mac) \<and>
    parse_mac ''1ff:0:0:0:0:1 garbage'' = Some [255, 0, 0, 0, 0, 1] \<and> parse_mac ''02:00:00:00:01'' = None"
proof (intro conjI)
  show "(rc = 0 \<and> (\<exists>cfg. M' = M\<lparr>config_map := (config_map M)(0 \<mapsto> cfg)\<rparr> \<and>
        parse_mac (la_mac_str a) = Some (ps_mac cfg) \<and> length (ps_mac cfg) = 6 \<and> la_inet_pton a = Some (ps_ip cfg) \<and>
        ntohs (ps_port cfg) = word_of_int (la_port a) \<and> max_slots_per_job cfg = la_max_slots_per_job a)) \<or> (rc = 1 \<and> M' = M)"
    using loader_cases [OF assms] by (auto simp: loader_config_def)
  show "rc = 0 \<longleftrightarrow> parse_mac (la_mac_str a) \<noteq> None \<and> la_inet_pton a \<noteq> None \<and> obj_get_ok \<and>
      (config_map M 0 = None \<longrightarrow> room (config_map M) 0)" by (rule loader_succeeds [OF assms])
qed (use parse_print_mac parse_mac_lenient in simp_all)

definition sample_loader :: loader_args where
  "sample_loader = \<lparr>la_mac_str = ''02:00:00:00:00:03'', la_inet_pton = Some 0x0300000a, la_port = 9876, la_max_slots_per_job = 4\<rparr>"

lemma sample_mac: "parse_mac ''02:00:00:00:00:03'' = Some [2, 0, 0, 0, 0, 3]"
  by (simp add: scan_eval)

lemma sample_loaded: "loader_main sample_loader True (\<lambda>m k. True) xdp_empty =
    (0, xdp_empty\<lparr>config_map := [0 \<mapsto> loader_config [2, 0, 0, 0, 0, 3] 0x0300000a sample_loader]\<rparr>)"
  by (simp add: loader_main_def sample_loader_def sample_mac xdp_empty_def)

theorem loader_installs_config_witness:
  "\<exists>M' cfg. loader_main sample_loader True (\<lambda>m k. True) xdp_empty = (0, M') \<and> config_map M' 0 = Some cfg \<and>
     ps_mac cfg = [2, 0, 0, 0, 0, 3] \<and> ps_ip cfg = 0x0300000a \<and> ntohs (ps_port cfg) = 9876 \<and> max_slots_per_job cfg = 4 \<and>
     parse_mac (print_mac [2, 0, 0, 0, 0, 255]) = Some [2, 0, 0, 0, 0, 255]"
proof -
  note L = loader_installs_config [OF sample_loaded, of "[2, 0, 0, 0, 0, 255]"]
  then obtain cfg where "xdp_empty\<lparr>config_map := [0 \<mapsto> loader_config [2, 0, 0, 0, 0, 3] 0x0300000a sample_loader]\<rparr> =
      xdp_empty\<lparr>config_map := (config_map xdp_empty)(0 \<mapsto> cfg)\<rparr>"
    "parse_mac (la_mac_str sample_loader) = Some (ps_mac cfg)" "la_inet_pton sample_loader = Some (ps_ip cfg)"
    "ntohs (ps_port cfg) = word_of_int (la_port sample_loader)" "max_slots_per_job cfg = la_max_slots_per_job sample_loader"
    by auto
  with L show ?thesis using sample_loaded by (auto simp: sample_loader_def sample_mac)
qed

text \<open>A packet retargeted by a configuration of the loader carries what the loader was given.\<close>

lemma forwarded_to:
  assumes "forwarded cfg p vs q" "cfg = loader_config mac ip a"
  shows "take 6 q = mac \<and> ld32 q 30 = Some ip \<and> wire16 q 36 = word_of_int (la_port a)"
proof -
  have "take 6 q = mac" "ld32 q 30 = Some ip" "ld16 q 36 = Some (ps_port cfg)"
    using assms by (simp_all add: forwarded_def loader_config_def)
  moreover have "wire16 q 36 = ntohs (ps_port cfg)"
    using calculation(3) libc16.load [of 36 q] ld16_bound [of q 36] by auto
  ultimately show ?thesis by (simp add: assms(2) loader_config_def libc16.n2h_h2n)
qed

end
