(* ===== verification/Startup.thy ===== *)
theory Startup
  imports Command_Line Training Loader
begin

text \<open>
  The four programs from their command lines: what each \<open>main\<close> does before its loop, in the order of its checks,
  and the loop that follows. The operating system is a parameter: which \<open>socket\<close> and \<open>bind\<close> calls succeed, and what
  \<open>inet_pton\<close> makes of an address (the value in network byte order). \<open>setsockopt\<close> results are ignored by the code.
\<close>

section \<open>Operating system and results\<close>

record host =
  socket_ok :: "nat \<Rightarrow> bool"     \<comment> \<open>the calls in order\<close>
  bind_ok :: "u16 \<Rightarrow> bool"       \<comment> \<open>\<open>sin_port\<close>, in network byte order\<close>
  inet_pton :: "string \<Rightarrow> u32 option"

text \<open>The ways to exit with 1 before the loop.\<close>

datatype start_error = Usage | No_socket | No_bind | Bad_address

section \<open>Userspace aggregator\<close>

record agg_sockets =
  as_listen_port :: u16
  as_rcv_timeout :: "(int \<times> int) option" \<comment> \<open>seconds and microseconds; blocking without one\<close>
  as_downstream_port :: u16
  as_downstream_addr :: u32

definition agg_arguments :: "string list \<Rightarrow> agg_config" where
  "agg_arguments argv =
     \<lparr>ac_max_packets = (if length argv > 4 then atol (argv ! 4) else 0),
      ac_job_quota = (if length argv > 5 then atol (argv ! 5) else 0),
      ac_slot_ttl_ms = (if length argv > 6 then atol (argv ! 6) else 0)\<rparr>"

definition agg_rcv_timeout :: "int \<Rightarrow> (int \<times> int) option" where
  "agg_rcv_timeout slot_ttl_ms =
     (if slot_ttl_ms > 0
      then let interval_ms = slot_ttl_ms div 4; interval_ms = (if interval_ms < 1 then 1 else interval_ms)
           in Some (interval_ms div 1000, interval_ms mod 1000 * 1000)
      else None)"

definition agg_start :: "host \<Rightarrow> string list \<Rightarrow> start_error + agg_config \<times> agg_sockets" where
  "agg_start H argv =
     (if length argv < 4 then Inl Usage
      else let cfg = agg_arguments argv; sin_port = htons (word_of_int (atoi (argv ! 1))) in
        if \<not> socket_ok H 0 then Inl No_socket
        else if \<not> bind_ok H sin_port then Inl No_bind
        else if \<not> socket_ok H 1 then Inl No_socket
        else case inet_pton H (argv ! 2) of
            None \<Rightarrow> Inl Bad_address
          | Some addr \<Rightarrow> Inr (cfg, \<lparr>as_listen_port = sin_port, as_rcv_timeout = agg_rcv_timeout (ac_slot_ttl_ms cfg),
              as_downstream_port = htons (word_of_int (atoi (argv ! 3))), as_downstream_addr = addr\<rparr>))"

definition agg_program ::
    "host \<Rightarrow> string list \<Rightarrow> bytes \<Rightarrow> bytes \<Rightarrow> int \<Rightarrow> agg_input list \<Rightarrow>
      (start_error + agg_sockets \<times> agg_state \<times> agg_event list list) option" where
  "agg_program H argv in_packet out_packet now inps =
     (case agg_start H argv of
        Inl e \<Rightarrow> Some (Inl e)
      | Inr (cfg, socks) \<Rightarrow> do {
          (st, evss) \<leftarrow> agg_run cfg inps (agg_init in_packet out_packet now);
          Some (Inr (socks, st, evss)) })"

section \<open>Parameter server\<close>

definition ps_start :: "host \<Rightarrow> string list \<Rightarrow> start_error + bool \<times> int \<times> u16" where
  "ps_start H argv =
     (if length argv < 3 then Inl Usage
      else let agg_mode = (argv ! 2 = ''agg''); max_packets = (if length argv > 3 then atol (argv ! 3) else 0);
               sin_port = htons (word_of_int (atoi (argv ! 1))) in
        if \<not> socket_ok H 0 then Inl No_socket
        else if \<not> bind_ok H sin_port then Inl No_bind
        else Inr (agg_mode, max_packets, sin_port))"

definition ps_program ::
    "host \<Rightarrow> string list \<Rightarrow> bytes \<Rightarrow> ps_input list \<Rightarrow> (start_error + u16 \<times> ps_state \<times> ps_event list) option" where
  "ps_program H argv packet inps =
     (case ps_start H argv of
        Inl e \<Rightarrow> Some (Inl e)
      | Inr (agg_mode, max_packets, sin_port) \<Rightarrow> do {
          (st, evs) \<leftarrow> ps_run agg_mode max_packets inps (ps_init packet);
          Some (Inr (sin_port, st, evs)) })"

section \<open>Worker\<close>

text \<open>\<open>atof\<close>, the double a decimal string stands for, is a parameter.\<close>

definition worker_arguments :: "(string \<Rightarrow> rat) \<Rightarrow> string list \<Rightarrow> worker_args" where
  "worker_arguments atof argv =
     \<lparr>wa_job_id = ucast (strtoul (argv ! 3)), wa_worker_id = word_of_int (atoi (argv ! 4)),
      wa_num_workers = word_of_int (atoi (argv ! 5)), wa_num_rounds = atoi (argv ! 6),
      wa_chunk_len = word_of_int (atoi (argv ! 7)),
      wa_max_abs_grad = (if length argv > 8 then atof (argv ! 8) else 1),
      wa_fixed_value = (if length argv > 9 then Some (atof (argv ! 9)) else None)\<rparr>"

definition worker_dest :: "host \<Rightarrow> string list \<Rightarrow> (u16 \<times> u32) option" where
  "worker_dest H argv =
     (if \<not> socket_ok H 0 then None
      else map_option (\<lambda>addr. (htons (word_of_int (atoi (argv ! 2))), addr)) (inet_pton H (argv ! 1)))"

definition worker_program ::
    "(rat \<Rightarrow> rat) \<Rightarrow> (string \<Rightarrow> rat) \<Rightarrow> host \<Rightarrow> string list \<Rightarrow> (nat \<Rightarrow> bool) \<Rightarrow> bytes \<Rightarrow>
      (bool \<times> int \<times> bytes list) option" where
  "worker_program rnd atof H argv sendto_ok packet =
     (if length argv < 8 then Some (False, 1, [])
      else worker_main rnd (worker_arguments atof argv) (worker_dest H argv \<noteq> None) sendto_ok packet)"

section \<open>Configuration loader\<close>

definition loader_arguments :: "host \<Rightarrow> string list \<Rightarrow> loader_args" where
  "loader_arguments H argv =
     \<lparr>la_mac_str = argv ! 2, la_inet_pton = inet_pton H (argv ! 3), la_port = atoi (argv ! 4),
      la_max_slots_per_job = (if length argv > 5 then ucast (strtoul (argv ! 5)) else 0)\<rparr>"

definition loader_program ::
    "host \<Rightarrow> string list \<Rightarrow> bool \<Rightarrow> (u32, netsum_config) room \<Rightarrow> xdp_maps \<Rightarrow> int \<times> xdp_maps" where
  "loader_program H argv obj_get_ok config_room M =
     (if length argv \<noteq> 5 \<and> length argv \<noteq> 6 then (1, M)
      else loader_main (loader_arguments H argv) obj_get_ok config_room M)"

section \<open>Arguments as printed\<close>

definition host_ready :: "host \<Rightarrow> bool" where
  "host_ready H \<longleftrightarrow> (\<forall>n. socket_ok H n) \<and> (\<forall>p. bind_ok H p)"

definition worker_argv :: "string \<Rightarrow> nat \<Rightarrow> u32 \<Rightarrow> u16 \<Rightarrow> u16 \<Rightarrow> nat \<Rightarrow> u16 \<Rightarrow> string \<Rightarrow> string list" where
  "worker_argv ip port job w n rounds len max_abs = [''worker'', ip, print_dec port, print_dec (unat job), print_dec (unat w),
     print_dec (unat n), print_dec rounds, print_dec (unat len), max_abs]"

definition worker_told :: "u32 \<Rightarrow> u16 \<Rightarrow> u16 \<Rightarrow> nat \<Rightarrow> u16 \<Rightarrow> rat \<Rightarrow> worker_args" where
  "worker_told job w n rounds len B = \<lparr>wa_job_id = job, wa_worker_id = w, wa_num_workers = n, wa_num_rounds = int rounds,
     wa_chunk_len = len, wa_max_abs_grad = B, wa_fixed_value = None\<rparr>"

lemma atoi_print_u16: "word_of_int (atoi (print_dec (unat (w :: u16)))) = w"
proof -
  have "unat w < 2 ^ LENGTH(16)" by (rule unsigned_less)
  then show ?thesis by (simp add: atoi_print_dec)
qed

lemma strtoul_print_u32: "ucast (strtoul (print_dec (unat (w :: u32)))) = w"
  unfolding strtoul_print by (rule bit_word_eqI) (auto simp: bit_simps)

lemma worker_arguments_told:
  assumes "rounds < 2 ^ 31"
  shows "worker_arguments atof (worker_argv ip port job w n rounds len max_abs) = worker_told job w n rounds len (atof max_abs)"
  using assms
  by (simp add: worker_arguments_def worker_argv_def worker_told_def atoi_print_u16 strtoul_print_u32 atoi_print_dec
      del: word_of_int_eq_iff)

lemma worker_told_simps [simp]:
  "wa_job_id (worker_told job w n rounds len B) = job" "wa_worker_id (worker_told job w n rounds len B) = w"
  "wa_num_workers (worker_told job w n rounds len B) = n" "wa_num_rounds (worker_told job w n rounds len B) = int rounds"
  "wa_chunk_len (worker_told job w n rounds len B) = len" "wa_max_abs_grad (worker_told job w n rounds len B) = B"
  "wa_fixed_value (worker_told job w n rounds len B) = None"
  by (simp_all add: worker_told_def)

lemma worker_bound_told [simp]: "worker_bound (worker_told job w n rounds len B) = B"
  by (simp add: worker_bound_def)

text \<open>The overflow check keeps a single gradient in range, too.\<close>

lemma fits_in_range:
  assumes "ieee_rounding rnd" "netsum_sum_fits_i32 rnd (int n) B" "0 < n" "0 \<le> B" "is_double B"
  shows "B < 32768"
proof -
  have "1 * B \<le> of_nat n * B" using assms(3,4) by (intro mult_right_mono) simp_all
  then have "rnd B \<le> rnd (of_nat n * B)" by (intro rounding_mono [OF assms(1)]) simp
  then have "B * 65536 \<le> rnd (of_nat n * B) * 65536" using rounding_double [OF assms(1,5)] by simp
  also have "\<dots> < 2147483647" using assms(2) by (simp add: fixed_eqs)
  finally show ?thesis by simp
qed

lemma worker_program_sends:
  fixes job :: u32 and w n len :: u16
  assumes "ieee_rounding rnd" "netsum_sum_fits_i32 rnd (int (unat n)) (atof max_abs)" "0 \<le> atof max_abs" "is_double (atof max_abs)"
    and "n \<noteq> 0" "unat len \<le> 64" "rounds < 2 ^ 31" "host_ready H" "inet_pton H ip \<noteq> None" "length packet = 276"
  defines "a \<equiv> worker_told job w n rounds len (atof max_abs)"
  shows "\<exists>ds. worker_program rnd atof H (worker_argv ip port job w n rounds len max_abs) ok packet =
      Some (False, if length ds = rounds then 0 else 1, ds) \<and> length ds \<le> rounds \<and>
    (length ds < rounds \<longrightarrow> \<not> ok (length ds)) \<and> (\<forall>r<length ds. \<exists>xs. worker_packet a r (worker_gradients rnd a r) xs (ds ! r))"
proof -
  have "0 < unat n" using assms(5) by (simp add: unat_gt_0)
  then have "worker_in_range a"
    using fits_in_range [OF assms(1,2)] assms(3,4) by (simp add: worker_in_range_def a_def)
  moreover have "unat (wa_chunk_len a) \<le> NETSUM_MAX_CHUNK_LEN" "length packet = NETSUM_MAX_PACKET_SIZE"
    using assms(6,10) by (simp_all add: a_def proto_consts)
  ultimately obtain ds where "worker_main rnd a True ok packet =
      Some (\<not> netsum_sum_fits_i32 rnd (int (unat (wa_num_workers a))) (wa_max_abs_grad a),
        if length ds = nat (wa_num_rounds a) then 0 else 1, ds)"
    "length ds \<le> nat (wa_num_rounds a)" "length ds < nat (wa_num_rounds a) \<longrightarrow> \<not> ok (length ds)"
    "\<forall>r<length ds. \<exists>xs. worker_packet a r (worker_gradients rnd a r) xs (ds ! r)"
    using worker_main_sends [OF assms(1), of a packet ok] by blast
  moreover have "worker_dest H (worker_argv ip port job w n rounds len max_abs) \<noteq> None"
    using assms(8,9) by (simp add: worker_dest_def worker_argv_def host_ready_def)
  moreover have "\<not> length (worker_argv ip port job w n rounds len max_abs) < 8" by (simp add: worker_argv_def)
  ultimately show ?thesis
    using assms(2) worker_arguments_told [OF assms(7)] by (intro exI [of _ ds]) (simp add: worker_program_def a_def)
qed

lemma agg_start_default:
  assumes "host_ready H" "inet_pton H ip = Some addr"
  shows "\<exists>socks. agg_start H [''agg'', lp, ip, dp] =
    Inr (\<lparr>ac_max_packets = 0, ac_job_quota = 0, ac_slot_ttl_ms = 0\<rparr>, socks) \<and> as_downstream_addr socks = addr"
  using assms by (simp add: agg_start_def agg_arguments_def host_ready_def)

lemma ps_start_default:
  assumes "host_ready H"
  shows "\<exists>port. ps_start H [''paramserver'', lp, ''agg''] = Inr (True, 0, port)"
  using assms by (simp add: ps_start_def host_ready_def)

lemma ps_program_obtains:
  assumes "ps_start H argv = Inr (agg_mode, 0, sin_port)" "ps_obtains agg_mode via k tot" "length packet = 276"
  shows "\<exists>pst m latency s. ps_program H argv packet via =
      Some (Inr (sin_port, pst, [Ps_complete (k_job_id k) (k_round k) (k_chunk_id k) m (tot ! 0) latency])) \<and>
    slot_map_of (ps_slots pst) k = Some s \<and> sl_sum s = tot"
proof -
  have "length packet = NETSUM_MAX_PACKET_SIZE" using assms(3) by (simp add: proto_consts)
  then obtain st m latency s where "ps_run agg_mode 0 via (ps_init packet) =
      Some (st, [Ps_complete (k_job_id k) (k_round k) (k_chunk_id k) m (tot ! 0) latency])"
    "slot_map_of (ps_slots st) k = Some s" "sl_sum s = tot"
    using assms(2) unfolding ps_obtains_def by blast
  then show ?thesis by (intro exI [of _ st] exI [of _ m] exI [of _ latency] exI [of _ s]) (simp add: ps_program_def assms(1))
qed

lemma card_below_word: "card {..<n} = unat (n :: u16)"
proof -
  have "unat ` {..<n} = {..<unat n}"
  proof (intro equalityI subsetI)
    fix m assume "m \<in> {..<unat n}"
    moreover have "unat n < 2 ^ LENGTH(16)" by (rule unsigned_less)
    ultimately have "m = unat (word_of_nat m :: u16)" by (simp add: unsigned_of_nat take_bit_nat_eq_self)
    moreover from this have "(word_of_nat m :: u16) < n" using \<open>m \<in> {..<unat n}\<close> by (simp add: word_less_nat_alt)
    ultimately show "m \<in> unat ` {..<n}" by blast
  qed (auto simp: word_less_nat_alt)
  moreover have "inj_on unat {..<n}" by (simp add: inj_on_def word_unat_eq_iff)
  ultimately show ?thesis using card_image [of unat "{..<n}"] by simp
qed

section \<open>Properties\<close>

text \<open>
  C5. Training from the command lines. \<open>n\<close> workers are started for one job with the ids below \<open>n\<close>, the numbers printed
  in decimal, and a maximal gradient for which the overflow check passes; the aggregator without limits and the
  parameter server in aggregated mode. Then, for every round \<open>r\<close> all workers got to send, in whatever order their
  packets of the round arrive and however \<open>double\<close> arithmetic rounds: the aggregator forwards one packet, on
  which the parameter server logs the completion of the round, and every component of the sum it holds, converted
  back, differs from the sum of the gradients the workers drew for it by at most one unit in the last place (2^-16) per worker.
\<close>
theorem training_from_command_lines:
  assumes "ieee_rounding rnd" "netsum_sum_fits_i32 rnd (int (unat n)) (atof max_abs)" "0 \<le> atof max_abs" "is_double (atof max_abs)"
    and "n \<noteq> 0" "unat n \<le> 256" "unat len \<le> 64" "rounds < 2 ^ 31"
    and workers: "\<forall>w<n. host_ready (H w) \<and> inet_pton (H w) ip \<noteq> None \<and> length (buf w) = 276 \<and>
      worker_program rnd atof (H w) (worker_argv ip port job w n rounds len max_abs) (ok w) (buf w) = Some (warned w, rc w, sends w) \<and>
      r < length (sends w)"
    and "distinct order" "set order = {..<n}" "datagrams inps = map (\<lambda>w. sends w ! r) order"
    and "host_ready Ha" "inet_pton Ha ip' = Some addr" "length b = 276" "length b' = 276" "host_ready Hp"
  shows "\<exists>socks st evss out tot. agg_program Ha [''agg'', lp, ip', dp] b b' now inps = Some (Inr (socks, st, evss)) \<and>
    concat (map sent evss) = [out] \<and>
    (\<forall>packet via. length packet = 276 \<longrightarrow> ps_datagrams [out] via \<longrightarrow>
       (\<exists>sin_port pst m latency s. ps_program Hp [''paramserver'', dp', ''agg''] packet via =
            Some (Inr (sin_port, pst, [Ps_complete job (word_of_nat r) 0 m (tot ! 0) latency])) \<and>
          slot_map_of (ps_slots pst) (round_key job r) = Some s \<and> sl_sum s = tot)) \<and>
    approximates (unat len) (map (\<lambda>w. worker_gradients rnd (worker_told job w n rounds len (atof max_abs)) r) order) tot"
proof -
  let ?a = "\<lambda>w. worker_told job w n rounds len (atof max_abs)" and ?cfg = "\<lparr>ac_max_packets = 0, ac_job_quota = 0, ac_slot_ttl_ms = 0\<rparr>"
  let ?as = "map ?a order" and ?G = "map (\<lambda>w. worker_gradients rnd (?a w) r) order"
  have n: "length order = unat n" using distinct_card [OF assms(10)] assms(11) by (simp add: card_below_word)
  then have ne: "order \<noteq> []" using assms(5) by (auto simp: unat_eq_0)
  have sent: "\<exists>xs. worker_packet (?a w) r (worker_gradients rnd (?a w) r) xs (sends w ! r)" if "w \<in> set order" for w
  proof -
    have w: "host_ready (H w)" "inet_pton (H w) ip \<noteq> None" "length (buf w) = 276" "r < length (sends w)"
      "worker_program rnd atof (H w) (worker_argv ip port job w n rounds len max_abs) (ok w) (buf w) = Some (warned w, rc w, sends w)"
      using workers that assms(11) by auto
    from worker_program_sends [where rnd = rnd and n = n and atof = atof and max_abs = max_abs and len = len and H = "H w" and ip = ip
        and packet = "buf w" and ok = "ok w" and w = w and job = job and port = port, OF assms(1-5,7,8) w(1-3)] w(4,5)
    show ?thesis by auto
  qed
  have t: "team job len ?as" "\<forall>a\<in>set ?as. worker_bound a \<le> atof max_abs" "length ?as = unat n"
    using ne n assms(6,7,10,11) by (auto simp: team_def comp_def word_less_nat_alt)
  have s: "team_sends ?as r ?G (datagrams inps)" using sent by (simp add: team_sends_def assms(12))
  have q: "\<forall>inp\<in>set inps. quiet ?cfg inp (agg_init b b' now)" by (simp add: quiet_def)
  have ad: "agg_admits ?cfg (\<lambda>_. zero_job) job" by (simp add: agg_admits_def split: prod.split option.split)
  obtain socks where g: "agg_start Ha [''agg'', lp, ip', dp] = Inr (?cfg, socks)"
    using agg_start_default [OF assms(13,14)] by blast
  obtain sin_port where p: "ps_start Hp [''paramserver'', dp', ''agg''] = Inr (True, 0, sin_port)"
    using ps_start_default [OF assms(17)] by blast
  have f: "netsum_sum_fits_i32 rnd (int (length ?as)) (atof max_abs)" using assms(2) t(3) by simp
  from training_round [OF assms(1) f t(1,2) s assms(15,16) q _ ad]
  obtain st evss out tot where r: "agg_run ?cfg inps (agg_init b b' now) = Some (st, evss)" "concat (map sent evss) = [out]"
    "\<forall>via agg_mode. ps_datagrams [out] via \<longrightarrow> ps_obtains agg_mode via (round_key job r) tot" "approximates (unat len) ?G tot"
    by auto
  have "\<exists>sin_port pst m latency s. ps_program Hp [''paramserver'', dp', ''agg''] packet via =
      Some (Inr (sin_port, pst, [Ps_complete job (word_of_nat r) 0 m (tot ! 0) latency])) \<and>
      slot_map_of (ps_slots pst) (round_key job r) = Some s \<and> sl_sum s = tot"
    if v: "length packet = 276" "ps_datagrams [out] via" for packet via
    using ps_program_obtains [OF p, of via "round_key job r" tot packet] r(3) v by (auto simp: round_key_def)
  then show ?thesis using r(1,2,4) g by (intro exI [of _ socks] exI [of _ st] exI [of _ evss] exI [of _ out] exI [of _ tot]) (simp add: agg_program_def)
qed

definition sample_host :: host where
  "sample_host = \<lparr>socket_ok = (\<lambda>_. True), bind_ok = (\<lambda>_. True), inet_pton = (\<lambda>s. if s = ''10.0.0.3'' then Some 0x0300000a else None)\<rparr>"

lemma sample_host_ready [simp]: "host_ready sample_host" "inet_pton sample_host ''10.0.0.3'' = Some 0x0300000a"
  by (simp_all add: host_ready_def sample_host_def)

text \<open>Two workers, one round of one value, the second worker's packet first.\<close>
theorem training_from_command_lines_witness:
  "\<exists>sends socks st evss out tot.
     (\<forall>w::u16 \<in> {0, 1}. worker_program (\<lambda>x. x) (\<lambda>_. 1) sample_host (worker_argv ''10.0.0.3'' 9876 7 w 2 1 1 ''1'') (\<lambda>_. True)
        (replicate 276 0) = Some (False, 0, [sends w])) \<and>
     agg_program sample_host [''agg'', ''9876'', ''10.0.0.3'', ''9000''] zeros zeros 0 [sample_input (sends 1), sample_input (sends 0)] =
       Some (Inr (socks, st, evss)) \<and> concat (map sent evss) = [out] \<and>
     \<bar>netsum_to_double (tot ! 0) - (\<Sum>w::u16\<leftarrow>[1, 0]. fst (xorshift_double (\<lambda>x. x) (worker_seed w)))\<bar> * 65536 \<le> 2"
proof -
  let ?sum = "netsum_sum_fits_i32 (\<lambda>x. x) (int (unat (2 :: u16))) 1"
  have fits: ?sum by (simp add: fixed_eqs)
  have one: "is_double 1" by (rule is_doubleI [of _ 1 0]) simp_all
  have "\<exists>d. worker_program (\<lambda>x. x) (\<lambda>_. 1) sample_host (worker_argv ''10.0.0.3'' 9876 7 w 2 1 1 ''1'') (\<lambda>_. True) (replicate 276 0) =
      Some (False, 0, [d])" for w
  proof -
    obtain ds where "worker_program (\<lambda>x. x) (\<lambda>_. 1) sample_host (worker_argv ''10.0.0.3'' 9876 7 w 2 1 1 ''1'') (\<lambda>_. True) (replicate 276 0) =
        Some (False, 0, ds)" "length ds = 1"
      using worker_program_sends [where atof = "\<lambda>_. 1" and n = 2 and len = 1 and rounds = 1 and ok = "\<lambda>_. True" and w = w and max_abs = "''1''",
          OF no_rounding fits _ one _ _ _ sample_host_ready(1), of "''10.0.0.3''" "replicate 276 0" 9876 7]
      by (auto simp: le_Suc_eq)
    then show ?thesis by (auto simp: length_Suc_conv)
  qed
  then obtain P where P: "\<And>w. worker_program (\<lambda>x. x) (\<lambda>_. 1) sample_host (worker_argv ''10.0.0.3'' 9876 7 w 2 1 1 ''1'') (\<lambda>_. True)
      (replicate 276 0) = Some (False, 0, [P w])"
    by metis
  have set: "set [1, 0 :: u16] = {..<2}"
  proof -
    have "w < 2 \<longleftrightarrow> w = 0 \<or> w = 1" for w :: u16 by (auto simp: word_less_nat_alt word_unat_eq_iff)
    then show ?thesis by auto
  qed
  obtain socks st evss out tot where r: "agg_program sample_host [''agg'', ''9876'', ''10.0.0.3'', ''9000''] zeros zeros 0
        [sample_input (P 1), sample_input (P 0)] = Some (Inr (socks, st, evss))" "concat (map sent evss) = [out]"
      "approximates 1 (map (\<lambda>w. worker_gradients (\<lambda>x. x) (worker_told 7 w 2 1 1 1) 0) [1, 0]) tot"
    using training_from_command_lines [where n = 2 and atof = "\<lambda>_. 1" and len = 1 and rounds = 1 and r = 0 and order = "[1, 0]" and b = zeros
        and b' = zeros and Ha = sample_host and Hp = sample_host and ip' = "''10.0.0.3''" and H = "\<lambda>_. sample_host" and ip = "''10.0.0.3''"
        and buf = "\<lambda>_. replicate 276 0" and ok = "\<lambda>_ _. True" and sends = "\<lambda>w. [P w]" and max_abs = "''1''" and port = 9876 and job = 7
        and warned = "\<lambda>_. False" and rc = "\<lambda>_. 0" and inps = "[sample_input (P 1), sample_input (P 0)]" and lp = "''9876''" and dp = "''9000''"
        and now = 0 and dp' = "''9000''", OF no_rounding fits _ one _ _ _ _ _ _ set]
    using P by auto
  have g: "worker_gradients (\<lambda>x. x) (worker_told 7 w 2 (Suc 0) 1 1) 0 = [fst (xorshift_double (\<lambda>x. x) (worker_seed w))]" for w
    by (simp add: worker_gradients_def worker_gradient_def)
  have "\<bar>netsum_to_double (tot ! 0) - (\<Sum>w::u16\<leftarrow>[1, 0]. fst (xorshift_double (\<lambda>x. x) (worker_seed w)))\<bar> * 65536 \<le> 2"
    using r(3) by (simp add: approximates_def g)
  with P r show ?thesis by (intro exI [of _ P] exI [of _ socks] exI [of _ st] exI [of _ evss] exI [of _ out] exI [of _ tot]) simp
qed

text \<open>
  C38. The programs run with what they are told. Numbers printed in decimal reach the loops and sockets as they are (ports
  in network byte order), within the ranges of the variables they are stored in; the aggregator's receive timeout is
  its sweep interval, so that it sweeps in time without traffic; a missing optional argument is 0, and so is
  one that is no number, which means no limit.
\<close>
theorem started_as_told:
  assumes "host_ready H" "inet_pton H ip = Some addr" "lp < 2 ^ 16" "dp < 2 ^ 16"
    and "0 \<le> m" "m < 2 ^ 63" "0 \<le> quota" "quota < 2 ^ 63" "0 \<le> ttl" "ttl < 2 ^ 63" "rounds < 2 ^ 31"
  shows "agg_start H [''agg'', print_dec lp, ip, print_dec dp, print_int m, print_int quota, print_int ttl] =
      Inr (\<lparr>ac_max_packets = m, ac_job_quota = quota, ac_slot_ttl_ms = ttl\<rparr>,
        \<lparr>as_listen_port = htons (word_of_nat lp), as_rcv_timeout = agg_rcv_timeout ttl,
         as_downstream_port = htons (word_of_nat dp), as_downstream_addr = addr\<rparr>) \<and>
    (case agg_rcv_timeout ttl of None \<Rightarrow> ttl = 0
     | Some (s, us) \<Rightarrow> 0 \<le> us \<and> us < 1000000 \<and> s * 1000000 + us = reap_interval_micros ttl) \<and>
    agg_start H [''agg'', print_dec lp, ip, print_dec dp, ''all''] = agg_start H [''agg'', print_dec lp, ip, print_dec dp] \<and>
    ps_start H [''paramserver'', print_dec lp, mode, print_int m] = Inr (mode = ''agg'', m, htons (word_of_nat lp)) \<and>
    worker_arguments atof (worker_argv ip dp job w n rounds len max_abs) = worker_told job w n rounds len (atof max_abs) \<and>
    worker_dest H (worker_argv ip dp job w n rounds len max_abs) = Some (htons (word_of_nat dp), addr) \<and>
    loader_arguments H [''loader'', path, mac, ip, print_dec dp, print_dec (unat slots)] =
      \<lparr>la_mac_str = mac, la_inet_pton = Some addr, la_port = int dp, la_max_slots_per_job = slots\<rparr>"
proof -
  have p: "atoi (print_dec lp) = int lp" "atoi (print_dec dp) = int dp" using assms(3,4) by (simp_all add: atoi_print_dec)
  have l: "atol (print_int m) = m" "atol (print_int quota) = quota" "atol (print_int ttl) = ttl"
    using assms(5-10) by (simp_all add: atol_print)
  have a: "atol ''all'' = 0" by (simp add: atol_def strtol_def scan_number_def is_space_def dec_digit_def)
  have s: "x div 1000 * 1000000 + x mod 1000 * 1000 = x * 1000" for x :: int using div_mult_mod_eq [of x 1000] by presburger
  have t: "case agg_rcv_timeout ttl of None \<Rightarrow> ttl = 0
     | Some (s, us) \<Rightarrow> 0 \<le> us \<and> us < 1000000 \<and> s * 1000000 + us = reap_interval_micros ttl"
    using assms(9) s [of "ttl div 4"] by (auto simp: agg_rcv_timeout_def reap_interval_micros_def Let_def)
  show ?thesis
    using assms(1,2) p l a t worker_arguments_told [OF assms(11)]
    by (simp add: agg_start_def agg_arguments_def ps_start_def host_ready_def worker_dest_def loader_arguments_def strtoul_print_u32)
      (simp add: worker_argv_def p)
qed

theorem started_as_told_witness:
  "ps_start sample_host [''paramserver'', print_dec 9000, ''agg'', print_int 10] = Inr (True, 10, htons 9000) \<and>
   agg_rcv_timeout 2000 = Some (0, 500000)"
  using started_as_told [OF sample_host_ready, of 9000 9876 10 0 2000 1 "''agg''"]
  by (simp add: agg_rcv_timeout_def)

end
