(* ===== verification/Xdp_Smp.thy ===== *)
theory Xdp_Smp
  imports Xdp
begin

text \<open>
  The kernel aggregator on several CPUs. A CPU runs \<open>netsum_xdp_aggregate\<close> on a packet of its own; what it
  shares with the others are the maps. Its run is cut into the atomic actions between which another CPU can
  act: one map helper call or atomic add each, and the section under the slot's spin lock as a whole (the
  configuration does not change, so that reading it in the admission check is no action of its own). A
  quota or statistics entry is never deleted, so that its lookup and the atomic add through the pointer
  count as one action when the entry is there. A slot, however, is deleted while other CPUs may hold pointers to
  it: a lookup returns the address of an element, and the kernel hands the elements of deleted keys out again.
\<close>

section \<open>Shared state\<close>

record smp =
  sm_index :: "grad_slot_key \<rightharpoonup> nat" \<comment> \<open>\<open>slot_map\<close>: the element of each key\<close>
  sm_elem :: "nat \<Rightarrow> grad_slot"       \<comment> \<open>the elements, linked or not\<close>
  sm_config_map :: "u32 \<rightharpoonup> netsum_config"
  sm_job_quota_map :: "u32 \<rightharpoonup> job_quota_entry"
  sm_drop_stats :: "u32 \<rightharpoonup> u64"

definition smp_slots :: "smp \<Rightarrow> grad_slot_key \<rightharpoonup> grad_slot" where
  "smp_slots S = (\<lambda>k. map_option (sm_elem S) (sm_index S k))"

section \<open>Where a CPU is\<close>

datatype cpu =
    Idle
  | At_parse bytes
  | At_lookup bytes xdp_parsed
  | At_admission bytes xdp_parsed                 \<comment> \<open>no slot found\<close>
  | At_create bytes xdp_parsed u16                \<comment> \<open>admitted, with \<open>num_workers_hdr\<close>\<close>
  | At_relookup bytes xdp_parsed int              \<comment> \<open>with \<open>create_rc\<close>\<close>
  | At_count bytes xdp_parsed nat                 \<comment> \<open>\<open>job_quota_increment\<close>, with the slot's address\<close>
  | At_count_insert bytes xdp_parsed nat
  | At_count_retry bytes xdp_parsed nat
  | At_lock bytes xdp_parsed nat
  | At_config bytes grad_slot_key u16             \<comment> \<open>unlocked and complete, with \<open>final_chunk_len\<close>\<close>
  | At_delete bytes grad_slot_key u16 "netsum_config option"
  | At_uncount bytes grad_slot_key u16 "netsum_config option" \<comment> \<open>\<open>job_quota_decrement\<close>\<close>
  | At_uncount_add bytes grad_slot_key u16 "netsum_config option"
  | At_forward bytes u16 "netsum_config option"
  | At_stat bytes u32                             \<comment> \<open>\<open>bump_stat\<close>, then \<open>XDP_DROP\<close>\<close>
  | At_stat_insert bytes u32
  | Done xdp_action bytes

text \<open>
  The next action of a CPU; \<open>new\<close> is the element the kernel uses should it create a slot. \<open>None\<close> is an
  access outside the packet or a slot's arrays, or that there is nothing to do.
\<close>

fun cpu_step :: "kernel \<Rightarrow> nat \<Rightarrow> smp \<Rightarrow> cpu \<Rightarrow> (smp \<times> cpu) option" where
  "cpu_step K new S Idle = None"
| "cpu_step K new S (At_parse p) = do {
     parsed \<leftarrow> xdp_parse p;
     case parsed of Inl action \<Rightarrow> Some (S, Done action p) | Inr x \<Rightarrow> Some (S, At_lookup p x) }"
| "cpu_step K new S (At_lookup p x) =
     Some (S, case sm_index S (xp_key x) of Some a \<Rightarrow> At_lock p x a | None \<Rightarrow> At_admission p x)"
| "cpu_step K new S (At_admission p x) = do {
     num_workers_hdr \<leftarrow> map_option netsum_bpf_ntohs (ld16 p (42 + at_num_workers));
     if num_workers_hdr = 0 \<or> unat num_workers_hdr > MAX_TRACKED_WORKERS_BITMAP_BYTES * 8 then Some (S, Done XDP_DROP p)
     else do {
       let max_slots = (case sm_config_map S 0 of Some cfg \<Rightarrow> max_slots_per_job cfg | None \<Rightarrow> 0);
       let over_quota = (max_slots > 0 \<and>
         (case sm_job_quota_map S (k_job_id (xp_key x)) of
            Some jq \<Rightarrow> concurrent_slots jq \<ge> max_slots
          | None \<Rightarrow> False));
       Some (S, if over_quota then At_stat p STAT_DROPPED_FAIRNESS_QUOTA else At_create p x num_workers_hdr) } }"
| "cpu_step K new S (At_create p x num_workers_hdr) =
     (let fresh = zero_grad_slot\<lparr>gs_chunk_len := xp_chunk_len x, gs_num_workers_expected := num_workers_hdr\<rparr>;
          create_rc = fst (bpf_map_update_elem (slot_room K) (smp_slots S) (xp_key x) fresh BPF_NOEXIST)
      in if create_rc = 0
         then Some (S\<lparr>sm_index := (sm_index S)(xp_key x \<mapsto> new), sm_elem := (sm_elem S)(new := fresh)\<rparr>, At_relookup p x create_rc)
         else Some (S, At_relookup p x create_rc))"
| "cpu_step K new S (At_relookup p x create_rc) =
     Some (S, case sm_index S (xp_key x) of
         None \<Rightarrow> Done XDP_DROP p
       | Some a \<Rightarrow> if create_rc = 0 then At_count p x a else At_lock p x a)"
| "cpu_step K new S (At_count p x a) =
     (case sm_job_quota_map S (k_job_id (xp_key x)) of
        Some jq \<Rightarrow> Some (S\<lparr>sm_job_quota_map := add_slots (k_job_id (xp_key x)) 1 (sm_job_quota_map S)\<rparr>, At_lock p x a)
      | None \<Rightarrow> Some (S, At_count_insert p x a))"
| "cpu_step K new S (At_count_insert p x a) =
     (let (rc, m) = bpf_map_update_elem (quota_room K) (sm_job_quota_map S) (k_job_id (xp_key x)) \<lparr>concurrent_slots = 1\<rparr> BPF_NOEXIST
      in Some (S\<lparr>sm_job_quota_map := m\<rparr>, if rc \<noteq> 0 then At_count_retry p x a else At_lock p x a))"
| "cpu_step K new S (At_count_retry p x a) =
     Some (S\<lparr>sm_job_quota_map := add_slots (k_job_id (xp_key x)) 1 (sm_job_quota_map S)\<rparr>, At_lock p x a)"
| "cpu_step K new S (At_lock p x a) = do {
     unlocked \<leftarrow> xdp_locked p x (sm_elem S a);
     case unlocked of
       None \<Rightarrow> Some (S, Done XDP_DROP p)
     | Some (slot, p, is_complete, final_chunk_len) \<Rightarrow>
         Some (S\<lparr>sm_elem := (sm_elem S)(a := slot)\<rparr>,
               if is_complete then At_config p (xp_key x) final_chunk_len else Done XDP_DROP p) }"
| "cpu_step K new S (At_config p key n) = Some (S, At_delete p key n (sm_config_map S 0))"
| "cpu_step K new S (At_delete p key n cfg) =
     Some (S\<lparr>sm_index := (sm_index S)(key := None)\<rparr>, At_uncount p key n cfg)"
| "cpu_step K new S (At_uncount p key n cfg) =
     Some (S, case sm_job_quota_map S (k_job_id key) of
         Some jq \<Rightarrow> if concurrent_slots jq > 0 then At_uncount_add p key n cfg else At_forward p n cfg
       | None \<Rightarrow> At_forward p n cfg)"
| "cpu_step K new S (At_uncount_add p key n cfg) =
     Some (S\<lparr>sm_job_quota_map := add_slots (k_job_id key) (-1) (sm_job_quota_map S)\<rparr>, At_forward p n cfg)"
| "cpu_step K new S (At_forward p n cfg) =
     (case cfg of
        None \<Rightarrow> Some (S, At_stat p STAT_DROPPED_NO_CONFIG)
      | Some cfg \<Rightarrow> map_option (\<lambda>p. (S, Done XDP_TX p)) (xdp_rewrite cfg n p))"
| "cpu_step K new S (At_stat p stat_key) =
     (case sm_drop_stats S stat_key of
        Some cnt \<Rightarrow> Some (S\<lparr>sm_drop_stats := (sm_drop_stats S)(stat_key \<mapsto> cnt + 1)\<rparr>, Done XDP_DROP p)
      | None \<Rightarrow> Some (S, At_stat_insert p stat_key))"
| "cpu_step K new S (At_stat_insert p stat_key) =
     Some (S\<lparr>sm_drop_stats := snd (bpf_map_update_elem (stats_room K) (sm_drop_stats S) stat_key 1 BPF_ANY)\<rparr>, Done XDP_DROP p)"
| "cpu_step K new S (Done action p) = None"

text \<open>The elements a CPU holds a pointer to.\<close>

fun cpu_holds :: "cpu \<Rightarrow> nat set" where
  "cpu_holds (At_count p x a) = {a}"
| "cpu_holds (At_count_insert p x a) = {a}"
| "cpu_holds (At_count_retry p x a) = {a}"
| "cpu_holds (At_lock p x a) = {a}"
| "cpu_holds _ = {}"

fun cpu_ready :: "cpu \<Rightarrow> bool" where
  "cpu_ready Idle \<longleftrightarrow> True"
| "cpu_ready (Done action p) \<longleftrightarrow> True"
| "cpu_ready _ \<longleftrightarrow> False"

section \<open>Interleavings\<close>

text \<open>
  The machine, with a history no action depends on: the packets received, the packets added to each element since it
  was last used for a new slot, the packet that slot was created for, and for a CPU past a completion
  the packets of the slot it completed.
\<close>

record machine =
  m_smp :: smp
  m_cpus :: "nat \<Rightarrow> cpu"
  m_received :: "bytes set"
  m_log :: "nat \<Rightarrow> bytes list"
  m_creator :: "nat \<Rightarrow> bytes"
  m_round :: "nat \<Rightarrow> bytes list"

definition m_history :: "nat \<Rightarrow> nat \<Rightarrow> smp \<Rightarrow> cpu \<Rightarrow> machine \<Rightarrow> machine" where
  "m_history c new S' x' m =
     (case m_cpus m c of
        At_create p x n \<Rightarrow>
          (if sm_index (m_smp m) (xp_key x) = None \<and> sm_index S' (xp_key x) \<noteq> None
           then m\<lparr>m_log := (m_log m)(new := []), m_creator := (m_creator m)(new := p)\<rparr> else m)
      | At_lock p x a \<Rightarrow>
          (if gs_contributions_received (sm_elem S' a) \<noteq> gs_contributions_received (sm_elem (m_smp m) a)
           then let L = m_log m a @ [p] in
             m\<lparr>m_log := (m_log m)(a := L), m_round := (m_round m)(c := (if cpu_ready x' then m_round m c else L))\<rparr>
           else m)
      | _ \<Rightarrow> m)"

text \<open>
  An element is available for a new slot when no key is linked to it and, unless the kernel \<open>recycles\<close> elements at once
  (a preallocated hash map does), no CPU holds a pointer to it.
\<close>

definition available :: "bool \<Rightarrow> machine \<Rightarrow> nat \<Rightarrow> bool" where
  "available recycles m new \<longleftrightarrow> new \<notin> ran (sm_index (m_smp m)) \<and> (recycles \<or> (\<forall>c. new \<notin> cpu_holds (m_cpus m c)))"

inductive smp_step :: "kernel \<Rightarrow> bool \<Rightarrow> machine \<Rightarrow> machine \<Rightarrow> bool" for K recycles where
  receive: "cpu_ready (m_cpus m c) \<Longrightarrow>
    smp_step K recycles m (m\<lparr>m_cpus := (m_cpus m)(c := At_parse p), m_received := insert p (m_received m)\<rparr>)"
| act: "cpu_step K new (m_smp m) (m_cpus m c) = Some (S', x') \<Longrightarrow> available recycles m new \<Longrightarrow>
    smp_step K recycles m ((m_history c new S' x' m)\<lparr>m_smp := S', m_cpus := (m_cpus m)(c := x')\<rparr>)"

abbreviation smp_steps :: "kernel \<Rightarrow> bool \<Rightarrow> machine \<Rightarrow> machine \<Rightarrow> bool" where
  "smp_steps K recycles \<equiv> (smp_step K recycles)\<^sup>*\<^sup>*"

definition smp_init :: "(u32 \<rightharpoonup> netsum_config) \<Rightarrow> machine" where
  "smp_init config = \<lparr>m_smp = \<lparr>sm_index = Map.empty, sm_elem = (\<lambda>_. zero_grad_slot), sm_config_map = config,
     sm_job_quota_map = Map.empty, sm_drop_stats = Map.empty\<rparr>, m_cpus = (\<lambda>_. Idle), m_received = {}, m_log = (\<lambda>_. []),
     m_creator = (\<lambda>_. replicate 62 0), m_round = (\<lambda>_. [])\<rparr>"

inductive_cases smp_stepE: "smp_step K recycles m m'"

end
