(* ===== verification/Xdp_Smp_Rounds.thy ===== *)
theory Xdp_Smp_Rounds
  imports Xdp_Smp Xdp_Refine
begin

text \<open>
  What holds of the kernel aggregator under every interleaving: the slots add up exactly what the packets of different
  workers contributed, nothing is lost or counted twice, and a transmitted packet carries the sum of
  one complete round. That the packets of a round are all for one key needs a kernel that does not
  reuse an element to which a CPU still holds a pointer.
\<close>

section \<open>The invariant\<close>

definition same_key :: "bytes \<Rightarrow> bytes \<Rightarrow> bool" where
  "same_key p q \<longleftrightarrow> key_of (xdp_hdr p) = key_of (xdp_hdr q)"

text \<open>An element and the packets added to it.\<close>

definition elem_log :: "bytes set \<Rightarrow> grad_slot \<Rightarrow> bytes list \<Rightarrow> bool" where
  "elem_log V s L \<longleftrightarrow> gs_arrays_ok s \<and> set L \<subseteq> V \<and> gs_sum s = log_sum (map xdp_contribution L) \<and>
     gs_workers s = fst ` set (map xdp_contribution L) \<and> distinct (map fst (map xdp_contribution L)) \<and>
     unat (gs_contributions_received s) = length L \<and>
     (\<forall>p\<in>set L. xdp_match p \<and> xdp_valid p \<and> gh_chunk_len (xdp_hdr p) = gs_chunk_len s)"

definition parsed_packet :: "bytes set \<Rightarrow> bytes \<Rightarrow> xdp_parsed \<Rightarrow> bool" where
  "parsed_packet V p x \<longleftrightarrow> p \<in> V \<and> xdp_match p \<and> xdp_valid p \<and> x = parsed_of p"

text \<open>
  The packets of a slot one of whose CPUs saw it complete: as many as the packet announced that the slot was created
  for, the last of them that CPU's own; without recycling all for the key of that packet.
\<close>

definition completed_round :: "bool \<Rightarrow> bytes set \<Rightarrow> bytes list \<Rightarrow> bool" where
  "completed_round recycles V R \<longleftrightarrow> R \<noteq> [] \<and> set R \<subseteq> V \<and>
     (\<forall>p\<in>set R. xdp_match p \<and> xdp_valid p \<and> gh_chunk_len (xdp_hdr p) = gh_chunk_len (xdp_hdr (last R))) \<and>
     distinct (map (\<lambda>p. gh_worker_id (xdp_hdr p)) R) \<and>
     (\<exists>c\<in>V. length R = unat (gh_num_workers (xdp_hdr c)) \<and> (\<not> recycles \<longrightarrow> (\<forall>p\<in>set R. same_key p c)))"

definition round_sum :: "bytes list \<Rightarrow> i32 list" where
  "round_sum R = column_sum (unat (gh_chunk_len (xdp_hdr (last R)))) (mset (map xdp_values R))"

definition summed :: "bool \<Rightarrow> bytes set \<Rightarrow> bytes list \<Rightarrow> bytes \<Rightarrow> grad_slot_key \<Rightarrow> u16 \<Rightarrow> bool" where
  "summed recycles V R q key n \<longleftrightarrow> completed_round recycles V R \<and> key = key_of (xdp_hdr (last R)) \<and>
     n = gh_chunk_len (xdp_hdr (last R)) \<and> q = patch (last R) 62 (encode_values (round_sum R))"

fun cpu_ok :: "bool \<Rightarrow> (u32 \<rightharpoonup> netsum_config) \<Rightarrow> bytes set \<Rightarrow> (nat \<Rightarrow> bytes) \<Rightarrow> bytes list \<Rightarrow> cpu \<Rightarrow> bool" where
  "cpu_ok e C V cr R Idle \<longleftrightarrow> True"
| "cpu_ok e C V cr R (At_parse p) \<longleftrightarrow> p \<in> V"
| "cpu_ok e C V cr R (At_lookup p x) \<longleftrightarrow> parsed_packet V p x"
| "cpu_ok e C V cr R (At_admission p x) \<longleftrightarrow> parsed_packet V p x"
| "cpu_ok e C V cr R (At_create p x n) \<longleftrightarrow> parsed_packet V p x \<and> n = gh_num_workers (xdp_hdr p)"
| "cpu_ok e C V cr R (At_relookup p x rc) \<longleftrightarrow> parsed_packet V p x"
| "cpu_ok e C V cr R (At_count p x a) \<longleftrightarrow> parsed_packet V p x \<and> cr a \<in> V \<and> (\<not> e \<longrightarrow> same_key p (cr a))"
| "cpu_ok e C V cr R (At_count_insert p x a) \<longleftrightarrow> parsed_packet V p x \<and> cr a \<in> V \<and> (\<not> e \<longrightarrow> same_key p (cr a))"
| "cpu_ok e C V cr R (At_count_retry p x a) \<longleftrightarrow> parsed_packet V p x \<and> cr a \<in> V \<and> (\<not> e \<longrightarrow> same_key p (cr a))"
| "cpu_ok e C V cr R (At_lock p x a) \<longleftrightarrow> parsed_packet V p x \<and> cr a \<in> V \<and> (\<not> e \<longrightarrow> same_key p (cr a))"
| "cpu_ok e C V cr R (At_config q key n) \<longleftrightarrow> summed e V R q key n"
| "cpu_ok e C V cr R (At_delete q key n cfg) \<longleftrightarrow> summed e V R q key n \<and> cfg = C 0"
| "cpu_ok e C V cr R (At_uncount q key n cfg) \<longleftrightarrow> summed e V R q key n \<and> cfg = C 0"
| "cpu_ok e C V cr R (At_uncount_add q key n cfg) \<longleftrightarrow> summed e V R q key n \<and> cfg = C 0"
| "cpu_ok e C V cr R (At_forward q n cfg) \<longleftrightarrow> (\<exists>key. summed e V R q key n) \<and> cfg = C 0"
| "cpu_ok e C V cr R (At_stat q s) \<longleftrightarrow> True"
| "cpu_ok e C V cr R (At_stat_insert q s) \<longleftrightarrow> True"
| "cpu_ok e C V cr R (Done action q) \<longleftrightarrow> (action = XDP_TX \<longrightarrow>
     (\<exists>cfg. C 0 = Some cfg \<and> completed_round e V R \<and> forwarded cfg (last R) (round_sum R) q))"

definition machine_inv :: "bool \<Rightarrow> (u32 \<rightharpoonup> netsum_config) \<Rightarrow> machine \<Rightarrow> bool" where
  "machine_inv e C m \<longleftrightarrow>
     sm_config_map (m_smp m) = C \<and>
     (\<forall>a. elem_log (m_received m) (sm_elem (m_smp m) a) (m_log m a) \<and>
        gs_num_workers_expected (sm_elem (m_smp m) a) = gh_num_workers (xdp_hdr (m_creator m a)) \<and>
        gs_chunk_len (sm_elem (m_smp m) a) = gh_chunk_len (xdp_hdr (m_creator m a)) \<and>
        (\<not> e \<longrightarrow> (\<forall>p\<in>set (m_log m a). same_key p (m_creator m a)))) \<and>
     (\<forall>k a. sm_index (m_smp m) k = Some a \<longrightarrow>
        m_creator m a \<in> m_received m \<and> (\<not> e \<longrightarrow> key_of (xdp_hdr (m_creator m a)) = k)) \<and>
     (\<forall>c. cpu_ok e C (m_received m) (m_creator m) (m_round m c) (m_cpus m c))"

section \<open>Elements\<close>

lemma elem_log_mono: "elem_log V s L \<Longrightarrow> V \<subseteq> V' \<Longrightarrow> elem_log V' s L"
  unfolding elem_log_def by blast

lemma completed_round_mono: "completed_round e V R \<Longrightarrow> V \<subseteq> V' \<Longrightarrow> completed_round e V' R"
  unfolding completed_round_def by blast

lemma cpu_ok_mono: "cpu_ok e C V cr R x \<Longrightarrow> V \<subseteq> V' \<Longrightarrow> cpu_ok e C V' cr R x"
  by (cases x) (auto simp: parsed_packet_def summed_def intro: completed_round_mono)

text \<open>Reusing an element does not disturb the other CPUs.\<close>

lemma cpu_ok_creator:
  assumes "cpu_ok e C V cr R x" "p \<in> V" "e \<or> new \<notin> cpu_holds x"
  shows "cpu_ok e C V (cr(new := p)) R x"
  using assms by (cases x) auto

lemma elem_log_new:
  assumes "gs_contributions_received s = 0" "gs_sum s = replicate 64 0" "gs_seen_worker s = replicate 32 0"
  shows "elem_log V s []"
  using assms bitmap.workers_fresh by (simp add: elem_log_def gs_arrays_ok_def)

lemma elem_logD:
  assumes "elem_log V s L"
  shows "set L \<subseteq> V" "unat (gs_contributions_received s) = length L"
    "p \<in> set L \<Longrightarrow> xdp_match p" "p \<in> set L \<Longrightarrow> xdp_valid p" "p \<in> set L \<Longrightarrow> gh_chunk_len (xdp_hdr p) = gs_chunk_len s"
    "gs_sum s = log_sum (map xdp_contribution L)"
  using assms unfolding elem_log_def by blast+

lemma elem_log_length:
  assumes "elem_log V s L"
  shows "length L \<le> 256"
proof -
  have "length L = card (set (map fst (map xdp_contribution L)))"
    using assms distinct_card [of "map fst (map xdp_contribution L)"] by (simp add: elem_log_def)
  also have "\<dots> \<le> card {..<256 :: nat}"
    by (rule card_mono) (use assms in \<open>auto simp: elem_log_def xdp_contribution_def xdp_valid_def\<close>)
  finally show ?thesis by simp
qed

lemma elem_log_add:
  assumes L: "elem_log V s L" and p: "p \<in> V" "xdp_match p" "xdp_valid p"
    and a: "gs_chunk_len s = gh_chunk_len (xdp_hdr p)" "unat (gh_worker_id (xdp_hdr p)) \<notin> gs_workers s" "added p s s'"
  shows "elem_log V s' (L @ [p])"
proof -
  have "unat (gs_contributions_received s') = length L + 1"
    using a(3) L elem_log_length [OF L] by (auto simp: added_def elem_log_def unat_word_ariths)
  moreover have "fst (xdp_contribution p) = unat (gh_worker_id (xdp_hdr p))" "snd (xdp_contribution p) = xdp_values p"
    by (simp_all add: xdp_contribution_def)
  ultimately show ?thesis using L p a unfolding elem_log_def added_def by auto
qed

text \<open>A slot that is complete holds the sum of a completed round.\<close>

lemma elem_log_complete:
  assumes L: "elem_log V s L" "L \<noteq> []" and n: "gs_contributions_received s = gs_num_workers_expected s"
    and c: "c \<in> V" "gs_num_workers_expected s = gh_num_workers (xdp_hdr c)" "\<not> e \<longrightarrow> (\<forall>p\<in>set L. same_key p c)"
  shows "completed_round e V L" "take (unat (gs_chunk_len s)) (gs_sum s) = round_sum L"
    "gs_chunk_len s = gh_chunk_len (xdp_hdr (last L))"
proof -
  show len: "gs_chunk_len s = gh_chunk_len (xdp_hdr (last L))" using elem_logD(5) [OF L(1), of "last L"] L(2) by simp
  have "map fst (map xdp_contribution L) = map unat (map (\<lambda>p. gh_worker_id (xdp_hdr p)) L)"
    by (simp add: xdp_contribution_def)
  then have "distinct (map (\<lambda>p. gh_worker_id (xdp_hdr p)) L)"
    using L(1) unfolding elem_log_def by (metis distinct_map)
  moreover have "length L = unat (gh_num_workers (xdp_hdr c))" using elem_logD(2) [OF L(1)] n c(2) by simp
  then have "\<exists>c\<in>V. length L = unat (gh_num_workers (xdp_hdr c)) \<and> (\<not> e \<longrightarrow> (\<forall>p\<in>set L. same_key p c))" using c(1,3) by blast
  moreover have "set L \<subseteq> V" "\<forall>p\<in>set L. xdp_match p \<and> xdp_valid p \<and> gh_chunk_len (xdp_hdr p) = gh_chunk_len (xdp_hdr (last L))"
    using elem_logD [OF L(1)] len by metis+
  ultimately show "completed_round e V L"
    using L(2) unfolding completed_round_def by (intro conjI)
  have v: "\<forall>x\<in>set (map xdp_contribution L). length (snd x) = unat (gs_chunk_len s)"
    using elem_logD(5) [OF L(1)] by (auto simp: xdp_contribution_def)
  have "unat (gs_chunk_len s) \<le> 64" using elem_logD(4,5) [OF L(1), of "last L"] L(2) by (simp add: xdp_valid_def)
  from log_sum_column [OF v this]
  have "take (unat (gs_chunk_len s)) (gs_sum s) = column_sum (unat (gs_chunk_len s)) (mset (map snd (map xdp_contribution L)))"
    unfolding elem_logD(6) [OF L(1)] .
  moreover have "map snd (map xdp_contribution L) = map xdp_values L" by (simp add: xdp_contribution_def)
  ultimately show "take (unat (gs_chunk_len s)) (gs_sum s) = round_sum L" unfolding round_sum_def len by (simp only:)
qed

section \<open>Every action keeps the invariant\<close>

lemma machine_invD:
  assumes "machine_inv e C m"
  shows "sm_config_map (m_smp m) = C" "elem_log (m_received m) (sm_elem (m_smp m) a) (m_log m a)"
    "gs_num_workers_expected (sm_elem (m_smp m) a) = gh_num_workers (xdp_hdr (m_creator m a))"
    "\<not> e \<Longrightarrow> p \<in> set (m_log m a) \<Longrightarrow> same_key p (m_creator m a)"
    "sm_index (m_smp m) k = Some a \<Longrightarrow> m_creator m a \<in> m_received m"
    "sm_index (m_smp m) k = Some a \<Longrightarrow> \<not> e \<Longrightarrow> key_of (xdp_hdr (m_creator m a)) = k"
    "cpu_ok e C (m_received m) (m_creator m) (m_round m c) (m_cpus m c)"
    "gs_chunk_len (sm_elem (m_smp m) a) = gh_chunk_len (xdp_hdr (m_creator m a))"
  using assms unfolding machine_inv_def by blast+

lemma machine_invI:
  assumes "sm_config_map (m_smp m) = C" "\<And>a. elem_log (m_received m) (sm_elem (m_smp m) a) (m_log m a)"
    and "\<And>a. gs_num_workers_expected (sm_elem (m_smp m) a) = gh_num_workers (xdp_hdr (m_creator m a))"
    and "\<And>a. gs_chunk_len (sm_elem (m_smp m) a) = gh_chunk_len (xdp_hdr (m_creator m a))"
    and "\<And>a p. \<not> e \<Longrightarrow> p \<in> set (m_log m a) \<Longrightarrow> same_key p (m_creator m a)"
    and "\<And>k a. sm_index (m_smp m) k = Some a \<Longrightarrow> m_creator m a \<in> m_received m"
    and "\<And>k a. sm_index (m_smp m) k = Some a \<Longrightarrow> \<not> e \<Longrightarrow> key_of (xdp_hdr (m_creator m a)) = k"
    and "\<And>c. cpu_ok e C (m_received m) (m_creator m) (m_round m c) (m_cpus m c)"
  shows "machine_inv e C m"
  using assms unfolding machine_inv_def by blast

text \<open>An action that changes neither slots nor history.\<close>

lemma machine_inv_local:
  assumes I: "machine_inv e C m"
    and S: "sm_config_map S' = sm_config_map (m_smp m)" "sm_elem S' = sm_elem (m_smp m)"
      "\<And>k a. sm_index S' k = Some a \<Longrightarrow> sm_index (m_smp m) k = Some a"
    and x: "cpu_ok e C (m_received m) (m_creator m) (m_round m c) x'"
  shows "machine_inv e C (m\<lparr>m_smp := S', m_cpus := (m_cpus m)(c := x')\<rparr>)"
proof (rule machine_invI)
  fix k a assume "sm_index (m_smp (m\<lparr>m_smp := S', m_cpus := (m_cpus m)(c := x')\<rparr>)) k = Some a"
  then have "sm_index (m_smp m) k = Some a" using S(3) by simp
  from machine_invD(5,6) [OF I this]
  show "m_creator (m\<lparr>m_smp := S', m_cpus := (m_cpus m)(c := x')\<rparr>) a \<in> m_received (m\<lparr>m_smp := S', m_cpus := (m_cpus m)(c := x')\<rparr>)"
    "\<not> e \<Longrightarrow> key_of (xdp_hdr (m_creator (m\<lparr>m_smp := S', m_cpus := (m_cpus m)(c := x')\<rparr>) a)) = k"
    by simp_all
qed (use machine_invD(1-4,7,8) [OF I] S x in simp_all)

lemma machine_inv_create:
  assumes I: "machine_inv e C m" and av: "available e m new" and x: "m_cpus m c = At_create p x n"
    and S: "S' = (m_smp m)\<lparr>sm_index := (sm_index (m_smp m))(xp_key x \<mapsto> new),
      sm_elem := (sm_elem (m_smp m))(new := zero_grad_slot\<lparr>gs_chunk_len := xp_chunk_len x, gs_num_workers_expected := n\<rparr>)\<rparr>"
  shows "machine_inv e C (m\<lparr>m_log := (m_log m)(new := []), m_creator := (m_creator m)(new := p), m_smp := S',
     m_cpus := (m_cpus m)(c := At_relookup p x rc)\<rparr>)"
proof -
  have ok: "parsed_packet (m_received m) p x" "n = gh_num_workers (xdp_hdr p)"
    using machine_invD(7) [OF I, of c] x by simp_all
  have cpu: "cpu_ok e C (m_received m) ((m_creator m)(new := p)) (m_round m c') (((m_cpus m)(c := At_relookup p x rc)) c')" for c'
  proof (cases "c' = c")
    case False
    have "e \<or> new \<notin> cpu_holds (m_cpus m c')" using av by (auto simp: available_def)
    with cpu_ok_creator [OF machine_invD(7) [OF I] _ this, of p] ok(1) False show ?thesis by (simp add: parsed_packet_def)
  qed (use ok in simp)
  have "elem_log V (zero_grad_slot\<lparr>gs_chunk_len := xp_chunk_len x, gs_num_workers_expected := n\<rparr>) []" for V
    by (rule elem_log_new) (simp_all add: zero_grad_slot_def)
  moreover have "new \<notin> ran (sm_index (m_smp m))" using av by (simp add: available_def)
  then have "sm_index (m_smp m) k \<noteq> Some new" for k by (auto simp: ran_def)
  moreover have "xp_key x = key_of (xdp_hdr p)" "xp_chunk_len x = gh_chunk_len (xdp_hdr p)" "p \<in> m_received m"
    using ok(1) by (simp_all add: parsed_packet_def parsed_of_def)
  ultimately show ?thesis
    using machine_invD(1-6,8) [OF I] cpu ok(2) unfolding S by (intro machine_invI) (auto split: if_splits)
qed

lemma machine_inv_lock:
  assumes I: "machine_inv e C m" and x: "m_cpus m c = At_lock p x a"
    and s: "sm_elem (m_smp m) a = s" "gs_chunk_len s = gh_chunk_len (xdp_hdr p)" "unat (gh_worker_id (xdp_hdr p)) \<notin> gs_workers s" "added p s s'"
    and y: "cpu_ok e C (m_received m) (m_creator m) R x'"
  shows "machine_inv e C (m\<lparr>m_log := (m_log m)(a := m_log m a @ [p]), m_round := (m_round m)(c := R),
     m_smp := (m_smp m)\<lparr>sm_elem := (sm_elem (m_smp m))(a := s')\<rparr>, m_cpus := (m_cpus m)(c := x')\<rparr>)"
proof -
  have ok: "parsed_packet (m_received m) p x" "m_creator m a \<in> m_received m" "\<not> e \<longrightarrow> same_key p (m_creator m a)"
    using machine_invD(7) [OF I, of c] x by simp_all
  have "elem_log (m_received m) s' (m_log m a @ [p])"
    using elem_log_add [OF machine_invD(2) [OF I, of a, unfolded s(1)] _ _ _ s(2-4)] ok(1) by (simp add: parsed_packet_def)
  moreover have "gs_num_workers_expected s' = gh_num_workers (xdp_hdr (m_creator m a))"
    using s(1,4) machine_invD(3) [OF I, of a] by (simp add: added_def)
  moreover have "gs_chunk_len s' = gh_chunk_len (xdp_hdr (m_creator m a))"
    using s(1,4) machine_invD(8) [OF I, of a] by (simp add: added_def)
  ultimately show ?thesis
    using machine_invD [OF I] ok y unfolding machine_inv_def by auto
qed

text \<open>The actions that neither create a slot nor take a lock.\<close>

definition mac_ok :: "(u32 \<rightharpoonup> netsum_config) \<Rightarrow> bool" where
  "mac_ok C \<longleftrightarrow> (\<forall>cfg. C 0 = Some cfg \<longrightarrow> length (ps_mac cfg) = 6)"

lemma summed_forward:
  assumes "summed e V R q key n" "length (ps_mac cfg) = 6"
  shows "\<exists>q'. xdp_rewrite cfg n q = Some q' \<and> forwarded cfg (last R) (round_sum R) q'"
proof -
  have "last R \<in> set R" using assms(1) by (simp add: summed_def completed_round_def)
  then have "xdp_valid (last R)" using assms(1) unfolding summed_def completed_round_def by blast
  moreover have "length (round_sum R) = unat (gh_chunk_len (xdp_hdr (last R)))" by (simp add: round_sum_def)
  ultimately show ?thesis
    using assms xdp_rewrite_forwarded [of "round_sum R" "last R" n cfg] by (simp add: summed_def xdp_valid_def)
qed

lemma key_parsed [simp]: "xp_key (parsed_of p) = key_of (xdp_hdr p)"
  by (simp add: parsed_of_def)

lemma cpu_step_local:
  assumes I: "machine_inv e C m" and C: "mac_ok C" and st: "cpu_step K new (m_smp m) x = Some (S', x')"
    and x: "cpu_ok e C (m_received m) (m_creator m) R x"
    and no: "\<And>p y n. x \<noteq> At_create p y n" "\<And>p y a. x \<noteq> At_lock p y a"
  shows "sm_config_map S' = C \<and> sm_elem S' = sm_elem (m_smp m) \<and>
    (\<forall>k a. sm_index S' k = Some a \<longrightarrow> sm_index (m_smp m) k = Some a) \<and> cpu_ok e C (m_received m) (m_creator m) R x'"
proof (cases x)
  case (At_parse p)
  then show ?thesis using st x machine_invD(1) [OF I] by (auto simp: xdp_parse_eq parsed_packet_def split: if_splits)
next
  case (At_lookup p y)
  then show ?thesis using st x machine_invD(1,5,6) [OF I] by (auto simp: parsed_packet_def same_key_def split: option.splits)
next
  case (At_admission p y)
  then have "62 \<le> length p" using x by (simp add: parsed_packet_def xdp_match_def)
  then show ?thesis using st x At_admission machine_invD(1) [OF I] by (auto simp: wire_load Let_def split: if_splits)
next
  case (At_relookup p y rc)
  then show ?thesis using st x machine_invD(1,5,6) [OF I] by (auto simp: parsed_packet_def same_key_def split: option.splits if_splits)
next
  case (At_count p y a)
  then show ?thesis using st x machine_invD(1) [OF I] by (auto split: option.splits)
next
  case (At_count_insert p y a)
  then show ?thesis using st x machine_invD(1) [OF I] by (auto simp: Let_def split: prod.splits if_splits)
next
  case (At_delete p key n cfg)
  then show ?thesis using st x machine_invD(1) [OF I] by (auto split: if_splits)
next
  case (At_uncount p key n cfg)
  then show ?thesis using st x machine_invD(1) [OF I] by (auto split: option.splits if_splits)
next
  case (At_forward p n cfg)
  show ?thesis
  proof (cases cfg)
    case (Some cf)
    with x At_forward obtain key where s: "summed e (m_received m) R p key n" "C 0 = Some cf" by auto
    then have "length (ps_mac cf) = 6" using C by (simp add: mac_ok_def)
    from summed_forward [OF s(1) this] obtain q' where "xdp_rewrite cf n p = Some q'" "forwarded cf (last R) (round_sum R) q'" by blast
    then show ?thesis using st s At_forward Some machine_invD(1) [OF I] by (auto simp: summed_def)
  qed (use st At_forward machine_invD(1) [OF I] in auto)
next
  case (At_stat p s)
  then show ?thesis using st machine_invD(1) [OF I] by (auto split: option.splits)
qed (use st x no machine_invD(1) [OF I] in auto)

text \<open>No CPU ever faults.\<close>

lemma cpu_step_total:
  assumes I: "machine_inv e C m" and C: "mac_ok C" and x: "cpu_ok e C (m_received m) (m_creator m) R x" "\<not> cpu_ready x"
  shows "\<exists>S' x'. cpu_step K new (m_smp m) x = Some (S', x')"
proof (cases x)
  case (At_admission p y)
  then have "62 \<le> length p" using x(1) by (simp add: parsed_packet_def xdp_match_def)
  then show ?thesis using At_admission by (simp add: wire_load Let_def)
next
  case (At_lock p y a)
  then have p: "xdp_match p" "xdp_valid p" "y = parsed_of p" using x(1) by (simp_all add: parsed_packet_def)
  have "gs_arrays_ok (sm_elem (m_smp m) a)" using machine_invD(2) [OF I, of a] by (simp add: elem_log_def)
  from xdp_locked_cases [OF p(1,2) this] show ?thesis unfolding At_lock p(3) by cases auto
next
  case (At_forward p n cfg)
  show ?thesis
  proof (cases cfg)
    case (Some cf)
    with x At_forward obtain key where s: "summed e (m_received m) R p key n" "C 0 = Some cf" by auto
    then show ?thesis using summed_forward [OF s(1), of cf] C At_forward Some by (auto simp: mac_ok_def)
  qed (use At_forward in simp)
qed (use x(2) in \<open>auto simp: xdp_parse_eq Let_def split: prod.split option.split\<close>)

text \<open>What the section under a slot's lock can do.\<close>

lemma smp_lock_cases:
  assumes I: "machine_inv e C m" and x: "m_cpus m c = At_lock p y a" and st: "cpu_step K new (m_smp m) (m_cpus m c) = Some (S', x')"
  defines "s \<equiv> sm_elem (m_smp m) a"
  obtains (ignored) "gs_chunk_len s \<noteq> gh_chunk_len (xdp_hdr p) \<or> unat (gh_worker_id (xdp_hdr p)) \<in> gs_workers s"
      "S' = m_smp m" "x' = Done XDP_DROP p" "m_history c new S' x' m = m"
    | (absorbed) s' where "gs_chunk_len s = gh_chunk_len (xdp_hdr p)" "unat (gh_worker_id (xdp_hdr p)) \<notin> gs_workers s"
      "added p s s'" "gs_contributions_received s' \<noteq> gs_num_workers_expected s'"
      "S' = (m_smp m)\<lparr>sm_elem := (sm_elem (m_smp m))(a := s')\<rparr>" "x' = Done XDP_DROP p"
      "m_history c new S' x' m = m\<lparr>m_log := (m_log m)(a := m_log m a @ [p]), m_round := (m_round m)(c := m_round m c)\<rparr>"
    | (complete) s' where "gs_chunk_len s = gh_chunk_len (xdp_hdr p)" "unat (gh_worker_id (xdp_hdr p)) \<notin> gs_workers s"
      "added p s s'" "gs_contributions_received s' = gs_num_workers_expected s'"
      "S' = (m_smp m)\<lparr>sm_elem := (sm_elem (m_smp m))(a := s')\<rparr>"
      "x' = At_config (patch p 62 (encode_values (take (unat (gs_chunk_len s)) (gs_sum s')))) (key_of (xdp_hdr p)) (gs_chunk_len s)"
      "m_history c new S' x' m = m\<lparr>m_log := (m_log m)(a := m_log m a @ [p]), m_round := (m_round m)(c := m_log m a @ [p])\<rparr>"
proof -
  have p: "xdp_match p" "xdp_valid p" "y = parsed_of p"
    using machine_invD(7) [OF I, of c] x by (simp_all add: parsed_packet_def)
  have g: "gs_arrays_ok s" using machine_invD(2) [OF I, of a] by (simp add: elem_log_def s_def)
  have upd: "(sm_elem (m_smp m))(a := s) = sm_elem (m_smp m)" "(m_round m)(c := m_round m c) = m_round m"
    unfolding s_def by (rule fun_upd_triv)+
  have n: "gs_contributions_received s' \<noteq> gs_contributions_received s" if "added p s s'" for s' using that by (simp add: added_def)
  show thesis
  proof (cases rule: xdp_locked_cases [OF p(1,2) g, case_names mismatch dup absorbed complete])
    case mismatch
    then show ?thesis using st x p(3) by (intro ignored) (auto simp: s_def m_history_def)
  next
    case dup
    then show ?thesis using st x p(3) upd(1) by (intro ignored) (auto simp: s_def m_history_def)
  next
    case (absorbed s')
    have S: "S' = (m_smp m)\<lparr>sm_elem := (sm_elem (m_smp m))(a := s')\<rparr>" "x' = Done XDP_DROP p" using absorbed st x p(3) by (auto simp: s_def)
    have "m_history c new S' x' m = m\<lparr>m_log := (m_log m)(a := m_log m a @ [p]), m_round := (m_round m)(c := m_round m c)\<rparr>"
      using x n [OF absorbed(3)] unfolding S s_def by (simp add: m_history_def Let_def)
    with absorbed(1-4) S show ?thesis by (rule that(2))
  next
    case (complete s')
    let ?x = "At_config (patch p 62 (encode_values (take (unat (gs_chunk_len s)) (gs_sum s')))) (key_of (xdp_hdr p)) (gs_chunk_len s)"
    have S: "S' = (m_smp m)\<lparr>sm_elem := (sm_elem (m_smp m))(a := s')\<rparr>" "x' = ?x" using complete st x p(3) by (auto simp: s_def)
    have "m_history c new S' x' m = m\<lparr>m_log := (m_log m)(a := m_log m a @ [p]), m_round := (m_round m)(c := m_log m a @ [p])\<rparr>"
      using x n [OF complete(3)] unfolding S s_def by (simp add: m_history_def Let_def)
    with complete(1-4) S show ?thesis by (rule that(3))
  qed
qed

lemma smp_step_inv:
  assumes "smp_step K e m m'" and I: "machine_inv e C m" and C: "mac_ok C"
  shows "machine_inv e C m'"
  using assms(1)
proof (cases rule: smp_stepE [consumes 1, case_names receive act])
  case (receive c p)
  have "cpu_ok e C (insert p (m_received m)) (m_creator m) (m_round m c') (m_cpus m c')" for c'
    by (rule cpu_ok_mono [OF machine_invD(7) [OF I]]) blast
  moreover have "elem_log (insert p (m_received m)) (sm_elem (m_smp m) a) (m_log m a)" for a
    by (rule elem_log_mono [OF machine_invD(2) [OF I]]) blast
  ultimately show ?thesis
    unfolding receive(1) using machine_invD(1,3-6,8) [OF I] by (intro machine_invI) auto
next
  case (act new c S' x')
  note x = machine_invD(7) [OF I, of c]
  show ?thesis
  proof (cases "(\<exists>p y n. m_cpus m c = At_create p y n) \<or> (\<exists>p y a. m_cpus m c = At_lock p y a)")
    case False
    then have "m_history c new S' x' m = m" by (auto simp: m_history_def split: cpu.split)
    moreover have "sm_config_map S' = C \<and> sm_elem S' = sm_elem (m_smp m) \<and>
        (\<forall>k a. sm_index S' k = Some a \<longrightarrow> sm_index (m_smp m) k = Some a) \<and> cpu_ok e C (m_received m) (m_creator m) (m_round m c) x'"
      using False by (intro cpu_step_local [OF I C act(2) x]) auto
    ultimately show ?thesis
      unfolding act(1) using machine_invD(1) [OF I] machine_inv_local [OF I, of S' c x'] by simp
  next
    case True
    then show ?thesis
    proof (elim disjE exE)
      fix p y n assume a: "m_cpus m c = At_create p y n"
      let ?fresh = "zero_grad_slot\<lparr>gs_chunk_len := xp_chunk_len y, gs_num_workers_expected := n\<rparr>"
      show ?thesis
      proof (cases "sm_index (m_smp m) (xp_key y) = None \<and> slot_room K (smp_slots (m_smp m)) (xp_key y)")
        case True
        then have "smp_slots (m_smp m) (xp_key y) = None" by (simp add: smp_slots_def)
        with act(2) a True have S: "S' = (m_smp m)\<lparr>sm_index := (sm_index (m_smp m))(xp_key y \<mapsto> new), sm_elem := (sm_elem (m_smp m))(new := ?fresh)\<rparr>"
          "x' = At_relookup p y 0"
          by (simp_all add: Let_def)
        from machine_inv_create [OF I act(3) a S(1), of 0] show ?thesis
          unfolding act(1) using True a S by (simp add: m_history_def)
      next
        case False
        then have "S' = m_smp m \<and> (\<exists>rc. x' = At_relookup p y rc)"
          using act(2) a by (cases "sm_index (m_smp m) (xp_key y)") (auto simp: Let_def smp_slots_def)
        then obtain rc where S: "S' = m_smp m" "x' = At_relookup p y rc" by blast
        then have "m_history c new S' x' m = m" using a by (auto simp: m_history_def)
        then show ?thesis
          unfolding act(1) using machine_invD(1) [OF I] machine_inv_local [OF I, of S' c x'] S x a by simp
      qed
    next
      fix p y a assume a: "m_cpus m c = At_lock p y a"
      have p: "xdp_match p" "xdp_valid p" "m_creator m a \<in> m_received m" "\<not> e \<longrightarrow> same_key p (m_creator m a)" "p \<in> m_received m"
        using x a by (simp_all add: parsed_packet_def)
      show ?thesis
      proof (cases rule: smp_lock_cases [OF I a act(2), case_names ignored absorbed complete])
        case ignored
        then show ?thesis
          unfolding act(1) using machine_invD(1) [OF I] machine_inv_local [OF I, of S' c x'] by simp
      next
        case (absorbed s')
        then show ?thesis
          unfolding act(1) using machine_inv_lock [OF I a refl absorbed(1-3), of "m_round m c" x'] by simp
      next
        case (complete s')
        let ?s = "sm_elem (m_smp m) a" and ?L = "m_log m a @ [p]"
        have n: "gs_chunk_len s' = gs_chunk_len ?s" "gs_num_workers_expected s' = gh_num_workers (xdp_hdr (m_creator m a))"
          using complete(3) machine_invD(3) [OF I, of a] by (simp_all add: added_def)
        have L: "elem_log (m_received m) s' ?L"
          by (rule elem_log_add [OF machine_invD(2) [OF I] p(5,1,2) complete(1-3)])
        have k: "\<not> e \<longrightarrow> (\<forall>q\<in>set ?L. same_key q (m_creator m a))" using machine_invD(4) [OF I] p(4) by auto
        note R = elem_log_complete [OF L _ complete(4) p(3) n(2) k]
        have "cpu_ok e C (m_received m) (m_creator m) ?L x'"
          unfolding complete(6) using R n(1) by (simp add: summed_def del: wire_hdr_sel)
        from machine_inv_lock [OF I a refl complete(1-3) this]
        show ?thesis unfolding act(1) complete(7) by (simp add: complete(5))
      qed
    qed
  qed
qed

lemma smp_init_inv: "machine_inv e C (smp_init C)"
proof (rule machine_invI)
  show "elem_log (m_received (smp_init C)) (sm_elem (m_smp (smp_init C)) a) (m_log (smp_init C) a)" for a
    unfolding smp_init_def machine.simps smp.simps by (rule elem_log_new) (simp_all add: zero_grad_slot_def)
qed (simp_all add: smp_init_def zero_grad_slot_def wire16_def be16_def)

lemma smp_steps_inv: "smp_steps K e m m' \<Longrightarrow> machine_inv e C m \<Longrightarrow> mac_ok C \<Longrightarrow> machine_inv e C m'"
  by (induction rule: rtranclp_induct) (auto intro: smp_step_inv)

end
