(* ===== verification/Xdp_Smp_Drain.thy ===== *)
theory Xdp_Smp_Drain
  imports Xdp_Smp_Rounds
begin

text \<open>
  Termination of the kernel aggregator on several CPUs: whatever the others do, a CPU is through with its packet after
  a bounded number of its own actions, and no CPU can keep another from acting.
\<close>

fun cpu_rank :: "cpu \<Rightarrow> nat" where
  "cpu_rank Idle = 0"
| "cpu_rank (At_parse p) = 16"
| "cpu_rank (At_lookup p x) = 15"
| "cpu_rank (At_admission p x) = 14"
| "cpu_rank (At_create p x n) = 13"
| "cpu_rank (At_relookup p x rc) = 12"
| "cpu_rank (At_count p x a) = 11"
| "cpu_rank (At_count_insert p x a) = 10"
| "cpu_rank (At_count_retry p x a) = 9"
| "cpu_rank (At_lock p x a) = 8"
| "cpu_rank (At_config p key n) = 7"
| "cpu_rank (At_delete p key n cfg) = 6"
| "cpu_rank (At_uncount p key n cfg) = 5"
| "cpu_rank (At_uncount_add p key n cfg) = 4"
| "cpu_rank (At_forward p n cfg) = 3"
| "cpu_rank (At_stat p s) = 2"
| "cpu_rank (At_stat_insert p s) = 1"
| "cpu_rank (Done action p) = 0"

lemma cpu_rank_ready: "cpu_rank x = 0 \<longleftrightarrow> cpu_ready x"
  by (cases x) simp_all

lemma cpu_rank_bound: "cpu_rank x \<le> 16"
  by (cases x) simp_all

lemma cpu_step_rank: "cpu_step K new S x = Some (S', x') \<Longrightarrow> cpu_rank x' < cpu_rank x"
  by (cases x)
    (auto simp: Let_def split: Option.bind_split_asm if_split_asm option.split_asm sum.split_asm prod.split_asm)

lemma cpu_step_index: "cpu_step K new S x = Some (S', x') \<Longrightarrow> dom (sm_index S') \<subseteq> insert (case x of At_create p y n \<Rightarrow> xp_key y | _ \<Rightarrow> undefined) (dom (sm_index S))"
  by (cases x)
    (auto simp: Let_def split: Option.bind_split_asm if_split_asm option.split_asm sum.split_asm prod.split_asm)

section \<open>Actions without arrivals\<close>

definition busy :: "machine \<Rightarrow> nat set" where
  "busy m = {c. \<not> cpu_ready (m_cpus m c)}"

definition smp_act :: "kernel \<Rightarrow> bool \<Rightarrow> machine \<Rightarrow> machine \<Rightarrow> bool" where
  "smp_act K recycles m m' \<longleftrightarrow> smp_step K recycles m m' \<and> (\<forall>c. cpu_ready (m_cpus m c) \<longrightarrow> m_cpus m' c = m_cpus m c)"

definition work :: "machine \<Rightarrow> nat" where
  "work m = (\<Sum>c\<in>busy m. cpu_rank (m_cpus m c))"

definition finitely_busy :: "machine \<Rightarrow> bool" where
  "finitely_busy m \<longleftrightarrow> finite (busy m) \<and> finite (dom (sm_index (m_smp m)))"

lemma smp_init_finitely_busy: "finitely_busy (smp_init C)"
  by (simp add: finitely_busy_def busy_def smp_init_def)

lemma cpu_step_busy: "cpu_step K new S x = Some s \<Longrightarrow> \<not> cpu_ready x"
  by (cases x) simp_all

lemma smp_step_finitely_busy:
  assumes "smp_step K e m m'" "finitely_busy m"
  shows "finitely_busy m'"
  using assms(1)
proof (cases rule: smp_stepE [consumes 1, case_names receive act])
  case (receive c p)
  have "busy m' \<subseteq> insert c (busy m)" unfolding receive(1) by (auto simp: busy_def)
  with assms(2) show ?thesis unfolding receive(1) by (auto simp: finitely_busy_def intro: finite_subset)
next
  case (act new c S' x')
  have "busy m' \<subseteq> insert c (busy m)" unfolding act(1) by (auto simp: busy_def split: if_splits)
  then show ?thesis using assms(2) cpu_step_index [OF act(2)] unfolding finitely_busy_def act(1)
    by (auto intro: finite_subset)
qed

lemma smp_steps_finitely_busy: "smp_steps K e m m' \<Longrightarrow> finitely_busy m \<Longrightarrow> finitely_busy m'"
  by (induction rule: rtranclp_induct) (auto intro: smp_step_finitely_busy)

lemma smp_act_work:
  assumes "smp_act K e m m'" "finitely_busy m"
  shows "work m' < work m"
proof -
  have st: "smp_step K e m m'" and no: "\<And>c. cpu_ready (m_cpus m c) \<Longrightarrow> m_cpus m' c = m_cpus m c"
    using assms(1) by (auto simp: smp_act_def)
  from st show ?thesis
  proof (cases rule: smp_stepE [consumes 1, case_names receive act])
    case (receive c p)
    have "m_cpus m' c = At_parse p" unfolding receive(1) by simp
    with no [of c] receive(2) have "cpu_ready (At_parse p)" by simp
    then show ?thesis by simp
  next
    case (act new c S' x')
    have cpus: "m_cpus m' = (m_cpus m)(c := x')" unfolding act(1) by simp
    have c: "c \<in> busy m" using cpu_step_busy [OF act(2)] by (simp add: busy_def)
    have fin: "finite (busy m)" using assms(2) by (simp add: finitely_busy_def)
    have "work m' = (\<Sum>c\<in>busy m. cpu_rank (m_cpus m' c))"
      unfolding work_def by (rule sum.mono_neutral_left [OF fin]) (use cpu_step_busy [OF act(2)] in \<open>auto simp: busy_def cpus cpu_rank_ready\<close>)
    also have "\<dots> < work m"
      unfolding work_def using cpu_step_rank [OF act(2)] by (intro sum_strict_mono_ex1 [OF fin]) (auto simp: cpus c)
    finally show ?thesis .
  qed
qed

lemma smp_acts_bounded:
  assumes "(smp_act K e ^^ n) m m'" "finitely_busy m"
  shows "n + work m' \<le> work m \<and> smp_steps K e m m' \<and> finitely_busy m'"
  using assms(1)
proof (induction n arbitrary: m')
  case (Suc n)
  then obtain m1 where m1: "(smp_act K e ^^ n) m m1" "smp_act K e m1 m'" by auto
  have "smp_step K e m1 m'" using m1(2) by (simp add: smp_act_def)
  with Suc.IH [OF m1(1)] have "smp_steps K e m m'" by (meson rtranclp.rtrancl_into_rtrancl)
  with Suc.IH [OF m1(1)] smp_act_work [OF m1(2)] show ?case using smp_steps_finitely_busy assms(2) by fastforce
qed (use assms(2) in simp)

lemma work_bound: "work m \<le> 16 * card (busy m)"
  using sum_bounded_above [of "busy m" "\<lambda>c. cpu_rank (m_cpus m c)" 16] cpu_rank_bound by (simp add: work_def mult.commute)

section \<open>Progress\<close>

lemma cpu_holds_finite: "finite (cpu_holds x)"
  by (cases x) simp_all

lemma cpu_holds_ready: "cpu_ready x \<Longrightarrow> cpu_holds x = {}"
  by (cases x) simp_all

lemma available_exists:
  assumes "finitely_busy m"
  obtains new where "available e m new"
proof -
  have "(\<Union>c. cpu_holds (m_cpus m c)) \<subseteq> (\<Union>c\<in>busy m. cpu_holds (m_cpus m c))"
    using cpu_holds_ready by (fastforce simp: busy_def)
  then have "finite (\<Union>c. cpu_holds (m_cpus m c))"
    by (rule finite_subset) (use assms cpu_holds_finite in \<open>simp add: finitely_busy_def\<close>)
  moreover have "finite (ran (sm_index (m_smp m)))" using assms by (simp add: finitely_busy_def finite_ran)
  ultimately obtain new where "new \<notin> ran (sm_index (m_smp m)) \<union> (\<Union>c. cpu_holds (m_cpus m c))"
    using ex_new_if_finite [OF infinite_UNIV_nat] by (metis finite_UnI)
  then show thesis using that by (auto simp: available_def)
qed

lemma smp_act_exists:
  assumes I: "machine_inv e C m" and C: "mac_ok C" and fin: "finitely_busy m" and c: "c \<in> busy m"
  shows "\<exists>m'. smp_act K e m m'"
proof -
  obtain new where new: "available e m new" using available_exists [OF fin] .
  have c': "\<not> cpu_ready (m_cpus m c)" using c by (simp add: busy_def)
  obtain S' x' where st: "cpu_step K new (m_smp m) (m_cpus m c) = Some (S', x')"
    using cpu_step_total [OF I C machine_invD(7) [OF I] c'] by blast
  from act [OF st new] c' show ?thesis unfolding smp_act_def by (intro exI conjI) auto
qed

text \<open>No more packets need come in for the CPUs to get through with theirs.\<close>

lemma smp_finishes:
  assumes "machine_inv e C m" "mac_ok C" "finitely_busy m"
  shows "\<exists>n m'. (smp_act K e ^^ n) m m' \<and> busy m' = {}"
  using assms
proof (induction "work m" arbitrary: m rule: less_induct)
  case less
  show ?case
  proof (cases "busy m = {}")
    case True
    then show ?thesis by (intro exI [of _ 0] exI [of _ m]) simp
  next
    case False
    then obtain m1 where m1: "smp_act K e m m1" using smp_act_exists [OF less.prems] by blast
    then have st: "smp_step K e m m1" by (simp add: smp_act_def)
    obtain n m' where n: "(smp_act K e ^^ n) m1 m'" "busy m' = {}"
      using less.hyps [OF smp_act_work [OF m1 less.prems(3)] smp_step_inv [OF st less.prems(1,2)] less.prems(2)
          smp_step_finitely_busy [OF st less.prems(3)]] by blast
    have "(smp_act K e ^^ Suc n) m m'" using m1 n(1) by (rule relpowp_Suc_I2)
    with n(2) show ?thesis by blast
  qed
qed

lemma smp_drains:
  assumes "smp_steps K e (smp_init C) m" "mac_ok C"
  shows "((smp_act K e ^^ n) m m' \<longrightarrow> n \<le> 16 * card (busy m)) \<and>
    ((smp_act K e)\<^sup>*\<^sup>* m m' \<longrightarrow> (\<forall>m''. \<not> smp_act K e m' m'') \<longrightarrow> busy m' = {})"
proof -
  have fin: "finitely_busy m" by (rule smp_steps_finitely_busy [OF assms(1) smp_init_finitely_busy])
  have I: "machine_inv e C m" by (rule smp_steps_inv [OF assms(1) smp_init_inv assms(2)])
  have "busy m' = {}" if r: "(smp_act K e)\<^sup>*\<^sup>* m m'" and stuck: "\<forall>m''. \<not> smp_act K e m' m''"
  proof -
    obtain n where "(smp_act K e ^^ n) m m'" using r by (auto simp: rtranclp_power)
    from smp_acts_bounded [OF this fin] have r': "smp_steps K e m m'" "finitely_busy m'" by simp_all
    show ?thesis using smp_act_exists [OF smp_steps_inv [OF r'(1) I assms(2)] assms(2) r'(2)] stuck by blast
  qed
  then show ?thesis using smp_acts_bounded [where n = n and m' = m', OF _ fin] work_bound [of m] by fastforce
qed

end
