(* ===== verification/Xdp_Smp_Trace.thy ===== *)
theory Xdp_Smp_Trace
  imports Xdp_Smp_Drain Xdp_Traffic
begin

text \<open>
  What is seen of the kernel aggregator on several CPUs from outside: the packets that come in and those that leave, in
  order. \<open>gathering\<close>, \<open>finishing\<close> and \<open>finished\<close> are the three stages of a round whose packets come in once each.
\<close>

section \<open>Traces\<close>

datatype smp_event = Arrives bytes | Leaves xdp_action bytes

fun leaving :: "cpu \<Rightarrow> smp_event list" where
  "leaving (Done action q) = [Leaves action q]"
| "leaving _ = []"

inductive smp_trace :: "kernel \<Rightarrow> bool \<Rightarrow> machine \<Rightarrow> smp_event list \<Rightarrow> machine \<Rightarrow> bool" for K recycles m0 where
  start: "smp_trace K recycles m0 [] m0"
| arrival: "smp_trace K recycles m0 tr m \<Longrightarrow> cpu_ready (m_cpus m c) \<Longrightarrow>
    smp_trace K recycles m0 (tr @ [Arrives p]) (m\<lparr>m_cpus := (m_cpus m)(c := At_parse p), m_received := insert p (m_received m)\<rparr>)"
| action: "smp_trace K recycles m0 tr m \<Longrightarrow> cpu_step K new (m_smp m) (m_cpus m c) = Some (S', x') \<Longrightarrow> available recycles m new \<Longrightarrow>
    smp_trace K recycles m0 (tr @ leaving x') ((m_history c new S' x' m)\<lparr>m_smp := S', m_cpus := (m_cpus m)(c := x')\<rparr>)"

fun arrived :: "smp_event \<Rightarrow> bytes list" where
  "arrived (Arrives p) = [p]"
| "arrived (Leaves action q) = []"

fun transmitted :: "smp_event \<Rightarrow> bytes list" where
  "transmitted (Arrives p) = []"
| "transmitted (Leaves action q) = (if action = XDP_TX then [q] else [])"

text \<open>The packets for a key that came in, and those of its sums that were transmitted.\<close>

definition arrivals :: "grad_slot_key \<Rightarrow> smp_event list \<Rightarrow> bytes list" where
  "arrivals k tr = filter (for_key k) (concat (map arrived tr))"

definition transmissions :: "grad_slot_key \<Rightarrow> smp_event list \<Rightarrow> bytes list" where
  "transmissions k tr = filter (\<lambda>q. key_of (xdp_hdr q) = k) (concat (map transmitted tr))"

lemma arrivals_simps [simp]:
  "arrivals k [] = []" "arrivals k (tr @ [Arrives p]) = arrivals k tr @ (if for_key k p then [p] else [])"
  "arrivals k (tr @ leaving x) = arrivals k tr"
  by (cases x; simp add: arrivals_def)+

text \<open>The keys for which gradient packets came in.\<close>

definition trace_keys :: "smp_event list \<Rightarrow> grad_slot_key set" where
  "trace_keys tr = {k. arrivals k tr \<noteq> []}"

lemma trace_keys_simps [simp]: "trace_keys (tr @ leaving x) = trace_keys tr"
  by (simp add: trace_keys_def)

lemma trace_keys_mono: "trace_keys tr \<subseteq> trace_keys (tr @ tr')"
  by (auto simp: trace_keys_def arrivals_def)

lemma trace_keys_finite: "finite (trace_keys tr)"
proof (rule finite_subset)
  show "trace_keys tr \<subseteq> (\<lambda>p. key_of (xdp_hdr p)) ` set (concat (map arrived tr))"
    by (auto simp: trace_keys_def arrivals_def for_key_def filter_empty_conv)
qed simp

lemma transmissions_simps [simp]:
  "transmissions k [] = []" "transmissions k (tr @ [Arrives p]) = transmissions k tr"
  "transmissions k (tr @ leaving x) = transmissions k tr @
     (case x of Done action q \<Rightarrow> if action = XDP_TX \<and> key_of (xdp_hdr q) = k then [q] else [] | _ \<Rightarrow> [])"
  by (cases x; simp add: transmissions_def)+

lemma smp_trace_steps: "smp_trace K e m0 tr m \<Longrightarrow> smp_steps K e m0 m"
proof (induction rule: smp_trace.induct)
  case start
  show ?case ..
next
  case (arrival tr m c p)
  from arrival.IH smp_step.receive [where p = p, OF arrival.hyps(2)] show ?case by (rule rtranclp.rtrancl_into_rtrancl)
next
  case (action tr m new c S' x')
  from action.IH smp_step.act [OF action.hyps(2,3)] show ?case by (rule rtranclp.rtrancl_into_rtrancl)
qed

lemma smp_trace_inv: "smp_trace K e (smp_init C) tr m \<Longrightarrow> mac_ok C \<Longrightarrow> machine_inv e C m"
  using smp_steps_inv [OF smp_trace_steps smp_init_inv] .

text \<open>Every trace can be continued, without arrivals, until no CPU has anything to do.\<close>

lemma smp_trace_act:
  assumes "smp_trace K e m0 tr m" "smp_act K e m m'"
  shows "\<exists>tr'. smp_trace K e m0 tr' m' \<and> (\<forall>k. arrivals k tr' = arrivals k tr)"
proof -
  from assms(2) have "smp_step K e m m'" and keep: "\<And>c. cpu_ready (m_cpus m c) \<Longrightarrow> m_cpus m' c = m_cpus m c"
    by (auto simp: smp_act_def)
  then show ?thesis
  proof (cases rule: smp_stepE [consumes 1, case_names receive act])
    case (receive c p)
    with keep [of c] have "cpu_ready (At_parse p)" by simp
    then show ?thesis by simp
  next
    case (act new c S' x')
    then show ?thesis using smp_trace.action [OF assms(1) act(2,3)] by (intro exI [of _ "tr @ leaving x'"]) simp
  qed
qed

lemma smp_trace_drains:
  assumes "smp_trace K e (smp_init C) tr m" "mac_ok C"
  obtains tr' m' where "smp_trace K e (smp_init C) tr' m'" "\<And>k. arrivals k tr' = arrivals k tr" "busy m' = {}"
proof -
  have "finitely_busy m" using smp_steps_finitely_busy [OF smp_trace_steps [OF assms(1)] smp_init_finitely_busy] .
  from smp_finishes [OF smp_trace_inv [OF assms] assms(2) this] obtain i m' where i: "(smp_act K e ^^ i) m m'" "busy m' = {}" by blast
  from i(1) have "\<exists>tr'. smp_trace K e (smp_init C) tr' m' \<and> (\<forall>k. arrivals k tr' = arrivals k tr)"
  proof (induction i arbitrary: m')
    case (Suc i)
    then obtain m1 where "(smp_act K e ^^ i) m m1" "smp_act K e m1 m'" by auto
    with Suc.IH smp_trace_act show ?case by metis
  qed (use assms(1) in auto)
  with i(2) that show thesis by blast
qed

section \<open>The stages of a round\<close>

text \<open>The packet of a CPU that has not been counted, if it ever will.\<close>

fun uncounted :: "cpu \<Rightarrow> bytes option" where
  "uncounted (At_parse p) = Some p"
| "uncounted (At_lookup p x) = Some p"
| "uncounted (At_admission p x) = Some p"
| "uncounted (At_create p x n) = Some p"
| "uncounted (At_relookup p x rc) = Some p"
| "uncounted (At_count p x a) = Some p"
| "uncounted (At_count_insert p x a) = Some p"
| "uncounted (At_count_retry p x a) = Some p"
| "uncounted (At_lock p x a) = Some p"
| "uncounted _ = None"

text \<open>It has not seen that there is a slot.\<close>

fun early :: "cpu \<Rightarrow> bool" where
  "early (At_parse p) \<longleftrightarrow> True"
| "early (At_lookup p x) \<longleftrightarrow> True"
| "early (At_admission p x) \<longleftrightarrow> True"
| "early (At_create p x n) \<longleftrightarrow> True"
| "early _ \<longleftrightarrow> False"

fun past_completion :: "cpu \<Rightarrow> bool" where
  "past_completion (At_config p key n) \<longleftrightarrow> True"
| "past_completion (At_delete p key n cfg) \<longleftrightarrow> True"
| "past_completion (At_uncount p key n cfg) \<longleftrightarrow> True"
| "past_completion (At_uncount_add p key n cfg) \<longleftrightarrow> True"
| "past_completion (At_forward p n cfg) \<longleftrightarrow> True"
| "past_completion _ \<longleftrightarrow> False"

fun before_delete :: "cpu \<Rightarrow> bool" where
  "before_delete (At_config p key n) \<longleftrightarrow> True"
| "before_delete (At_delete p key n cfg) \<longleftrightarrow> True"
| "before_delete _ \<longleftrightarrow> False"

definition completes :: "grad_slot_key \<Rightarrow> machine \<Rightarrow> nat \<Rightarrow> bool" where
  "completes k m c \<longleftrightarrow> past_completion (m_cpus m c) \<and> key_of (xdp_hdr (last (m_round m c))) = k"

definition waits :: "grad_slot_key \<Rightarrow> machine \<Rightarrow> nat \<Rightarrow> bytes \<Rightarrow> bool" where
  "waits k m c p \<longleftrightarrow> uncounted (m_cpus m c) = Some p \<and> for_key k p"

definition slot_log :: "grad_slot_key \<Rightarrow> machine \<Rightarrow> bytes list" where
  "slot_log k m = (case sm_index (m_smp m) k of None \<Rightarrow> [] | Some a \<Rightarrow> m_log m a)"

text \<open>
  Packets come in: each is in the slot's log or on the CPU that has it, and who has looked at the slot holds a pointer to it.
\<close>

definition gathering :: "grad_slot_key \<Rightarrow> nat \<Rightarrow> bytes list \<Rightarrow> machine \<Rightarrow> bool" where
  "gathering k n ps m \<longleftrightarrow> (\<forall>c. \<not> completes k m c) \<and>
     set ps = set (slot_log k m) \<union> {p. \<exists>c. waits k m c p} \<and>
     (\<forall>c p. waits k m c p \<longrightarrow> p \<notin> set (slot_log k m) \<and> (\<forall>c'. waits k m c' p \<longrightarrow> c' = c) \<and>
        (early (m_cpus m c) \<or> (\<exists>a. sm_index (m_smp m) k = Some a \<and> cpu_holds (m_cpus m c) \<subseteq> {a}))) \<and>
     (\<forall>a. sm_index (m_smp m) k = Some a \<longrightarrow> m_creator m a \<in> set ps) \<and> length (slot_log k m) < n"

definition finishing :: "grad_slot_key \<Rightarrow> nat \<Rightarrow> bytes list \<Rightarrow> machine \<Rightarrow> bool" where
  "finishing k n ps m \<longleftrightarrow> (\<forall>c p. \<not> waits k m c p) \<and> length ps = n \<and>
     (\<exists>c. completes k m c \<and> (\<forall>c'. completes k m c' \<longrightarrow> c' = c) \<and> set (m_round m c) = set ps \<and>
        (before_delete (m_cpus m c) \<or> sm_index (m_smp m) k = None))"

definition finished :: "grad_slot_key \<Rightarrow> nat \<Rightarrow> bytes list \<Rightarrow> machine \<Rightarrow> bool" where
  "finished k n ps m \<longleftrightarrow> (\<forall>c p. \<not> waits k m c p) \<and> length ps = n \<and> (\<forall>c. \<not> completes k m c) \<and> sm_index (m_smp m) k = None"

definition round_stage :: "netsum_config \<Rightarrow> grad_slot_key \<Rightarrow> nat \<Rightarrow> machine \<Rightarrow> smp_event list \<Rightarrow> bool" where
  "round_stage cfg k n m tr \<longleftrightarrow>
     (let ps = arrivals k tr in
        transmissions k tr = [] \<and> (gathering k n ps m \<or> finishing k n ps m) \<or>
        finished k n ps m \<and> (\<exists>q R. transmissions k tr = [q] \<and> forwarded cfg (last R) (round_sum R) q \<and>
          R \<noteq> [] \<and> set R = set ps \<and> distinct (map (\<lambda>p. gh_worker_id (xdp_hdr p)) R)))"

text \<open>The packets of a round that have come in, each once.\<close>

definition round_part :: "grad_slot_key \<Rightarrow> nat \<Rightarrow> nat \<Rightarrow> bytes list \<Rightarrow> bool" where
  "round_part k n len ps \<longleftrightarrow> round_packets k n len ps \<and> length ps \<le> n \<and> 0 < n \<and> n \<le> 256"

lemma round_part_prefix: "round_part k n len (ps @ qs) \<Longrightarrow> round_part k n len ps"
  by (auto simp: round_part_def round_packets_def)

lemma round_part_distinct: "round_part k n len ps \<Longrightarrow> distinct ps"
  unfolding round_part_def round_packets_def by (metis distinct_map)

lemma round_part_worker:
  "round_part k n len ps \<Longrightarrow> p \<in> set ps \<Longrightarrow> q \<in> set ps \<Longrightarrow> gh_worker_id (xdp_hdr p) = gh_worker_id (xdp_hdr q) \<Longrightarrow> p = q"
  unfolding round_part_def round_packets_def distinct_map inj_on_def by blast

end
