(* ===== verification/Xdp_Spin.thy ===== *)
theory Xdp_Spin
  imports Xdp_Smp_Trace
begin

text \<open>
  The kernel aggregator on several CPUs, with its spin lock. In \<open>Xdp_Smp\<close> the section under \<open>slot->lock\<close> is one action;
  here it is cut, too: taking the lock, the accesses to the slot, each value written to the packet, and each of the two
  places where the lock is released are actions of their own, between which other CPUs act. What the program reads and writes back
  (\<open>seen_worker\<close>, \<open>sum[i]\<close>, \<open>contributions_received\<close>) it loads in one action and stores in another; the completion test, which
  reads three fields, is one action. A CPU that finds the lock taken cannot act. What lies outside the section is as in \<open>Xdp_Smp\<close>. The kernel reuses no element while a CPU holds a pointer to
  it (one that does could put a new slot into an element in the middle of a section).
\<close>

section \<open>Where a CPU is\<close>

datatype spin_cpu =
    Outside cpu
  | Sec_len bytes xdp_parsed nat                   \<comment> \<open>the lock is taken\<close>
  | Sec_mismatch bytes xdp_parsed nat              \<comment> \<open>another \<open>chunk_len\<close>: unlock and drop\<close>
  | Sec_test bytes xdp_parsed nat                  \<comment> \<open>load the byte of \<open>seen_worker\<close>\<close>
  | Sec_mark bytes xdp_parsed nat u8               \<comment> \<open>store it with the bit set\<close>
  | Sec_add bytes xdp_parsed nat nat               \<comment> \<open>accumulate loop at \<open>i\<close>: load\<close>
  | Sec_sum bytes xdp_parsed nat nat i32           \<comment> \<open>store \<open>sum[i]\<close>\<close>
  | Sec_count bytes xdp_parsed nat                 \<comment> \<open>load \<open>contributions_received\<close>\<close>
  | Sec_counted bytes xdp_parsed nat u16           \<comment> \<open>store it, one more\<close>
  | Sec_last bytes xdp_parsed nat                  \<comment> \<open>is it the last one?\<close>
  | Sec_write bytes xdp_parsed nat u16 nat         \<comment> \<open>write-back loop at \<open>i\<close>, with \<open>final_chunk_len\<close>\<close>
  | Sec_unlock bytes xdp_parsed nat bool u16       \<comment> \<open>with \<open>is_complete\<close> and \<open>final_chunk_len\<close>\<close>

text \<open>
  The next action of a CPU, as \<open>cpu_step\<close> with the lock words. \<open>None\<close> is an access outside the packet or a slot's
  arrays, that there is nothing to do, or that the lock is taken.
\<close>

abbreviation (input) set_elem :: "smp \<Rightarrow> nat \<Rightarrow> grad_slot \<Rightarrow> smp" where
  "set_elem S a s \<equiv> S\<lparr>sm_elem := (sm_elem S)(a := s)\<rparr>"

abbreviation (input) worker_byte :: "xdp_parsed \<Rightarrow> nat" where "worker_byte x \<equiv> unat (xp_worker_id x) div 8"
abbreviation (input) worker_bit :: "xdp_parsed \<Rightarrow> u8" where "worker_bit x \<equiv> push_bit (unat (xp_worker_id x) mod 8) 1"

fun spin_cpu_step :: "kernel \<Rightarrow> nat \<Rightarrow> smp \<Rightarrow> (nat \<Rightarrow> bool) \<Rightarrow> spin_cpu \<Rightarrow> (smp \<times> (nat \<Rightarrow> bool) \<times> spin_cpu) option" where
  "spin_cpu_step K new S locked (Outside (At_lock p x a)) =
     (if locked a then None else Some (S, locked(a := True), Sec_len p x a))"
| "spin_cpu_step K new S locked (Outside y) = map_option (\<lambda>(S, y). (S, locked, Outside y)) (cpu_step K new S y)"
| "spin_cpu_step K new S locked (Sec_len p x a) =
     Some (S, locked, if gs_chunk_len (sm_elem S a) \<noteq> xp_chunk_len x then Sec_mismatch p x a else Sec_test p x a)"
| "spin_cpu_step K new S locked (Sec_mismatch p x a) = Some (S, locked(a := False), Outside (Done XDP_DROP p))"
| "spin_cpu_step K new S locked (Sec_test p x a) = do {
     byte \<leftarrow> arr_get (gs_seen_worker (sm_elem S a)) (worker_byte x);
     Some (S, locked, if byte AND worker_bit x = 0 then Sec_mark p x a byte else Sec_unlock p x a False 0) }"
| "spin_cpu_step K new S locked (Sec_mark p x a byte) = do {
     seen_worker \<leftarrow> arr_set (gs_seen_worker (sm_elem S a)) (worker_byte x) (byte OR worker_bit x);
     Some (set_elem S a ((sm_elem S a)\<lparr>gs_seen_worker := seen_worker\<rparr>), locked, Sec_add p x a 0) }"
| "spin_cpu_step K new S locked (Sec_add p x a i) =
     (if i < NETSUM_MAX_CHUNK_LEN
      then if i \<ge> unat (xp_chunk_len x) then Some (S, locked, Sec_count p x a)
      else if vals + 4 * (i + 1) > length p then Some (S, locked, Sec_count p x a)
      else do {
        v \<leftarrow> ld32 p (vals + 4 * i);
        s \<leftarrow> arr_get (gs_sum (sm_elem S a)) i;
        Some (S, locked, Sec_sum p x a i (s + netsum_bpf_ntohl v)) }
      else Some (S, locked, Sec_count p x a))"
| "spin_cpu_step K new S locked (Sec_sum p x a i s) = do {
     acc \<leftarrow> arr_set (gs_sum (sm_elem S a)) i s;
     Some (set_elem S a ((sm_elem S a)\<lparr>gs_sum := acc\<rparr>), locked, Sec_add p x a (i + 1)) }"
| "spin_cpu_step K new S locked (Sec_count p x a) =
     Some (S, locked, Sec_counted p x a (gs_contributions_received (sm_elem S a) + 1))"
| "spin_cpu_step K new S locked (Sec_counted p x a n) =
     Some (set_elem S a ((sm_elem S a)\<lparr>gs_contributions_received := n\<rparr>), locked, Sec_last p x a)"
| "spin_cpu_step K new S locked (Sec_last p x a) =
     Some (S, locked, if gs_contributions_received (sm_elem S a) = gs_num_workers_expected (sm_elem S a)
       then Sec_write p x a (gs_chunk_len (sm_elem S a)) 0 else Sec_unlock p x a False 0)"
| "spin_cpu_step K new S locked (Sec_write p x a n i) =
     (if i < NETSUM_MAX_CHUNK_LEN
      then if i \<ge> unat n then Some (S, locked, Sec_unlock p x a True n)
      else if vals + 4 * (i + 1) > length p then Some (S, locked, Sec_unlock p x a True n)
      else do {
        s \<leftarrow> arr_get (gs_sum (sm_elem S a)) i;
        p \<leftarrow> st32 p (vals + 4 * i) (netsum_bpf_htonl s);
        Some (S, locked, Sec_write p x a n (i + 1)) }
      else Some (S, locked, Sec_unlock p x a True n))"
| "spin_cpu_step K new S locked (Sec_unlock p x a is_complete n) =
     Some (S, locked(a := False), Outside (if is_complete then At_config p (xp_key x) n else Done XDP_DROP p))"

text \<open>The element whose lock a CPU has taken, the elements it holds a pointer to, and whether it is free for a packet.\<close>

fun in_section :: "spin_cpu \<Rightarrow> nat option" where
  "in_section (Outside x) = None"
| "in_section (Sec_len p x a) = Some a"
| "in_section (Sec_mismatch p x a) = Some a"
| "in_section (Sec_test p x a) = Some a"
| "in_section (Sec_mark p x a byte) = Some a"
| "in_section (Sec_add p x a i) = Some a"
| "in_section (Sec_sum p x a i s) = Some a"
| "in_section (Sec_count p x a) = Some a"
| "in_section (Sec_counted p x a n) = Some a"
| "in_section (Sec_last p x a) = Some a"
| "in_section (Sec_write p x a n i) = Some a"
| "in_section (Sec_unlock p x a is_complete n) = Some a"

definition spin_holds :: "spin_cpu \<Rightarrow> nat set" where
  "spin_holds x = (case x of Outside y \<Rightarrow> cpu_holds y | _ \<Rightarrow> set_option (in_section x))"

definition spin_ready :: "spin_cpu \<Rightarrow> bool" where
  "spin_ready x \<longleftrightarrow> (case x of Outside y \<Rightarrow> cpu_ready y | _ \<Rightarrow> False)"

definition spin_leaving :: "spin_cpu \<Rightarrow> smp_event list" where
  "spin_leaving x = (case x of Outside y \<Rightarrow> leaving y | _ \<Rightarrow> [])"

section \<open>Interleavings\<close>

record spin =
  sp_smp :: smp
  sp_locked :: "nat \<Rightarrow> bool"  \<comment> \<open>the lock word of each element\<close>
  sp_cpus :: "nat \<Rightarrow> spin_cpu"

definition spin_available :: "spin \<Rightarrow> nat \<Rightarrow> bool" where
  "spin_available m new \<longleftrightarrow> new \<notin> ran (sm_index (sp_smp m)) \<and> (\<forall>c. new \<notin> spin_holds (sp_cpus m c))"

inductive spin_step :: "kernel \<Rightarrow> spin \<Rightarrow> smp_event list \<Rightarrow> spin \<Rightarrow> bool" for K where
  receive: "spin_ready (sp_cpus m c) \<Longrightarrow>
    spin_step K m [Arrives p] (m\<lparr>sp_cpus := (sp_cpus m)(c := Outside (At_parse p))\<rparr>)"
| act: "spin_cpu_step K new (sp_smp m) (sp_locked m) (sp_cpus m c) = Some (S', locked', x') \<Longrightarrow> spin_available m new \<Longrightarrow>
    spin_step K m (spin_leaving x') (m\<lparr>sp_smp := S', sp_locked := locked', sp_cpus := (sp_cpus m)(c := x')\<rparr>)"

inductive_cases spin_stepE: "spin_step K m evs m'"

inductive spin_trace :: "kernel \<Rightarrow> spin \<Rightarrow> smp_event list \<Rightarrow> spin \<Rightarrow> bool" for K m0 where
  start: "spin_trace K m0 [] m0"
| step: "spin_trace K m0 tr m \<Longrightarrow> spin_step K m evs m' \<Longrightarrow> spin_trace K m0 (tr @ evs) m'"

definition spin_init :: "(u32 \<rightharpoonup> netsum_config) \<Rightarrow> spin" where
  "spin_init config = \<lparr>sp_smp = m_smp (smp_init config), sp_locked = (\<lambda>_. False), sp_cpus = (\<lambda>_. Outside Idle)\<rparr>"

end
