(* ===== verification/Xdp_Smp_Live.thy ===== *)
theory Xdp_Smp_Live
  imports Xdp_Smp_Trace
begin

text \<open>
  Liveness of the kernel aggregator on several CPUs: a round whose packets come in once each goes through its three
  stages under every interleaving, and nothing that happens to other packets holds it up.
\<close>

section \<open>One action\<close>

lemma cpu_step_uncounted: "cpu_step K new S x = Some (S', x') \<Longrightarrow> uncounted x' = Some p \<Longrightarrow> uncounted x = Some p"
  by (cases x)
    (auto simp: Let_def split: Option.bind_split_asm if_split_asm option.split_asm sum.split_asm prod.split_asm)

lemma cpu_step_past:
  "cpu_step K new S x = Some (S', x') \<Longrightarrow> past_completion x' \<Longrightarrow> past_completion x \<or> (\<exists>p y a. x = At_lock p y a)"
  by (cases x)
    (auto simp: Let_def split: Option.bind_split_asm if_split_asm option.split_asm sum.split_asm prod.split_asm)

lemma cpu_step_index_change:
  "cpu_step K new S x = Some (S', x') \<Longrightarrow> sm_index S' k \<noteq> sm_index S k \<Longrightarrow>
     (\<exists>p y n. x = At_create p y n \<and> xp_key y = k) \<or> (\<exists>q n cfg. x = At_delete q k n cfg)"
  by (cases x)
    (auto simp: Let_def split: Option.bind_split_asm if_split_asm option.split_asm sum.split_asm prod.split_asm)

lemma cpu_step_transmits: "cpu_step K new S x = Some (S', Done XDP_TX q) \<Longrightarrow> \<exists>p n cfg. x = At_forward p n cfg"
  by (cases x)
    (auto simp: Let_def xdp_parse_eq split: Option.bind_split_asm if_split_asm option.split_asm sum.split_asm prod.split_asm)

text \<open>What an action keeps of the machine, the acting CPU apart.\<close>

definition others_same :: "nat \<Rightarrow> machine \<Rightarrow> machine \<Rightarrow> bool" where
  "others_same c m m' \<longleftrightarrow> (\<forall>c'. c' \<noteq> c \<longrightarrow> m_cpus m' c' = m_cpus m c' \<and> m_round m' c' = m_round m c')"

definition slot_same :: "grad_slot_key \<Rightarrow> machine \<Rightarrow> machine \<Rightarrow> bool" where
  "slot_same k m m' \<longleftrightarrow> sm_index (m_smp m') k = sm_index (m_smp m) k \<and> slot_log k m' = slot_log k m \<and>
     (\<forall>a. sm_index (m_smp m) k = Some a \<longrightarrow> m_creator m' a = m_creator m a)"

abbreviation acted :: "nat \<Rightarrow> nat \<Rightarrow> smp \<Rightarrow> cpu \<Rightarrow> machine \<Rightarrow> machine" where
  "acted c new S' x' m \<equiv> (m_history c new S' x' m)\<lparr>m_smp := S', m_cpus := (m_cpus m)(c := x')\<rparr>"

lemma acted_others: "others_same c m (acted c new S' x' m)"
  by (auto simp: others_same_def m_history_def Let_def split: cpu.split)

lemma history_same:
  "(\<And>p y n. m_cpus m c \<noteq> At_create p y n) \<Longrightarrow> (\<And>p y a. m_cpus m c \<noteq> At_lock p y a) \<Longrightarrow> m_history c new S' x' m = m"
  by (auto simp: m_history_def split: cpu.split)

lemma waits_key: "machine_inv e C m \<Longrightarrow> m_cpus m c = x \<Longrightarrow> uncounted x = Some p \<Longrightarrow> \<not> early x \<or> (\<exists>y n. x = At_create p y n) \<Longrightarrow>
   waits (key_of (xdp_hdr p)) m c p"
  using machine_invD(7) [of e C m c] by (cases x) (auto simp: waits_def for_key_def parsed_packet_def)

lemma acted_elsewhere:
  assumes I: "machine_inv False C m" and st: "cpu_step K new (m_smp m) (m_cpus m c) = Some (S', x')" and av: "available False m new"
    and c: "\<And>p. \<not> waits k m c p" "\<not> completes k m c"
  shows "slot_same k m (acted c new S' x' m)"
proof -
  have idx: "sm_index S' k = sm_index (m_smp m) k"
  proof (rule ccontr)
    assume "sm_index S' k \<noteq> sm_index (m_smp m) k"
    from cpu_step_index_change [OF st this] show False
    proof (elim disjE exE conjE)
      fix p y n assume x: "m_cpus m c = At_create p y n" "xp_key y = k"
      then have "key_of (xdp_hdr p) = k" using machine_invD(7) [OF I, of c] by (auto simp: parsed_packet_def)
      then show False using waits_key [OF I x(1), of p] c(1) by simp
    next
      fix q n cfg assume x: "m_cpus m c = At_delete q k n cfg"
      then show False using machine_invD(7) [OF I, of c] c(2) by (simp add: completes_def summed_def)
    qed
  qed
  have "m_log (m_history c new S' x' m) a = m_log m a \<and> m_creator (m_history c new S' x' m) a = m_creator m a"
    if a: "sm_index (m_smp m) k = Some a" for a
  proof (cases "m_cpus m c")
    case (At_create p y n)
    have "new \<noteq> a" using av a by (auto simp: available_def ran_def)
    then show ?thesis using At_create by (simp add: m_history_def)
  next
    case (At_lock p y a')
    have "key_of (xdp_hdr p) \<noteq> k" using waits_key [OF I At_lock, of p] c(1) by auto
    moreover have "same_key p (m_creator m a')" using machine_invD(7) [OF I, of c] At_lock by simp
    moreover have "key_of (xdp_hdr (m_creator m a)) = k" using machine_invD(6) [OF I a] by simp
    ultimately have "a' \<noteq> a" by (auto simp: same_key_def)
    then show ?thesis using At_lock by (simp add: m_history_def Let_def)
  qed (simp_all add: m_history_def)
  then show ?thesis unfolding slot_same_def slot_log_def using idx by (auto split: option.split)
qed

lemma acted_quiet:
  assumes I: "machine_inv False C m" and C: "mac_ok C" and st: "cpu_step K new (m_smp m) (m_cpus m c) = Some (S', x')" and av: "available False m new"
    and c: "\<And>p. \<not> waits k m c p" "\<not> completes k m c"
  shows "\<not> waits k (acted c new S' x' m) c p" "\<not> completes k (acted c new S' x' m) c" "transmissions k (tr @ leaving x') = transmissions k tr"
proof -
  let ?m = "acted c new S' x' m"
  show "\<not> waits k ?m c p" using cpu_step_uncounted [OF st, of p] c(1) [of p] by (auto simp: waits_def)
  have R: "m_round ?m c = m_round m c" if "past_completion (m_cpus m c)"
    using that by (cases "m_cpus m c") (simp_all add: m_history_def)
  have "machine_inv False C ?m" by (rule smp_step_inv [OF smp_step.act [OF st av] I C])
  note ok' = machine_invD(7) [OF this, of c]
  show "\<not> completes k ?m c"
  proof
    assume a: "completes k ?m c"
    then have "past_completion x'" by (simp add: completes_def)
    from cpu_step_past [OF st this] show False
    proof (elim disjE exE)
      assume p: "past_completion (m_cpus m c)"
      with R [OF p] a c(2) show False by (simp add: completes_def)
    next
      fix p y a' assume x: "m_cpus m c = At_lock p y a'"
      have "key_of (xdp_hdr p) \<noteq> k" using waits_key [OF I x, of p] c(1) by auto
      with smp_lock_cases [OF I x st] a show False by cases (auto simp: completes_def)
    qed
  qed
  show "transmissions k (tr @ leaving x') = transmissions k tr"
  proof (cases "\<exists>q. x' = Done XDP_TX q")
    case True
    then obtain q where q: "x' = Done XDP_TX q" by blast
    with cpu_step_transmits st obtain p n cfg where x: "m_cpus m c = At_forward p n cfg" by blast
    obtain cfg' where "forwarded cfg' (last (m_round ?m c)) (round_sum (m_round ?m c)) q" using ok' q by auto
    then have "key_of (xdp_hdr q) = key_of (xdp_hdr (last (m_round m c)))" using R x by (simp add: forwarded_def key_of_def del: wire_hdr_sel)
    then show ?thesis using c(2) x q by (simp add: completes_def transmissions_def)
  qed (auto split: cpu.split)
qed

section \<open>The stages under the actions of others\<close>

lemma stage_frame:
  assumes o: "others_same c m m'" and s: "slot_same k m m'"
    and c: "\<And>p. \<not> waits k m c p" "\<not> completes k m c" "\<And>p. \<not> waits k m' c p" "\<not> completes k m' c"
  shows "gathering k n ps m \<Longrightarrow> gathering k n ps m'" "finishing k n ps m \<Longrightarrow> finishing k n ps m'" "finished k n ps m \<Longrightarrow> finished k n ps m'"
proof -
  have w: "waits k m' c' p \<longleftrightarrow> waits k m c' p" and f: "completes k m' c' \<longleftrightarrow> completes k m c'" for c' p
  proof -
    have "c' \<noteq> c \<Longrightarrow> m_cpus m' c' = m_cpus m c' \<and> m_round m' c' = m_round m c'" using o unfolding others_same_def by blast
    then have "c' \<noteq> c \<Longrightarrow> (waits k m' c' p \<longleftrightarrow> waits k m c' p) \<and> (completes k m' c' \<longleftrightarrow> completes k m c')"
      unfolding waits_def completes_def by metis
    then show "waits k m' c' p \<longleftrightarrow> waits k m c' p" "completes k m' c' \<longleftrightarrow> completes k m c'" using c by blast+
  qed
  have x: "m_cpus m' c' = m_cpus m c'" "m_round m' c' = m_round m c'" if "waits k m c' p \<or> completes k m c'" for c' p
    using that o c(1,2) unfolding others_same_def by metis+
  have i: "sm_index (m_smp m') k = sm_index (m_smp m) k" "slot_log k m' = slot_log k m"
    "\<And>a. sm_index (m_smp m) k = Some a \<Longrightarrow> m_creator m' a = m_creator m a"
    using s by (simp_all add: slot_same_def)
  show "gathering k n ps m'" if "gathering k n ps m"
  proof -
    note G = that [unfolded gathering_def]
    have "early (m_cpus m' c') \<or> (\<exists>a. sm_index (m_smp m) k = Some a \<and> cpu_holds (m_cpus m' c') \<subseteq> {a})" if "waits k m c' p" for c' p
      using G x(1) [of c' p] that by metis
    then have "\<forall>c' p. waits k m c' p \<longrightarrow> p \<notin> set (slot_log k m) \<and> (\<forall>c''. waits k m c'' p \<longrightarrow> c'' = c') \<and>
        (early (m_cpus m' c') \<or> (\<exists>a. sm_index (m_smp m) k = Some a \<and> cpu_holds (m_cpus m' c') \<subseteq> {a}))"
      using G by metis
    moreover have "\<forall>a. sm_index (m_smp m) k = Some a \<longrightarrow> m_creator m' a \<in> set ps" using G i(3) by metis
    ultimately show ?thesis unfolding gathering_def w f i(1,2) using G by (elim conjE, intro conjI) assumption+
  qed
  show "finishing k n ps m'" if "finishing k n ps m"
  proof -
    note F = that [unfolded finishing_def]
    then obtain c' where c': "completes k m c'" "\<forall>d. completes k m d \<longrightarrow> d = c'" "set (m_round m c') = set ps"
      "before_delete (m_cpus m c') \<or> sm_index (m_smp m) k = None" by blast
    have "m_cpus m' c' = m_cpus m c'" "m_round m' c' = m_round m c'" using x c'(1) by blast+
    then have "set (m_round m' c') = set ps" "before_delete (m_cpus m' c') \<or> sm_index (m_smp m) k = None" using c'(3,4) by simp_all
    with F c'(1,2) show ?thesis unfolding finishing_def w f i(1) by blast
  qed
  show "finished k n ps m'" if "finished k n ps m" using that unfolding finished_def w f i(1) .
qed

section \<open>The way of a packet that waits\<close>

lemma gatheringD:
  assumes "gathering k n ps m"
  shows "\<not> completes k m c" "set ps = set (slot_log k m) \<union> {p. \<exists>c. waits k m c p}" "length (slot_log k m) < n"
    "waits k m c p \<Longrightarrow> p \<in> set ps" "waits k m c p \<Longrightarrow> p \<notin> set (slot_log k m)" "waits k m c p \<Longrightarrow> waits k m c' p \<Longrightarrow> c' = c"
    "waits k m c p \<Longrightarrow> early (m_cpus m c) \<or> (\<exists>a. sm_index (m_smp m) k = Some a \<and> cpu_holds (m_cpus m c) \<subseteq> {a})"
    "sm_index (m_smp m) k = Some a \<Longrightarrow> m_creator m a \<in> set ps"
  using assms unfolding gathering_def by blast+

lemma waits_other: "others_same c m m' \<Longrightarrow> c' \<noteq> c \<Longrightarrow> waits k m' c' p \<longleftrightarrow> waits k m c' p"
  by (simp add: others_same_def waits_def)

lemma completes_other: "others_same c m m' \<Longrightarrow> c' \<noteq> c \<Longrightarrow> completes k m' c' \<longleftrightarrow> completes k m c'"
  by (simp add: others_same_def completes_def)

lemma waits_one: "waits k m c p \<Longrightarrow> waits k m c q \<Longrightarrow> q = p"
  by (simp add: waits_def)

lemma waits_not_completes: "waits k m c p \<Longrightarrow> \<not> completes k' m c"
  by (cases "m_cpus m c") (simp_all add: waits_def completes_def)

lemma gathering_stays:
  assumes G: "gathering k n ps m" and w: "waits k m c p" "waits k m' c p" and o: "others_same c m m'" and s: "slot_same k m m'"
    and a: "early (m_cpus m' c) \<or> (\<exists>a. sm_index (m_smp m') k = Some a \<and> cpu_holds (m_cpus m' c) \<subseteq> {a})"
  shows "gathering k n ps m'"
proof -
  have W: "waits k m' c' q \<longleftrightarrow> waits k m c' q" for c' q
    using waits_other [OF o] w waits_one [of k m c p q] waits_one [of k m' c p q] by (cases "c' = c") blast+
  have F: "\<not> completes k m' c'" for c'
    using completes_other [OF o] gatheringD(1) [OF G] waits_not_completes [OF w(2)] by (cases "c' = c") blast+
  have i: "sm_index (m_smp m') k = sm_index (m_smp m) k" "slot_log k m' = slot_log k m"
    "\<And>a. sm_index (m_smp m) k = Some a \<Longrightarrow> m_creator m' a = m_creator m a"
    using s by (simp_all add: slot_same_def)
  have "early (m_cpus m' c') \<or> (\<exists>a. sm_index (m_smp m) k = Some a \<and> cpu_holds (m_cpus m' c') \<subseteq> {a})" if "waits k m c' q" for c' q
  proof (cases "c' = c")
    case True
    then show ?thesis using a i(1) by simp
  next
    case False
    then show ?thesis using gatheringD(7) [OF G that] o by (simp add: others_same_def)
  qed
  then have "\<forall>c' q. waits k m c' q \<longrightarrow> q \<notin> set (slot_log k m) \<and> (\<forall>c''. waits k m c'' q \<longrightarrow> c'' = c') \<and>
      (early (m_cpus m' c') \<or> (\<exists>a. sm_index (m_smp m) k = Some a \<and> cpu_holds (m_cpus m' c') \<subseteq> {a}))"
    using gatheringD(5,6) [OF G] by blast
  moreover have "\<forall>a. sm_index (m_smp m) k = Some a \<longrightarrow> m_creator m' a \<in> set ps" using gatheringD(8) [OF G] i(3) by simp
  ultimately show ?thesis unfolding gathering_def W i(1,2) using F gatheringD(2,3) [OF G] by blast
qed

lemma slot_same_local:
  "m_history c new S' x' m = m \<Longrightarrow> sm_index S' k = sm_index (m_smp m) k \<Longrightarrow> slot_same k m (acted c new S' x' m)"
  by (simp add: slot_same_def slot_log_def split: option.split)

text \<open>The slot is created.\<close>

lemma gathering_creates:
  assumes G: "gathering k n ps m" and w: "waits k m c p" and none: "sm_index (m_smp m) k = None"
    and m': "others_same c m m'" "waits k m' c p" "sm_index (m_smp m') k = Some a" "m_log m' a = []" "m_creator m' a = p" "cpu_holds (m_cpus m' c) \<subseteq> {a}"
  shows "gathering k n ps m'"
proof -
  have W: "waits k m' c' q \<longleftrightarrow> waits k m c' q" for c' q
    using waits_other [OF m'(1)] w m'(2) waits_one [of k m c p q] waits_one [of k m' c p q] by (cases "c' = c") blast+
  have F: "\<not> completes k m' c'" for c'
    using completes_other [OF m'(1)] gatheringD(1) [OF G] waits_not_completes [OF m'(2)] by (cases "c' = c") blast+
  have L: "slot_log k m' = []" "slot_log k m = []" using none m'(3,4) by (simp_all add: slot_log_def)
  have "early (m_cpus m' c') \<or> (\<exists>a. sm_index (m_smp m') k = Some a \<and> cpu_holds (m_cpus m' c') \<subseteq> {a})" if "waits k m c' q" for c' q
  proof (cases "c' = c")
    case False
    then show ?thesis using gatheringD(7) [OF G that] none m'(1) by (simp add: others_same_def)
  qed (use m'(3,6) in simp)
  then have "\<forall>c' q. waits k m c' q \<longrightarrow> q \<notin> set (slot_log k m') \<and> (\<forall>c''. waits k m c'' q \<longrightarrow> c'' = c') \<and>
      (early (m_cpus m' c') \<or> (\<exists>a. sm_index (m_smp m') k = Some a \<and> cpu_holds (m_cpus m' c') \<subseteq> {a}))"
    using gatheringD(6) [OF G] L(1) by auto
  moreover have "\<forall>a. sm_index (m_smp m') k = Some a \<longrightarrow> m_creator m' a \<in> set ps" using m'(3,5) gatheringD(4) [OF G w] by simp
  ultimately show ?thesis unfolding gathering_def W using F gatheringD(2,3) [OF G] unfolding L by blast
qed

text \<open>The packet is added to the slot.\<close>

lemma gathering_adds:
  assumes G: "gathering k n ps m" and w: "waits k m c p"
    and m': "others_same c m m'" "\<And>q. \<not> waits k m' c q" "\<not> completes k m' c" "sm_index (m_smp m') k = sm_index (m_smp m) k"
      "slot_log k m' = slot_log k m @ [p]" "\<And>a. sm_index (m_smp m) k = Some a \<Longrightarrow> m_creator m' a = m_creator m a"
    and n: "length (slot_log k m') \<noteq> n"
  shows "gathering k n ps m'"
proof -
  have W: "waits k m' c' q \<longleftrightarrow> waits k m c' q \<and> c' \<noteq> c" for c' q
    using waits_other [OF m'(1)] m'(2) by (cases "c' = c") blast+
  have F: "\<not> completes k m' c'" for c'
    using completes_other [OF m'(1)] gatheringD(1) [OF G] m'(3) by (cases "c' = c") blast+
  have P: "set ps = set (slot_log k m') \<union> {q. \<exists>c'. waits k m' c' q}"
  proof -
    have "{q. \<exists>c'. waits k m c' q} = insert p {q. \<exists>c'. waits k m' c' q}"
      unfolding W using w waits_one [of k m c p] gatheringD(6) [OF G] by blast
    then show ?thesis using gatheringD(2) [OF G] unfolding m'(5) by simp
  qed
  have "q \<notin> set (slot_log k m') \<and> (\<forall>c''. waits k m' c'' q \<longrightarrow> c'' = c') \<and>
      (early (m_cpus m' c') \<or> (\<exists>a. sm_index (m_smp m') k = Some a \<and> cpu_holds (m_cpus m' c') \<subseteq> {a}))" if a: "waits k m' c' q" for c' q
  proof -
    have a': "waits k m c' q" "c' \<noteq> c" using a W by blast+
    have "q \<noteq> p" using gatheringD(6) [OF G w, of c'] a' by blast
    moreover have "m_cpus m' c' = m_cpus m c'" using a'(2) m'(1) by (simp add: others_same_def)
    moreover have "\<forall>c''. waits k m' c'' q \<longrightarrow> c'' = c'" using gatheringD(6) [OF G a'(1)] W by blast
    ultimately show ?thesis using gatheringD(5,7) [OF G a'(1)] unfolding m'(4,5) by (intro conjI) simp_all
  qed
  moreover have "\<forall>a. sm_index (m_smp m') k = Some a \<longrightarrow> m_creator m' a \<in> set ps" using gatheringD(8) [OF G] m'(4,6) by simp
  moreover have "length (slot_log k m') < n" using n gatheringD(3) [OF G] unfolding m'(5) by simp
  ultimately show ?thesis unfolding gathering_def using F P by blast
qed

lemma round_partD:
  assumes "round_part k n len ps"
  shows "p \<in> set ps \<Longrightarrow> for_key k p" "p \<in> set ps \<Longrightarrow> unat (gh_num_workers (xdp_hdr p)) = n"
    "p \<in> set ps \<Longrightarrow> unat (gh_chunk_len (xdp_hdr p)) = len" "length ps \<le> n" "0 < n" "n \<le> 256"
  using assms unfolding round_part_def round_packets_def for_key_def by blast+

lemma elem_log_distinct: "elem_log V s L \<Longrightarrow> distinct L"
  unfolding elem_log_def using distinct_map [of xdp_contribution] distinct_map [of fst] by blast

lemma gathering_completes:
  assumes G: "gathering k n ps m" and R: "round_part k n len ps" and w: "waits k m c p"
    and m': "others_same c m m'" "before_delete (m_cpus m' c)" "m_round m' c = slot_log k m @ [p]"
    and L: "distinct (slot_log k m @ [p])" "length (slot_log k m @ [p]) = n"
  shows "finishing k n ps m'"
proof -
  let ?L = "slot_log k m @ [p]"
  have sub: "set ?L \<subseteq> set ps" using gatheringD(2,4) [OF G] w by auto
  have card: "card (set ?L) = n" using distinct_card [OF L(1)] L(2) by simp
  then have "n \<le> length ps" using card_mono [OF finite_set sub] card_length [of ps] by simp
  then have lps: "length ps = n" using round_partD(4) [OF R] by simp
  then have "card (set ps) \<le> card (set ?L)" using card card_length [of ps] by simp
  then have all: "set ?L = set ps" by (rule card_seteq [OF finite_set sub])
  have none: "\<not> waits k m' c' q" for c' q
  proof
    assume a: "waits k m' c' q"
    have c': "c' \<noteq> c" using a m'(2) by (cases "m_cpus m' c") (auto simp: waits_def)
    then have w': "waits k m c' q" using a waits_other [OF m'(1)] by blast
    have "q \<in> set ?L" using gatheringD(4) [OF G w'] all by simp
    then have "q = p" using gatheringD(5) [OF G w'] by simp
    then show False using gatheringD(6) [OF G w, of c'] w' c' by blast
  qed
  have "p \<in> set ps" by (rule gatheringD(4) [OF G w])
  then have "key_of (xdp_hdr p) = k" using round_partD(1) [OF R] by (simp add: for_key_def)
  moreover have "last (m_round m' c) = p" unfolding m'(3) by simp
  moreover have "past_completion (m_cpus m' c)" using m'(2) by (cases "m_cpus m' c") simp_all
  ultimately have "completes k m' c" by (simp only: completes_def simp_thms)
  moreover have "\<forall>c'. completes k m' c' \<longrightarrow> c' = c" using completes_other [OF m'(1)] gatheringD(1) [OF G] by blast
  ultimately show ?thesis unfolding finishing_def using none lps m'(2,3) all by metis
qed

text \<open>Under the lock it is neither of another length nor of a worker counted already.\<close>

lemma gathering_fits:
  assumes I: "machine_inv False C m" and G: "gathering k n ps m" and R: "round_part k n len ps" and w: "waits k m c p"
    and a: "sm_index (m_smp m) k = Some a"
  shows "gs_chunk_len (sm_elem (m_smp m) a) = gh_chunk_len (xdp_hdr p)" "unat (gh_worker_id (xdp_hdr p)) \<notin> gs_workers (sm_elem (m_smp m) a)"
    "unat (gs_num_workers_expected (sm_elem (m_smp m) a)) = n"
proof -
  let ?L = "m_log m a"
  have L: "slot_log k m = ?L" using a by (simp add: slot_log_def)
  have p: "p \<in> set ps" "p \<notin> set ?L" using gatheringD(4,5) [OF G w] L by simp_all
  have cr: "m_creator m a \<in> set ps" by (rule gatheringD(8) [OF G a])
  have sub: "set ?L \<subseteq> set ps" using gatheringD(2) [OF G] L by simp
  note D = round_partD [OF R]
  show "gs_chunk_len (sm_elem (m_smp m) a) = gh_chunk_len (xdp_hdr p)"
    using D(3) [OF cr] D(3) [OF p(1)] unfolding machine_invD(8) [OF I, of a] by (simp only: word_unat_eq_iff)
  show "unat (gs_num_workers_expected (sm_elem (m_smp m) a)) = n" using D(2) [OF cr] machine_invD(3) [OF I, of a] by simp
  show "unat (gh_worker_id (xdp_hdr p)) \<notin> gs_workers (sm_elem (m_smp m) a)"
  proof
    assume "unat (gh_worker_id (xdp_hdr p)) \<in> gs_workers (sm_elem (m_smp m) a)"
    moreover have "gs_workers (sm_elem (m_smp m) a) = fst ` set (map xdp_contribution ?L)"
      using machine_invD(2) [OF I, of a] unfolding elem_log_def by blast
    ultimately obtain q where q: "q \<in> set ?L" "unat (gh_worker_id (xdp_hdr p)) = unat (gh_worker_id (xdp_hdr q))"
      by (auto simp: xdp_contribution_def)
    then have "q = p" using round_part_worker [OF R p(1), of q] sub by (metis subsetD word_unat_eq_iff)
    with q(1) p(2) show False by simp
  qed
qed

lemma gathering_locks:
  assumes I: "machine_inv False C m" and C: "mac_ok C" and st: "cpu_step K new (m_smp m) (m_cpus m c) = Some (S', x')" and av: "available False m new"
    and G: "gathering k n ps m" and R: "round_part k n len ps" and w: "waits k m c p" and x: "m_cpus m c = At_lock p y a"
  shows "gathering k n ps (acted c new S' x' m) \<or> finishing k n ps (acted c new S' x' m)"
proof -
  let ?m = "acted c new S' x' m" and ?L = "m_log m a"
  have I': "machine_inv False C ?m" by (rule smp_step_inv [OF smp_step.act [OF st av] I C])
  have a: "sm_index (m_smp m) k = Some a" using gatheringD(7) [OF G w] x by auto
  have L: "slot_log k m = ?L" using a by (simp add: slot_log_def)
  note fits = gathering_fits [OF I G R w a]
  have o: "others_same c m ?m" by (rule acted_others)
  show ?thesis
  proof (cases rule: smp_lock_cases [OF I x st, case_names ignored absorbed complete])
    case ignored
    then show ?thesis using fits(1,2) by simp
  next
    case (absorbed s')
    have H: "m_log ?m a = ?L @ [p]" "m_creator ?m = m_creator m" "m_smp ?m = S'" "m_cpus ?m c = x'" unfolding absorbed(7) by simp_all
    have e: "sm_elem (m_smp ?m) a = s'" using absorbed(5) by simp
    have i: "sm_index (m_smp ?m) k = sm_index (m_smp m) k" using absorbed(5) by simp
    have L': "slot_log k ?m = ?L @ [p]" using i a H(1) by (simp add: slot_log_def)
    have r: "unat (gs_contributions_received s') = length (?L @ [p])"
      using elem_logD(2) [OF machine_invD(2) [OF I', of a]] unfolding H(1) e .
    have "unat (gs_num_workers_expected s') = n" using fits(3) absorbed(3) by (simp add: added_def)
    then have "length (?L @ [p]) \<noteq> n" using absorbed(4) unfolding r [symmetric] by (auto simp: word_unat_eq_iff)
    then have "gathering k n ps ?m"
      using i L L' H absorbed(6) by (intro gathering_adds [OF G w o]) (simp_all add: waits_def completes_def)
    then show ?thesis ..
  next
    case (complete s')
    have H: "m_log ?m a = ?L @ [p]" "m_round ?m c = ?L @ [p]" "m_smp ?m = S'" "m_cpus ?m c = x'" unfolding complete(7) by simp_all
    have e: "sm_elem (m_smp ?m) a = s'" using complete(5) by simp
    have E: "elem_log (m_received ?m) s' (?L @ [p])" using machine_invD(2) [OF I', of a] unfolding H(1) e .
    have "gs_num_workers_expected s' = gs_num_workers_expected (sm_elem (m_smp m) a)" using complete(3) by (simp add: added_def)
    then have n: "length (?L @ [p]) = n" using elem_logD(2) [OF E] fits(3) unfolding complete(4) by simp
    have "before_delete (m_cpus ?m c)" unfolding H(4) complete(6) by simp
    from gathering_completes [OF G R w o this, unfolded L, OF H(2) elem_log_distinct [OF E] n] show ?thesis ..
  qed
qed

text \<open>From its arrival on, step by step.\<close>

lemma gathering_steps:
  assumes I: "machine_inv False C m" and C: "mac_ok C" and st: "cpu_step K new (m_smp m) (m_cpus m c) = Some (S', x')" and av: "available False m new"
    and cfg: "C 0 = Some cfg" "max_slots_per_job cfg = 0" and room: "sm_index (m_smp m) k = None \<Longrightarrow> slot_room K (smp_slots (m_smp m)) k"
    and G: "gathering k n ps m" and R: "round_part k n len ps" and w: "waits k m c p"
  shows "gathering k n ps (acted c new S' x' m) \<or> finishing k n ps (acted c new S' x' m)"
proof -
  let ?m = "acted c new S' x' m"
  note ok = machine_invD(7) [OF I, of c]
  have o: "others_same c m ?m" by (rule acted_others)
  have p: "p \<in> set ps" by (rule gatheringD(4) [OF G w])
  note D = round_partD [OF R]
  have fk: "for_key k p" using D(1) [OF p] .
  have m: "xdp_match p" "xdp_valid p" "key_of (xdp_hdr p) = k" using fk by (simp_all add: for_key_def)
  have C0: "sm_config_map (m_smp m) 0 = Some cfg" using cfg(1) machine_invD(1) [OF I] by simp
  have stay: ?thesis if "m_history c new S' x' m = m" "sm_index S' k = sm_index (m_smp m) k" "uncounted x' = Some p"
    "early x' \<or> (\<exists>a. sm_index (m_smp m) k = Some a \<and> cpu_holds x' \<subseteq> {a})"
  proof -
    have "gathering k n ps ?m" by (rule gathering_stays [OF G w _ o slot_same_local]) (use that fk in \<open>simp_all add: waits_def\<close>)
    then show ?thesis ..
  qed
  have held: "\<exists>a. sm_index (m_smp m) k = Some a \<and> cpu_holds (m_cpus m c) \<subseteq> {a}" if "\<not> early (m_cpus m c)"
    using gatheringD(7) [OF G w] that by blast
  have u: "uncounted (m_cpus m c) = Some p" using w by (simp add: waits_def)
  show ?thesis
  proof (cases "m_cpus m c")
    case (At_parse q)
    then show ?thesis using st u m by (intro stay) (auto simp: xdp_parse_eq m_history_def)
  next
    case (At_lookup q y)
    then show ?thesis using st u ok m(3) by (intro stay) (auto simp: parsed_packet_def m_history_def split: option.splits)
  next
    case (At_admission q y)
    have "62 \<le> length p" using m(1) by (simp add: xdp_match_def)
    moreover have "workers_ok (gh_num_workers (xdp_hdr p))" using D(2) [OF p] D(5,6) by (simp add: workers_ok_def del: wire_hdr_sel)
    ultimately have "S' = m_smp m" "\<exists>n. x' = At_create p y n"
      using st u At_admission C0 cfg(2) by (auto simp: wire_load Let_def workers_ok_def MAX_TRACKED_WORKERS_BITMAP_BYTES_def unat_gt_0)
    then show ?thesis using At_admission by (intro stay) (auto simp: m_history_def)
  next
    case (At_create q y nw)
    then have q: "q = p" "xp_key y = k" using u ok m(3) by (simp_all add: parsed_packet_def)
    show ?thesis
    proof (cases "sm_index (m_smp m) k")
      case None
      then have "smp_slots (m_smp m) (xp_key y) = None" using q by (simp add: smp_slots_def)
      then have S: "sm_index S' = (sm_index (m_smp m))(k \<mapsto> new)" "x' = At_relookup p y 0"
        using st At_create q room [OF None] by (auto simp: Let_def)
      have "m_history c new S' x' m = m\<lparr>m_log := (m_log m)(new := []), m_creator := (m_creator m)(new := p)\<rparr>"
        using At_create S None q by (simp add: m_history_def)
      then have "gathering k n ps ?m" using S fk by (intro gathering_creates [OF G w None o, of new]) (simp_all add: waits_def)
      then show ?thesis ..
    next
      case (Some a)
      then have "S' = m_smp m \<and> (\<exists>rc. x' = At_relookup p y rc)" using st At_create q by (auto simp: Let_def smp_slots_def)
      then show ?thesis using At_create q Some by (intro stay) (auto simp: m_history_def)
    qed
  next
    case (At_relookup q y rc)
    then show ?thesis using st u ok m(3) held by (intro stay) (auto simp: parsed_packet_def m_history_def split: if_splits)
  next
    case (At_count q y a)
    then show ?thesis using st u held by (intro stay) (auto simp: m_history_def split: option.splits)
  next
    case (At_count_insert q y a)
    then show ?thesis using st u held by (intro stay) (auto simp: m_history_def Let_def split: prod.splits if_splits)
  next
    case (At_count_retry q y a)
    then show ?thesis using st u held by (intro stay) (auto simp: m_history_def)
  next
    case (At_lock q y a)
    then have "m_cpus m c = At_lock p y a" using u by simp
    then show ?thesis by (rule gathering_locks [OF I C st av G R w])
  qed (use u in simp_all)
qed

end
