(* ===== verification/Xdp_Smp_Finish.thy ===== *)
theory Xdp_Smp_Finish
  imports Xdp_Smp_Live
begin

text \<open>
  The end of a round on several CPUs: the CPU that completes it deletes the slot and transmits the sum, and the three
  stages of a round are kept by every action and every arrival.
\<close>

section \<open>What the stages say\<close>

lemma finishingD:
  assumes "finishing k n ps m"
  shows "\<not> waits k m c p" "length ps = n" "completes k m c \<Longrightarrow> completes k m c' \<Longrightarrow> c' = c"
    "completes k m c \<Longrightarrow> set (m_round m c) = set ps"
    "completes k m c \<Longrightarrow> before_delete (m_cpus m c) \<or> sm_index (m_smp m) k = None"
proof -
  obtain c0 where c0: "\<And>c'. completes k m c' \<Longrightarrow> c' = c0" "set (m_round m c0) = set ps"
      "before_delete (m_cpus m c0) \<or> sm_index (m_smp m) k = None" and w: "\<And>c p. \<not> waits k m c p" and l: "length ps = n"
    using assms unfolding finishing_def by (elim conjE exE) (rule, blast+)
  show "\<not> waits k m c p" by (rule w)
  show "length ps = n" by (rule l)
  show "completes k m c \<Longrightarrow> completes k m c' \<Longrightarrow> c' = c" using c0(1) by metis
  show "completes k m c \<Longrightarrow> set (m_round m c) = set ps" using c0(1) [of c] c0(2) by metis
  show "completes k m c \<Longrightarrow> before_delete (m_cpus m c) \<or> sm_index (m_smp m) k = None" using c0(1) [of c] c0(3) by metis
qed

lemma finishedD:
  assumes "finished k n ps m"
  shows "\<not> waits k m c p" "length ps = n" "\<not> completes k m c" "sm_index (m_smp m) k = None"
  using assms unfolding finished_def by blast+

lemma round_stageE:
  assumes "round_stage cfg k n m tr"
  obtains (gathering) "gathering k n (arrivals k tr) m" "transmissions k tr = []"
    | (finishing) "finishing k n (arrivals k tr) m" "transmissions k tr = []"
    | (finished) q R where "finished k n (arrivals k tr) m" "transmissions k tr = [q]" "forwarded cfg (last R) (round_sum R) q"
        "R \<noteq> []" "set R = set (arrivals k tr)" "distinct (map (\<lambda>p. gh_worker_id (xdp_hdr p)) R)"
  using assms unfolding round_stage_def Let_def by blast

lemma stage_waits: "round_stage cfg k n m tr \<Longrightarrow> waits k m c p \<Longrightarrow> gathering k n (arrivals k tr) m \<and> transmissions k tr = []"
  by (erule round_stageE) (blast dest: finishingD(1) finishedD(1))+

lemma stage_completes: "round_stage cfg k n m tr \<Longrightarrow> completes k m c \<Longrightarrow> finishing k n (arrivals k tr) m \<and> transmissions k tr = []"
  by (erule round_stageE) (blast dest: gatheringD(1) finishedD(3))+

lemma stage_more: "round_stage cfg k n m tr \<Longrightarrow> length (arrivals k tr) < n \<Longrightarrow> gathering k n (arrivals k tr) m \<and> transmissions k tr = []"
  by (erule round_stageE) (simp, drule finishingD(2), simp, drule finishedD(2), simp)

section \<open>The way of the CPU that completes the round\<close>

lemma finishing_moves:
  assumes F: "finishing k n ps m" and c: "completes k m c" "completes k m' c" and o: "others_same c m m'" "m_round m' c = m_round m c"
    and d: "before_delete (m_cpus m' c) \<or> sm_index (m_smp m') k = None"
  shows "finishing k n ps m'"
proof -
  have w: "\<not> waits k m' c' p" for c' p
    using finishingD(1) [OF F] waits_other [OF o(1)] waits_not_completes [of k m' c p k] c(2) by (cases "c' = c") blast+
  have f: "completes k m' c' \<longrightarrow> c' = c" for c'
    using finishingD(3) [OF F c(1)] completes_other [OF o(1), of c'] by blast
  have "set (m_round m' c) = set ps" using finishingD(4) [OF F c(1)] o(2) by simp
  then show ?thesis unfolding finishing_def using w f c(2) d finishingD(2) [OF F] by blast
qed

lemma finishing_ends:
  assumes F: "finishing k n ps m" and c: "completes k m c" "\<not> past_completion (m_cpus m' c)" "uncounted (m_cpus m' c) = None"
    and o: "others_same c m m'" and d: "sm_index (m_smp m') k = None"
  shows "finished k n ps m'"
proof -
  have w: "\<not> waits k m' c' p" for c' p
    using finishingD(1) [OF F] waits_other [OF o] c(3) by (cases "c' = c") (simp add: waits_def, blast)
  have f: "\<not> completes k m' c'" for c'
    using finishingD(3) [OF F c(1), of c'] completes_other [OF o, of c'] c(2) by (cases "c' = c") (simp add: completes_def, blast)
  show ?thesis unfolding finished_def using w f d finishingD(2) [OF F] by blast
qed

lemma finishing_steps:
  assumes I: "machine_inv False C m" and C: "mac_ok C" and st: "cpu_step K new (m_smp m) (m_cpus m c) = Some (S', x')"
    and cfg: "C 0 = Some cfg" and F: "finishing k n ps m" and c: "completes k m c" and tr: "transmissions k tr = []"
  shows "round_stage cfg k n (acted c new S' x' m) (tr @ leaving x') \<or> arrivals k tr \<noteq> ps"
proof (cases "arrivals k tr = ps")
  case ps: True
  let ?m = "acted c new S' x' m" and ?R = "m_round m c"
  have past: "past_completion (m_cpus m c)" and k: "key_of (xdp_hdr (last ?R)) = k" using c by (simp_all add: completes_def)
  have o: "others_same c m ?m" by (rule acted_others)
  have h: "m_history c new S' x' m = m" using past by (intro history_same) auto
  have R: "m_round ?m c = ?R" unfolding h by simp
  note ok = machine_invD(7) [OF I, of c]
  have before: "before_delete (m_cpus m c) \<or> sm_index (m_smp m) k = None" by (rule finishingD(5) [OF F c])
  have setR: "set ?R = set ps" by (rule finishingD(4) [OF F c])
  have move: "round_stage cfg k n ?m (tr @ leaving x')"
    if "past_completion x'" "before_delete x' \<or> sm_index S' k = None"
  proof -
    have "completes k ?m c" using that(1) k R by (simp add: completes_def)
    then have "finishing k n ps ?m" using that(2) R by (intro finishing_moves [OF F c _ o]) simp_all
    moreover have "transmissions k (tr @ leaving x') = []" using tr that(1) by (cases x') simp_all
    ultimately show ?thesis unfolding round_stage_def Let_def arrivals_simps ps by blast
  qed
  have "round_stage cfg k n ?m (tr @ leaving x')"
  proof (cases "m_cpus m c")
    case (At_config q key n')
    then show ?thesis using st by (intro move) auto
  next
    case (At_delete q key n' cfg')
    then have "key = k" using ok k by (simp add: summed_def)
    then show ?thesis using At_delete st by (intro move) auto
  next
    case (At_uncount q key n' cfg')
    then show ?thesis using st before by (intro move) (auto split: option.splits)
  next
    case (At_uncount_add q key n' cfg')
    then show ?thesis using st before by (intro move) auto
  next
    case (At_forward q n' cfg')
    then obtain key where s: "summed False (m_received m) ?R q key n'" "cfg' = Some cfg" using ok cfg by auto
    have "length (ps_mac cfg) = 6" using C cfg by (simp add: mac_ok_def)
    from summed_forward [OF s(1) this] obtain q' where q: "xdp_rewrite cfg n' q = Some q'" "forwarded cfg (last ?R) (round_sum ?R) q'" by blast
    have S: "S' = m_smp m" "x' = Done XDP_TX q'" using st At_forward s(2) q(1) by simp_all
    have "finished k n ps ?m" using S before At_forward by (intro finishing_ends [OF F c _ _ o]) simp_all
    moreover have "key_of (xdp_hdr q') = k" using q(2) k by (simp add: forwarded_def key_of_def del: wire_hdr_sel)
    then have "transmissions k (tr @ leaving x') = [q']" unfolding transmissions_simps tr S(2) by simp
    moreover have "?R \<noteq> []" "distinct (map (\<lambda>p. gh_worker_id (xdp_hdr p)) ?R)" using s(1) by (simp_all add: summed_def completed_round_def)
    ultimately show ?thesis unfolding round_stage_def Let_def arrivals_simps ps using q(2) setR by blast
  qed (use past in simp_all)
  then show ?thesis ..
qed simp

section \<open>A round under every interleaving\<close>

lemma stage_step:
  assumes I: "machine_inv False C m" and C: "mac_ok C" and st: "cpu_step K new (m_smp m) (m_cpus m c) = Some (S', x')" and av: "available False m new"
    and cfg: "C 0 = Some cfg" "max_slots_per_job cfg = 0" and room: "arrivals k tr \<noteq> [] \<Longrightarrow> sm_index (m_smp m) k = None \<Longrightarrow> slot_room K (smp_slots (m_smp m)) k"
    and R: "round_part k n len (arrivals k tr)" and S: "round_stage cfg k n m tr"
  shows "round_stage cfg k n (acted c new S' x' m) (tr @ leaving x')"
proof -
  let ?ps = "arrivals k tr" and ?m = "acted c new S' x' m"
  consider (mine) p where "waits k m c p" | (last) "completes k m c" | (other) "\<And>p. \<not> waits k m c p" "\<not> completes k m c" by blast
  then show ?thesis
  proof cases
    case mine
    then have "transmissions k tr = []" and G: "gathering k n ?ps m" using stage_waits [OF S] by blast+
    from gatheringD(4) [OF G mine] have some: "?ps \<noteq> []" by auto
    note \<open>transmissions k tr = []\<close> G
    moreover have "transmissions k (tr @ leaving x') = transmissions k tr"
      using cpu_step_transmits [of K new "m_smp m" "m_cpus m c" S'] st mine by (cases x') (auto simp: waits_def transmissions_def)
    ultimately show ?thesis
      using gathering_steps [OF I C st av cfg room _ R mine] some unfolding round_stage_def Let_def arrivals_simps by simp
  next
    case last
    then have "transmissions k tr = []" "finishing k n ?ps m" using stage_completes [OF S] by blast+
    then show ?thesis using finishing_steps [OF I C st cfg(1) _ last] by blast
  next
    case other
    note q = acted_quiet [OF I C st av other] and f = stage_frame [OF acted_others acted_elsewhere [OF I st av other] other]
    have "gathering k n ?ps m \<Longrightarrow> gathering k n ?ps ?m" "finishing k n ?ps m \<Longrightarrow> finishing k n ?ps ?m" "finished k n ?ps m \<Longrightarrow> finished k n ?ps ?m"
      using f q(1,2) by blast+
    with S show ?thesis unfolding round_stage_def Let_def arrivals_simps q(3) by blast
  qed
qed

text \<open>A packet of the round comes in.\<close>

lemma gathering_arrives:
  assumes G: "gathering k n ps m" and p: "p \<notin> set ps" and W: "\<And>c' q. waits k m' c' q \<longleftrightarrow> waits k m c' q \<or> c' = c \<and> q = p"
    and F: "\<And>c'. \<not> completes k m' c'" and e: "early (m_cpus m' c)" and o: "\<And>c'. c' \<noteq> c \<Longrightarrow> m_cpus m' c' = m_cpus m c'"
    and i: "slot_log k m' = slot_log k m" "sm_index (m_smp m') k = sm_index (m_smp m) k" "m_creator m' = m_creator m"
  shows "gathering k n (ps @ [p]) m'"
proof -
  let ?seen = "\<lambda>m c'. early (m_cpus m c') \<or> (\<exists>a. sm_index (m_smp m) k = Some a \<and> cpu_holds (m_cpus m c') \<subseteq> {a})"
  have fresh: "p \<notin> set (slot_log k m)" "\<not> waits k m c' p" for c' using p gatheringD(2,4) [OF G] by blast+
  have w: "q \<notin> set (slot_log k m) \<and> (\<forall>c''. waits k m' c'' q \<longrightarrow> c'' = c') \<and> ?seen m' c'" if "waits k m' c' q" for c' q
  proof (cases "c' = c \<and> q = p")
    case True
    then show ?thesis using fresh W e by simp
  next
    case False
    then have v: "waits k m c' q" using W that by blast
    then have "q \<noteq> p" using fresh(2) by metis
    have "?seen m' c'"
    proof (cases "c' = c")
      case False
      then show ?thesis using gatheringD(7) [OF G v] o i(2) by simp
    qed (use e in simp)
    moreover have "c'' = c'" if "waits k m' c'' q" for c''
    proof -
      have "waits k m c'' q" using that W [of c'' q] \<open>q \<noteq> p\<close> by simp
      with v show ?thesis by (rule gatheringD(6) [OF G])
    qed
    ultimately show ?thesis using gatheringD(5) [OF G v] by (intro conjI allI impI)
  qed
  have "set (ps @ [p]) = set (slot_log k m) \<union> {q. \<exists>c'. waits k m' c' q}" using gatheringD(2) [OF G] unfolding W by auto
  moreover have "\<forall>a. sm_index (m_smp m) k = Some a \<longrightarrow> m_creator m a \<in> set (ps @ [p])" using gatheringD(8) [OF G] by simp
  moreover have "\<forall>c' q. waits k m' c' q \<longrightarrow> q \<notin> set (slot_log k m) \<and> (\<forall>c''. waits k m' c'' q \<longrightarrow> c'' = c') \<and>
      (early (m_cpus m' c') \<or> (\<exists>a. sm_index (m_smp m) k = Some a \<and> cpu_holds (m_cpus m' c') \<subseteq> {a}))"
    by (intro allI impI, drule w, unfold i(2))
  moreover have "\<forall>c'. \<not> completes k m' c'" using F ..
  ultimately show ?thesis using gatheringD(3) [OF G] unfolding gathering_def i by (intro conjI)
qed

lemma stage_arrival:
  assumes ready: "cpu_ready (m_cpus m c)" and R: "round_part k n len (arrivals k (tr @ [Arrives p]))" and S: "round_stage cfg k n m tr"
  shows "round_stage cfg k n (m\<lparr>m_cpus := (m_cpus m)(c := At_parse p), m_received := insert p (m_received m)\<rparr>) (tr @ [Arrives p])"
proof -
  let ?ps = "arrivals k tr" and ?m = "m\<lparr>m_cpus := (m_cpus m)(c := At_parse p), m_received := insert p (m_received m)\<rparr>"
  have none: "\<not> waits k m c q" "\<not> completes k m c" "\<not> completes k ?m c" for q
    using ready by (cases "m_cpus m c"; simp add: waits_def completes_def)+
  have o: "others_same c m ?m" by (simp add: others_same_def)
  have s: "slot_same k m ?m" by (simp add: slot_same_def slot_log_def split: option.split)
  show ?thesis
  proof (cases "for_key k p")
    case False
    then have "\<not> waits k ?m c q" for q by (auto simp: waits_def)
    note f = stage_frame [OF o s none(1,2) this none(3)]
    have "arrivals k (tr @ [Arrives p]) = ?ps" using False by simp
    with S f show ?thesis unfolding round_stage_def Let_def transmissions_simps by metis
  next
    case True
    then have ps: "arrivals k (tr @ [Arrives p]) = ?ps @ [p]" by simp
    have "length ?ps < n" "p \<notin> set ?ps" using round_partD(4) [OF R] round_part_distinct [OF R] unfolding ps by simp_all
    then have G: "gathering k n ?ps m" "transmissions k tr = []" using stage_more [OF S] by blast+
    have W: "waits k ?m c' q \<longleftrightarrow> waits k m c' q \<or> c' = c \<and> q = p" for c' q
      using waits_other [OF o, of c'] none(1) True by (cases "c' = c") (auto simp: waits_def)
    have F: "\<not> completes k ?m c'" for c'
      using completes_other [OF o, of c'] gatheringD(1) [OF G(1)] none(3) by (cases "c' = c") blast+
    have "gathering k n (?ps @ [p]) ?m"
      by (rule gathering_arrives [OF G(1) \<open>p \<notin> set ?ps\<close> W F]) (use o s in \<open>simp_all add: slot_same_def others_same_def\<close>)
    then show ?thesis using G(2) unfolding round_stage_def Let_def ps transmissions_simps by blast
  qed
qed

section \<open>Whole traces\<close>

lemma stage_init: "0 < n \<Longrightarrow> round_stage cfg k n (smp_init C) []"
  by (simp add: round_stage_def gathering_def completes_def waits_def slot_log_def smp_init_def)

text \<open>The slots are those of keys for which packets came in; there is room for one more while these are not too many.\<close>

lemma history_received: "m_received (m_history c new S' x' m) = m_received m"
  by (simp add: m_history_def Let_def split: cpu.split)

lemma trace_received: "smp_trace K e (smp_init C) tr m \<Longrightarrow> m_received m = set (concat (map arrived tr))"
proof (induction rule: smp_trace.induct)
  case (action tr m new c S' x')
  then show ?case by (cases x') (simp_all add: history_received)
qed (simp_all add: smp_init_def)

lemma trace_keysI: "smp_trace K e (smp_init C) tr m \<Longrightarrow> p \<in> m_received m \<Longrightarrow> for_key k p \<Longrightarrow> k \<in> trace_keys tr"
  using trace_received [of K e C tr m] unfolding trace_keys_def arrivals_def by (auto simp: filter_empty_conv)

lemma trace_dom:
  assumes "smp_trace K e (smp_init C) tr m" "mac_ok C"
  shows "dom (sm_index (m_smp m)) \<subseteq> trace_keys tr"
  using assms(1)
proof (induction rule: smp_trace.induct)
  case (arrival tr m c p)
  then show ?case using trace_keys_mono by fastforce
next
  case (action tr m new c S' x')
  have "k \<in> trace_keys tr" if k: "sm_index S' k \<noteq> None" for k
  proof (cases "sm_index S' k = sm_index (m_smp m) k")
    case True
    then show ?thesis using action.IH k by auto
  next
    case False
    have "m_cpus m c \<noteq> At_delete q k n cfg" for q n cfg using action.hyps(2) k by auto
    then obtain p y n where x: "m_cpus m c = At_create p y n" "xp_key y = k"
      using cpu_step_index_change [OF action.hyps(2) False] by blast
    then have "p \<in> m_received m" "for_key k p"
      using machine_invD(7) [OF smp_trace_inv [OF action.hyps(1) assms(2)], of c] by (auto simp: parsed_packet_def for_key_def)
    then show ?thesis by (rule trace_keysI [OF action.hyps(1)])
  qed
  then show ?case by auto
qed (simp add: smp_init_def)

lemma trace_room:
  assumes "smp_trace K False (smp_init C) tr m" "mac_ok C" "room_up_to 65536 (slot_room K)" "card (trace_keys tr) \<le> 65536"
    and "arrivals k tr \<noteq> []" "sm_index (m_smp m) k = None"
  shows "slot_room K (smp_slots (m_smp m)) k"
proof (rule room_up_toD [OF assms(3)])
  have d: "dom (smp_slots (m_smp m)) = dom (sm_index (m_smp m))" by (auto simp: smp_slots_def dom_def)
  have s: "dom (sm_index (m_smp m)) \<subset> trace_keys tr" using trace_dom [OF assms(1,2)] assms(5,6) by (auto simp: trace_keys_def)
  show "finite (dom (smp_slots (m_smp m)))" "card (dom (smp_slots (m_smp m))) < 65536"
    using finite_subset [OF _ trace_keys_finite] psubset_card_mono [OF trace_keys_finite s] s assms(4) unfolding d by auto
qed

lemma trace_stage:
  assumes "smp_trace K False (smp_init C) tr m" "mac_ok C" "C 0 = Some cfg" "max_slots_per_job cfg = 0"
    and "room_up_to 65536 (slot_room K)" "card (trace_keys tr) \<le> 65536" "round_part k n len (arrivals k tr)"
  shows "round_stage cfg k n m tr"
  using assms(1,6,7)
proof (induction rule: smp_trace.induct)
  case start
  then show ?case by (intro stage_init) (simp add: round_part_def)
next
  case (arrival tr m c p)
  then have "round_part k n len (arrivals k tr)" using round_part_prefix by (metis arrivals_simps(2))
  moreover have "card (trace_keys tr) \<le> 65536"
    using card_mono [OF trace_keys_finite trace_keys_mono [of tr "[Arrives p]"]] arrival.prems(1) by simp
  ultimately show ?case using arrival by (intro stage_arrival) auto
next
  case (action tr m new c S' x')
  have R: "round_part k n len (arrivals k tr)" and few: "card (trace_keys tr) \<le> 65536" using action.prems by simp_all
  show ?case
    by (rule stage_step [OF smp_trace_inv [OF action.hyps(1) assms(2)] assms(2) action.hyps(2,3) assms(3,4) _ R action.IH [OF few R]])
      (rule trace_room [OF action.hyps(1) assms(2,5) few])
qed

text \<open>
  Where every packet is of a round and comes in once, all pointers held are to linked elements, so that a kernel that
  recycles unlinked elements at once does as well as one that waits for the last pointer to be gone.
\<close>

lemma held_linked:
  assumes I: "machine_inv False C m" and S: "\<And>k. \<exists>cfg n. round_stage cfg k n m tr" and a: "a \<in> cpu_holds (m_cpus m c)"
  shows "a \<in> ran (sm_index (m_smp m))"
proof -
  obtain p where p: "uncounted (m_cpus m c) = Some p" "\<not> early (m_cpus m c)" using a by (cases "m_cpus m c") auto
  let ?k = "key_of (xdp_hdr p)"
  have w: "waits ?k m c p" using waits_key [OF I refl p(1)] p(2) by blast
  obtain cfg n where "round_stage cfg ?k n m tr" using S by blast
  then have "gathering ?k n (arrivals ?k tr) m" using stage_waits w by blast
  with gatheringD(7) [OF this w] p(2) a show ?thesis by (auto simp: ran_def)
qed

lemma trace_without_repeats:
  assumes "smp_trace K recycles (smp_init C) tr m" "mac_ok C" "C 0 = Some cfg" "max_slots_per_job cfg = 0"
    and "room_up_to 65536 (slot_room K)" "card (trace_keys tr) \<le> 65536" "\<And>k. \<exists>n len. round_part k n len (arrivals k tr)"
  shows "smp_trace K False (smp_init C) tr m"
  using assms(1,6,7)
proof (induction rule: smp_trace.induct)
  case start
  show ?case ..
next
  case (arrival tr m c p)
  have "\<exists>n len. round_part k n len (arrivals k tr)" for k
    using arrival.prems(2) [of k] round_part_prefix unfolding arrivals_simps by blast
  moreover have "card (trace_keys tr) \<le> 65536"
    using card_mono [OF trace_keys_finite trace_keys_mono [of tr "[Arrives p]"]] arrival.prems(1) by simp
  ultimately show ?case using arrival by (intro smp_trace.arrival) blast+
next
  case (action tr m new c S' x')
  then have T: "smp_trace K False (smp_init C) tr m" by simp
  have "\<exists>cfg n. round_stage cfg k n m tr" for k
    using trace_stage [OF T assms(2-5)] action.prems(1) action.prems(2) [of k] unfolding arrivals_simps trace_keys_simps by blast
  then have "available False m new"
    using action.hyps(3) held_linked [OF smp_trace_inv [OF T assms(2)]] by (auto simp: available_def)
  then show ?case by (rule smp_trace.action [OF T action.hyps(2)])
qed

text \<open>When all CPUs are through with their packets and the round is complete, it has been transmitted.\<close>

lemma round_sum_of:
  assumes R: "round_part k n len ps" and S: "R \<noteq> []" "set R = set ps" "distinct (map (\<lambda>p. gh_worker_id (xdp_hdr p)) R)"
  shows "last R \<in> set ps" "round_sum R = column_sum len (mset (map xdp_values ps))"
proof -
  show l: "last R \<in> set ps" using S(1,2) last_in_set by blast
  have "distinct R" using S(3) by (simp add: distinct_map)
  then have "mset R = mset ps" using S(2) round_part_distinct [OF R] by (simp add: set_eq_iff_mset_eq_distinct)
  moreover have "unat (gh_chunk_len (xdp_hdr (last R))) = len" using round_partD(3) [OF R l] .
  ultimately show "round_sum R = column_sum len (mset (map xdp_values ps))" unfolding round_sum_def mset_map by simp
qed

lemma quiet_round_complete:
  assumes I: "machine_inv False C m" and S: "round_stage cfg k n m tr" and R: "round_part k n len (arrivals k tr)" "length (arrivals k tr) = n"
    and quiet: "\<And>c. cpu_ready (m_cpus m c)"
  shows "\<exists>p q. transmissions k tr = [q] \<and> p \<in> set (arrivals k tr) \<and> sm_index (m_smp m) k = None \<and>
    forwarded cfg p (column_sum len (mset (map xdp_values (arrivals k tr)))) q"
proof -
  have idle: "\<not> waits k m c p" "\<not> completes k m c" for c p
    using quiet [of c] by (cases "m_cpus m c"; simp add: waits_def completes_def)+
  from S show ?thesis
  proof (cases rule: round_stageE)
    case gathering
    let ?L = "slot_log k m"
    have "set ?L = set (arrivals k tr)" using gatheringD(2) [OF gathering(1)] idle(1) by blast
    then have "card (set ?L) = n" using distinct_card [OF round_part_distinct [OF R(1)]] R(2) by simp
    with card_length [of ?L] gatheringD(3) [OF gathering(1)] show ?thesis by simp
  next
    case finishing
    then show ?thesis using idle(2) unfolding finishing_def by blast
  next
    case (finished q R')
    then show ?thesis using finishedD(4) [OF finished(1)] round_sum_of [OF R(1) finished(4-6)] by metis
  qed
qed

end
