(* ===== verification/Xdp_Spin_Atomic.thy ===== *)
theory Xdp_Spin_Atomic
  imports Xdp_Spin Xdp_Smp_Finish
begin

text \<open>
  The spin lock makes the section under it atomic: whatever the interleaving, the machine with the section cut into its
  loads and stores does what the machine does that runs it as one action at the point of the unlock.
\<close>

section \<open>What is left of a section\<close>

text \<open>The outcome of the rest of the section, from each of its points, on the element as it is there.\<close>

type_synonym outcome = "(grad_slot \<times> bytes \<times> bool \<times> u16) option option"

definition rest_write :: "bytes \<Rightarrow> u16 \<Rightarrow> nat \<Rightarrow> grad_slot \<Rightarrow> outcome" where
  "rest_write p n i s = map_option (\<lambda>p. Some (s, p, True, n)) (xdp_write_back p vals (unat n) i (gs_sum s))"

definition rest_last :: "bytes \<Rightarrow> grad_slot \<Rightarrow> outcome" where
  "rest_last p s = (if gs_contributions_received s = gs_num_workers_expected s then rest_write p (gs_chunk_len s) 0 s
     else Some (Some (s, p, False, 0)))"

definition rest_count :: "bytes \<Rightarrow> grad_slot \<Rightarrow> outcome" where
  "rest_count p s = rest_last p (s\<lparr>gs_contributions_received := gs_contributions_received s + 1\<rparr>)"

definition rest_add :: "bytes \<Rightarrow> xdp_parsed \<Rightarrow> nat \<Rightarrow> grad_slot \<Rightarrow> outcome" where
  "rest_add p x i s = Option.bind (xdp_accumulate p vals (unat (xp_chunk_len x)) i (gs_sum s)) (\<lambda>acc. rest_count p (s\<lparr>gs_sum := acc\<rparr>))"

definition rest_mark :: "bytes \<Rightarrow> xdp_parsed \<Rightarrow> u8 \<Rightarrow> grad_slot \<Rightarrow> outcome" where
  "rest_mark p x byte s = Option.bind (arr_set (gs_seen_worker s) (worker_byte x) (byte OR worker_bit x))
     (\<lambda>w. rest_add p x 0 (s\<lparr>gs_seen_worker := w\<rparr>))"

definition rest_test :: "bytes \<Rightarrow> xdp_parsed \<Rightarrow> grad_slot \<Rightarrow> outcome" where
  "rest_test p x s = Option.bind (arr_get (gs_seen_worker s) (worker_byte x))
     (\<lambda>byte. if byte AND worker_bit x = 0 then rest_mark p x byte s else Some (Some (s, p, False, 0)))"

fun section_rest :: "spin_cpu \<Rightarrow> grad_slot \<Rightarrow> outcome" where
  "section_rest (Outside y) s = None"
| "section_rest (Sec_len p x a) s = (if gs_chunk_len s \<noteq> xp_chunk_len x then Some None else rest_test p x s)"
| "section_rest (Sec_mismatch p x a) s = Some None"
| "section_rest (Sec_test p x a) s = rest_test p x s"
| "section_rest (Sec_mark p x a byte) s = rest_mark p x byte s"
| "section_rest (Sec_add p x a i) s = rest_add p x i s"
| "section_rest (Sec_sum p x a i v) s = Option.bind (arr_set (gs_sum s) i v) (\<lambda>acc. rest_add p x (i + 1) (s\<lparr>gs_sum := acc\<rparr>))"
| "section_rest (Sec_count p x a) s = rest_count p s"
| "section_rest (Sec_counted p x a n) s = rest_last p (s\<lparr>gs_contributions_received := n\<rparr>)"
| "section_rest (Sec_last p x a) s = rest_last p s"
| "section_rest (Sec_write p x a n i) s = rest_write p n i s"
| "section_rest (Sec_unlock p x a b n) s = Some (Some (s, p, b, n))"

text \<open>At the beginning that is the whole section.\<close>

lemma section_rest_locked: "section_rest (Sec_len p x a) s = xdp_locked p x s"
proof (cases "gs_chunk_len s = xp_chunk_len x")
  case True
  show ?thesis
  proof (cases "arr_get (gs_seen_worker s) (worker_byte x)")
    case (Some byte)
    with True show ?thesis
      by (simp add: xdp_locked_def rest_test_def rest_mark_def rest_add_def rest_count_def rest_last_def rest_write_def
          bitmap_test_def bitmap_mark_def Let_def map_option_case cong: if_cong split: Option.bind_split option.split)
  qed (use True in \<open>simp add: xdp_locked_def rest_test_def bitmap_test_def\<close>)
qed (simp add: xdp_locked_def)

section \<open>Points of a section\<close>

text \<open>Packet, parse result and element of a CPU in the section.\<close>

fun sec_point :: "spin_cpu \<Rightarrow> (bytes \<times> xdp_parsed \<times> nat) option" where
  "sec_point (Outside y) = None"
| "sec_point (Sec_len p x a) = Some (p, x, a)"
| "sec_point (Sec_mismatch p x a) = Some (p, x, a)"
| "sec_point (Sec_test p x a) = Some (p, x, a)"
| "sec_point (Sec_mark p x a byte) = Some (p, x, a)"
| "sec_point (Sec_add p x a i) = Some (p, x, a)"
| "sec_point (Sec_sum p x a i s) = Some (p, x, a)"
| "sec_point (Sec_count p x a) = Some (p, x, a)"
| "sec_point (Sec_counted p x a n) = Some (p, x, a)"
| "sec_point (Sec_last p x a) = Some (p, x, a)"
| "sec_point (Sec_write p x a n i) = Some (p, x, a)"
| "sec_point (Sec_unlock p x a b n) = Some (p, x, a)"

lemma sec_point_element: "sec_point y = Some (p, x, a) \<Longrightarrow> in_section y = Some a"
  by (cases y) simp_all

lemma sec_point_outside: "sec_point y = None \<longleftrightarrow> (\<exists>z. y = Outside z)"
  by (cases y) simp_all

lemma in_section_point: "in_section y = Some a \<Longrightarrow> \<exists>p x. sec_point y = Some (p, x, a)"
  by (cases y) simp_all

lemma set_elem_self: "set_elem S a (sm_elem S a) = S"
  by simp

text \<open>An action inside the section is one more piece of the rest; the last one releases the lock.\<close>

lemma rest_write_step:
  "rest_write p n i s = (if i < 64 \<and> i < unat n \<and> vals + 4 * (i + 1) \<le> length p
     then Option.bind (arr_get (gs_sum s) i) (\<lambda>v. Option.bind (st32 p (vals + 4 * i) (netsum_bpf_htonl v)) (\<lambda>p. rest_write p n (i + 1) s))
     else Some (Some (s, p, True, n)))"
  unfolding rest_write_def
  by (subst xdp_write_back.simps) (auto simp: proto_consts split: Option.bind_split)

lemma rest_add_step:
  "rest_add p x i s = (if i < 64 \<and> i < unat (xp_chunk_len x) \<and> vals + 4 * (i + 1) \<le> length p
     then Option.bind (ld32 p (vals + 4 * i)) (\<lambda>v. Option.bind (arr_get (gs_sum s) i)
       (\<lambda>w. Option.bind (arr_set (gs_sum s) i (w + netsum_bpf_ntohl v)) (\<lambda>acc. rest_add p x (i + 1) (s\<lparr>gs_sum := acc\<rparr>))))
     else rest_count p s)"
  unfolding rest_add_def
  by (subst xdp_accumulate.simps) (auto simp: proto_consts)

definition inner :: "smp \<Rightarrow> spin_cpu \<Rightarrow> smp \<Rightarrow> spin_cpu \<Rightarrow> bool" where
  "inner S y S' y' \<longleftrightarrow> (\<exists>p p' x a s'. sec_point y = Some (p, x, a) \<and> sec_point y' = Some (p', x, a) \<and> S' = set_elem S a s' \<and>
     section_rest y' s' = section_rest y (sm_elem S a) \<and>
     (section_rest y (sm_elem S a) = Some None \<longrightarrow> s' = sm_elem S a \<and> p' = p))"

definition released :: "smp \<Rightarrow> spin_cpu \<Rightarrow> smp \<Rightarrow> spin_cpu \<Rightarrow> bool" where
  "released S y S' y' \<longleftrightarrow> (\<exists>p x a. sec_point y = Some (p, x, a) \<and> S' = S \<and>
     (section_rest y (sm_elem S a) = Some None \<and> y' = Outside (Done XDP_DROP p) \<or>
      (\<exists>b n. section_rest y (sm_elem S a) = Some (Some (sm_elem S a, p, b, n)) \<and>
         y' = Outside (if b then At_config p (xp_key x) n else Done XDP_DROP p))))"

lemma rest_no_mismatch:
  "rest_write p n i s \<noteq> Some None" "rest_last p s \<noteq> Some None" "rest_count p s \<noteq> Some None"
  "rest_add p x i s \<noteq> Some None" "rest_mark p x byte s \<noteq> Some None" "rest_test p x s \<noteq> Some None"
proof -
  show w: "rest_write p n i s \<noteq> Some None" for p n i s by (simp add: rest_write_def)
  show l: "rest_last p s \<noteq> Some None" for p s using w by (simp add: rest_last_def)
  show c: "rest_count p s \<noteq> Some None" for p s using l by (simp add: rest_count_def)
  show a: "rest_add p x i s \<noteq> Some None" for p x i s using c by (simp add: rest_add_def bind_eq_Some_conv)
  show m: "rest_mark p x byte s \<noteq> Some None" for p x byte s using a by (simp add: rest_mark_def bind_eq_Some_conv)
  show "rest_test p x s \<noteq> Some None" using m by (simp add: rest_test_def bind_eq_Some_conv)
qed

lemma innerI:
  assumes "sec_point y = Some (p, x, a)" "sec_point y' = Some (p', x, a)" "S' = set_elem S a s'"
    "section_rest y' s' = section_rest y (sm_elem S a)"
    "section_rest y (sm_elem S a) = Some None \<Longrightarrow> s' = sm_elem S a \<and> p' = p"
  shows "inner S y S' y'"
  using assms unfolding inner_def by blast

lemma section_step:
  assumes st: "spin_cpu_step K new S locked y = Some (S', locked', y')" and y: "in_section y = Some a"
  shows "inner S y S' y' \<and> locked' = locked \<or> released S y S' y' \<and> locked' = locked(a := False)"
proof (cases y)
  case (Sec_len p x a)
  then have "inner S y S' y' \<and> locked' = locked"
    using st by (auto intro!: innerI [where s' = "sm_elem S a" and p' = p])
  then show ?thesis ..
next
  case (Sec_mismatch p x a')
  then show ?thesis using st y by (auto simp: released_def)
next
  case (Sec_test p x a')
  then obtain byte where b: "arr_get (gs_seen_worker (sm_elem S a')) (worker_byte x) = Some byte" "S' = S" "locked' = locked"
    "y' = (if byte AND worker_bit x = 0 then Sec_mark p x a' byte else Sec_unlock p x a' False 0)"
    using st by (auto simp: bind_eq_Some_conv)
  have "inner S y S' y'"
    by (rule innerI [where s' = "sm_elem S a'" and p' = p]) (use Sec_test b rest_no_mismatch in \<open>auto simp: rest_test_def\<close>)
  with b show ?thesis by blast
next
  case (Sec_mark p x a' byte)
  then obtain w where w: "arr_set (gs_seen_worker (sm_elem S a')) (worker_byte x) (byte OR worker_bit x) = Some w"
    "S' = set_elem S a' ((sm_elem S a')\<lparr>gs_seen_worker := w\<rparr>)" "locked' = locked" "y' = Sec_add p x a' 0"
    using st by (auto simp: bind_eq_Some_conv)
  have "inner S y S' y'"
    by (rule innerI [OF _ _ w(2), where p' = p]) (use Sec_mark w rest_no_mismatch in \<open>auto simp: rest_mark_def\<close>)
  with w show ?thesis by blast
next
  case (Sec_add p x a' i)
  then have s: "S' = S" "locked' = locked" using st by (auto simp: bind_eq_Some_conv split: if_splits)
  have "inner S y S' y'"
  proof (cases "i < 64 \<and> i < unat (xp_chunk_len x) \<and> vals + 4 * (i + 1) \<le> length p")
    case True
    then obtain v w where "ld32 p (vals + 4 * i) = Some v" "arr_get (gs_sum (sm_elem S a')) i = Some w" "y' = Sec_sum p x a' i (w + netsum_bpf_ntohl v)"
      using st Sec_add by (auto simp: bind_eq_Some_conv proto_consts)
    then show ?thesis
      by (intro innerI [where s' = "sm_elem S a'" and p = p and p' = p]) (use Sec_add s True rest_no_mismatch in \<open>auto simp: rest_add_step [of p x i]\<close>)
  next
    case False
    then have "y' = Sec_count p x a'" using st Sec_add by (auto simp: proto_consts not_less split: if_splits)
    then show ?thesis
      by (intro innerI [where s' = "sm_elem S a'" and p = p and p' = p]) (use Sec_add s False rest_no_mismatch in \<open>auto simp: rest_add_step [of p x i]\<close>)
  qed
  with s show ?thesis by blast
next
  case (Sec_sum p x a' i v)
  then obtain acc where w: "arr_set (gs_sum (sm_elem S a')) i v = Some acc"
    "S' = set_elem S a' ((sm_elem S a')\<lparr>gs_sum := acc\<rparr>)" "locked' = locked" "y' = Sec_add p x a' (i + 1)"
    using st by (auto simp: bind_eq_Some_conv)
  have "inner S y S' y'"
    by (rule innerI [OF _ _ w(2), where p' = p]) (use Sec_sum w rest_no_mismatch in \<open>auto simp: bind_eq_Some_conv\<close>)
  with w show ?thesis by blast
next
  case (Sec_count p x a')
  then have w: "S' = S" "locked' = locked" "y' = Sec_counted p x a' (gs_contributions_received (sm_elem S a') + 1)" using st by auto
  have "inner S y S' y'"
    by (rule innerI [where s' = "sm_elem S a'" and p' = p]) (use Sec_count w rest_no_mismatch in \<open>auto simp: rest_count_def\<close>)
  with w show ?thesis by blast
next
  case (Sec_counted p x a' n)
  then have w: "S' = set_elem S a' ((sm_elem S a')\<lparr>gs_contributions_received := n\<rparr>)" "locked' = locked" "y' = Sec_last p x a'" using st by auto
  have "inner S y S' y'"
    by (rule innerI [OF _ _ w(1), where p' = p]) (use Sec_counted w rest_no_mismatch in auto)
  with w show ?thesis by blast
next
  case (Sec_last p x a')
  then have w: "S' = S" "locked' = locked" "y' = (if gs_contributions_received (sm_elem S a') = gs_num_workers_expected (sm_elem S a')
       then Sec_write p x a' (gs_chunk_len (sm_elem S a')) 0 else Sec_unlock p x a' False 0)" using st by auto
  have "inner S y S' y'"
    by (rule innerI [where s' = "sm_elem S a'" and p' = p]) (use Sec_last w rest_no_mismatch in \<open>auto simp: rest_last_def\<close>)
  with w show ?thesis by blast
next
  case (Sec_write p x a' n i)
  then have s: "S' = S" "locked' = locked" using st by (auto simp: bind_eq_Some_conv split: if_splits)
  have "inner S y S' y'"
  proof (cases "i < 64 \<and> i < unat n \<and> vals + 4 * (i + 1) \<le> length p")
    case True
    then obtain v q where "arr_get (gs_sum (sm_elem S a')) i = Some v" "st32 p (vals + 4 * i) (netsum_bpf_htonl v) = Some q" "y' = Sec_write q x a' n (i + 1)"
      using st Sec_write by (auto simp: bind_eq_Some_conv proto_consts)
    then show ?thesis
      by (intro innerI [where s' = "sm_elem S a'" and p = p and p' = q]) (use Sec_write s True rest_no_mismatch in \<open>auto simp: rest_write_step [of p n i]\<close>)
  next
    case False
    then have "y' = Sec_unlock p x a' True n" using st Sec_write by (auto simp: proto_consts not_less split: if_splits)
    then show ?thesis
      by (intro innerI [where s' = "sm_elem S a'" and p = p and p' = p]) (use Sec_write s False rest_no_mismatch in \<open>auto simp: rest_write_step [of p n i]\<close>)
  qed
  with s show ?thesis by blast
next
  case (Sec_unlock p x a' b n)
  then show ?thesis using st y by (auto simp: released_def)
qed (use y in simp)

text \<open>And it is possible when the rest of the section is.\<close>

lemma section_can_step:
  assumes "in_section y = Some a" "section_rest y (sm_elem S a) \<noteq> None"
  shows "spin_cpu_step K new S locked y \<noteq> None"
proof (cases y)
  case (Sec_add p x a' i)
  then show ?thesis using assms by (auto simp: rest_add_step [of p x i] proto_consts bind_eq_Some_conv split: if_splits)
next
  case (Sec_write p x a' n i)
  then show ?thesis using assms by (auto simp: rest_write_step [of p n i] proto_consts bind_eq_Some_conv split: if_splits)
qed (use assms in \<open>auto simp: rest_test_def rest_mark_def bind_eq_Some_conv\<close>)

end
