(* ===== verification/Xdp_Spin_Sim.thy ===== *)
theory Xdp_Spin_Sim
  imports Xdp_Spin_Atomic
begin

text \<open>
  The machine with the spin lock is simulated by the machine whose section is one action: a CPU in its section is
  there still about to enter, with the element as it was when the lock was taken, until it unlocks. Every trace of the one is a
  trace of the other.
\<close>

section \<open>Outside the section\<close>

lemma cpu_step_elem_same:
  assumes "cpu_step K new S z = Some (S', z')" "\<And>p x a. z \<noteq> At_lock p x a" "\<And>p x n. z \<noteq> At_create p x n"
  shows "cpu_step K new (S\<lparr>sm_elem := E\<rparr>) z = Some (S'\<lparr>sm_elem := E\<rparr>, z') \<and> sm_elem S' = sm_elem S"
  using assms
  by (cases S; cases z)
    (auto simp: Let_def split: Option.bind_split_asm if_split_asm option.split_asm sum.split_asm prod.split_asm)

lemma cpu_step_elem:
  assumes "cpu_step K new S z = Some (S', z')" "\<And>p x a. z \<noteq> At_lock p x a"
    and "\<And>k. slot_room K (smp_slots (S\<lparr>sm_elem := E\<rparr>)) k \<longleftrightarrow> slot_room K (smp_slots S) k"
  shows "\<exists>E'. cpu_step K new (S\<lparr>sm_elem := E\<rparr>) z = Some (S'\<lparr>sm_elem := E'\<rparr>, z') \<and>
    (E' = E \<and> sm_elem S' = sm_elem S \<or> (\<exists>s. E' = E(new := s) \<and> sm_elem S' = (sm_elem S)(new := s)))"
proof (cases "\<exists>p x n. z = At_create p x n")
  case False
  then have "cpu_step K new (S\<lparr>sm_elem := E\<rparr>) z = Some (S'\<lparr>sm_elem := E\<rparr>, z') \<and> sm_elem S' = sm_elem S"
    by (intro cpu_step_elem_same [OF assms(1,2)]) auto
  then show ?thesis by blast
next
  case True
  then obtain p x n where At_create: "z = At_create p x n" by blast
  let ?fresh = "zero_grad_slot\<lparr>gs_chunk_len := xp_chunk_len x, gs_num_workers_expected := n\<rparr>"
  have e: "smp_slots (S\<lparr>sm_elem := E\<rparr>) k = None \<longleftrightarrow> smp_slots S k = None" for k by (simp add: smp_slots_def)
  show ?thesis
  proof (cases "smp_slots S (xp_key x) = None \<and> slot_room K (smp_slots S) (xp_key x)")
    case True
    then show ?thesis using assms(1,3) At_create e [of "xp_key x"]
      by (intro exI [of _ "E(new := ?fresh)"]) (auto simp: Let_def)
  next
    case False
    then show ?thesis using assms(1,3) At_create e [of "xp_key x"]
      by (intro exI [of _ E]) (auto simp: Let_def bpf_map_update_elem_def split: option.splits if_splits)
  qed
qed

lemma spin_outside_step:
  assumes "spin_cpu_step K new S locked (Outside z) = Some (S', locked', y')" "\<And>p x a. z \<noteq> At_lock p x a"
  obtains z' where "cpu_step K new S z = Some (S', z')" "locked' = locked" "y' = Outside z'"
  using assms by (cases z) auto

section \<open>The simulation\<close>

definition sec_sim :: "spin_cpu \<Rightarrow> cpu \<Rightarrow> (nat \<Rightarrow> grad_slot) \<Rightarrow> (nat \<Rightarrow> grad_slot) \<Rightarrow> bool" where
  "sec_sim y z E E0 \<longleftrightarrow> (case sec_point y of
     None \<Rightarrow> y = Outside z
   | Some (p, x, a) \<Rightarrow> (\<exists>p0. z = At_lock p0 x a \<and> section_rest y (E a) = xdp_locked p0 x (E0 a) \<and>
       (section_rest y (E a) = Some None \<longrightarrow> E a = E0 a \<and> p = p0)))"

definition spin_sim :: "spin \<Rightarrow> machine \<Rightarrow> bool" where
  "spin_sim m cm \<longleftrightarrow> (\<exists>E. sp_smp m = (m_smp cm)\<lparr>sm_elem := E\<rparr> \<and>
     (\<forall>a. \<not> sp_locked m a \<longrightarrow> E a = sm_elem (m_smp cm) a) \<and>
     (\<forall>c. sec_sim (sp_cpus m c) (m_cpus cm c) E (sm_elem (m_smp cm)))) \<and>
   (\<forall>a. sp_locked m a \<longleftrightarrow> (\<exists>c. in_section (sp_cpus m c) = Some a)) \<and>
   (\<forall>c c' a. in_section (sp_cpus m c) = Some a \<longrightarrow> in_section (sp_cpus m c') = Some a \<longrightarrow> c' = c)"

lemma spin_simE:
  assumes "spin_sim m cm"
  obtains E where "sp_smp m = (m_smp cm)\<lparr>sm_elem := E\<rparr>" "\<And>a. \<not> sp_locked m a \<Longrightarrow> E a = sm_elem (m_smp cm) a"
    "\<And>c. sec_sim (sp_cpus m c) (m_cpus cm c) E (sm_elem (m_smp cm))" "\<And>a. sp_locked m a \<longleftrightarrow> (\<exists>c. in_section (sp_cpus m c) = Some a)"
    "\<And>c c' a. in_section (sp_cpus m c) = Some a \<Longrightarrow> in_section (sp_cpus m c') = Some a \<Longrightarrow> c' = c"
  using assms unfolding spin_sim_def by (elim conjE exE) (rule that, blast+)

lemma sec_simE:
  assumes "sec_sim y z E E0"
  obtains (outside) "y = Outside z"
    | (inside) p x a p0 where "sec_point y = Some (p, x, a)" "z = At_lock p0 x a" "section_rest y (E a) = xdp_locked p0 x (E0 a)"
        "section_rest y (E a) = Some None \<Longrightarrow> E a = E0 a \<and> p = p0"
proof (cases "sec_point y")
  case None
  with assms show ?thesis by (intro outside) (simp add: sec_sim_def)
next
  case (Some t)
  obtain p x a where t: "t = (p, x, a)" by (cases t)
  with assms Some obtain p0 where "z = At_lock p0 x a" "section_rest y (E a) = xdp_locked p0 x (E0 a)"
    "section_rest y (E a) = Some None \<longrightarrow> E a = E0 a \<and> p = p0" by (auto simp: sec_sim_def)
  then show ?thesis using inside [OF Some [unfolded t]] by blast
qed

lemma spin_holds_point: "sec_point y = Some (p, x, a) \<Longrightarrow> spin_holds y = {a} \<and> \<not> spin_ready y"
  by (cases y) (simp_all add: spin_holds_def spin_ready_def)

lemma sec_sim_other:
  assumes "sec_sim y z E E0" "\<And>a. in_section y = Some a \<Longrightarrow> E' a = E a \<and> E0' a = E0 a"
  shows "sec_sim y z E' E0'"
  using assms sec_point_element [of y] unfolding sec_sim_def by (auto split: option.split)

lemma sim_holds: "sec_sim y z E E0 \<Longrightarrow> spin_holds y = cpu_holds z"
  by (erule sec_simE) (simp add: spin_holds_def, simp add: spin_holds_point)

lemma sim_ready: "sec_sim y z E E0 \<Longrightarrow> spin_ready y \<longleftrightarrow> cpu_ready z"
  by (erule sec_simE) (simp add: spin_ready_def, simp add: spin_holds_point)

lemma sim_available:
  assumes "spin_sim m cm"
  shows "spin_available m new \<longleftrightarrow> available False cm new"
proof -
  obtain E where S: "sp_smp m = (m_smp cm)\<lparr>sm_elem := E\<rparr>" "\<And>c. sec_sim (sp_cpus m c) (m_cpus cm c) E (sm_elem (m_smp cm))"
    using assms by (rule spin_simE) (rule that)
  have "spin_holds (sp_cpus m c) = cpu_holds (m_cpus cm c)" for c by (rule sim_holds [OF S(2)])
  then show ?thesis by (simp add: spin_available_def available_def S(1))
qed

lemma spin_sim_init: "spin_sim (spin_init C) (smp_init C)"
  by (simp add: spin_sim_def spin_init_def sec_sim_def smp_init_def)

text \<open>One CPU moves: what is left to show about it.\<close>

lemma spin_simI:
  assumes sim: "spin_sim m cm" and m': "sp_smp m' = (m_smp cm')\<lparr>sm_elem := E'\<rparr>" "sp_cpus m' = (sp_cpus m)(c := y')"
      "m_cpus cm' = (m_cpus cm)(c := z')"
    and free: "\<And>a. \<not> sp_locked m' a \<Longrightarrow> E' a = sm_elem (m_smp cm') a"
    and same: "\<And>a. sp_locked m a \<Longrightarrow> in_section (sp_cpus m c) \<noteq> Some a \<Longrightarrow>
      E' a = sm_elem (sp_smp m) a \<and> sm_elem (m_smp cm') a = sm_elem (m_smp cm) a"
    and c: "sec_sim y' z' E' (sm_elem (m_smp cm'))"
    and locks: "\<And>a. in_section y' = Some a \<Longrightarrow> in_section (sp_cpus m c) \<noteq> Some a \<Longrightarrow> \<not> sp_locked m a"
      "\<And>a. sp_locked m' a \<longleftrightarrow> in_section y' = Some a \<or> sp_locked m a \<and> in_section (sp_cpus m c) \<noteq> Some a"
  shows "spin_sim m' cm'"
proof -
  obtain E where S: "sp_smp m = (m_smp cm)\<lparr>sm_elem := E\<rparr>" "\<And>a. \<not> sp_locked m a \<Longrightarrow> E a = sm_elem (m_smp cm) a"
    "\<And>c. sec_sim (sp_cpus m c) (m_cpus cm c) E (sm_elem (m_smp cm))"
    "\<And>a. sp_locked m a \<longleftrightarrow> (\<exists>c. in_section (sp_cpus m c) = Some a)"
    "\<And>c c' a. in_section (sp_cpus m c) = Some a \<Longrightarrow> in_section (sp_cpus m c') = Some a \<Longrightarrow> c' = c"
    using sim by (rule spin_simE) (rule that)
  have "sec_sim (sp_cpus m' d) (m_cpus cm' d) E' (sm_elem (m_smp cm'))" for d
  proof (cases "d = c")
    case False
    have "E' a = E a \<and> sm_elem (m_smp cm') a = sm_elem (m_smp cm) a" if "in_section (sp_cpus m d) = Some a" for a
    proof -
      have "sp_locked m a" using S(4) [of a] that by blast
      moreover have "in_section (sp_cpus m c) \<noteq> Some a" using S(5) [of d a c] that False by auto
      ultimately show ?thesis using same [of a] S(1) by simp
    qed
    with S(3) [of d] False m'(2,3) show ?thesis by (auto intro: sec_sim_other)
  qed (use c m'(2,3) in simp)
  moreover have "sp_locked m' a \<longleftrightarrow> (\<exists>d. in_section (sp_cpus m' d) = Some a)" for a
  proof -
    have "(\<exists>d. in_section (sp_cpus m' d) = Some a) \<longleftrightarrow> in_section y' = Some a \<or> (\<exists>d. d \<noteq> c \<and> in_section (sp_cpus m d) = Some a)"
      unfolding m'(2) by (metis fun_upd_other fun_upd_same)
    also have "(\<exists>d. d \<noteq> c \<and> in_section (sp_cpus m d) = Some a) \<longleftrightarrow> sp_locked m a \<and> in_section (sp_cpus m c) \<noteq> Some a"
    proof
      assume "\<exists>d. d \<noteq> c \<and> in_section (sp_cpus m d) = Some a"
      then obtain d where d: "d \<noteq> c" "in_section (sp_cpus m d) = Some a" by blast
      then show "sp_locked m a \<and> in_section (sp_cpus m c) \<noteq> Some a" using S(4) [of a] S(5) [of d a c] by auto
    next
      assume l: "sp_locked m a \<and> in_section (sp_cpus m c) \<noteq> Some a"
      then obtain d where d: "in_section (sp_cpus m d) = Some a" using S(4) [of a] by blast
      with l have "d \<noteq> c" by auto
      with d show "\<exists>d. d \<noteq> c \<and> in_section (sp_cpus m d) = Some a" by blast
    qed
    finally show ?thesis using locks(2) by simp
  qed
  moreover have "d' = d" if d: "in_section (sp_cpus m' d) = Some a" "in_section (sp_cpus m' d') = Some a" for d d' a
  proof -
    have "\<not> (in_section y' = Some a \<and> e \<noteq> c \<and> in_section (sp_cpus m e) = Some a)" for e
    proof
      assume e: "in_section y' = Some a \<and> e \<noteq> c \<and> in_section (sp_cpus m e) = Some a"
      then have "sp_locked m a" "in_section (sp_cpus m c) \<noteq> Some a" using S(4) [of a] S(5) [of e a c] by auto
      then show False using locks(1) [of a] e by blast
    qed
    then have "d = c \<longleftrightarrow> d' = c" using d unfolding m'(2) by (metis fun_upd_other fun_upd_same)
    then show ?thesis using d S(5) [of d a d'] unfolding m'(2) by (cases "d = c") simp_all
  qed
  ultimately show ?thesis using m'(1) free unfolding spin_sim_def by blast
qed

section \<open>The machines step by step\<close>

text \<open>The simulating machine makes the step as well, or none.\<close>

definition follows :: "kernel \<Rightarrow> (u32 \<rightharpoonup> netsum_config) \<Rightarrow> smp_event list \<Rightarrow> spin \<Rightarrow> bool" where
  "follows K C tr m \<longleftrightarrow> (\<exists>cm. smp_trace K False (smp_init C) tr cm \<and> spin_sim m cm)"

lemma follows_acquire:
  assumes sim: "spin_sim m cm" and x: "sp_cpus m c = Outside (At_lock p x a)" and free: "\<not> sp_locked m a"
    and m': "m' = m\<lparr>sp_locked := (sp_locked m)(a := True), sp_cpus := (sp_cpus m)(c := Sec_len p x a)\<rparr>"
  shows "spin_sim m' cm"
proof -
  obtain E where S: "sp_smp m = (m_smp cm)\<lparr>sm_elem := E\<rparr>" "\<And>a. \<not> sp_locked m a \<Longrightarrow> E a = sm_elem (m_smp cm) a"
    "\<And>c. sec_sim (sp_cpus m c) (m_cpus cm c) E (sm_elem (m_smp cm))" using sim by (rule spin_simE) (rule that)
  have cx: "m_cpus cm c = At_lock p x a" using S(3) [of c] x by (simp add: sec_sim_def)
  have "sec_sim (Sec_len p x a) (At_lock p x a) E (sm_elem (m_smp cm))"
    using S(2) [OF free] section_rest_locked [of p x a "E a"] by (simp add: sec_sim_def del: section_rest.simps(2))
  moreover have "E b = sm_elem (m_smp cm) b" if "\<not> sp_locked m' b" for b
    using S(2) [of b] that by (auto simp: m' split: if_splits)
  ultimately show ?thesis
    using S(1) free x cx
    by (intro spin_simI [OF sim, where c = c and y' = "Sec_len p x a" and z' = "At_lock p x a" and E' = E])
      (auto simp: fun_upd_idem m')
qed

lemma follows_inner:
  assumes sim: "spin_sim m cm" and i: "inner (sp_smp m) (sp_cpus m c) S' y'"
    and m': "m' = m\<lparr>sp_smp := S', sp_locked := sp_locked m, sp_cpus := (sp_cpus m)(c := y')\<rparr>"
  shows "spin_sim m' cm"
proof -
  obtain E where S: "sp_smp m = (m_smp cm)\<lparr>sm_elem := E\<rparr>" "\<And>a. \<not> sp_locked m a \<Longrightarrow> E a = sm_elem (m_smp cm) a"
    "\<And>c. sec_sim (sp_cpus m c) (m_cpus cm c) E (sm_elem (m_smp cm))" "\<And>a. sp_locked m a \<longleftrightarrow> (\<exists>c. in_section (sp_cpus m c) = Some a)"
    using sim by (rule spin_simE) (rule that)
  obtain p p' x a s' where y: "sec_point (sp_cpus m c) = Some (p, x, a)" "sec_point y' = Some (p', x, a)" "S' = set_elem (sp_smp m) a s'"
    "section_rest y' s' = section_rest (sp_cpus m c) (E a)"
    "section_rest (sp_cpus m c) (E a) = Some None \<longrightarrow> s' = E a \<and> p' = p"
    using i unfolding inner_def by (elim exE conjE) (rule that, simp_all add: S(1))
  obtain p0 where z: "m_cpus cm c = At_lock p0 x a" "section_rest (sp_cpus m c) (E a) = xdp_locked p0 x (sm_elem (m_smp cm) a)"
    "section_rest (sp_cpus m c) (E a) = Some None \<longrightarrow> E a = sm_elem (m_smp cm) a \<and> p = p0"
    using S(3) [of c] y(1) by (auto simp: sec_sim_def)
  have a: "in_section (sp_cpus m c) = Some a" "in_section y' = Some a" using sec_point_element y(1,2) by blast+
  have l: "sp_locked m a" using S(4) a(1) by blast
  have c: "sec_sim y' (At_lock p0 x a) (E(a := s')) (sm_elem (m_smp cm))"
    using y(2,4,5) z(2,3) by (simp add: sec_sim_def)
  have free: "(E(a := s')) b = sm_elem (m_smp cm) b" if "\<not> sp_locked m' b" for b
    using S(2) [of b] that l by (auto simp: m')
  show ?thesis
    using S(1) y(3) a z(1) l c free
    by (intro spin_simI [OF sim, where c = c and y' = y' and z' = "At_lock p0 x a" and E' = "E(a := s')"])
      (auto simp: fun_upd_idem m')
qed

lemma follows_release:
  assumes sim: "spin_sim m cm" and i: "released (sp_smp m) (sp_cpus m c) S' y'" and a: "in_section (sp_cpus m c) = Some a"
    and m': "m' = m\<lparr>sp_smp := S', sp_locked := (sp_locked m)(a := False), sp_cpus := (sp_cpus m)(c := y')\<rparr>"
  shows "\<exists>S0 z'. cpu_step K new (m_smp cm) (m_cpus cm c) = Some (S0, z') \<and> y' = Outside z' \<and>
    spin_sim m' (acted c new S0 z' cm)"
proof -
  obtain E where S: "sp_smp m = (m_smp cm)\<lparr>sm_elem := E\<rparr>" "\<And>a. \<not> sp_locked m a \<Longrightarrow> E a = sm_elem (m_smp cm) a"
    "\<And>c. sec_sim (sp_cpus m c) (m_cpus cm c) E (sm_elem (m_smp cm))" using sim by (rule spin_simE) (rule that)
  obtain p x where y: "sec_point (sp_cpus m c) = Some (p, x, a)" "S' = sp_smp m"
    "section_rest (sp_cpus m c) (E a) = Some None \<and> y' = Outside (Done XDP_DROP p) \<or>
      (\<exists>b n. section_rest (sp_cpus m c) (E a) = Some (Some (E a, p, b, n)) \<and>
         y' = Outside (if b then At_config p (xp_key x) n else Done XDP_DROP p))"
    using i sec_point_element a unfolding released_def S(1) by fastforce
  obtain p0 where z: "m_cpus cm c = At_lock p0 x a" "section_rest (sp_cpus m c) (E a) = xdp_locked p0 x (sm_elem (m_smp cm) a)"
    "section_rest (sp_cpus m c) (E a) = Some None \<longrightarrow> E a = sm_elem (m_smp cm) a \<and> p = p0"
    using S(3) [of c] y(1) by (auto simp: sec_sim_def)
  let ?S0 = "set_elem (m_smp cm) a (E a)"
  obtain z' where st: "cpu_step K new (m_smp cm) (m_cpus cm c) = Some (?S0, z')" "y' = Outside z'"
    using y(3)
  proof (elim disjE exE conjE)
    assume "section_rest (sp_cpus m c) (E a) = Some None" "y' = Outside (Done XDP_DROP p)"
    then show thesis using z by (intro that [of "Done XDP_DROP p"]) simp_all
  next
    fix b n assume "section_rest (sp_cpus m c) (E a) = Some (Some (E a, p, b, n))" "y' = Outside (if b then At_config p (xp_key x) n else Done XDP_DROP p)"
    then show thesis using z by (intro that [of "if b then At_config p (xp_key x) n else Done XDP_DROP p"]) simp_all
  qed
  have free: "E b = sm_elem ?S0 b" if "\<not> sp_locked m' b" for b
    using S(2) [of b] that by (cases "b = a") (simp_all add: m')
  have sec: "in_section y' = None" by (simp add: st(2))
  have "spin_sim m' (acted c new ?S0 z' cm)"
  proof (rule spin_simI [OF sim, where c = c and y' = y' and z' = z' and E' = E])
    show "sp_smp m' = (m_smp (acted c new ?S0 z' cm))\<lparr>sm_elem := E\<rparr>" using S(1) y(2) by (simp add: m')
    show "E b = sm_elem (m_smp (acted c new ?S0 z' cm)) b" if "\<not> sp_locked m' b" for b using free [OF that] by simp
    show "E b = sm_elem (sp_smp m) b \<and> sm_elem (m_smp (acted c new ?S0 z' cm)) b = sm_elem (m_smp cm) b"
      if "in_section (sp_cpus m c) \<noteq> Some b" for b using that a S(1) by simp
    show "sec_sim y' z' E (sm_elem (m_smp (acted c new ?S0 z' cm)))" using st(2) by (simp add: sec_sim_def)
    show "sp_locked m' b \<longleftrightarrow> in_section y' = Some b \<or> sp_locked m b \<and> in_section (sp_cpus m c) \<noteq> Some b" for b
      using a sec by (simp add: m')
  qed (use sec in \<open>simp_all add: m'\<close>)
  with st show ?thesis by blast
qed


lemma spin_holds_section: "in_section y = Some a \<Longrightarrow> a \<in> spin_holds y"
  by (cases y) (simp_all add: spin_holds_def)

lemma section_leaves_nothing: "sec_point y = Some t \<Longrightarrow> spin_leaving y = []"
  by (cases y) (simp_all add: spin_leaving_def)

lemma follows_arrival:
  assumes sim: "spin_sim m cm" and ready: "spin_ready (sp_cpus m c)"
  shows "cpu_ready (m_cpus cm c)" "spin_sim (m\<lparr>sp_cpus := (sp_cpus m)(c := Outside (At_parse p))\<rparr>)
    (cm\<lparr>m_cpus := (m_cpus cm)(c := At_parse p), m_received := insert p (m_received cm)\<rparr>)"
proof -
  obtain E where S: "sp_smp m = (m_smp cm)\<lparr>sm_elem := E\<rparr>" "\<And>a. \<not> sp_locked m a \<Longrightarrow> E a = sm_elem (m_smp cm) a"
    "\<And>c. sec_sim (sp_cpus m c) (m_cpus cm c) E (sm_elem (m_smp cm))" using sim by (rule spin_simE) (rule that)
  show "cpu_ready (m_cpus cm c)" using sim_ready [OF S(3) [of c]] ready by simp
  have sec: "in_section (sp_cpus m c) = None" using ready by (cases "sp_cpus m c") (simp_all add: spin_ready_def)
  show "spin_sim (m\<lparr>sp_cpus := (sp_cpus m)(c := Outside (At_parse p))\<rparr>)
      (cm\<lparr>m_cpus := (m_cpus cm)(c := At_parse p), m_received := insert p (m_received cm)\<rparr>)" (is "spin_sim ?m ?cm")
  proof (rule spin_simI [OF sim, where c = c and y' = "Outside (At_parse p)" and z' = "At_parse p" and E' = E])
    show "sp_smp ?m = (m_smp ?cm)\<lparr>sm_elem := E\<rparr>" using S(1) by simp
    show "E a = sm_elem (m_smp ?cm) a" if "\<not> sp_locked ?m a" for a using S(2) that by simp
    show "E a = sm_elem (sp_smp m) a \<and> sm_elem (m_smp ?cm) a = sm_elem (m_smp cm) a" for a using S(1) by simp
  qed (simp_all add: sec sec_sim_def)
qed

lemma follows_outside:
  assumes sim: "spin_sim m cm" and x: "sp_cpus m c = Outside z" and z: "\<And>p x a. z \<noteq> At_lock p x a"
    and st: "spin_cpu_step K new (sp_smp m) (sp_locked m) (sp_cpus m c) = Some (S', locked', y')" and av: "spin_available m new"
    and room: "\<And>k. slot_room K (smp_slots (m_smp cm)) k \<longleftrightarrow> slot_room K (smp_slots (sp_smp m)) k"
    and m': "m' = m\<lparr>sp_smp := S', sp_locked := locked', sp_cpus := (sp_cpus m)(c := y')\<rparr>"
  shows "\<exists>S0 z'. cpu_step K new (m_smp cm) (m_cpus cm c) = Some (S0, z') \<and> y' = Outside z' \<and> spin_sim m' (acted c new S0 z' cm)"
proof -
  obtain E where S: "sp_smp m = (m_smp cm)\<lparr>sm_elem := E\<rparr>" "\<And>a. \<not> sp_locked m a \<Longrightarrow> E a = sm_elem (m_smp cm) a"
    "\<And>c. sec_sim (sp_cpus m c) (m_cpus cm c) E (sm_elem (m_smp cm))" "\<And>a. sp_locked m a \<longleftrightarrow> (\<exists>c. in_section (sp_cpus m c) = Some a)"
    using sim by (rule spin_simE) (rule that)
  have cx: "m_cpus cm c = z" using S(3) [of c] x by (simp add: sec_sim_def)
  obtain z' where st': "cpu_step K new (sp_smp m) z = Some (S', z')" "locked' = sp_locked m" "y' = Outside z'"
    using st z unfolding x by (rule spin_outside_step)
  have e: "(sp_smp m)\<lparr>sm_elem := sm_elem (m_smp cm)\<rparr> = m_smp cm" by (simp add: S(1))
  obtain E1 where E1: "cpu_step K new (m_smp cm) z = Some (S'\<lparr>sm_elem := E1\<rparr>, z')"
    "E1 = sm_elem (m_smp cm) \<and> sm_elem S' = E \<or> (\<exists>s. E1 = (sm_elem (m_smp cm))(new := s) \<and> sm_elem S' = E(new := s))"
    using cpu_step_elem [OF st'(1) z, of "sm_elem (m_smp cm)", unfolded e, OF room] by (auto simp: S(1))
  let ?cm = "acted c new (S'\<lparr>sm_elem := E1\<rparr>) z' cm"
  have new: "a \<noteq> new" if "sp_locked m a" for a
    using that S(4) [of a] spin_holds_section av by (auto simp: spin_available_def)
  have "spin_sim m' ?cm"
  proof (rule spin_simI [OF sim, where c = c and y' = y' and z' = z' and E' = "sm_elem S'"])
    show "sm_elem S' a = sm_elem (m_smp ?cm) a" if "\<not> sp_locked m' a" for a
      using S(2) [of a] that E1(2) st'(2) by (auto simp: m')
    show "sm_elem S' a = sm_elem (sp_smp m) a \<and> sm_elem (m_smp ?cm) a = sm_elem (m_smp cm) a" if "sp_locked m a" for a
      using new [OF that] E1(2) S(1) by auto
  qed (use st'(2,3) x in \<open>simp_all add: m' sec_sim_def\<close>)
  with E1(1) cx st'(3) show ?thesis by blast
qed

text \<open>How many slots there are does not depend on what is in them.\<close>

lemma same_room:
  assumes "spin_sim m cm" "finite (dom (sm_index (m_smp cm)))" "room_up_to n (slot_room K)"
  shows "slot_room K (smp_slots (m_smp cm)) k \<longleftrightarrow> slot_room K (smp_slots (sp_smp m)) k"
proof -
  obtain E where S: "sp_smp m = (m_smp cm)\<lparr>sm_elem := E\<rparr>" using assms(1) by (rule spin_simE) (rule that)
  have "dom (smp_slots (m_smp cm)) = dom (sm_index (m_smp cm))" "dom (smp_slots (sp_smp m)) = dom (sm_index (m_smp cm))"
    by (auto simp: smp_slots_def dom_def S)
  then show ?thesis using assms(2,3) by (simp add: room_up_to_def)
qed

lemma follows_step:
  assumes F: "follows K C tr m" and room: "room_up_to n (slot_room K)" and st: "spin_step K m evs m'"
  shows "follows K C (tr @ evs) m'"
proof -
  obtain cm where T: "smp_trace K False (smp_init C) tr cm" and sim: "spin_sim m cm" using F by (auto simp: follows_def)
  from st show ?thesis
  proof (cases rule: spin_stepE [consumes 1, case_names receive act])
    case (receive c p)
    from smp_trace.arrival [OF T follows_arrival(1) [OF sim receive(3)]] follows_arrival(2) [OF sim receive(3)]
    show ?thesis unfolding receive(1,2) follows_def by blast
  next
    case (act new c S' locked' y')
    have av: "available False cm new" using act(4) sim_available [OF sim] by simp
    have go: ?thesis if "\<exists>S0 z'. cpu_step K new (m_smp cm) (m_cpus cm c) = Some (S0, z') \<and> y' = Outside z' \<and> spin_sim m' (acted c new S0 z' cm)"
    proof -
      from that obtain S0 z' where z: "cpu_step K new (m_smp cm) (m_cpus cm c) = Some (S0, z')" "y' = Outside z'" "spin_sim m' (acted c new S0 z' cm)" by blast
      have "evs = leaving z'" unfolding act(1) z(2) by (simp add: spin_leaving_def)
      with smp_trace.action [OF T z(1) av] z(3) show ?thesis unfolding follows_def by blast
    qed
    consider (acquire) p x a where "sp_cpus m c = Outside (At_lock p x a)" | (outside) z where "sp_cpus m c = Outside z" "\<And>p x a. z \<noteq> At_lock p x a"
      | (inside) a where "in_section (sp_cpus m c) = Some a" by (cases "sp_cpus m c") fastforce+
    then show ?thesis
    proof cases
      case acquire
      then have s: "\<not> sp_locked m a" "S' = sp_smp m" "locked' = (sp_locked m)(a := True)" "y' = Sec_len p x a"
        using act(3) by (auto split: if_splits)
      have "spin_sim m' cm" by (rule follows_acquire [OF sim acquire s(1)]) (simp add: act(2) s)
      moreover have "evs = []" unfolding act(1) s(4) by (simp add: spin_leaving_def)
      ultimately show ?thesis using T unfolding follows_def by auto
    next
      case outside
      have "finite (dom (sm_index (m_smp cm)))"
        using smp_steps_finitely_busy [OF smp_trace_steps [OF T] smp_init_finitely_busy] by (simp add: finitely_busy_def)
      from follows_outside [OF sim outside act(3,4) same_room [OF sim this room] act(2)] show ?thesis by (rule go)
    next
      case inside
      from section_step [OF act(3) inside] show ?thesis
      proof (elim disjE conjE)
        assume i: "inner (sp_smp m) (sp_cpus m c) S' y'" "locked' = sp_locked m"
        have "spin_sim m' cm" by (rule follows_inner [OF sim i(1)]) (simp add: act(2) i(2))
        moreover have "evs = []" unfolding act(1) using i(1) section_leaves_nothing by (auto simp: inner_def)
        ultimately show ?thesis using T unfolding follows_def by auto
      next
        assume i: "released (sp_smp m) (sp_cpus m c) S' y'" "locked' = (sp_locked m)(a := False)"
        from follows_release [OF sim i(1) inside act(2) [unfolded i(2)]] show ?thesis by (rule go)
      qed
    qed
  qed
qed

text \<open>Every trace of the machine with the lock is one of the machine whose section is atomic.\<close>

lemma spin_follows:
  assumes "spin_trace K (spin_init C) tr m" "room_up_to n (slot_room K)"
  shows "follows K C tr m"
  using assms(1)
proof (induction rule: spin_trace.induct)
  case start
  show ?case unfolding follows_def using smp_trace.start spin_sim_init by blast
next
  case (step tr m evs m')
  then show ?case by (rule_tac follows_step [OF _ assms(2)])
qed

end
