(* ===== verification/Xdp_Spin_Drain.thy ===== *)
theory Xdp_Spin_Drain
  imports Xdp_Spin_Sim
begin

text \<open>
  Termination of the kernel aggregator with its spin lock: whoever holds the lock can act, so that a CPU that waits for it
  gets it, and every packet is dealt with.
\<close>

fun spin_rank :: "spin_cpu \<Rightarrow> nat" where
  "spin_rank (Outside x) = (if cpu_rank x < 8 then cpu_rank x else cpu_rank x + 201)"
| "spin_rank (Sec_len p x a) = 208"
| "spin_rank (Sec_mismatch p x a) = 8"
| "spin_rank (Sec_test p x a) = 207"
| "spin_rank (Sec_mark p x a byte) = 206"
| "spin_rank (Sec_add p x a i) = 77 + 2 * (64 - i)"
| "spin_rank (Sec_sum p x a i s) = 78 + 2 * (63 - i)"
| "spin_rank (Sec_count p x a) = 76"
| "spin_rank (Sec_counted p x a n) = 75"
| "spin_rank (Sec_last p x a) = 74"
| "spin_rank (Sec_write p x a n i) = 9 + (64 - i)"
| "spin_rank (Sec_unlock p x a b n) = 8"

lemma spin_rank_ready: "spin_rank y = 0 \<longleftrightarrow> spin_ready y"
  by (cases y) (auto simp: spin_ready_def cpu_rank_ready [symmetric])

lemma spin_rank_bound: "spin_rank y \<le> 217"
proof (cases y)
  case (Outside x)
  then show ?thesis using cpu_rank_bound [of x] by simp
qed simp_all

lemma spin_cpu_step_rank:
  assumes st: "spin_cpu_step K new S locked y = Some (S', locked', y')"
  shows "spin_rank y' < spin_rank y"
proof (cases y)
  case (Outside z)
  show ?thesis
  proof (cases "\<exists>p x a. z = At_lock p x a")
    case True
    then show ?thesis using st Outside by (auto split: if_splits)
  next
    case False
    then have "\<And>p x a. z \<noteq> At_lock p x a" by blast
    with st obtain z' where "cpu_step K new S z = Some (S', z')" "y' = Outside z'"
      unfolding Outside by (rule spin_outside_step)
    then show ?thesis using Outside cpu_step_rank by fastforce
  qed
qed (use st in \<open>auto simp: bind_eq_Some_conv proto_consts split: if_splits\<close>)

section \<open>Actions without arrivals\<close>

definition spin_busy :: "spin \<Rightarrow> nat set" where
  "spin_busy m = {c. \<not> spin_ready (sp_cpus m c)}"

definition spin_act :: "kernel \<Rightarrow> spin \<Rightarrow> spin \<Rightarrow> bool" where
  "spin_act K m m' \<longleftrightarrow> (\<exists>evs. spin_step K m evs m' \<and> (\<forall>p. Arrives p \<notin> set evs))"

definition spin_work :: "spin \<Rightarrow> nat" where
  "spin_work m = (\<Sum>c\<in>spin_busy m. spin_rank (sp_cpus m c))"

lemma spin_work_bound: "spin_work m \<le> 217 * card (spin_busy m)"
  using sum_bounded_above [of "spin_busy m" "\<lambda>c. spin_rank (sp_cpus m c)" 217] spin_rank_bound by (simp add: spin_work_def mult.commute)

lemma spin_act_work:
  assumes "spin_act K m m'" and fin: "finite (spin_busy m)"
  shows "spin_work m' < spin_work m"
proof -
  obtain evs where st: "spin_step K m evs m'" "\<And>p. Arrives p \<notin> set evs" using assms(1) by (auto simp: spin_act_def)
  from st(1) show ?thesis
  proof (cases rule: spin_stepE [consumes 1, case_names receive act])
    case (receive c p)
    with st(2) [of p] show ?thesis by simp
  next
    case (act new c S' locked' y')
    have r: "spin_rank y' < spin_rank (sp_cpus m c)" by (rule spin_cpu_step_rank [OF act(3)])
    have cpus: "sp_cpus m' = (sp_cpus m)(c := y')" unfolding act(2) by simp
    have "0 < spin_rank (sp_cpus m c)" using r by simp
    then have c: "c \<in> spin_busy m" using spin_rank_ready [of "sp_cpus m c"] by (simp add: spin_busy_def)
    have "spin_work m' = (\<Sum>c\<in>spin_busy m. spin_rank (sp_cpus m' c))"
      unfolding spin_work_def by (rule sum.mono_neutral_left [OF fin]) (use c in \<open>auto simp: spin_busy_def cpus spin_rank_ready\<close>)
    also have "\<dots> < spin_work m"
      unfolding spin_work_def using r by (intro sum_strict_mono_ex1 [OF fin]) (auto simp: cpus c)
    finally show ?thesis .
  qed
qed

section \<open>Progress\<close>

text \<open>A CPU waits when another one has taken the lock it needs.\<close>

definition spin_waits :: "spin \<Rightarrow> nat \<Rightarrow> bool" where
  "spin_waits m c \<longleftrightarrow> (\<exists>p x a. sp_cpus m c = Outside (At_lock p x a) \<and> sp_locked m a)"

lemma spin_can_step:
  assumes T: "smp_trace K False (smp_init C) tr cm" and C: "mac_ok C" and sim: "spin_sim m cm" and room: "room_up_to n (slot_room K)"
    and c: "\<not> spin_ready (sp_cpus m c)" "\<not> spin_waits m c"
  shows "spin_cpu_step K new (sp_smp m) (sp_locked m) (sp_cpus m c) \<noteq> None"
proof -
  obtain E where S: "sp_smp m = (m_smp cm)\<lparr>sm_elem := E\<rparr>" "\<And>c. sec_sim (sp_cpus m c) (m_cpus cm c) E (sm_elem (m_smp cm))"
    using sim by (rule spin_simE) (rule that)
  have I: "machine_inv False C cm" by (rule smp_trace_inv [OF T C])
  have "\<not> cpu_ready (m_cpus cm c)" using sim_ready [OF S(2) [of c]] c(1) by simp
  with cpu_step_total [OF I C machine_invD(7) [OF I], where new = new] obtain S0 z'
    where st: "cpu_step K new (m_smp cm) (m_cpus cm c) = Some (S0, z')" by blast
  from S(2) [of c] show ?thesis
  proof (cases rule: sec_simE)
    case outside
    show ?thesis
    proof (cases "\<exists>p x a. m_cpus cm c = At_lock p x a")
      case True
      then show ?thesis using c(2) outside by (auto simp: spin_waits_def)
    next
      case False
      have "finite (dom (sm_index (m_smp cm)))"
        using smp_steps_finitely_busy [OF smp_trace_steps [OF T] smp_init_finitely_busy] by (simp add: finitely_busy_def)
      from same_room [OF sim this room] have r: "slot_room K (smp_slots ((m_smp cm)\<lparr>sm_elem := E\<rparr>)) k \<longleftrightarrow> slot_room K (smp_slots (m_smp cm)) k" for k
        unfolding S(1) by simp
      have "\<And>p x a. m_cpus cm c \<noteq> At_lock p x a" using False by blast
      from cpu_step_elem [OF st this r] show ?thesis
        unfolding outside S(1) using False by (cases "m_cpus cm c") auto
    qed
  next
    case (inside p x a p0)
    have "xdp_locked p0 x (sm_elem (m_smp cm) a) \<noteq> None" using st inside(2) by (auto simp: bind_eq_Some_conv)
    with inside(3) have "section_rest (sp_cpus m c) (sm_elem (sp_smp m) a) \<noteq> None" using S(1) by simp
    then show ?thesis by (rule section_can_step [OF sec_point_element [OF inside(1)]])
  qed
qed

lemma sim_busy:
  assumes "spin_sim m cm"
  shows "spin_busy m = busy cm"
proof -
  obtain E where S: "\<And>c. sec_sim (sp_cpus m c) (m_cpus cm c) E (sm_elem (m_smp cm))" using assms by (rule spin_simE) (rule that)
  have "spin_ready (sp_cpus m c) \<longleftrightarrow> cpu_ready (m_cpus cm c)" for c by (rule sim_ready [OF S])
  then show ?thesis by (simp add: spin_busy_def busy_def)
qed

lemma sim_locks: "spin_sim m cm \<Longrightarrow> sp_locked m a \<longleftrightarrow> (\<exists>c. in_section (sp_cpus m c) = Some a)"
  unfolding spin_sim_def by (elim conjE allE)

lemma sim_exclusive: "spin_sim m cm \<Longrightarrow> in_section (sp_cpus m c) = Some a \<Longrightarrow> in_section (sp_cpus m c') = Some a \<Longrightarrow> c' = c"
  unfolding spin_sim_def by metis

lemma sim_unlocked: "spin_sim m cm \<Longrightarrow> \<not> sp_locked m a \<Longrightarrow> sm_elem (sp_smp m) a = sm_elem (m_smp cm) a"
  unfolding spin_sim_def by auto

text \<open>While a CPU is busy one can act: it, or the one that holds the lock it waits for.\<close>

lemma spin_act_exists:
  assumes F: "follows K C tr m" and C: "mac_ok C" and room: "room_up_to n (slot_room K)" and c: "c \<in> spin_busy m"
  shows "\<exists>m'. spin_act K m m'"
proof -
  obtain cm where T: "smp_trace K False (smp_init C) tr cm" and sim: "spin_sim m cm" using F by (auto simp: follows_def)
  note L = sim_locks [OF sim]
  obtain d where d: "\<not> spin_ready (sp_cpus m d)" "\<not> spin_waits m d"
  proof (cases "spin_waits m c")
    case True
    then obtain a where "sp_locked m a" by (auto simp: spin_waits_def)
    then obtain d where "in_section (sp_cpus m d) = Some a" using L [of a] by blast
    then show thesis by (intro that [of d]) (cases "sp_cpus m d"; simp add: spin_ready_def spin_waits_def)+
  qed (use c that in \<open>simp add: spin_busy_def\<close>)
  obtain new where "available False cm new"
    using available_exists [OF smp_steps_finitely_busy [OF smp_trace_steps [OF T] smp_init_finitely_busy]] by blast
  then have new: "spin_available m new" using sim_available [OF sim] by simp
  obtain S' locked' y' where st: "spin_cpu_step K new (sp_smp m) (sp_locked m) (sp_cpus m d) = Some (S', locked', y')"
    using spin_can_step [OF T C sim room d, of new] by auto
  have "Arrives p \<notin> set (spin_leaving y')" for p
  proof (cases y')
    case (Outside z)
    then show ?thesis by (cases z) (simp_all add: spin_leaving_def)
  qed (simp_all add: spin_leaving_def)
  with spin_step.act [OF st new] show ?thesis unfolding spin_act_def by blast
qed

section \<open>Runs without arrivals\<close>

lemma spin_acts_trace:
  assumes "(spin_act K ^^ n) m m'" "spin_trace K m0 tr m"
  shows "\<exists>tr'. spin_trace K m0 (tr @ tr') m' \<and> (\<forall>p. Arrives p \<notin> set tr')"
  using assms(1)
proof (induction n arbitrary: m')
  case 0
  then show ?case using assms(2) by (intro exI [of _ "[]"]) simp
next
  case (Suc n)
  then obtain m1 where m1: "(spin_act K ^^ n) m m1" "spin_act K m1 m'" by auto
  from Suc.IH [OF m1(1)] obtain tr' where tr': "spin_trace K m0 (tr @ tr') m1" "\<forall>p. Arrives p \<notin> set tr'" by blast
  obtain evs where "spin_step K m1 evs m'" "\<forall>p. Arrives p \<notin> set evs" using m1(2) by (auto simp: spin_act_def)
  with spin_trace.step [OF tr'(1)] tr'(2) show ?case by (intro exI [of _ "tr' @ evs"]) simp
qed

lemma spin_finitely_busy:
  assumes "spin_trace K (spin_init C) tr m" "room_up_to n (slot_room K)"
  shows "finite (spin_busy m)"
proof -
  obtain cm where T: "smp_trace K False (smp_init C) tr cm" and sim: "spin_sim m cm" using spin_follows [OF assms] by (auto simp: follows_def)
  show ?thesis
    using smp_steps_finitely_busy [OF smp_trace_steps [OF T] smp_init_finitely_busy] sim_busy [OF sim] by (simp add: finitely_busy_def)
qed

lemma spin_acts_bounded:
  assumes T: "spin_trace K (spin_init C) tr m" and room: "room_up_to k (slot_room K)" and a: "(spin_act K ^^ n) m m'"
  shows "n + spin_work m' \<le> spin_work m"
  using a
proof (induction n arbitrary: m')
  case (Suc n)
  then obtain m1 where m1: "(spin_act K ^^ n) m m1" "spin_act K m1 m'" by auto
  obtain tr' where "spin_trace K (spin_init C) (tr @ tr') m1" using spin_acts_trace [OF m1(1) T] by blast
  from spin_act_work [OF m1(2) spin_finitely_busy [OF this room]] Suc.IH [OF m1(1)] show ?case by simp
qed simp

text \<open>No more packets need come in for the CPUs to get through with theirs.\<close>

lemma spin_finishes:
  assumes "spin_trace K (spin_init C) tr m" "mac_ok C" "room_up_to k (slot_room K)"
  shows "\<exists>n m'. (spin_act K ^^ n) m m' \<and> spin_busy m' = {}"
  using assms(1)
proof (induction "spin_work m" arbitrary: m tr rule: less_induct)
  case less
  show ?case
  proof (cases "spin_busy m = {}")
    case True
    then show ?thesis by (intro exI [of _ 0] exI [of _ m]) simp
  next
    case False
    then obtain m1 where m1: "spin_act K m m1" using spin_act_exists [OF spin_follows [OF less.prems assms(3)] assms(2,3)] by blast
    then obtain tr1 where tr1: "spin_trace K (spin_init C) (tr @ tr1) m1" using spin_acts_trace [of 1 K m m1, OF _ less.prems] by auto
    obtain n m' where n: "(spin_act K ^^ n) m1 m'" "spin_busy m' = {}"
      using less.hyps [OF spin_act_work [OF m1 spin_finitely_busy [OF less.prems assms(3)]] tr1] by blast
    have "(spin_act K ^^ Suc n) m m'" using m1 n(1) by (rule relpowp_Suc_I2)
    with n(2) show ?thesis by blast
  qed
qed

lemma spin_ready_stuck: "(\<And>c. spin_ready (sp_cpus m c)) \<Longrightarrow> \<not> spin_act K m m'"
proof
  assume ready: "\<And>c. spin_ready (sp_cpus m c)" and "spin_act K m m'"
  then obtain evs where st: "spin_step K m evs m'" "\<And>p. Arrives p \<notin> set evs" by (auto simp: spin_act_def)
  from st(1) show False
  proof (cases rule: spin_stepE [consumes 1, case_names receive act])
    case (receive c p)
    with st(2) [of p] show ?thesis by simp
  next
    case (act new c S' locked' y')
    with spin_cpu_step_rank [OF act(3)] ready [of c] spin_rank_ready [of "sp_cpus m c"] show ?thesis by simp
  qed
qed

lemma spin_stuck_ready:
  assumes T: "spin_trace K (spin_init C) tr m" and C: "mac_ok C" and room: "room_up_to k (slot_room K)" and stuck: "\<And>m'. \<not> spin_act K m m'"
  shows "spin_ready (sp_cpus m c) \<and> \<not> sp_locked m a"
proof -
  note F = spin_follows [OF T room]
  have ready: "spin_ready (sp_cpus m c)" for c using spin_act_exists [OF F C room] stuck by (auto simp: spin_busy_def)
  have "in_section (sp_cpus m c) \<noteq> Some a" for c using ready [of c] by (cases "sp_cpus m c") (simp_all add: spin_ready_def)
  moreover obtain cm where "spin_sim m cm" using F by (auto simp: follows_def)
  then have "sp_locked m a \<longleftrightarrow> (\<exists>c. in_section (sp_cpus m c) = Some a)" by (rule sim_locks)
  ultimately show ?thesis using ready by simp
qed

end
