(* ===== verification/Xdp_Smp_Races.thy ===== *)
theory Xdp_Smp_Races
  imports Xdp_Smp_Rounds
begin

text \<open>
  Runs of the kernel aggregator on several CPUs, put together from the actions of one CPU at a time: what each
  stretch does to the slots and to the history. From them two races are built: a slot handed out again under a CPU's
  hands, and an admission check overtaken by other CPUs.
\<close>

section \<open>Stretches of one CPU\<close>

text \<open>An action of CPU \<open>c\<close> that leaves the history alone.\<close>

lemma act_plain:
  assumes "cpu_step K new (m_smp m) (m_cpus m c) = Some (S', x')" "available e m new"
    and "\<And>p y n. m_cpus m c \<noteq> At_create p y n" "\<And>p y a. m_cpus m c \<noteq> At_lock p y a"
  shows "smp_step K e m (m\<lparr>m_smp := S', m_cpus := (m_cpus m)(c := x')\<rparr>)"
proof -
  have "m_history c new S' x' m = m" using assms(3,4) by (auto simp: m_history_def split: cpu.split)
  with act [OF assms(1,2)] show ?thesis by simp
qed

lemma available_upd:
  assumes "available e m new" "ran (sm_index S') \<subseteq> ran (sm_index (m_smp m))" "cpu_holds x' \<subseteq> cpu_holds (m_cpus m c)"
  shows "available e (m\<lparr>m_smp := S', m_cpus := (m_cpus m)(c := x')\<rparr>) new"
proof -
  have "e \<or> new \<notin> cpu_holds x'" using assms(1,3) by (auto simp: available_def)
  then show ?thesis using assms(1,2) by (auto simp: available_def)
qed

text \<open>What the runs below keep track of: everything but the quota, the statistics and the contents of the elements.\<close>

definition agrees :: "machine \<Rightarrow> machine \<Rightarrow> bool" where
  "agrees m m' \<longleftrightarrow> sm_index (m_smp m') = sm_index (m_smp m) \<and> sm_config_map (m_smp m') = sm_config_map (m_smp m) \<and>
     m_received m' = m_received m \<and> m_log m' = m_log m \<and> m_creator m' = m_creator m \<and> m_round m' = m_round m"

lemma agrees_refl [simp]: "agrees m m"
  by (simp add: agrees_def)

lemma agrees_trans: "agrees m m' \<Longrightarrow> agrees m' m'' \<Longrightarrow> agrees m m''"
  by (simp add: agrees_def)

text \<open>A packet comes in and reaches the slot lookup.\<close>

definition looking_up :: "nat \<Rightarrow> bytes \<Rightarrow> machine \<Rightarrow> machine" where
  "looking_up c p m = m\<lparr>m_received := insert p (m_received m), m_cpus := (m_cpus m)(c := At_lookup p (parsed_of p))\<rparr>"

lemma steps_arrive:
  assumes "cpu_ready (m_cpus m c)" "xdp_match p" "xdp_valid p" "available e m new"
  shows "smp_steps K e m (looking_up c p m)"
proof -
  let ?m = "m\<lparr>m_cpus := (m_cpus m)(c := At_parse p), m_received := insert p (m_received m)\<rparr>"
  have "available e ?m new"
    using available_upd [OF assms(4), of "m_smp m" "At_parse p" c] by (simp add: available_def)
  then have "smp_step K e ?m (?m\<lparr>m_smp := m_smp ?m, m_cpus := (m_cpus ?m)(c := At_lookup p (parsed_of p))\<rparr>)"
    using assms(2,3) by (intro act_plain) (simp_all add: xdp_parse_eq)
  with receive [OF assms(1), of K e p] show ?thesis by (simp add: looking_up_def)
qed

lemma looking_up_simps [simp]:
  "m_smp (looking_up c p m) = m_smp m" "m_cpus (looking_up c p m) = (m_cpus m)(c := At_lookup p (parsed_of p))"
  "m_received (looking_up c p m) = insert p (m_received m)" "m_log (looking_up c p m) = m_log m"
  "m_creator (looking_up c p m) = m_creator m" "m_round (looking_up c p m) = m_round m"
  by (simp_all add: looking_up_def)

text \<open>The slot is there.\<close>

lemma step_find:
  assumes "m_cpus m c = At_lookup p (parsed_of p)" "sm_index (m_smp m) (key_of (xdp_hdr p)) = Some a" "available e m new"
  shows "smp_step K e m (m\<lparr>m_cpus := (m_cpus m)(c := At_lock p (parsed_of p) a)\<rparr>)"
  using act_plain [of K new m c "m_smp m" "At_lock p (parsed_of p) a" e] assms by simp

text \<open>It is not, and the packet passes the admission check.\<close>

lemma steps_admit:
  assumes "m_cpus m c = At_lookup p (parsed_of p)" "sm_index (m_smp m) (key_of (xdp_hdr p)) = None" "available e m new"
    and p: "xdp_match p" "workers_ok (gh_num_workers (xdp_hdr p))"
    and q: "sm_config_map (m_smp m) 0 = Some cfg" "max_slots_per_job cfg = 0 \<or> sm_job_quota_map (m_smp m) (gh_job_id (xdp_hdr p)) = None"
  shows "smp_steps K e m (m\<lparr>m_cpus := (m_cpus m)(c := At_create p (parsed_of p) (gh_num_workers (xdp_hdr p)))\<rparr>)"
proof -
  let ?m = "m\<lparr>m_cpus := (m_cpus m)(c := At_admission p (parsed_of p))\<rparr>"
  have 1: "smp_step K e m ?m"
    using act_plain [of K new m c "m_smp m" "At_admission p (parsed_of p)" e] assms(1-3) by simp
  have av: "available e ?m new" using available_upd [OF assms(3), of "m_smp m" "At_admission p (parsed_of p)" c] by simp
  have w: "wire16 p 56 \<noteq> 0" "unat (wire16 p 56) \<le> 256" using p(2) by (auto simp: workers_ok_def)
  have "k_job_id (key_of (xdp_hdr p)) = gh_job_id (xdp_hdr p)" by (simp add: key_of_def)
  then have "cpu_step K new (m_smp m) (At_admission p (parsed_of p)) = Some (m_smp m, At_create p (parsed_of p) (gh_num_workers (xdp_hdr p)))"
    using p(1) w q by (auto simp: xdp_match_def wire_load MAX_TRACKED_WORKERS_BITMAP_BYTES_def Let_def split: option.split)
  then have "smp_step K e ?m (?m\<lparr>m_smp := m_smp ?m, m_cpus := (m_cpus ?m)(c := At_create p (parsed_of p) (gh_num_workers (xdp_hdr p)))\<rparr>)"
    using av by (intro act_plain) simp_all
  with 1 show ?thesis by simp
qed

text \<open>Counting the slot leads to the lock, whatever the quota map does.\<close>

lemma steps_count:
  assumes "m_cpus m c = At_count p x a" "available e m new"
  shows "\<exists>m'. smp_steps K e m m' \<and> agrees m m' \<and> m_cpus m' = (m_cpus m)(c := At_lock p x a)"
proof (cases "sm_job_quota_map (m_smp m) (k_job_id (xp_key x))")
  case (Some jq)
  from act_plain [of K new m c _ "At_lock p x a" e] assms Some show ?thesis
    by (intro exI [of _ "m\<lparr>m_smp := _, m_cpus := (m_cpus m)(c := At_lock p x a)\<rparr>"]) (auto simp: agrees_def)
next
  case None
  let ?m = "m\<lparr>m_cpus := (m_cpus m)(c := At_count_insert p x a)\<rparr>"
  have 1: "smp_step K e m ?m"
    using act_plain [of K new m c "m_smp m" "At_count_insert p x a" e] assms None by simp
  have av: "available e ?m new" using available_upd [OF assms(2), of "m_smp m" "At_count_insert p x a" c] assms(1) by simp
  obtain rc q where u: "bpf_map_update_elem (quota_room K) (sm_job_quota_map (m_smp m)) (k_job_id (xp_key x)) \<lparr>concurrent_slots = 1\<rparr> BPF_NOEXIST = (rc, q)"
    by (cases "bpf_map_update_elem (quota_room K) (sm_job_quota_map (m_smp m)) (k_job_id (xp_key x)) \<lparr>concurrent_slots = 1\<rparr> BPF_NOEXIST")
  let ?S = "(m_smp m)\<lparr>sm_job_quota_map := q\<rparr>"
  let ?y = "if rc \<noteq> 0 then At_count_retry p x a else At_lock p x a"
  let ?m2 = "?m\<lparr>m_smp := ?S, m_cpus := (m_cpus ?m)(c := ?y)\<rparr>"
  have 2: "smp_step K e ?m ?m2" using av u by (intro act_plain) simp_all
  show ?thesis
  proof (cases "rc = 0")
    case True
    with 1 2 show ?thesis by (intro exI [of _ ?m2]) (auto simp: agrees_def)
  next
    case False
    let ?S3 = "?S\<lparr>sm_job_quota_map := add_slots (k_job_id (xp_key x)) 1 q\<rparr>"
    let ?m3 = "?m2\<lparr>m_smp := ?S3, m_cpus := (m_cpus ?m2)(c := At_lock p x a)\<rparr>"
    have "available e ?m2 new" using available_upd [OF av, of ?S ?y c] False by simp
    then have "smp_step K e ?m2 ?m3" using False by (intro act_plain) simp_all
    with 1 2 have "smp_steps K e m ?m3" by (meson rtranclp.rtrancl_into_rtrancl r_into_rtranclp)
    then show ?thesis by (intro exI [of _ ?m3]) (simp add: agrees_def)
  qed
qed

text \<open>The slot is created in element \<open>new\<close>.\<close>

definition opened :: "nat \<Rightarrow> nat \<Rightarrow> bytes \<Rightarrow> u16 \<Rightarrow> machine \<Rightarrow> machine" where
  "opened c new p n m = m\<lparr>m_log := (m_log m)(new := []), m_creator := (m_creator m)(new := p),
     m_smp := (m_smp m)\<lparr>sm_index := (sm_index (m_smp m))(key_of (xdp_hdr p) \<mapsto> new), sm_elem := (sm_elem (m_smp m))(new :=
       zero_grad_slot\<lparr>gs_chunk_len := xp_chunk_len (parsed_of p), gs_num_workers_expected := n\<rparr>)\<rparr>,
     m_cpus := (m_cpus m)(c := At_count p (parsed_of p) new)\<rparr>"

lemma opened_simps [simp]:
  "m_log (opened c new p n m) = (m_log m)(new := [])" "m_creator (opened c new p n m) = (m_creator m)(new := p)"
  "m_cpus (opened c new p n m) = (m_cpus m)(c := At_count p (parsed_of p) new)" "m_received (opened c new p n m) = m_received m"
  "m_round (opened c new p n m) = m_round m" "sm_index (m_smp (opened c new p n m)) = (sm_index (m_smp m))(key_of (xdp_hdr p) \<mapsto> new)"
  "sm_job_quota_map (m_smp (opened c new p n m)) = sm_job_quota_map (m_smp m)" "sm_config_map (m_smp (opened c new p n m)) = sm_config_map (m_smp m)"
  by (simp_all add: opened_def)

lemma available_opened: "available e m new' \<Longrightarrow> new' \<noteq> new \<Longrightarrow> available e (opened c new p n m) new'"
  by (auto simp: available_def ran_def split: if_splits)

lemma steps_opened:
  assumes "m_cpus m c = At_create p (parsed_of p) n" "sm_index (m_smp m) (key_of (xdp_hdr p)) = None" "available e m new"
    and room: "slot_room K (smp_slots (m_smp m)) (key_of (xdp_hdr p))" and other: "available e m new'" "new' \<noteq> new"
  shows "smp_steps K e m (opened c new p n m)"
proof -
  let ?k = "key_of (xdp_hdr p)"
  let ?fresh = "zero_grad_slot\<lparr>gs_chunk_len := xp_chunk_len (parsed_of p), gs_num_workers_expected := n\<rparr>"
  let ?S = "(m_smp m)\<lparr>sm_index := (sm_index (m_smp m))(?k \<mapsto> new), sm_elem := (sm_elem (m_smp m))(new := ?fresh)\<rparr>"
  let ?h = "m\<lparr>m_log := (m_log m)(new := []), m_creator := (m_creator m)(new := p)\<rparr>"
  let ?m1 = "?h\<lparr>m_smp := ?S, m_cpus := (m_cpus m)(c := At_relookup p (parsed_of p) 0)\<rparr>"
  have "smp_slots (m_smp m) ?k = None" using assms(2) by (simp add: smp_slots_def)
  then have "cpu_step K new (m_smp m) (m_cpus m c) = Some (?S, At_relookup p (parsed_of p) 0)"
    using assms(1) room by (simp add: Let_def)
  from act [OF this assms(3)] have 1: "smp_step K e m ?m1" using assms(1,2) by (simp add: m_history_def)
  have ran: "new' \<notin> ran ((sm_index (m_smp m))(?k \<mapsto> new))" using other by (auto simp: available_def ran_def split: if_splits)
  have "available e ?m1 new'" using ran other available_upd [OF other(1), of "m_smp m" "At_relookup p (parsed_of p) 0" c]
    by (auto simp: available_def)
  then have "smp_step K e ?m1 (?m1\<lparr>m_smp := m_smp ?m1, m_cpus := (m_cpus ?m1)(c := At_count p (parsed_of p) new)\<rparr>)"
    by (intro act_plain [of K new']) simp_all
  then have "smp_step K e ?m1 (opened c new p n m)" by (simp add: opened_def)
  with 1 show ?thesis by (meson converse_rtranclp_into_rtranclp r_into_rtranclp)
qed

text \<open>And counted.\<close>

lemma steps_create:
  assumes "m_cpus m c = At_create p (parsed_of p) n" "sm_index (m_smp m) (key_of (xdp_hdr p)) = None" "available e m new"
    and room: "slot_room K (smp_slots (m_smp m)) (key_of (xdp_hdr p))" and other: "available e m new'" "new' \<noteq> new"
  shows "\<exists>m'. smp_steps K e m m' \<and> m_cpus m' = (m_cpus m)(c := At_lock p (parsed_of p) new) \<and>
    sm_index (m_smp m') = (sm_index (m_smp m))(key_of (xdp_hdr p) \<mapsto> new) \<and> sm_config_map (m_smp m') = sm_config_map (m_smp m) \<and>
    m_received m' = m_received m \<and> m_log m' = (m_log m)(new := []) \<and> m_creator m' = (m_creator m)(new := p) \<and> m_round m' = m_round m"
proof -
  let ?o = "opened c new p n m"
  from steps_count [of ?o c p "parsed_of p" new e new' K, OF _ available_opened [OF other]]
  obtain m' where 1: "smp_steps K e ?o m'" "agrees ?o m'" "m_cpus m' = (m_cpus ?o)(c := At_lock p (parsed_of p) new)" by auto
  have "smp_steps K e m m'" using steps_opened [OF assms] 1(1) by (rule rtranclp_trans)
  then show ?thesis using 1(2,3) by (intro exI [of _ m']) (simp add: agrees_def)
qed

text \<open>Under the lock: a packet of a new worker is added to whatever the element is now used for.\<close>

lemma step_lock:
  assumes I: "machine_inv e C m" and x: "m_cpus m c = At_lock p (parsed_of p) a" and av: "available e m new"
    and len: "gh_chunk_len (xdp_hdr p) = gh_chunk_len (xdp_hdr (m_creator m a))"
    and w: "gh_worker_id (xdp_hdr p) \<notin> (\<lambda>q. gh_worker_id (xdp_hdr q)) ` set (m_log m a)"
  shows "\<exists>m'. smp_step K e m m' \<and> sm_index (m_smp m') = sm_index (m_smp m) \<and> sm_config_map (m_smp m') = sm_config_map (m_smp m) \<and>
    sm_job_quota_map (m_smp m') = sm_job_quota_map (m_smp m) \<and>
    m_received m' = m_received m \<and> m_log m' = (m_log m)(a := m_log m a @ [p]) \<and> m_creator m' = m_creator m \<and>
    (if Suc (length (m_log m a)) = unat (gh_num_workers (xdp_hdr (m_creator m a)))
     then (\<exists>q n. m_cpus m' = (m_cpus m)(c := At_config q (key_of (xdp_hdr p)) n)) \<and> m_round m' = (m_round m)(c := m_log m a @ [p])
     else m_cpus m' = (m_cpus m)(c := Done XDP_DROP p) \<and> m_round m' = m_round m)"
proof -
  let ?s = "sm_elem (m_smp m) a"
  have p: "xdp_match p" "xdp_valid p" "p \<in> m_received m"
    using machine_invD(7) [OF I, of c] x by (simp_all add: parsed_packet_def)
  have L: "elem_log (m_received m) ?s (m_log m a)" by (rule machine_invD(2) [OF I])
  then have g: "gs_arrays_ok ?s" by (simp add: elem_log_def)
  have ns: "unat (gh_worker_id (xdp_hdr p)) \<notin> gs_workers ?s"
  proof -
    have "gs_workers ?s = (\<lambda>q. unat (gh_worker_id (xdp_hdr q))) ` set (m_log m a)"
      using L by (simp add: elem_log_def image_image xdp_contribution_def)
    then show ?thesis using w by (auto simp: word_unat_eq_iff)
  qed
  have cl: "gs_chunk_len ?s = gh_chunk_len (xdp_hdr p)" using machine_invD(8) [OF I, of a] len by simp
  have st: "cpu_step K new (m_smp m) (m_cpus m c) = Some ((m_smp m)\<lparr>sm_elem := (sm_elem (m_smp m))(a := s')\<rparr>, y)"
    if "xdp_locked p (parsed_of p) ?s = Some (Some (s', q, b, n))" "y = (if b then At_config q (key_of (xdp_hdr p)) n else Done XDP_DROP q)" for s' q b n y
    using that x by simp
  show ?thesis
  proof (cases rule: xdp_locked_cases [OF p(1,2) g, case_names mismatch dup absorbed complete])
    case mismatch
    with cl show ?thesis by simp
  next
    case dup
    with ns show ?thesis by simp
  next
    case (absorbed s')
    let ?y = "Done XDP_DROP p"
    have n: "gs_contributions_received s' \<noteq> gs_contributions_received ?s" using absorbed(3) by (simp add: added_def)
    have "length (m_log m a @ [p]) \<noteq> unat (gh_num_workers (xdp_hdr (m_creator m a)))"
      using absorbed(3,4) machine_invD(3) [OF I, of a] elem_logD(2) [OF elem_log_add [OF L p(3,1,2) absorbed(1-3)]]
      by (auto simp: added_def word_unat_eq_iff)
    then show ?thesis
      using act [OF st [OF absorbed(5) refl] av] x n
      by (intro exI [of _ "(m_history c new ((m_smp m)\<lparr>sm_elem := (sm_elem (m_smp m))(a := s')\<rparr>) ?y m)
          \<lparr>m_smp := (m_smp m)\<lparr>sm_elem := (sm_elem (m_smp m))(a := s')\<rparr>, m_cpus := (m_cpus m)(c := ?y)\<rparr>"])
        (auto simp: m_history_def Let_def)
  next
    case (complete s')
    let ?y = "At_config (patch p 62 (encode_values (take (unat (gs_chunk_len ?s)) (gs_sum s')))) (key_of (xdp_hdr p)) (gs_chunk_len ?s)"
    have n: "gs_contributions_received s' \<noteq> gs_contributions_received ?s" using complete(3) by (simp add: added_def)
    have "length (m_log m a @ [p]) = unat (gh_num_workers (xdp_hdr (m_creator m a)))"
      using complete(3,4) machine_invD(3) [OF I, of a] elem_logD(2) [OF elem_log_add [OF L p(3,1,2) complete(1-3)]]
      by (auto simp: added_def word_unat_eq_iff)
    then show ?thesis
      using act [OF st [OF complete(5) refl] av] x n
      by (intro exI [of _ "(m_history c new ((m_smp m)\<lparr>sm_elem := (sm_elem (m_smp m))(a := s')\<rparr>) ?y m)
          \<lparr>m_smp := (m_smp m)\<lparr>sm_elem := (sm_elem (m_smp m))(a := s')\<rparr>, m_cpus := (m_cpus m)(c := ?y)\<rparr>"])
        (auto simp: m_history_def Let_def)
  qed
qed

text \<open>A completed slot is deleted and its sum transmitted.\<close>

definition put :: "nat \<Rightarrow> smp \<Rightarrow> cpu \<Rightarrow> machine \<Rightarrow> machine" where
  "put c S x m = m\<lparr>m_smp := S, m_cpus := (m_cpus m)(c := x)\<rparr>"

lemma put_simps [simp]:
  "m_smp (put c S x m) = S" "m_cpus (put c S x m) = (m_cpus m)(c := x)" "m_received (put c S x m) = m_received m"
  "m_log (put c S x m) = m_log m" "m_creator (put c S x m) = m_creator m" "m_round (put c S x m) = m_round m"
  "put c S' x' (put c S x m) = put c S' x' m"
  by (simp_all add: put_def)

lemma put_self: "m_cpus m c = x \<Longrightarrow> put c (m_smp m) x m = m"
  by (simp add: put_def fun_upd_idem)

lemma step_put:
  assumes "cpu_step K new S x = Some (S', x')" "available e m new" "ran (sm_index S) \<subseteq> ran (sm_index (m_smp m))" "cpu_holds x = {}"
    and "\<And>p y n. x \<noteq> At_create p y n"
  shows "smp_step K e (put c S x m) (put c S' x' m)"
proof -
  have "available e (put c S x m) new" using assms(2-4) by (auto simp: available_def)
  then have "smp_step K e (put c S x m) (put c S' x' (put c S x m))"
    unfolding put_def [of c S' x' "put c S x m"]
    using assms(1,4,5) by (intro act_plain) auto
  then show ?thesis by simp
qed

lemma steps_finish:
  assumes I: "machine_inv e C m" and C: "mac_ok C" "C 0 = Some cfg" and x: "m_cpus m c = At_config q key n" and av: "available e m new"
  shows "\<exists>m' q'. smp_steps K e m m' \<and> m_cpus m' = (m_cpus m)(c := Done XDP_TX q') \<and>
    sm_index (m_smp m') = (sm_index (m_smp m))(key := None) \<and> sm_config_map (m_smp m') = sm_config_map (m_smp m) \<and>
    (sm_job_quota_map (m_smp m) (k_job_id key) = None \<longrightarrow> sm_job_quota_map (m_smp m') = sm_job_quota_map (m_smp m)) \<and>
    m_received m' = m_received m \<and> m_log m' = m_log m \<and> m_creator m' = m_creator m \<and> m_round m' = m_round m"
proof -
  have c: "sm_config_map (m_smp m) = C" by (rule machine_invD(1) [OF I])
  have sm: "summed e (m_received m) (m_round m c) q key n" using machine_invD(7) [OF I, of c] x by simp
  then obtain q' where q': "xdp_rewrite cfg n q = Some q'" using summed_forward [OF sm, of cfg] C by (auto simp: mac_ok_def)
  define S1 where "S1 = (m_smp m)\<lparr>sm_index := (sm_index (m_smp m))(key := None)\<rparr>"
  have r: "ran (sm_index S1) \<subseteq> ran (sm_index (m_smp m))" by (auto simp: S1_def ran_def)
  have 1: "smp_step K e m (put c (m_smp m) (At_delete q key n (Some cfg)) m)"
    using step_put [of K new "m_smp m" "At_config q key n" "m_smp m" "At_delete q key n (Some cfg)" e m c] av put_self [OF x] C c by simp
  have 2: "smp_step K e (put c (m_smp m) (At_delete q key n (Some cfg)) m) (put c S1 (At_uncount q key n (Some cfg)) m)"
    using av by (intro step_put) (simp_all add: S1_def)
  have "\<exists>S2. smp_steps K e (put c S1 (At_uncount q key n (Some cfg)) m) (put c S2 (At_forward q n (Some cfg)) m) \<and>
      sm_index S2 = sm_index S1 \<and> sm_config_map S2 = sm_config_map S1 \<and>
      (sm_job_quota_map S1 (k_job_id key) = None \<longrightarrow> sm_job_quota_map S2 = sm_job_quota_map S1)"
  proof (cases "\<exists>jq. sm_job_quota_map S1 (k_job_id key) = Some jq \<and> concurrent_slots jq > 0")
    case True
    define S2 where "S2 = S1\<lparr>sm_job_quota_map := add_slots (k_job_id key) (-1) (sm_job_quota_map S1)\<rparr>"
    have a: "smp_step K e (put c S1 (At_uncount q key n (Some cfg)) m) (put c S1 (At_uncount_add q key n (Some cfg)) m)"
      using True av r by (intro step_put) auto
    have b: "smp_step K e (put c S1 (At_uncount_add q key n (Some cfg)) m) (put c S2 (At_forward q n (Some cfg)) m)"
      using av r by (intro step_put) (simp_all add: S2_def)
    have "smp_steps K e (put c S1 (At_uncount q key n (Some cfg)) m) (put c S2 (At_forward q n (Some cfg)) m)"
      using a b by (meson r_into_rtranclp rtranclp.rtrancl_into_rtrancl)
    then show ?thesis using True by (intro exI [of _ S2]) (auto simp: S2_def)
  next
    case False
    have "smp_step K e (put c S1 (At_uncount q key n (Some cfg)) m) (put c S1 (At_forward q n (Some cfg)) m)"
      using False av r by (intro step_put) (auto split: option.split)
    then show ?thesis by (intro exI [of _ S1]) auto
  qed
  then obtain S2 where 3: "smp_steps K e (put c S1 (At_uncount q key n (Some cfg)) m) (put c S2 (At_forward q n (Some cfg)) m)"
    "sm_index S2 = sm_index S1" "sm_config_map S2 = sm_config_map S1"
    "sm_job_quota_map S1 (k_job_id key) = None \<longrightarrow> sm_job_quota_map S2 = sm_job_quota_map S1" by (elim exE conjE) (rule that)
  have 4: "smp_step K e (put c S2 (At_forward q n (Some cfg)) m) (put c S2 (Done XDP_TX q') m)"
    using q' av r 3(2) by (intro step_put) simp_all
  have "smp_steps K e m (put c S2 (Done XDP_TX q') m)"
    using 1 2 3(1) 4 by (meson converse_rtranclp_into_rtranclp rtranclp.rtrancl_into_rtrancl)
  then show ?thesis using 3(2-4) by (intro exI [of _ "put c S2 (Done XDP_TX q') m"] exI [of _ q']) (simp add: S1_def)
qed

section \<open>A slot handed out again\<close>

text \<open>A packet that opens a slot in element \<open>new\<close>, and one that finds its slot, both for rounds that stay open or complete.\<close>

lemma available_recycled: "available True m new \<longleftrightarrow> new \<notin> ran (sm_index (m_smp m))"
  by (simp add: available_def)

lemma steps_open:
  assumes I: "machine_inv True C m" and C: "mac_ok C" "C 0 = Some cfg" "max_slots_per_job cfg = 0" and room: "slot_room K (smp_slots (m_smp m)) (key_of (xdp_hdr p))"
    and c: "cpu_ready (m_cpus m c)" and p: "xdp_match p" "xdp_valid p" "workers_ok (gh_num_workers (xdp_hdr p))" "1 < unat (gh_num_workers (xdp_hdr p))"
    and new: "sm_index (m_smp m) (key_of (xdp_hdr p)) = None" "new \<notin> ran (sm_index (m_smp m))" "new' \<notin> ran (sm_index (m_smp m))" "new' \<noteq> new"
  shows "\<exists>m'. smp_steps K True m m' \<and> machine_inv True C m' \<and> m_cpus m' = (m_cpus m)(c := Done XDP_DROP p) \<and>
    sm_index (m_smp m') = (sm_index (m_smp m))(key_of (xdp_hdr p) \<mapsto> new) \<and>
    m_log m' = (m_log m)(new := [p]) \<and> m_creator m' = (m_creator m)(new := p) \<and> m_round m' = m_round m"
proof -
  have cm: "sm_config_map (m_smp m) = C" by (rule machine_invD(1) [OF I])
  note av = available_recycled
  let ?a = "looking_up c p m"
  let ?b = "?a\<lparr>m_cpus := (m_cpus ?a)(c := At_create p (parsed_of p) (gh_num_workers (xdp_hdr p)))\<rparr>"
  have 1: "smp_steps K True m ?a" using c p new by (intro steps_arrive [of m c p True new]) (simp_all add: av)
  have 2: "smp_steps K True ?a ?b"
    using p new C cm by (intro steps_admit [of ?a c p True new cfg K]) (simp_all add: av)
  obtain m3 where 3: "smp_steps K True ?b m3" "m_cpus m3 = (m_cpus ?b)(c := At_lock p (parsed_of p) new)"
    "sm_index (m_smp m3) = (sm_index (m_smp ?b))(key_of (xdp_hdr p) \<mapsto> new)"
    "m_log m3 = (m_log ?b)(new := [])" "m_creator m3 = (m_creator ?b)(new := p)" "m_round m3 = m_round ?b"
    using steps_create [of ?b c p "gh_num_workers (xdp_hdr p)" True new K new'] new room by (auto simp: av)
  have s: "smp_steps K True m m3" using 1 2 3(1) by simp
  have I3: "machine_inv True C m3" by (rule smp_steps_inv [OF s I C(1)])
  have "new' \<notin> ran (sm_index (m_smp m3))" using new 3(3) by (auto simp: ran_def split: if_splits)
  then obtain m' where 4: "smp_step K True m3 m'" "sm_index (m_smp m') = sm_index (m_smp m3)"
    "m_log m' = (m_log m3)(new := [p])" "m_creator m' = m_creator m3" "m_cpus m' = (m_cpus m3)(c := Done XDP_DROP p)" "m_round m' = m_round m3"
    using step_lock [OF I3, of c p new new' K] 3 p(4) by (auto simp: av)
  have s': "smp_steps K True m m'" using s 4(1) by simp
  show ?thesis
    using s' smp_steps_inv [OF s' I C(1)] 3 4 by (intro exI [of _ m']) simp
qed

lemma steps_join:
  assumes I: "machine_inv True C m" and C: "mac_ok C" "C 0 = Some cfg"
    and c: "m_cpus m c = At_lock p (parsed_of p) a" and new: "new \<notin> ran (sm_index (m_smp m))"
    and len: "gh_chunk_len (xdp_hdr p) = gh_chunk_len (xdp_hdr (m_creator m a))"
    and w: "gh_worker_id (xdp_hdr p) \<notin> (\<lambda>q. gh_worker_id (xdp_hdr q)) ` set (m_log m a)"
    and full: "Suc (length (m_log m a)) = unat (gh_num_workers (xdp_hdr (m_creator m a)))"
  shows "\<exists>m' q. smp_steps K True m m' \<and> machine_inv True C m' \<and> m_cpus m' = (m_cpus m)(c := Done XDP_TX q) \<and>
    sm_index (m_smp m') = (sm_index (m_smp m))(key_of (xdp_hdr p) := None) \<and>
    m_log m' = (m_log m)(a := m_log m a @ [p]) \<and> m_creator m' = m_creator m \<and> m_round m' = (m_round m)(c := m_log m a @ [p])"
proof -
  note av = available_recycled
  obtain m1 q n where 1: "smp_step K True m m1" "sm_index (m_smp m1) = sm_index (m_smp m)"
    "m_log m1 = (m_log m)(a := m_log m a @ [p])" "m_creator m1 = m_creator m"
    "m_cpus m1 = (m_cpus m)(c := At_config q (key_of (xdp_hdr p)) n)" "m_round m1 = (m_round m)(c := m_log m a @ [p])"
    using step_lock [OF I c _ len w, of new K] new full by (auto simp: av)
  have I1: "machine_inv True C m1" by (rule smp_step_inv [OF 1(1) I C(1)])
  obtain m' q' where 2: "smp_steps K True m1 m'" "m_cpus m' = (m_cpus m1)(c := Done XDP_TX q')"
    "sm_index (m_smp m') = (sm_index (m_smp m1))(key_of (xdp_hdr p) := None)"
    "m_log m' = m_log m1" "m_creator m' = m_creator m1" "m_round m' = m_round m1"
    using steps_finish [OF I1 C, of c q "key_of (xdp_hdr p)" n new K] 1(2,5) new by (auto simp: av)
  have s: "smp_steps K True m m'" using 1(1) 2(1) by (rule converse_rtranclp_into_rtranclp)
  show ?thesis using s smp_steps_inv [OF s I C(1)] 1 2 by (intro exI [of _ m'] exI [of _ q']) simp
qed

text \<open>A packet whose slot is found: the CPU holds a pointer to it.\<close>

lemma steps_hold:
  assumes I: "machine_inv True C m" and C: "mac_ok C"
    and c: "cpu_ready (m_cpus m c)" and p: "xdp_match p" "xdp_valid p"
    and new: "sm_index (m_smp m) (key_of (xdp_hdr p)) = Some a" "new \<notin> ran (sm_index (m_smp m))"
  shows "\<exists>m'. smp_steps K True m m' \<and> machine_inv True C m' \<and> m_cpus m' = (m_cpus m)(c := At_lock p (parsed_of p) a) \<and>
    sm_index (m_smp m') = sm_index (m_smp m) \<and> m_log m' = m_log m \<and> m_creator m' = m_creator m \<and> m_round m' = m_round m"
proof -
  let ?a = "looking_up c p m"
  let ?b = "?a\<lparr>m_cpus := (m_cpus ?a)(c := At_lock p (parsed_of p) a)\<rparr>"
  have "smp_steps K True m ?a" using c p new by (intro steps_arrive [of m c p True new]) (simp_all add: available_recycled)
  moreover have "smp_step K True ?a ?b" using new by (intro step_find [of ?a c p a True new]) (simp_all add: available_recycled)
  ultimately have s: "smp_steps K True m ?b" by (rule rtranclp.rtrancl_into_rtrancl)
  show ?thesis using s smp_steps_inv [OF s I C] by (intro exI [of _ ?b]) simp
qed

text \<open>
  A round of two workers, one of which sends its packet twice, and another round. While a CPU is about to lock the
  slot for the repeated packet the round completes, its slot is deleted and the element goes to the
  other round: the repeated packet ends up in that.
\<close>

lemma slot_recycled:
  assumes C: "mac_ok C" "C 0 = Some cfg" "max_slots_per_job cfg = 0" and room: "room_up_to 65536 (slot_room K)"
    and p: "xdp_match a0" "xdp_valid a0" "xdp_match a1" "xdp_valid a1" "xdp_match b1" "xdp_valid b1"
    and n: "unat (gh_num_workers (xdp_hdr a0)) = 2" "unat (gh_num_workers (xdp_hdr b1)) = 2"
    and len: "gh_chunk_len (xdp_hdr a1) = gh_chunk_len (xdp_hdr a0)" "gh_chunk_len (xdp_hdr b1) = gh_chunk_len (xdp_hdr a0)"
    and k: "key_of (xdp_hdr a1) = key_of (xdp_hdr a0)" "key_of (xdp_hdr b1) \<noteq> key_of (xdp_hdr a0)"
    and w: "gh_worker_id (xdp_hdr a1) \<noteq> gh_worker_id (xdp_hdr a0)" "gh_worker_id (xdp_hdr b1) \<noteq> gh_worker_id (xdp_hdr a0)"
  shows "\<exists>m q. smp_steps K True (smp_init C) m \<and> machine_inv True C m \<and> m_cpus m 1 = Done XDP_TX q \<and> m_round m 1 = [b1, a0] \<and>
    sm_index (m_smp m) (key_of (xdp_hdr b1)) = Some 0 \<and> m_log m 0 = [b1, a0] \<and> m_creator m 0 = b1"
proof -
  let ?m0 = "smp_init C"
  have i0: "sm_index (m_smp ?m0) = Map.empty" "m_cpus ?m0 = (\<lambda>_. Idle)" "m_log ?m0 = (\<lambda>_. [])" by (simp_all add: smp_init_def)
  have empty: "slot_room K (smp_slots (m_smp m)) k" if "sm_index (m_smp m) = Map.empty" for m k
    by (rule room_up_toD [OF room]) (simp_all add: smp_slots_def that)
  have wk: "workers_ok (gh_num_workers (xdp_hdr a0))" "workers_ok (gh_num_workers (xdp_hdr b1))" using n by (simp_all add: workers_ok_def)
  obtain m1 where 1: "smp_steps K True ?m0 m1" "machine_inv True C m1" "m_cpus m1 = (m_cpus ?m0)(0 := Done XDP_DROP a0)"
    "sm_index (m_smp m1) = [key_of (xdp_hdr a0) \<mapsto> 0]" "m_log m1 = (m_log ?m0)(0 := [a0])" "m_creator m1 = (m_creator ?m0)(0 := a0)"
    using steps_open [OF smp_init_inv C empty, where c = 0 and p = a0 and new = 0 and new' = 1] i0 p(1,2) wk(1) n(1) by auto
  obtain m2 where 2: "smp_steps K True m1 m2" "machine_inv True C m2" "m_cpus m2 = (m_cpus m1)(1 := At_lock a0 (parsed_of a0) 0)"
    "sm_index (m_smp m2) = sm_index (m_smp m1)" "m_log m2 = m_log m1" "m_creator m2 = m_creator m1"
    using steps_hold [OF 1(2) C(1), where c = 1 and p = a0 and a = 0 and new = 1 and K = K] 1(3,4) i0(2) p(1,2) by auto
  obtain m3 where 3: "smp_steps K True m2 m3" "machine_inv True C m3" "m_cpus m3 = (m_cpus m2)(0 := At_lock a1 (parsed_of a1) 0)"
    "sm_index (m_smp m3) = sm_index (m_smp m2)" "m_log m3 = m_log m2" "m_creator m3 = m_creator m2"
    using steps_hold [OF 2(2) C(1), where c = 0 and p = a1 and a = 0 and new = 1 and K = K] 1(3,4) 2(3,4) i0(2) p(3,4) k(1) by auto
  obtain m4 q where 4: "smp_steps K True m3 m4" "machine_inv True C m4" "m_cpus m4 = (m_cpus m3)(0 := Done XDP_TX q)"
    "sm_index (m_smp m4) = Map.empty"
    using steps_join [OF 3(2) C(1,2), where c = 0 and p = a1 and a = 0 and new = 1 and K = K] 1(4-6) 2(4-6) 3(3-6) w(1) n(1) len(1) k(1) by auto
  obtain m5 where 5: "smp_steps K True m4 m5" "machine_inv True C m5" "m_cpus m5 = (m_cpus m4)(0 := Done XDP_DROP b1)"
    "sm_index (m_smp m5) = [key_of (xdp_hdr b1) \<mapsto> 0]" "m_log m5 = (m_log m4)(0 := [b1])" "m_creator m5 = (m_creator m4)(0 := b1)"
    using steps_open [OF 4(2) C empty, where c = 0 and p = b1 and new = 0 and new' = 1] 4(3,4) p(5,6) wk(2) n(2) by auto
  have held: "m_cpus m5 1 = At_lock a0 (parsed_of a0) 0" using 5(3) 4(3) 3(3) 2(3) by simp
  obtain m6 q' where 6: "smp_steps K True m5 m6" "machine_inv True C m6" "m_cpus m6 = (m_cpus m5)(1 := Done XDP_TX q')"
    "sm_index (m_smp m6) = (sm_index (m_smp m5))(key_of (xdp_hdr a0) := None)"
    "m_log m6 = (m_log m5)(0 := m_log m5 0 @ [a0])" "m_creator m6 = m_creator m5" "m_round m6 = (m_round m5)(1 := m_log m5 0 @ [a0])"
    using steps_join [OF 5(2) C(1,2) held, where new = 1 and K = K] 5(4-6) w(2) n(2) len(2) by auto
  have "smp_steps K True ?m0 m6" using 1(1) 2(1) 3(1) 4(1) 5(1) 6(1) by (meson rtranclp_trans)
  then show ?thesis using 6 5(4-6) k(2) by (intro exI [of _ m6] exI [of _ q']) auto
qed

section \<open>An admission check overtaken\<close>

text \<open>
  Any number of CPUs pass the admission check of one job before the first of them creates its slot; then all create. The
  packets are for different keys, so that CPU \<open>i\<close> opens the slot of \<open>ps ! i\<close> in element \<open>i\<close>.
\<close>

definition newcomers :: "u32 \<Rightarrow> bytes list \<Rightarrow> bool" where
  "newcomers job ps \<longleftrightarrow> distinct (map (\<lambda>p. key_of (xdp_hdr p)) ps) \<and>
     (\<forall>p\<in>set ps. xdp_match p \<and> xdp_valid p \<and> workers_ok (gh_num_workers (xdp_hdr p)) \<and> gh_job_id (xdp_hdr p) = job)"

abbreviation admitted :: "bytes \<Rightarrow> cpu" where
  "admitted p \<equiv> At_create p (parsed_of p) (gh_num_workers (xdp_hdr p))"

lemma all_admitted:
  assumes C: "C 0 = Some cfg" and ps: "newcomers job ps" and j: "j \<le> length ps"
  shows "\<exists>m. smp_steps K e (smp_init C) m \<and> m_smp m = m_smp (smp_init C) \<and>
    m_cpus m = (\<lambda>c. if c < j then admitted (ps ! c) else Idle)"
  using j
proof (induction j)
  case 0
  show ?case by (intro exI [of _ "smp_init C"]) (simp add: smp_init_def)
next
  case (Suc j)
  then obtain m where m: "smp_steps K e (smp_init C) m" "m_smp m = m_smp (smp_init C)"
    "m_cpus m = (\<lambda>c. if c < j then admitted (ps ! c) else Idle)" by auto
  let ?p = "ps ! j"
  let ?a = "looking_up j ?p m"
  let ?b = "?a\<lparr>m_cpus := (m_cpus ?a)(j := admitted ?p)\<rparr>"
  have p: "xdp_match ?p" "xdp_valid ?p" "workers_ok (gh_num_workers (xdp_hdr ?p))"
    using ps Suc.prems by (simp_all add: newcomers_def)
  have av: "available e m 0" "available e ?a 0" by (simp_all add: available_def m(2,3) smp_init_def)
  have "smp_steps K e m ?a" using m(3) p av by (intro steps_arrive [of m j ?p e 0]) simp_all
  moreover have "smp_steps K e ?a ?b"
    using p av C m(2) by (intro steps_admit [of ?a j ?p e 0 cfg K]) (simp_all add: smp_init_def)
  ultimately have "smp_steps K e (smp_init C) ?b" using m(1) by (meson rtranclp_trans)
  moreover have "m_cpus ?b = (\<lambda>c. if c < Suc j then admitted (ps ! c) else Idle)" using m(3) by (auto simp: fun_eq_iff less_Suc_eq)
  ultimately show ?case using m(2) by (intro exI [of _ ?b]) simp
qed

lemma all_created:
  assumes C: "C 0 = Some cfg" and room: "room_up_to 65536 (slot_room K)" and ps: "newcomers job ps" and few: "length ps \<le> 65536" and j: "j \<le> length ps"
  shows "\<exists>m. smp_steps K e (smp_init C) m \<and> (\<forall>i<j. sm_index (m_smp m) (key_of (xdp_hdr (ps ! i))) = Some i) \<and>
    dom (sm_index (m_smp m)) = (\<lambda>i. key_of (xdp_hdr (ps ! i))) ` {..<j} \<and> ran (sm_index (m_smp m)) \<subseteq> {..<j} \<and>
    m_cpus m = (\<lambda>c. if c < j then At_lock (ps ! c) (parsed_of (ps ! c)) c else if c < length ps then admitted (ps ! c) else Idle)"
  using j
proof (induction j)
  case 0
  from all_admitted [where C = C and cfg = cfg and job = job and ps = ps and j = "length ps" and K = K and e = e, OF C ps order_refl]
  obtain m where "smp_steps K e (smp_init C) m" "m_smp m = m_smp (smp_init C)"
    "m_cpus m = (\<lambda>c. if c < length ps then admitted (ps ! c) else Idle)" by auto
  then show ?case by (intro exI [of _ m]) (simp add: smp_init_def)
next
  case (Suc j)
  then obtain m where m: "smp_steps K e (smp_init C) m" "\<forall>i<j. sm_index (m_smp m) (key_of (xdp_hdr (ps ! i))) = Some i"
    "dom (sm_index (m_smp m)) = (\<lambda>i. key_of (xdp_hdr (ps ! i))) ` {..<j}" "ran (sm_index (m_smp m)) \<subseteq> {..<j}"
    "m_cpus m = (\<lambda>c. if c < j then At_lock (ps ! c) (parsed_of (ps ! c)) c else if c < length ps then admitted (ps ! c) else Idle)"
    by auto
  let ?p = "ps ! j" and ?k = "\<lambda>i. key_of (xdp_hdr (ps ! i))"
  have diff: "?k i \<noteq> ?k j" if "i < j" for i
    using ps that Suc.prems distinct_conv_nth [of "map (\<lambda>p. key_of (xdp_hdr p)) ps"] by (auto simp: newcomers_def)
  have "?k j \<notin> dom (sm_index (m_smp m))" unfolding m(3) using diff by fastforce
  then have free: "sm_index (m_smp m) (?k j) = None" by (simp add: domIff)
  have dom: "dom (smp_slots (m_smp m)) = ?k ` {..<j}" using m(3) by (auto simp: smp_slots_def dom_def)
  have "card (?k ` {..<j}) \<le> j" using card_image_le [of "{..<j}" ?k] by simp
  then have free_room: "slot_room K (smp_slots (m_smp m)) (?k j)" using few Suc.prems by (intro room_up_toD [OF room]) (simp_all add: dom)
  have av: "available e m n" if "j \<le> n" for n
    using that m(4,5) by (auto simp: available_def)
  obtain m' where m': "smp_steps K e m m'" "m_cpus m' = (m_cpus m)(j := At_lock ?p (parsed_of ?p) j)"
    "sm_index (m_smp m') = (sm_index (m_smp m))(?k j \<mapsto> j)"
    using steps_create [of m j ?p "gh_num_workers (xdp_hdr ?p)" e j K "Suc j", OF _ free av free_room av] m(5) Suc.prems by auto
  have "smp_steps K e (smp_init C) m'" using m(1) m'(1) by (rule rtranclp_trans)
  moreover have "\<forall>i<Suc j. sm_index (m_smp m') (?k i) = Some i" using m(2) m'(3) diff by (auto simp: less_Suc_eq)
  moreover have "dom (sm_index (m_smp m')) = ?k ` {..<Suc j}" using m(3) m'(3) by (auto simp: lessThan_Suc)
  moreover have "ran (sm_index (m_smp m')) \<subseteq> {..<Suc j}" using m(4) free unfolding m'(3) by (auto simp: lessThan_Suc)
  moreover have "m_cpus m' = (\<lambda>c. if c < Suc j then At_lock (ps ! c) (parsed_of (ps ! c)) c else if c < length ps then admitted (ps ! c) else Idle)"
    using m(5) m'(2) by (auto simp: fun_eq_iff less_Suc_eq)
  ultimately show ?case by blast
qed

end
