(* ===== verification/Xdp_Smp_Leak.thy ===== *)
theory Xdp_Smp_Leak
  imports Xdp_Smp_Races
begin

text \<open>
  A third race: a slot is linked before it is counted for its job, and the CPU that completes it does not subtract what
  has not been added. A count that no slot answers for is never taken back; at the quota the job is locked out.
\<close>

section \<open>Locked out\<close>

text \<open>The job of a CPU that has passed the admission check or found a slot.\<close>

fun let_in :: "cpu \<Rightarrow> u32 option" where
  "let_in (At_create p x n) = Some (k_job_id (xp_key x))"
| "let_in (At_relookup p x rc) = Some (k_job_id (xp_key x))"
| "let_in (At_count p x a) = Some (k_job_id (xp_key x))"
| "let_in (At_count_insert p x a) = Some (k_job_id (xp_key x))"
| "let_in (At_count_retry p x a) = Some (k_job_id (xp_key x))"
| "let_in (At_lock p x a) = Some (k_job_id (xp_key x))"
| "let_in (At_config p key n) = Some (k_job_id key)"
| "let_in (At_delete p key n cfg) = Some (k_job_id key)"
| "let_in (At_uncount p key n cfg) = Some (k_job_id key)"
| "let_in (At_uncount_add p key n cfg) = Some (k_job_id key)"
| "let_in _ = None"

definition at_quota :: "u32 \<Rightarrow> smp \<Rightarrow> bool" where
  "at_quota job S \<longleftrightarrow> (\<exists>cfg jq. sm_config_map S 0 = Some cfg \<and> 0 < max_slots_per_job cfg \<and>
     sm_job_quota_map S job = Some jq \<and> max_slots_per_job cfg \<le> concurrent_slots jq)"

definition no_slots :: "u32 \<Rightarrow> smp \<Rightarrow> bool" where
  "no_slots job S \<longleftrightarrow> (\<forall>k. k_job_id k = job \<longrightarrow> sm_index S k = None)"

definition locked_out :: "u32 \<Rightarrow> machine \<Rightarrow> bool" where
  "locked_out job m \<longleftrightarrow> at_quota job (m_smp m) \<and> no_slots job (m_smp m) \<and> (\<forall>c. let_in (m_cpus m c) \<noteq> Some job)"

lemma cpu_step_config_map: "cpu_step K new S x = Some (S', x') \<Longrightarrow> sm_config_map S' = sm_config_map S"
  by (cases x)
    (auto simp: Let_def split: Option.bind_split_asm if_split_asm option.split_asm sum.split_asm prod.split_asm)

lemma cpu_step_quota_of:
  "cpu_step K new S x = Some (S', x') \<Longrightarrow> let_in x \<noteq> Some job \<Longrightarrow> sm_job_quota_map S job \<noteq> None \<Longrightarrow>
     sm_job_quota_map S' job = sm_job_quota_map S job"
  by (cases x)
    (auto simp: Let_def add_slots_def bpf_map_update_elem_def split: Option.bind_split_asm if_split_asm option.split_asm sum.split_asm prod.split_asm option.split)

lemma cpu_step_let_in:
  assumes "cpu_step K new S x = Some (S', x')" "at_quota job S" "no_slots job S" "let_in x \<noteq> Some job"
  shows "let_in x' \<noteq> Some job"
proof -
  obtain cfg jq where "sm_config_map S 0 = Some cfg" "0 < max_slots_per_job cfg" "sm_job_quota_map S job = Some jq"
    "max_slots_per_job cfg \<le> concurrent_slots jq" using assms(2) by (auto simp: at_quota_def)
  then show ?thesis using assms(1,3,4)
    by (cases x)
      (auto simp: Let_def no_slots_def split: Option.bind_split_asm if_split_asm option.split_asm sum.split_asm prod.split_asm)
qed

lemma cpu_step_no_slots: "cpu_step K new S x = Some (S', x') \<Longrightarrow> no_slots job S \<Longrightarrow> let_in x \<noteq> Some job \<Longrightarrow> no_slots job S'"
  by (cases x)
    (auto simp: Let_def no_slots_def split: Option.bind_split_asm if_split_asm option.split_asm sum.split_asm prod.split_asm)

lemma locked_out_step:
  assumes "smp_step K e m m'" "locked_out job m"
  shows "locked_out job m'"
  using assms(1)
proof (cases rule: smp_stepE [consumes 1, case_names receive act])
  case (receive c p)
  then show ?thesis using assms(2) by (simp add: locked_out_def)
next
  case (act new c S' x')
  have L: "at_quota job (m_smp m)" "no_slots job (m_smp m)" "let_in (m_cpus m c) \<noteq> Some job" using assms(2) by (simp_all add: locked_out_def)
  have "at_quota job S'" using L(1) cpu_step_config_map [OF act(2)] cpu_step_quota_of [OF act(2) L(3)] by (auto simp: at_quota_def)
  then show ?thesis
    using assms(2) cpu_step_no_slots [OF act(2) L(2,3)] cpu_step_let_in [OF act(2) L] by (auto simp: act(1) locked_out_def)
qed

lemma locked_out_steps: "smp_steps K e m m' \<Longrightarrow> locked_out job m \<Longrightarrow> locked_out job m'"
  by (induction rule: rtranclp_induct) (auto intro: locked_out_step)

section \<open>How a job gets locked out\<close>

lemma available_one:
  "ran (sm_index (m_smp m)) \<subseteq> {0} \<Longrightarrow> (\<And>c. cpu_holds (m_cpus m c) \<subseteq> {0}) \<Longrightarrow> available e m 1"
  unfolding available_def by auto

text \<open>Counting the first slot of a job.\<close>

lemma steps_count_first:
  assumes c: "m_cpus m c = At_count p x a" and av: "available e m new" and none: "sm_job_quota_map (m_smp m) = Map.empty"
    and room: "room_up_to 256 (quota_room K)"
  shows "smp_steps K e m (put c ((m_smp m)\<lparr>sm_job_quota_map := [k_job_id (xp_key x) \<mapsto> \<lparr>concurrent_slots = 1\<rparr>]\<rparr>) (At_lock p x a) m)"
proof -
  let ?m = "put c (m_smp m) (At_count_insert p x a) m"
  have "smp_step K e m (m\<lparr>m_smp := m_smp m, m_cpus := (m_cpus m)(c := At_count_insert p x a)\<rparr>)"
    by (rule act_plain [OF _ av]) (simp_all add: c none)
  then have 1: "smp_step K e m ?m" by (simp add: put_def)
  have "available e ?m new" using available_upd [OF av, of "m_smp m" "At_count_insert p x a" c] c by (simp add: put_def)
  then have "smp_step K e ?m (?m\<lparr>m_smp := (m_smp m)\<lparr>sm_job_quota_map := [k_job_id (xp_key x) \<mapsto> \<lparr>concurrent_slots = 1\<rparr>]\<rparr>,
      m_cpus := (m_cpus ?m)(c := At_lock p x a)\<rparr>)"
    using room_up_toD [OF room, of Map.empty] by (intro act_plain [rotated]) (simp_all add: none bpf_map_update_elem_def)
  with 1 show ?thesis by (simp add: put_def)
qed

text \<open>A worker counted already.\<close>

lemma step_lock_dup:
  assumes I: "machine_inv e C m" and x: "m_cpus m c = At_lock p (parsed_of p) a" and av: "available e m new"
    and w: "gh_worker_id (xdp_hdr p) \<in> (\<lambda>q. gh_worker_id (xdp_hdr q)) ` set (m_log m a)"
  shows "smp_step K e m (put c (m_smp m) (Done XDP_DROP p) m)"
proof -
  let ?s = "sm_elem (m_smp m) a"
  have p: "xdp_match p" "xdp_valid p" using machine_invD(7) [OF I, of c] x by (simp_all add: parsed_packet_def)
  have L: "elem_log (m_received m) ?s (m_log m a)" by (rule machine_invD(2) [OF I])
  then have g: "gs_arrays_ok ?s" by (simp add: elem_log_def)
  have "gs_workers ?s = (\<lambda>q. unat (gh_worker_id (xdp_hdr q))) ` set (m_log m a)"
    using L by (simp add: elem_log_def image_image xdp_contribution_def)
  then have s: "unat (gh_worker_id (xdp_hdr p)) \<in> gs_workers ?s" using w by auto
  have st: "cpu_step K new (m_smp m) (m_cpus m c) = Some (m_smp m, Done XDP_DROP p)"
    by (cases rule: xdp_locked_cases [OF p g, case_names mismatch dup absorbed complete]) (use s x in auto)
  from act [OF this av] x show ?thesis by (simp add: put_def m_history_def)
qed

text \<open>
  A packet that opens a slot, and before that is counted the packet of the other worker and the first one once
  more, on a second CPU: the round completes there. \<open>uncounted_slot\<close> is the state of the maps in between.
\<close>

definition uncounted_slot :: "bytes \<Rightarrow> machine \<Rightarrow> bool" where
  "uncounted_slot p m \<longleftrightarrow> sm_index (m_smp m) = [key_of (xdp_hdr p) \<mapsto> 0] \<and> m_creator m 0 = p \<and> sm_job_quota_map (m_smp m) = Map.empty"

abbreviation two_cpus :: "cpu \<Rightarrow> cpu \<Rightarrow> nat \<Rightarrow> cpu" where
  "two_cpus x y \<equiv> (\<lambda>_. Idle)(0 := x, 1 := y)"

lemma available_two:
  "sm_index (m_smp m) = Map.empty \<or> uncounted_slot p m \<Longrightarrow> m_cpus m = two_cpus x y \<Longrightarrow> cpu_holds x \<subseteq> {0} \<Longrightarrow> cpu_holds y \<subseteq> {0} \<Longrightarrow> available e m 1"
  by (intro available_one) (auto simp: uncounted_slot_def)

lemma steps_uncounted:
  assumes C: "mac_ok C" "C 0 = Some cfg" and room: "room_up_to 65536 (slot_room K)"
    and p: "xdp_match p" "xdp_valid p" "workers_ok (gh_num_workers (xdp_hdr p))"
  shows "\<exists>m. smp_steps K e (smp_init C) m \<and> m_cpus m = two_cpus (At_count p (parsed_of p) 0) Idle \<and> uncounted_slot p m \<and> m_log m 0 = []"
proof -
  let ?i = "smp_init C" and ?n = "gh_num_workers (xdp_hdr p)"
  have i: "sm_index (m_smp ?i) = Map.empty" "m_cpus ?i = (\<lambda>_. Idle)" "sm_job_quota_map (m_smp ?i) = Map.empty" "sm_config_map (m_smp ?i) = C"
    by (simp_all add: smp_init_def)
  let ?a = "looking_up 0 p ?i"
  let ?b = "?a\<lparr>m_cpus := (m_cpus ?a)(0 := At_create p (parsed_of p) ?n)\<rparr>"
  have av: "available e ?i j" "available e ?a j" "available e ?b j" for j by (simp_all add: available_def i)
  have "smp_steps K e ?i ?a" by (rule steps_arrive [OF _ p(1,2) av(1)]) (simp add: i)
  moreover have "smp_steps K e ?a ?b" by (rule steps_admit [OF _ _ av(2) p(1,3)]) (use C i in simp_all)
  moreover have "smp_steps K e ?b (opened 0 0 p ?n ?b)"
  proof (rule steps_opened [where new' = 1])
    show "slot_room K (smp_slots (m_smp ?b)) (key_of (xdp_hdr p))" by (rule room_up_toD [OF room]) (simp_all add: i smp_slots_def)
  qed (use i av(3) in simp_all)
  ultimately have "smp_steps K e ?i (opened 0 0 p ?n ?b)" by (meson rtranclp_trans)
  then show ?thesis by (intro exI [of _ "opened 0 0 p ?n ?b"]) (simp add: i uncounted_slot_def fun_eq_iff)
qed

text \<open>A packet for the slot comes in on the second CPU.\<close>

lemma steps_second:
  assumes m: "smp_steps K e (smp_init C) m" "m_cpus m = two_cpus (At_count p (parsed_of p) 0) y" "cpu_ready y" "uncounted_slot p m"
    and C: "mac_ok C" and r: "xdp_match r" "xdp_valid r" "key_of (xdp_hdr r) = key_of (xdp_hdr p)"
  shows "\<exists>m'. smp_steps K e (smp_init C) m' \<and> m_cpus m' = two_cpus (At_count p (parsed_of p) 0) (At_lock r (parsed_of r) 0) \<and>
    uncounted_slot p m' \<and> m_log m' = m_log m"
proof -
  let ?r = "looking_up 1 r m"
  let ?l = "?r\<lparr>m_cpus := (m_cpus ?r)(1 := At_lock r (parsed_of r) 0)\<rparr>"
  have "available e m 1" using m(3,4) by (intro available_two [OF _ m(2)]) (auto elim: cpu_ready.elims)
  moreover have "available e ?r 1"
    using m(2,4) by (intro available_two [of ?r p "At_count p (parsed_of p) 0" "At_lookup r (parsed_of r)"]) (simp_all add: uncounted_slot_def)
  ultimately have "smp_steps K e m ?r" "smp_step K e ?r ?l"
    using steps_arrive [of m 1 r] step_find [of ?r 1 r 0 e 1 K] m(2-4) r by (simp_all add: uncounted_slot_def)
  with m(1) have "smp_steps K e (smp_init C) ?l" by (meson rtranclp_trans rtranclp.rtrancl_into_rtrancl)
  then show ?thesis using m(2,4) by (intro exI [of _ ?l]) (simp add: uncounted_slot_def)
qed

text \<open>And takes the lock.\<close>

lemma steps_second_lock:
  assumes m: "smp_steps K e (smp_init C) m" "m_cpus m = two_cpus (At_count p (parsed_of p) 0) (At_lock r (parsed_of r) 0)" "uncounted_slot p m"
    and C: "mac_ok C" and n: "unat (gh_num_workers (xdp_hdr p)) = 2" and len: "gh_chunk_len (xdp_hdr r) = gh_chunk_len (xdp_hdr p)"
    and w: "gh_worker_id (xdp_hdr r) \<notin> (\<lambda>q. gh_worker_id (xdp_hdr q)) ` set (m_log m 0)"
  shows "\<exists>m' y. smp_steps K e (smp_init C) m' \<and> m_cpus m' = two_cpus (At_count p (parsed_of p) 0) y \<and> uncounted_slot p m' \<and>
    m_log m' 0 = m_log m 0 @ [r] \<and>
    (if length (m_log m 0) = 1 then \<exists>q nn. y = At_config q (key_of (xdp_hdr r)) nn else y = Done XDP_DROP r)"
proof -
  have I: "machine_inv e C m" by (rule smp_steps_inv [OF m(1) smp_init_inv C])
  have av: "available e m 1" by (rule available_two [OF disjI2 [OF m(3)] m(2)]) simp_all
  have cr: "m_creator m 0 = p" using m(3) by (simp add: uncounted_slot_def)
  have x: "m_cpus m 1 = At_lock r (parsed_of r) 0" using m(2) by simp
  from step_lock [OF I x av len [folded cr] w, of K]
  obtain m' where s: "smp_step K e m m'" "sm_index (m_smp m') = sm_index (m_smp m)" "sm_job_quota_map (m_smp m') = sm_job_quota_map (m_smp m)"
    "m_log m' = (m_log m)(0 := m_log m 0 @ [r])" "m_creator m' = m_creator m"
    "if Suc (length (m_log m 0)) = unat (gh_num_workers (xdp_hdr (m_creator m 0)))
     then (\<exists>q n. m_cpus m' = (m_cpus m)(1 := At_config q (key_of (xdp_hdr r)) n)) \<and> m_round m' = (m_round m)(1 := m_log m 0 @ [r])
     else m_cpus m' = (m_cpus m)(1 := Done XDP_DROP r) \<and> m_round m' = m_round m"
    by (elim exE conjE) (rule that)
  have "smp_steps K e (smp_init C) m'" using m(1) s(1) by (rule rtranclp.rtrancl_into_rtrancl)
  moreover have "uncounted_slot p m'" using m(3) s(2,3,5) by (simp add: uncounted_slot_def)
  moreover have "\<exists>y. m_cpus m' = two_cpus (At_count p (parsed_of p) 0) y \<and>
      (if length (m_log m 0) = 1 then \<exists>q nn. y = At_config q (key_of (xdp_hdr r)) nn else y = Done XDP_DROP r)"
    using s(6) n unfolding cr m(2) by (cases "length (m_log m 0) = 1") auto
  ultimately show ?thesis using s(4) by (metis fun_upd_same)
qed

lemma quota_leaked:
  assumes C: "mac_ok C" "C 0 = Some cfg" and room: "room_up_to 65536 (slot_room K)" "room_up_to 256 (quota_room K)"
    and p: "xdp_match a0" "xdp_valid a0" "xdp_match a1" "xdp_valid a1"
    and n: "unat (gh_num_workers (xdp_hdr a0)) = 2" and len: "gh_chunk_len (xdp_hdr a1) = gh_chunk_len (xdp_hdr a0)"
    and k: "key_of (xdp_hdr a1) = key_of (xdp_hdr a0)" and w: "gh_worker_id (xdp_hdr a1) \<noteq> gh_worker_id (xdp_hdr a0)"
  shows "\<exists>m q. smp_steps K e (smp_init C) m \<and> sm_index (m_smp m) = Map.empty \<and> sm_config_map (m_smp m) = C \<and>
    sm_job_quota_map (m_smp m) = [gh_job_id (xdp_hdr a0) \<mapsto> \<lparr>concurrent_slots = 1\<rparr>] \<and>
    m_cpus m = two_cpus (Done XDP_DROP a0) (Done XDP_TX q)"
proof -
  let ?i = "smp_init C" and ?x = "At_count a0 (parsed_of a0) 0"
  have "workers_ok (gh_num_workers (xdp_hdr a0))" using n by (simp add: workers_ok_def)
  from steps_uncounted [where K = K, OF C room(1) p(1,2) this] obtain m0 where
    0: "smp_steps K e ?i m0" "m_cpus m0 = two_cpus ?x Idle" "uncounted_slot a0 m0" "m_log m0 0 = []" by blast
  from steps_second [OF 0(1,2) _ 0(3) C(1) p(3,4) k] 0(4) obtain m1 where
    1: "smp_steps K e ?i m1" "m_cpus m1 = two_cpus ?x (At_lock a1 (parsed_of a1) 0)" "uncounted_slot a0 m1" "m_log m1 0 = []" by auto
  from steps_second_lock [OF 1(1-3) C(1) n len] 1(4) obtain m2 where
    2: "smp_steps K e ?i m2" "m_cpus m2 = two_cpus ?x (Done XDP_DROP a1)" "uncounted_slot a0 m2" "m_log m2 0 = [a1]" by auto
  from steps_second [OF 2(1,2) _ 2(3) C(1) p(1,2) refl] 2(4) obtain m3 where
    3: "smp_steps K e ?i m3" "m_cpus m3 = two_cpus ?x (At_lock a0 (parsed_of a0) 0)" "uncounted_slot a0 m3" "m_log m3 0 = [a1]" by auto
  from steps_second_lock [OF 3(1-3) C(1) n refl] 3(4) w obtain m4 q nn where
    4: "smp_steps K e ?i m4" "m_cpus m4 = two_cpus ?x (At_config q (key_of (xdp_hdr a0)) nn)" "uncounted_slot a0 m4" "m_log m4 0 = [a1, a0]" by auto
  have I4: "machine_inv e C m4" by (rule smp_steps_inv [OF 4(1) smp_init_inv C(1)])
  have "available e m4 1" by (rule available_two [OF disjI2 [OF 4(3)] 4(2)]) simp_all
  from steps_finish [OF I4 C, of 1 q "key_of (xdp_hdr a0)" nn 1 K, OF _ this] obtain m5 q' where 5: "smp_steps K e m4 m5"
    "m_cpus m5 = two_cpus ?x (Done XDP_TX q')" "sm_index (m_smp m5) = Map.empty" "sm_job_quota_map (m_smp m5) = Map.empty"
    "m_log m5 = m_log m4" "sm_config_map (m_smp m5) = sm_config_map (m_smp m4)"
    using 4(2,3) by (auto simp: uncounted_slot_def)
  let ?S = "(m_smp m5)\<lparr>sm_job_quota_map := [k_job_id (xp_key (parsed_of a0)) \<mapsto> \<lparr>concurrent_slots = 1\<rparr>]\<rparr>"
  let ?m6 = "put 0 ?S (At_lock a0 (parsed_of a0) 0) m5" and ?m7 = "put 0 ?S (Done XDP_DROP a0) m5"
  have "available e m5 1" using 5(3) by (intro available_two [OF _ 5(2)]) simp_all
  from steps_count_first [OF _ this 5(4) room(2), of 0 a0 "parsed_of a0" 0] have "smp_steps K e m5 ?m6" using 5(2) by simp
  with 4(1) 5(1) have s6: "smp_steps K e ?i ?m6" by (meson rtranclp_trans)
  have I6: "machine_inv e C ?m6" by (rule smp_steps_inv [OF s6 smp_init_inv C(1)])
  have "m_cpus ?m6 = two_cpus (At_lock a0 (parsed_of a0) 0) (Done XDP_TX q')" using 5(2) by (simp add: fun_eq_iff)
  from available_two [OF _ this] have "available e ?m6 1" by (simp add: 5(3))
  from step_lock_dup [OF I6 _ this, of 0 a0 0 K] have "smp_step K e ?m6 ?m7" using 5(5) 4(4) by simp
  with s6 have s7: "smp_steps K e ?i ?m7" by (rule rtranclp.rtrancl_into_rtrancl)
  have "sm_config_map (m_smp m5) = C" using 5(6) machine_invD(1) [OF I4] by simp
  then show ?thesis using s7 5(2,3) by (intro exI [of _ ?m7] exI [of _ q']) (auto simp: key_of_def parsed_of_def)
qed

end
