(* ===== verification/Xdp_Smp_Solo.thy ===== *)
theory Xdp_Smp_Solo
  imports Xdp_Smp_Rounds
begin

text \<open>
  A CPU that is not interrupted does to the maps and the packet exactly what the program does as one call: the
  cut into atomic actions adds behaviours by interleaving only.
\<close>

definition smp_maps :: "smp \<Rightarrow> xdp_maps" where
  "smp_maps S = \<lparr>slot_map = smp_slots S, config_map = sm_config_map S, job_quota_map = sm_job_quota_map S,
     drop_stats = sm_drop_stats S\<rparr>"

text \<open>No two keys share an element.\<close>

definition smp_linked :: "smp \<Rightarrow> bool" where
  "smp_linked S \<longleftrightarrow> inj_on (sm_index S) (dom (sm_index S))"

inductive solo :: "kernel \<Rightarrow> nat \<Rightarrow> smp \<times> cpu \<Rightarrow> smp \<times> cpu \<Rightarrow> bool" for K new where
  solo_done: "solo K new s s"
| solo_step: "cpu_step K new S x = Some s' \<Longrightarrow> solo K new s' s'' \<Longrightarrow> solo K new (S, x) s''"

lemma smp_maps_sel [simp]:
  "slot_map (smp_maps S) = smp_slots S" "config_map (smp_maps S) = sm_config_map S"
  "job_quota_map (smp_maps S) = sm_job_quota_map S" "drop_stats (smp_maps S) = sm_drop_stats S"
  by (simp_all add: smp_maps_def)

lemma smp_slots_frame [simp]:
  "smp_slots (S\<lparr>sm_job_quota_map := q\<rparr>) = smp_slots S" "smp_slots (S\<lparr>sm_drop_stats := d\<rparr>) = smp_slots S"
  by (simp_all add: smp_slots_def)

lemma smp_maps_upd [simp]:
  "smp_maps (S\<lparr>sm_job_quota_map := q\<rparr>) = (smp_maps S)\<lparr>job_quota_map := q\<rparr>"
  "smp_maps (S\<lparr>sm_drop_stats := d\<rparr>) = (smp_maps S)\<lparr>drop_stats := d\<rparr>"
  by (simp_all add: smp_maps_def)

lemma smp_slots_write:
  assumes "smp_linked S" "sm_index S k = Some a"
  shows "smp_slots (S\<lparr>sm_elem := (sm_elem S)(a := s)\<rparr>) = (smp_slots S)(k \<mapsto> s)"
proof
  fix k' show "smp_slots (S\<lparr>sm_elem := (sm_elem S)(a := s)\<rparr>) k' = ((smp_slots S)(k \<mapsto> s)) k'"
  proof (cases "k' = k")
    case False
    have "sm_index S k' \<noteq> Some a"
    proof
      assume "sm_index S k' = Some a"
      then have "k' = k" using assms inj_onD [of "sm_index S" "dom (sm_index S)" k' k] by (auto simp: smp_linked_def)
      with False show False ..
    qed
    then show ?thesis using False by (cases "sm_index S k'") (simp_all add: smp_slots_def)
  qed (use assms in \<open>simp add: smp_slots_def\<close>)
qed

lemma smp_slots_create:
  assumes "new \<notin> ran (sm_index S)"
  shows "smp_slots (S\<lparr>sm_index := (sm_index S)(k \<mapsto> new), sm_elem := (sm_elem S)(new := s)\<rparr>) = (smp_slots S)(k \<mapsto> s)"
proof
  fix k' have "sm_index S k' \<noteq> Some new" using assms by (auto simp: ran_def)
  then show "smp_slots (S\<lparr>sm_index := (sm_index S)(k \<mapsto> new), sm_elem := (sm_elem S)(new := s)\<rparr>) k' = ((smp_slots S)(k \<mapsto> s)) k'"
    by (cases "sm_index S k'") (simp_all add: smp_slots_def)
qed

lemma smp_linked_create: "smp_linked S \<Longrightarrow> new \<notin> ran (sm_index S) \<Longrightarrow> smp_linked (S\<lparr>sm_index := (sm_index S)(k \<mapsto> new), sm_elem := e\<rparr>)"
  unfolding smp_linked_def by (auto simp: inj_on_def ran_def dom_def)

lemma smp_slots_delete: "smp_slots (S\<lparr>sm_index := (sm_index S)(k := None)\<rparr>) = (smp_slots S)(k := None)"
  by (simp add: smp_slots_def fun_eq_iff)

section \<open>Stretches of the program\<close>

lemma solo_trans: "solo K new s s' \<Longrightarrow> solo K new s' s'' \<Longrightarrow> solo K new s s''"
  by (induction rule: solo.induct) (auto intro: solo_step)

lemma solo_stat: "\<exists>S'. solo K new (S, At_stat p k) (S', Done XDP_DROP p) \<and> smp_maps S' = bump_stat K k (smp_maps S) \<and>
    sm_index S' = sm_index S"
proof (cases "sm_drop_stats S k")
  case (Some cnt)
  let ?S = "S\<lparr>sm_drop_stats := (sm_drop_stats S)(k \<mapsto> cnt + 1)\<rparr>"
  have "solo K new (S, At_stat p k) (?S, Done XDP_DROP p)" using Some by (auto intro!: solo_step [OF _ solo_done])
  then show ?thesis using Some by (intro exI [of _ ?S]) (simp add: bump_stat_def)
next
  case None
  let ?S = "S\<lparr>sm_drop_stats := snd (bpf_map_update_elem (stats_room K) (sm_drop_stats S) k 1 BPF_ANY)\<rparr>"
  have "solo K new (S, At_stat p k) (?S, Done XDP_DROP p)"
    by (rule solo_step [of _ _ _ _ "(S, At_stat_insert p k)"]) (use None in \<open>auto intro!: solo_step [OF _ solo_done]\<close>)
  then show ?thesis using None by (intro exI [of _ ?S]) (simp add: bump_stat_def)
qed

lemma solo_count: "\<exists>S'. solo K new (S, At_count p x a) (S', At_lock p x a) \<and>
    smp_maps S' = job_quota_increment K (k_job_id (xp_key x)) (smp_maps S) \<and> sm_index S' = sm_index S \<and> sm_elem S' = sm_elem S"
proof (cases "sm_job_quota_map S (k_job_id (xp_key x))")
  case (Some jq)
  let ?S = "S\<lparr>sm_job_quota_map := add_slots (k_job_id (xp_key x)) 1 (sm_job_quota_map S)\<rparr>"
  have "solo K new (S, At_count p x a) (?S, At_lock p x a)" using Some by (auto intro!: solo_step [OF _ solo_done])
  then show ?thesis using Some by (intro exI [of _ ?S]) (simp add: job_quota_increment_def)
next
  case None
  let ?j = "k_job_id (xp_key x)"
  obtain rc q where u: "bpf_map_update_elem (quota_room K) (sm_job_quota_map S) ?j \<lparr>concurrent_slots = 1\<rparr> BPF_NOEXIST = (rc, q)"
    by (cases "bpf_map_update_elem (quota_room K) (sm_job_quota_map S) ?j \<lparr>concurrent_slots = 1\<rparr> BPF_NOEXIST")
  let ?S = "S\<lparr>sm_job_quota_map := q\<rparr>"
  have 1: "solo K new (S, At_count p x a) (?S, if rc \<noteq> 0 then At_count_retry p x a else At_lock p x a)"
    by (rule solo_step [of _ _ _ _ "(S, At_count_insert p x a)"]) (use None u in \<open>auto intro!: solo_step [OF _ solo_done]\<close>)
  show ?thesis
  proof (cases "rc = 0")
    case True
    then show ?thesis using 1 None u by (intro exI [of _ ?S]) (simp add: job_quota_increment_def)
  next
    case False
    let ?T = "?S\<lparr>sm_job_quota_map := add_slots ?j 1 q\<rparr>"
    have "solo K new (?S, At_count_retry p x a) (?T, At_lock p x a)" by (rule solo_step [OF _ solo_done]) simp
    with 1 False have "solo K new (S, At_count p x a) (?T, At_lock p x a)" using solo_trans by fastforce
    then show ?thesis using False None u by (intro exI [of _ ?T]) (simp add: job_quota_increment_def)
  qed
qed

lemma solo_finish:
  assumes "xdp_finish K key True n p (smp_maps S) = Some (action, q, M')"
  shows "\<exists>S'. solo K new (S, At_config p key n) (S', Done action q) \<and> smp_maps S' = M'"
proof -
  let ?cfg = "sm_config_map S 0"
  let ?S1 = "S\<lparr>sm_index := (sm_index S)(key := None)\<rparr>"
  have m1: "smp_maps ?S1 = (smp_maps S)\<lparr>slot_map := (smp_slots S)(key := None)\<rparr>"
    by (simp add: smp_maps_def smp_slots_delete)
  have 1: "solo K new (S, At_config p key n) (?S1, At_uncount p key n ?cfg)"
    by (rule solo_step, simp, rule solo_step, simp, rule solo_done)
  have 2: "\<exists>S2. solo K new (?S1, At_uncount p key n ?cfg) (S2, At_forward p n ?cfg) \<and>
      smp_maps S2 = job_quota_decrement (k_job_id key) (smp_maps ?S1)"
  proof (cases "\<exists>jq. sm_job_quota_map S (k_job_id key) = Some jq \<and> concurrent_slots jq > 0")
    case True
    let ?S2 = "?S1\<lparr>sm_job_quota_map := add_slots (k_job_id key) (-1) (sm_job_quota_map S)\<rparr>"
    have "solo K new (?S1, At_uncount p key n ?cfg) (?S2, At_forward p n ?cfg)"
      by (rule solo_step [of _ _ _ _ "(?S1, At_uncount_add p key n ?cfg)"]) (use True in \<open>auto intro!: solo_step [OF _ solo_done]\<close>)
    then show ?thesis using True by (intro exI [of _ ?S2]) (auto simp: job_quota_decrement_def)
  next
    case False
    have "solo K new (?S1, At_uncount p key n ?cfg) (?S1, At_forward p n ?cfg)"
      by (rule solo_step [OF _ solo_done]) (use False in \<open>auto split: option.split\<close>)
    then show ?thesis using False by (intro exI [of _ ?S1]) (auto simp: job_quota_decrement_def split: option.split)
  qed
  then obtain S2 where 2: "solo K new (?S1, At_uncount p key n ?cfg) (S2, At_forward p n ?cfg)"
    "smp_maps S2 = job_quota_decrement (k_job_id key) (smp_maps ?S1)" by blast
  have 3: "\<exists>S'. solo K new (S2, At_forward p n ?cfg) (S', Done action q) \<and> smp_maps S' = M'"
  proof (cases ?cfg)
    case None
    have s: "solo K new (S2, At_forward p n ?cfg) (S2, At_stat p 0)" by (rule solo_step [OF _ solo_done]) (simp add: None)
    obtain S' where "solo K new (S2, At_stat p 0) (S', Done XDP_DROP p)" "smp_maps S' = bump_stat K 0 (smp_maps S2)"
      using solo_stat by blast
    moreover have "action = XDP_DROP" "q = p" "M' = bump_stat K 0 (smp_maps S2)"
      using assms None by (simp_all add: xdp_finish_def 2(2) m1 Let_def)
    ultimately show ?thesis using solo_trans [OF s] by blast
  next
    case (Some cfg)
    have r: "xdp_rewrite cfg n p = Some q" "action = XDP_TX" "M' = smp_maps S2"
      using assms Some by (auto simp: xdp_finish_def 2(2) m1 Let_def bind_eq_Some_conv)
    have "solo K new (S2, At_forward p n ?cfg) (S2, Done XDP_TX q)"
      by (rule solo_step [OF _ solo_done]) (simp add: Some r)
    with r show ?thesis by blast
  qed
  then show ?thesis using solo_trans [OF 1 solo_trans [OF 2(1)]] by blast
qed

text \<open>From the lock on.\<close>

lemma solo_lock:
  assumes "smp_linked S" "sm_index S (xp_key x) = Some a" "sm_elem S a = slot"
    and "do { unlocked \<leftarrow> xdp_locked p x slot;
           case unlocked of
             None \<Rightarrow> Some (XDP_DROP, p, smp_maps S)
           | Some (slot, p, is_complete, final_chunk_len) \<Rightarrow>
               xdp_finish K (xp_key x) is_complete final_chunk_len p
                 ((smp_maps S)\<lparr>slot_map := (smp_slots S)(xp_key x \<mapsto> slot)\<rparr>) } = Some (action, q, M')"
  shows "\<exists>S'. solo K new (S, At_lock p x a) (S', Done action q) \<and> smp_maps S' = M'"
proof -
  obtain u where u: "xdp_locked p x slot = Some u" using assms(4) by (auto simp: bind_eq_Some_conv)
  show ?thesis
  proof (cases u)
    case None
    then have "solo K new (S, At_lock p x a) (S, Done XDP_DROP p)" using u assms(3) by (intro solo_step [OF _ solo_done]) simp
    then show ?thesis using None u assms(4) by auto
  next
    case (Some r)
    obtain slot' p' b n where r: "r = (slot', p', b, n)" by (cases r)
    let ?S = "S\<lparr>sm_elem := (sm_elem S)(a := slot')\<rparr>"
    have m: "smp_maps ?S = (smp_maps S)\<lparr>slot_map := (smp_slots S)(xp_key x \<mapsto> slot')\<rparr>"
      using smp_slots_write [OF assms(1,2)] by (simp add: smp_maps_def)
    have s: "cpu_step K new S (At_lock p x a) = Some (?S, if b then At_config p' (xp_key x) n else Done XDP_DROP p')"
      using u Some r assms(3) by simp
    show ?thesis
    proof (cases b)
      case True
      then have "xdp_finish K (xp_key x) True n p' (smp_maps ?S) = Some (action, q, M')"
        using assms(4) u Some r by (simp add: m)
      from solo_finish [OF this, of new] obtain S' where "solo K new (?S, At_config p' (xp_key x) n) (S', Done action q)" "smp_maps S' = M'" by blast
      moreover have "cpu_step K new S (At_lock p x a) = Some (?S, At_config p' (xp_key x) n)" using s True by (simp only: if_True)
      ultimately show ?thesis using solo_step by blast
    next
      case False
      then have "action = XDP_DROP" "q = p'" "M' = smp_maps ?S" using assms(4) u Some r by (simp_all add: m xdp_finish_def)
      moreover have "solo K new (S, At_lock p x a) (?S, Done XDP_DROP p')" using s False by (intro solo_step [OF _ solo_done]) simp
      ultimately show ?thesis by blast
    qed
  qed
qed

section \<open>The whole program\<close>

text \<open>The slot lookup and creation ends at the lock, or drops the packet.\<close>

lemma solo_slot_for:
  assumes m: "xdp_match p" and S: "smp_linked S" "new \<notin> ran (sm_index S)"
    and r: "xdp_slot_for K p (parsed_of p) (smp_maps S) = Some (found, M')"
  shows "\<exists>S'. smp_maps S' = M' \<and> smp_linked S' \<and>
    (case found of
       None \<Rightarrow> solo K new (S, At_lookup p (parsed_of p)) (S', Done XDP_DROP p)
     | Some slot \<Rightarrow> \<exists>a. sm_index S' (key_of (xdp_hdr p)) = Some a \<and> sm_elem S' a = slot \<and>
         solo K new (S, At_lookup p (parsed_of p)) (S', At_lock p (parsed_of p) a))"
proof -
  let ?k = "key_of (xdp_hdr p)" and ?x = "parsed_of p" and ?n = "gh_num_workers (xdp_hdr p)"
  have len: "62 \<le> length p" using m by (simp add: xdp_match_def)
  have ix: "smp_slots S ?k = None \<longleftrightarrow> sm_index S ?k = None" by (simp add: smp_slots_def)
  have look: "sm_index S ?k = None \<Longrightarrow> solo K new (S, At_admission p ?x) s \<Longrightarrow> solo K new (S, At_lookup p ?x) s" for s
    by (rule solo_step [of _ _ _ _ "(S, At_admission p ?x)"]) simp_all
  have jb: "k_job_id ?k = gh_job_id (xdp_hdr p)" by (simp add: key_of_def)
  have w: "(wire16 p 56 = 0 \<or> 256 < unat (wire16 p 56)) \<longleftrightarrow> \<not> workers_ok ?n" by (auto simp: workers_ok_def unat_gt_0)
  have q: "((case sm_config_map S 0 of Some cfg \<Rightarrow> max_slots_per_job cfg | None \<Rightarrow> 0) > 0 \<and>
      (case sm_job_quota_map S (gh_job_id (xdp_hdr p)) of Some jq \<Rightarrow> concurrent_slots jq \<ge>
         (case sm_config_map S 0 of Some cfg \<Rightarrow> max_slots_per_job cfg | None \<Rightarrow> 0) | None \<Rightarrow> False)) \<longleftrightarrow>
      over_quota (smp_maps S) (gh_job_id (xdp_hdr p))"
    by (auto simp: over_quota_def split: option.splits)
  have adm: "cpu_step K new S (At_admission p ?x) = Some (S,
      if \<not> workers_ok ?n then Done XDP_DROP p
      else if over_quota (smp_maps S) (gh_job_id (xdp_hdr p)) then At_stat p 1 else At_create p ?x ?n)"
    using len w q by (auto simp: wire_load MAX_TRACKED_WORKERS_BITMAP_BYTES_def jb Let_def)
  show ?thesis
  proof (cases rule: xdp_slot_for_cases [OF m, of "smp_maps S" K, case_names found workers quota full created])
    case (found s)
    then obtain a where a: "sm_index S ?k = Some a" "sm_elem S a = s" by (auto simp: smp_slots_def)
    then have "solo K new (S, At_lookup p ?x) (S, At_lock p ?x a)" by (intro solo_step [OF _ solo_done]) simp
    then show ?thesis using found r a S by (intro exI [of _ S]) auto
  next
    case workers
    have "solo K new (S, At_admission p ?x) (S, Done XDP_DROP p)" using workers adm by (intro solo_step [OF _ solo_done]) simp
    then show ?thesis using workers r look S ix by (intro exI [of _ S]) auto
  next
    case quota
    obtain S' where S': "solo K new (S, At_stat p 1) (S', Done XDP_DROP p)" "smp_maps S' = bump_stat K 1 (smp_maps S)"
      "sm_index S' = sm_index S"
      using solo_stat by blast
    have "cpu_step K new S (At_admission p ?x) = Some (S, At_stat p 1)" using quota adm by simp
    then have "solo K new (S, At_admission p ?x) (S', Done XDP_DROP p)" using S'(1) by (rule solo_step)
    then show ?thesis using quota r look S ix S'(2,3) by (intro exI [of _ S']) (auto simp: smp_linked_def)
  next
    case full
    have c: "cpu_step K new S (At_admission p ?x) = Some (S, At_create p ?x ?n)" using full adm by simp
    have "solo K new (S, At_create p ?x ?n) (S, Done XDP_DROP p)"
      by (rule solo_step [of _ _ _ _ "(S, At_relookup p ?x (-7))"]) (use full ix in \<open>auto simp: Let_def intro!: solo_step [OF _ solo_done]\<close>)
    then show ?thesis using full r look S ix solo_step [OF c] by (intro exI [of _ S]) auto
  next
    case created
    let ?fresh = "zero_grad_slot\<lparr>gs_chunk_len := xp_chunk_len ?x, gs_num_workers_expected := ?n\<rparr>"
    let ?S1 = "S\<lparr>sm_index := (sm_index S)(?k \<mapsto> new), sm_elem := (sm_elem S)(new := ?fresh)\<rparr>"
    have c: "cpu_step K new S (At_admission p ?x) = Some (S, At_create p ?x ?n)" using created adm by simp
    have fr: "?fresh = fresh_slot p" by (simp add: fresh_slot_def parsed_of_def)
    have "solo K new (S, At_create p ?x ?n) (?S1, At_count p ?x new)"
      by (rule solo_step [of _ _ _ _ "(?S1, At_relookup p ?x 0)"]) (use created in \<open>auto simp: Let_def intro!: solo_step [OF _ solo_done]\<close>)
    then have 1: "solo K new (S, At_lookup p ?x) (?S1, At_count p ?x new)" using look created(1) ix solo_step [OF c] by simp
    obtain S' where S': "solo K new (?S1, At_count p ?x new) (S', At_lock p ?x new)"
      "smp_maps S' = job_quota_increment K (k_job_id (xp_key ?x)) (smp_maps ?S1)" "sm_index S' = sm_index ?S1" "sm_elem S' = sm_elem ?S1"
      using solo_count by blast
    have m1: "smp_maps ?S1 = (smp_maps S)\<lparr>slot_map := (smp_slots S)(?k \<mapsto> fresh_slot p)\<rparr>"
      unfolding fr [symmetric] using smp_slots_create [OF S(2), where k = ?k and s = ?fresh] by (simp add: smp_maps_def)
    have m: "smp_maps S' = created K p (smp_maps S)" using S'(2) unfolding m1 by (simp add: created_def jb)
    have l: "smp_linked S'" using smp_linked_create [OF S, where k = ?k] S'(3) by (simp add: smp_linked_def)
    have f: "found = Some (fresh_slot p)" "M' = created K p (smp_maps S)" using created(5) r by simp_all
    show ?thesis using S'(3,4) l m f fr solo_trans [OF 1 S'(1)] by (intro exI [of _ S']) simp
  qed
qed

lemma solo_program:
  assumes S: "smp_linked S" "new \<notin> ran (sm_index S)"
    and r: "netsum_xdp_aggregate K (smp_maps S) p = Some (action, q, M')"
  shows "\<exists>S'. solo K new (S, At_parse p) (S', Done action q) \<and> smp_maps S' = M'"
proof (cases "xdp_match p \<and> xdp_valid p")
  case False
  then have "\<exists>act. xdp_parse p = Some (Inl act)" by (auto simp: xdp_parse_eq)
  then obtain act where "xdp_parse p = Some (Inl act)" ..
  moreover from this have "action = act" "q = p" "M' = smp_maps S" using r by (simp_all add: netsum_xdp_aggregate_def)
  ultimately show ?thesis by (intro exI [of _ S]) (auto intro!: solo_step [OF _ solo_done])
next
  case True
  let ?x = "parsed_of p"
  have px: "xdp_parse p = Some (Inr ?x)" using True by (simp add: xdp_parse_ok)
  obtain found M1 where f: "xdp_slot_for K p ?x (smp_maps S) = Some (found, M1)"
    using r px by (auto simp: netsum_xdp_aggregate_def bind_eq_Some_conv)
  have 0: "solo K new (S, At_lookup p ?x) s \<Longrightarrow> solo K new (S, At_parse p) s" for s
    by (rule solo_step [of _ _ _ _ "(S, At_lookup p ?x)"]) (simp_all add: px)
  from solo_slot_for [OF _ S f] True obtain S1 where S1: "smp_maps S1 = M1" "smp_linked S1"
    "case found of
       None \<Rightarrow> solo K new (S, At_lookup p ?x) (S1, Done XDP_DROP p)
     | Some slot \<Rightarrow> \<exists>a. sm_index S1 (key_of (xdp_hdr p)) = Some a \<and> sm_elem S1 a = slot \<and>
         solo K new (S, At_lookup p ?x) (S1, At_lock p ?x a)"
    by blast
  show ?thesis
  proof (cases found)
    case None
    then show ?thesis using S1 r px f 0 by (intro exI [of _ S1]) (simp add: netsum_xdp_aggregate_def)
  next
    case (Some slot)
    with S1(3) obtain a where a: "sm_index S1 (key_of (xdp_hdr p)) = Some a" "sm_elem S1 a = slot"
      "solo K new (S, At_lookup p ?x) (S1, At_lock p ?x a)" by auto
    have sl: "slot_map M1 = smp_slots S1" using S1(1) by auto
    have "\<exists>S'. solo K new (S1, At_lock p ?x a) (S', Done action q) \<and> smp_maps S' = M'"
    proof (rule solo_lock [OF S1(2)])
      show "sm_index S1 (xp_key ?x) = Some a" "sm_elem S1 a = slot" using a by simp_all
    qed (unfold S1(1) key_parsed sl [symmetric], use r px f Some in \<open>simp add: netsum_xdp_aggregate_def\<close>)
    then show ?thesis using 0 solo_trans [OF a(3)] by blast
  qed
qed

end
