(* ===== verification/Xdp_Smp_Properties.thy ===== *)
theory Xdp_Smp_Properties
  imports Xdp_Smp_Leak Xdp_Smp_Solo Xdp_Smp_Finish Xdp_Properties
begin

text \<open>The properties of the kernel aggregator on several CPUs, each with a witness.\<close>

section \<open>Samples\<close>

definition smp_config :: "u32 \<Rightarrow> u32 \<rightharpoonup> netsum_config" where
  "smp_config quota = [0 \<mapsto> sample_config\<lparr>max_slots_per_job := quota\<rparr>]"

lemma smp_config_simps [simp]:
  "mac_ok (smp_config quota)" "smp_config quota 0 = Some (sample_config\<lparr>max_slots_per_job := quota\<rparr>)"
  by (simp_all add: mac_ok_def smp_config_def sample_config_def)

abbreviation smp_sample :: "u32 \<Rightarrow> u16 \<Rightarrow> i32 list \<Rightarrow> bytes" where
  "smp_sample chunk w vs \<equiv> sample_frame (sample_hdr chunk w) vs"

lemma sample_hdr_simps [simp]:
  "gh_num_workers (sample_hdr chunk w) = 2" "gh_chunk_len (sample_hdr chunk w) = 2" "gh_worker_id (sample_hdr chunk w) = w"
  "gh_job_id (sample_hdr chunk w) = 7" "key_of (sample_hdr chunk w) = \<lparr>k_job_id = 7, k_round = 0, k_chunk_id = chunk\<rparr>"
  by (simp_all add: sample_hdr_def key_of_def)

lemma smp_sample_fields:
  "wire16 (smp_sample chunk w vs) 54 = w" "wire16 (smp_sample chunk w vs) 56 = 2" "wire16 (smp_sample chunk w vs) 58 = 2"
  "wire32 (smp_sample chunk w vs) 42 = 7"
  using sample_frame_wire16 [of "sample_hdr chunk w" vs] wire_hdr_sel(1) [of "smp_sample chunk w vs" 42, unfolded sample_frame_hdr] by simp_all

section \<open>Properties\<close>

text \<open>
  C2. Aggregation under concurrency. For any number of CPUs, any packets and every interleaving of their actions: no
  CPU ever accesses memory outside its packet or a slot; every element holds the exact sum of the packets added to
  it, of pairwise different workers, none lost and none counted twice; and a transmitted packet carries the
  sum of a complete set of packets, as many as the packet announced that the slot was created for, pairwise different workers, of one
  length, the transmitting CPU's own the last. When the kernel does not hand out an element while a CPU holds a
  pointer to it, they are all for one (job, round, chunk).
\<close>
theorem smp_tx_is_complete_round:
  assumes "smp_steps K recycles (smp_init C) m" "mac_ok C"
  shows "(\<forall>c q. m_cpus m c = Done XDP_TX q \<longrightarrow>
      (\<exists>cfg. C 0 = Some cfg \<and> completed_round recycles (m_received m) (m_round m c) \<and>
         forwarded cfg (last (m_round m c)) (round_sum (m_round m c)) q)) \<and>
    (\<forall>a. elem_log (m_received m) (sm_elem (m_smp m) a) (m_log m a)) \<and>
    (\<forall>c new. \<not> cpu_ready (m_cpus m c) \<longrightarrow> cpu_step K new (m_smp m) (m_cpus m c) \<noteq> None)"
proof (intro conjI allI impI)
  have I: "machine_inv recycles C m" by (rule smp_steps_inv [OF assms(1) smp_init_inv assms(2)])
  fix c
  show "\<exists>cfg. C 0 = Some cfg \<and> completed_round recycles (m_received m) (m_round m c) \<and>
      forwarded cfg (last (m_round m c)) (round_sum (m_round m c)) q" if "m_cpus m c = Done XDP_TX q" for q
    using machine_invD(7) [OF I, of c] that by simp
  show "elem_log (m_received m) (sm_elem (m_smp m) a) (m_log m a)" for a by (rule machine_invD(2) [OF I])
  show "cpu_step K new (m_smp m) (m_cpus m c) \<noteq> None" if "\<not> cpu_ready (m_cpus m c)" for new
    using cpu_step_total [OF I assms(2) machine_invD(7) [OF I] that] by auto
qed

text \<open>A run that does transmit: the one of the race below.\<close>

lemma sample_recycled:
  "\<exists>m q. smp_steps sample_kernel True (smp_init (smp_config 0)) m \<and> machine_inv True (smp_config 0) m \<and> m_cpus m 1 = Done XDP_TX q \<and>
     m_round m 1 = [smp_sample 1 1 [100, 200], smp_sample 0 0 [5, 7]] \<and>
     sm_index (m_smp m) (key_of (xdp_hdr (smp_sample 1 1 [100, 200]))) = Some 0 \<and>
     m_log m 0 = [smp_sample 1 1 [100, 200], smp_sample 0 0 [5, 7]] \<and> m_creator m 0 = smp_sample 1 1 [100, 200]"
  by (rule slot_recycled [where ?a1.0 = "smp_sample 0 1 [1, -9]" and cfg = "sample_config\<lparr>max_slots_per_job := 0\<rparr>"])
    (simp_all add: smp_sample_fields del: wire_hdr_sel)

theorem smp_tx_is_complete_round_witness:
  "\<exists>m q cfg. smp_steps sample_kernel True (smp_init (smp_config 0)) m \<and> m_cpus m 1 = Done XDP_TX q \<and> length (m_round m 1) = 2 \<and>
     forwarded cfg (last (m_round m 1)) (round_sum (m_round m 1)) q"
proof -
  obtain m q where m: "smp_steps sample_kernel True (smp_init (smp_config 0)) m" "m_cpus m 1 = Done XDP_TX q"
    "m_round m 1 = [smp_sample 1 1 [100, 200], smp_sample 0 0 [5, 7]]" using sample_recycled by blast
  from conjunct1 [OF smp_tx_is_complete_round [OF m(1) smp_config_simps(1)]] m(2)
  obtain cfg where "forwarded cfg (last (m_round m 1)) (round_sum (m_round m 1)) q" by blast
  with m show ?thesis by (intro exI [of _ m] exI [of _ q] exI [of _ cfg]) simp
qed

text \<open>
  C22. A slot reused under a CPU's hands. With the preallocated hash map of 65536 entries the program declares, on a kernel that
  recycles its elements at once, take a round of two workers, one of which sends its packet again, and a round for
  another key: there is an interleaving in which the repeated packet, handled by a CPU that had looked
  up the slot before the first round completed, is added to the second round's slot. It completes
  there: the sum of packets of two different rounds is transmitted, under the key of the first, and the second
  round's slot stays in the map, full, so that the round can never complete.
\<close>
theorem smp_recycled_slot_mixes_rounds:
  assumes "mac_ok C" "C 0 = Some cfg" "max_slots_per_job cfg = 0" "room_up_to 65536 (slot_room K)"
    and "xdp_match a0" "xdp_valid a0" "xdp_match a1" "xdp_valid a1" "xdp_match b1" "xdp_valid b1"
    and "unat (gh_num_workers (xdp_hdr a0)) = 2" "unat (gh_num_workers (xdp_hdr b1)) = 2"
    and "gh_chunk_len (xdp_hdr a1) = gh_chunk_len (xdp_hdr a0)" "gh_chunk_len (xdp_hdr b1) = gh_chunk_len (xdp_hdr a0)"
    and "key_of (xdp_hdr a1) = key_of (xdp_hdr a0)" "key_of (xdp_hdr b1) \<noteq> key_of (xdp_hdr a0)"
    and "gh_worker_id (xdp_hdr a1) \<noteq> gh_worker_id (xdp_hdr a0)" "gh_worker_id (xdp_hdr b1) \<noteq> gh_worker_id (xdp_hdr a0)"
  shows "\<exists>m q s. smp_steps K True (smp_init C) m \<and> m_cpus m 1 = Done XDP_TX q \<and>
    forwarded cfg a0 (round_sum [b1, a0]) q \<and> key_of (xdp_hdr q) = key_of (xdp_hdr a0) \<and>
    smp_slots (m_smp m) (key_of (xdp_hdr b1)) = Some s \<and> gs_contributions_received s = gs_num_workers_expected s"
proof -
  obtain m q where m: "smp_steps K True (smp_init C) m" "machine_inv True C m" "m_cpus m 1 = Done XDP_TX q" "m_round m 1 = [b1, a0]"
    "sm_index (m_smp m) (key_of (xdp_hdr b1)) = Some 0" "m_log m 0 = [b1, a0]" "m_creator m 0 = b1"
    using slot_recycled [where C = C and cfg = cfg and K = K and ?a0.0 = a0 and ?a1.0 = a1 and ?b1.0 = b1, OF assms] by blast
  have fw: "forwarded cfg a0 (round_sum [b1, a0]) q" using machine_invD(7) [OF m(2), of 1] m(3,4) assms(2) by auto
  then have k: "key_of (xdp_hdr q) = key_of (xdp_hdr a0)" by (simp add: forwarded_def key_of_def del: wire_hdr_sel)
  have "unat (gs_contributions_received (sm_elem (m_smp m) 0)) = 2"
    using elem_logD(2) [OF machine_invD(2) [OF m(2), of 0]] m(6) by simp
  then have "gs_contributions_received (sm_elem (m_smp m) 0) = gs_num_workers_expected (sm_elem (m_smp m) 0)"
    using machine_invD(3) [OF m(2), of 0] m(7) assms(12) by (simp add: word_unat_eq_iff)
  then show ?thesis using m fw k by (intro exI [of _ m] exI [of _ q] exI [of _ "sm_elem (m_smp m) 0"]) (simp add: smp_slots_def)
qed

theorem smp_recycled_slot_mixes_rounds_witness:
  "\<exists>m q. smp_steps sample_kernel True (smp_init (smp_config 0)) m \<and> m_cpus m 1 = Done XDP_TX q \<and>
     key_of (xdp_hdr q) = \<lparr>k_job_id = 7, k_round = 0, k_chunk_id = 0\<rparr> \<and> wire_values q 62 2 = [105, 207]"
proof -
  let ?a = "smp_sample 0 0 [5, 7]" and ?b = "smp_sample 1 1 [100, 200]"
  have "\<exists>m q s. smp_steps sample_kernel True (smp_init (smp_config 0)) m \<and> m_cpus m 1 = Done XDP_TX q \<and>
    forwarded (sample_config\<lparr>max_slots_per_job := 0\<rparr>) ?a (round_sum [?b, ?a]) q \<and> key_of (xdp_hdr q) = key_of (xdp_hdr ?a) \<and>
    smp_slots (m_smp m) (key_of (xdp_hdr ?b)) = Some s \<and> gs_contributions_received s = gs_num_workers_expected s"
    by (rule smp_recycled_slot_mixes_rounds [where ?a1.0 = "smp_sample 0 1 [1, -9]"]) (simp_all add: smp_sample_fields del: wire_hdr_sel)
  then obtain m q where m: "smp_steps sample_kernel True (smp_init (smp_config 0)) m" "m_cpus m 1 = Done XDP_TX q"
    "forwarded (sample_config\<lparr>max_slots_per_job := 0\<rparr>) ?a (round_sum [?b, ?a]) q" "key_of (xdp_hdr q) = key_of (xdp_hdr ?a)" by blast
  have "round_sum [?b, ?a] = [105, 207]"
    by (simp add: round_sum_def column_sum_def upt_rec del: wire_hdr_sel)
  with m(3) have "wire_values q 62 2 = [105, 207]" by (simp add: forwarded_def numeral_2_eq_2 del: wire_hdr_sel)
  with m show ?thesis by (intro exI [of _ m] exI [of _ q]) (simp del: wire_hdr_sel)
qed

text \<open>
  C23. The admission check can be overtaken. Whatever quota is configured, for any packets of one job for pairwise different
  keys, up to the 65536 the slot map has room for, and as many CPUs, there is an interleaving in which each of them opens its slot: all pass the check before the
  first one is counted. The quota bounds what a job can open from one CPU, not what it can open from
  several at once.
\<close>
theorem smp_quota_overtaken:
  assumes "C 0 = Some cfg" "room_up_to 65536 (slot_room K)" "newcomers job ps" "length ps \<le> 65536"
  shows "\<exists>m. smp_steps K recycles (smp_init C) m \<and>
    dom (smp_slots (m_smp m)) = (\<lambda>p. key_of (xdp_hdr p)) ` set ps \<and> card (dom (smp_slots (m_smp m))) = length ps"
proof -
  from all_created [where C = C and cfg = cfg and K = K and job = job and ps = ps and j = "length ps" and e = recycles, OF assms order_refl]
  obtain m where m: "smp_steps K recycles (smp_init C) m"
    "dom (sm_index (m_smp m)) = (\<lambda>i. key_of (xdp_hdr (ps ! i))) ` {..<length ps}" by auto
  have "dom (smp_slots (m_smp m)) = dom (sm_index (m_smp m))" by (auto simp: smp_slots_def dom_def)
  also have "\<dots> = set (map (\<lambda>p. key_of (xdp_hdr p)) ps)" unfolding m(2) by (fastforce simp: in_set_conv_nth)
  finally have d: "dom (smp_slots (m_smp m)) = set (map (\<lambda>p. key_of (xdp_hdr p)) ps)" .
  have "card (set (map (\<lambda>p. key_of (xdp_hdr p)) ps)) = length ps"
    using assms(3) distinct_card [of "map (\<lambda>p. key_of (xdp_hdr p)) ps"] by (simp add: newcomers_def)
  then show ?thesis using m(1) d by (intro exI [of _ m]) simp
qed

text \<open>Three slots of one job, one allowed.\<close>
theorem smp_quota_overtaken_witness:
  "\<exists>m. smp_steps sample_kernel True (smp_init (smp_config 1)) m \<and> card (dom (smp_slots (m_smp m))) = 3"
proof -
  let ?ps = "map (\<lambda>chunk. smp_sample chunk 0 [1, 2]) [0, 1, 2]"
  have "newcomers 7 ?ps" by (simp add: newcomers_def smp_sample_fields workers_ok_def del: wire_hdr_sel)
  from smp_quota_overtaken [of "smp_config 1" _ sample_kernel, OF _ _ this, of _ True] show ?thesis by auto
qed

text \<open>
  C24. A repeated packet can lock its job out for good. A slot is counted for its job after it has been linked, and the CPU
  that completes it subtracts nothing when nothing has been added yet. With the maps the program declares and a quota of one slot take a round of two workers
  one of which sends its packet again: there is an interleaving on two CPUs after which both are through, no slot is
  open and one is counted. From then on, whatever comes in and however the CPUs act, no slot is opened for that job again.
\<close>
theorem smp_quota_leak_locks_out:
  assumes "mac_ok C" "C 0 = Some cfg" "max_slots_per_job cfg = 1" "room_up_to 65536 (slot_room K)" "room_up_to 256 (quota_room K)"
    and "xdp_match a0" "xdp_valid a0" "xdp_match a1" "xdp_valid a1" "unat (gh_num_workers (xdp_hdr a0)) = 2"
    and "gh_chunk_len (xdp_hdr a1) = gh_chunk_len (xdp_hdr a0)" "key_of (xdp_hdr a1) = key_of (xdp_hdr a0)"
    and "gh_worker_id (xdp_hdr a1) \<noteq> gh_worker_id (xdp_hdr a0)"
  shows "\<exists>m. smp_steps K recycles (smp_init C) m \<and> (\<forall>c. cpu_ready (m_cpus m c)) \<and> smp_slots (m_smp m) = Map.empty \<and>
    (\<forall>m' k. smp_steps K recycles m m' \<longrightarrow> k_job_id k = gh_job_id (xdp_hdr a0) \<longrightarrow> smp_slots (m_smp m') k = None)"
proof -
  let ?job = "gh_job_id (xdp_hdr a0)"
  obtain m q where m: "smp_steps K recycles (smp_init C) m" "sm_index (m_smp m) = Map.empty" "sm_config_map (m_smp m) = C"
    "sm_job_quota_map (m_smp m) = [?job \<mapsto> \<lparr>concurrent_slots = 1\<rparr>]" "m_cpus m = (\<lambda>_. Idle)(0 := Done XDP_DROP a0, 1 := Done XDP_TX q)"
    using quota_leaked [where e = recycles and K = K, OF assms(1,2,4-13)] by blast
  have "locked_out ?job m" using m assms(2,3) by (auto simp: locked_out_def at_quota_def no_slots_def)
  from locked_out_steps [OF _ this] have "smp_slots (m_smp m') k = None" if "smp_steps K recycles m m'" "k_job_id k = ?job" for m' k
    using that by (auto simp: locked_out_def no_slots_def smp_slots_def)
  moreover have "smp_slots (m_smp m) = Map.empty" by (simp add: smp_slots_def fun_eq_iff m(2))
  ultimately show ?thesis using m(1,5) by (intro exI [of _ m]) simp
qed

theorem smp_quota_leak_locks_out_witness:
  "\<exists>m. smp_steps sample_kernel False (smp_init (smp_config 1)) m \<and> smp_slots (m_smp m) = Map.empty \<and>
     (\<forall>m' chunk. smp_steps sample_kernel False m m' \<longrightarrow> smp_slots (m_smp m') \<lparr>k_job_id = 7, k_round = 9, k_chunk_id = chunk\<rparr> = None)"
proof -
  let ?a0 = "smp_sample 0 0 [5, 7]" and ?a1 = "smp_sample 0 1 [1, -9]"
  have "\<exists>m. smp_steps sample_kernel False (smp_init (smp_config 1)) m \<and> (\<forall>c. cpu_ready (m_cpus m c)) \<and> smp_slots (m_smp m) = Map.empty \<and>
      (\<forall>m' k. smp_steps sample_kernel False m m' \<longrightarrow> k_job_id k = gh_job_id (xdp_hdr ?a0) \<longrightarrow> smp_slots (m_smp m') k = None)"
    by (rule smp_quota_leak_locks_out [where ?a1.0 = ?a1 and cfg = "sample_config\<lparr>max_slots_per_job := 1\<rparr>"]) (simp_all add: smp_sample_fields del: wire_hdr_sel)
  then show ?thesis by (auto simp: smp_sample_fields)
qed

text \<open>
  C6. Rounds complete under concurrency. On any number of CPUs and under every interleaving, with any other
  traffic: when every packet of a round has come in once and all CPUs are through with their packets, exactly one
  packet has been transmitted for the round's key; it carries the sum of all the round's packets, and the slot is
  gone. This holds without a quota, with the slot map the program declares (room for 65536 slots) and gradient
  packets for no more keys than that. On a kernel that recycles elements at once it holds when the
  packets of every key are of one round and none comes in twice.
\<close>
theorem smp_round_completes:
  assumes "smp_trace K recycles (smp_init C) tr m" "mac_ok C" "C 0 = Some cfg" "max_slots_per_job cfg = 0"
    and "room_up_to 65536 (slot_room K)" "card {k. arrivals k tr \<noteq> []} \<le> 65536"
    and "\<And>c. cpu_ready (m_cpus m c)" "round_packets k n len (arrivals k tr)" "length (arrivals k tr) = n" "0 < n" "n \<le> 256"
    and "recycles \<Longrightarrow> \<forall>k. \<exists>n len. round_part k n len (arrivals k tr)"
  shows "\<exists>p q. transmissions k tr = [q] \<and> p \<in> set (arrivals k tr) \<and> smp_slots (m_smp m) k = None \<and>
    forwarded cfg p (column_sum len (mset (map xdp_values (arrivals k tr)))) q"
proof -
  have R: "round_part k n len (arrivals k tr)" using assms(8-11) by (simp add: round_part_def)
  have T: "smp_trace K False (smp_init C) tr m"
    using trace_without_repeats [OF assms(1-5) assms(6) [folded trace_keys_def]] assms(1,12) by (cases recycles) simp_all
  from quiet_round_complete [OF smp_trace_inv [OF T assms(2)] trace_stage [OF T assms(2-5) assms(6) [folded trace_keys_def] R] R assms(9,7)] show ?thesis
    by (simp add: smp_slots_def)
qed

text \<open>Two packets that come in on two CPUs at once, on a kernel that recycles.\<close>
theorem smp_round_completes_witness:
  "\<exists>tr m q. smp_trace sample_kernel True (smp_init (smp_config 0)) tr m \<and> (\<forall>c. cpu_ready (m_cpus m c)) \<and>
     transmissions \<lparr>k_job_id = 7, k_round = 0, k_chunk_id = 0\<rparr> tr = [q] \<and> wire_values q 62 2 = [6, -2]"
proof -
  let ?a = "smp_sample 0 0 [5, 7]" and ?b = "smp_sample 0 1 [1, -9]" and ?k = "\<lparr>k_job_id = 7, k_round = 0, k_chunk_id = 0\<rparr>"
  let ?C = "smp_config 0" and ?i = "smp_init (smp_config 0)"
  let ?m = "?i\<lparr>m_cpus := (m_cpus ?i)(0 := At_parse ?a), m_received := insert ?a (m_received ?i)\<rparr>"
  have 1: "smp_trace sample_kernel True ?i ([] @ [Arrives ?a]) ?m" by (rule smp_trace.arrival [OF smp_trace.start]) (simp add: smp_init_def)
  have 2: "smp_trace sample_kernel True ?i (([] @ [Arrives ?a]) @ [Arrives ?b])
      (?m\<lparr>m_cpus := (m_cpus ?m)(1 := At_parse ?b), m_received := insert ?b (m_received ?m)\<rparr>)"
    by (rule smp_trace.arrival [OF 1]) (simp add: smp_init_def)
  obtain tr m where t: "smp_trace sample_kernel True ?i tr m" "\<And>k. arrivals k tr = arrivals k (([] @ [Arrives ?a]) @ [Arrives ?b])" "busy m = {}"
    using smp_trace_drains [OF 2 smp_config_simps(1)] by blast
  have fk: "for_key k ?a \<longleftrightarrow> k = ?k" "for_key k ?b \<longleftrightarrow> k = ?k" for k by (auto simp: for_key_def simp del: wire_hdr_sel)
  have arr: "arrivals k tr = (if k = ?k then [?a, ?b] else [])" for k
    unfolding t(2) arrivals_simps fk by simp
  have R: "round_packets ?k 2 2 [?a, ?b]" by (simp add: round_packets_def del: wire_hdr_sel)
  have all: "\<forall>k. \<exists>n len. round_part k n len (arrivals k tr)"
  proof
    fix k
    show "\<exists>n len. round_part k n len (arrivals k tr)"
      by (cases "k = ?k") (use R in \<open>auto simp: arr round_part_def round_packets_def simp del: wire_hdr_sel\<close>)
  qed
  have few: "card {k. arrivals k tr \<noteq> []} \<le> 65536" by (simp add: arr)
  have quiet: "cpu_ready (m_cpus m c)" for c using t(3) by (auto simp: busy_def)
  have "\<exists>p q. transmissions ?k tr = [q] \<and> p \<in> set (arrivals ?k tr) \<and> smp_slots (m_smp m) ?k = None \<and>
      forwarded (sample_config\<lparr>max_slots_per_job := 0\<rparr>) p (column_sum 2 (mset (map xdp_values (arrivals ?k tr)))) q"
    by (rule smp_round_completes [OF t(1), where n = 2]) (use quiet R all in \<open>simp_all add: arr few\<close>)
  then obtain p q where q: "transmissions ?k tr = [q]"
    "forwarded (sample_config\<lparr>max_slots_per_job := 0\<rparr>) p (column_sum 2 (mset (map xdp_values [?a, ?b]))) q" unfolding arr by auto
  have "column_sum 2 (mset (map xdp_values [?a, ?b])) = [6, -2]" by (simp add: column_sum_def upt_rec del: wire_hdr_sel)
  with q(2) have "wire_values q 62 2 = [6, -2]" by (simp add: forwarded_def numeral_2_eq_2 del: wire_hdr_sel)
  with t(1) q(1) quiet show ?thesis by blast
qed

end
