(* ===== verification/Xdp_Spin_Properties.thy ===== *)
theory Xdp_Spin_Properties
  imports Xdp_Spin_Drain Xdp_Smp_Properties
begin

text \<open>The properties of the kernel aggregator on several CPUs with the spin lock as it is taken and released, each with a witness.\<close>

section \<open>What the atomic machine promises\<close>




section \<open>A sample run\<close>


definition sample_pair :: "smp_event list" where
  "sample_pair = [Arrives (smp_sample 0 0 [5, 7]), Arrives (smp_sample 0 1 [1, -9])]"

definition spin_pair :: spin where
  "spin_pair = (spin_init (smp_config 0))\<lparr>sp_cpus := (\<lambda>_. Outside Idle)
     (0 := Outside (At_parse (smp_sample 0 0 [5, 7])), 1 := Outside (At_parse (smp_sample 0 1 [1, -9])))\<rparr>"

lemma spin_pair_trace: "spin_trace sample_kernel (spin_init (smp_config 0)) sample_pair spin_pair"
proof -
  let ?a = "smp_sample 0 0 [5, 7]" and ?b = "smp_sample 0 1 [1, -9]" and ?i = "spin_init (smp_config 0)"
  let ?m = "?i\<lparr>sp_cpus := (sp_cpus ?i)(0 := Outside (At_parse ?a))\<rparr>"
  have "spin_trace sample_kernel ?i ([] @ [Arrives ?a]) ?m"
    by (intro spin_trace.step [OF spin_trace.start] spin_step.receive) (simp add: spin_init_def spin_ready_def)
  then have "spin_trace sample_kernel ?i (([] @ [Arrives ?a]) @ [Arrives ?b]) (?m\<lparr>sp_cpus := (sp_cpus ?m)(1 := Outside (At_parse ?b))\<rparr>)"
    by (rule spin_trace.step, intro spin_step.receive) (simp add: spin_init_def spin_ready_def)
  then show ?thesis by (simp add: sample_pair_def spin_pair_def spin_init_def)
qed




lemma spin_pair_finishes:
  obtains n m tr where "(spin_act sample_kernel ^^ n) spin_pair m" "spin_trace sample_kernel (spin_init (smp_config 0)) tr m"
    "\<And>c. spin_ready (sp_cpus m c)" "\<And>k. arrivals k tr = arrivals k sample_pair"
proof -
  obtain n m where m: "(spin_act sample_kernel ^^ n) spin_pair m" "spin_busy m = {}"
    using spin_finishes [OF spin_pair_trace, of 65536] by auto
  obtain tr where tr: "spin_trace sample_kernel (spin_init (smp_config 0)) (sample_pair @ tr) m" "\<forall>p. Arrives p \<notin> set tr"
    using spin_acts_trace [OF m(1) spin_pair_trace] by blast
  have "arrived ev = []" if "ev \<in> set tr" for ev using tr(2) that by (cases ev) auto
  then have "concat (map arrived tr) = []" by simp
  then have "arrivals k (sample_pair @ tr) = arrivals k sample_pair" for k by (simp add: arrivals_def)
  then show thesis using m(2) by (intro that [OF m(1) tr(1)]) (auto simp: spin_busy_def)
qed


section \<open>Properties\<close>



text \<open>
  C20. No deadlock on the spin lock. In the same machine, from any reachable state: without new arrivals no more than
  217 actions per busy CPU can follow, and when none is possible any more every CPU is through with its packet and no lock is
  taken. The lock is released on every path out of the section, and whoever waits for it gets it.
\<close>
theorem spin_packets_finish:
  assumes "spin_trace K (spin_init C) tr m" "mac_ok C" "room_up_to 65536 (slot_room K)"
  shows "((spin_act K ^^ n) m m' \<longrightarrow> n \<le> 217 * card (spin_busy m)) \<and>
    ((spin_act K)\<^sup>*\<^sup>* m m' \<longrightarrow> (\<forall>m''. \<not> spin_act K m' m'') \<longrightarrow> (\<forall>c a. spin_ready (sp_cpus m' c) \<and> \<not> sp_locked m' a))"
proof (intro conjI impI allI)
  show "n \<le> 217 * card (spin_busy m)" if "(spin_act K ^^ n) m m'"
    using spin_acts_bounded [OF assms(1,3) that] spin_work_bound [of m] by simp
  fix c a assume r: "(spin_act K)\<^sup>*\<^sup>* m m'" and stuck: "\<forall>m''. \<not> spin_act K m' m''"
  obtain i where "(spin_act K ^^ i) m m'" using r by (auto simp: rtranclp_power)
  then obtain tr' where "spin_trace K (spin_init C) (tr @ tr') m'" using spin_acts_trace assms(1) by blast
  with stuck show "spin_ready (sp_cpus m' c)" "\<not> sp_locked m' a" using spin_stuck_ready [OF _ assms(2,3)] by blast+
qed

theorem spin_packets_finish_witness:
  "\<exists>n m'. (spin_act sample_kernel ^^ n) spin_pair m' \<and> 0 < n \<and> n \<le> 434 \<and> (\<forall>c. spin_ready (sp_cpus m' c) \<and> \<not> sp_locked m' 0)"
proof -
  obtain n m tr where m: "(spin_act sample_kernel ^^ n) spin_pair m" "\<And>c. spin_ready (sp_cpus m c)" using spin_pair_finishes by metis
  have b: "spin_busy spin_pair = {0, 1}" by (auto simp: spin_busy_def spin_pair_def spin_ready_def)
  have "0 < n"
  proof (rule ccontr)
    assume "\<not> 0 < n"
    then have "m = spin_pair" using m(1) by simp
    then show False using m(2) [of 0] by (simp add: spin_pair_def spin_ready_def)
  qed
  have "\<not> spin_act sample_kernel m m'" for m' by (rule spin_ready_stuck [OF m(2)])
  moreover have "(spin_act sample_kernel)\<^sup>*\<^sup>* spin_pair m" using m(1) by (auto simp: rtranclp_power)
  ultimately have "(\<forall>c a. spin_ready (sp_cpus m c) \<and> \<not> sp_locked m a) \<and> n \<le> 217 * card (spin_busy spin_pair)"
    using spin_packets_finish [OF spin_pair_trace smp_config_simps(1), of n m] m(1) by auto
  then show ?thesis using m(1) \<open>0 < n\<close> unfolding b by (intro exI [of _ n] exI [of _ m]) simp
qed




end
