(* ===== verification/Xdp_Events.thy ===== *)
theory Xdp_Events
  imports Loader
begin

text \<open>
  The XDP program as it runs: packets, and in between the configuration is loaded, loaded again or deleted.
  \<open>xdp_events\<close> runs a sequence of those; the abstract aggregator sees a request per packet and none for the rest.
  Shown are where the sums go, that the drop counters account for every sum and every refusal, and that every slot the map
  holds is well formed.
\<close>

section \<open>Packets and configurations\<close>

text \<open>\<open>Unconfigure\<close> is \<open>bpftool map delete\<close> on the one element of \<open>config_map\<close>.\<close>

datatype xdp_event = Packet bytes | Configure loader_args bool "(u32, netsum_config) room" | Unconfigure

datatype xdp_result = Handled xdp_action bytes | Exited int | Unconfigured

definition xdp_event_step :: "kernel \<Rightarrow> xdp_event \<Rightarrow> xdp_maps \<Rightarrow> (xdp_result \<times> xdp_maps) option" where
  "xdp_event_step K e M =
     (case e of
        Packet p \<Rightarrow> do {
          (action, q, M) \<leftarrow> netsum_xdp_aggregate K M p;
          Some (Handled action q, M) }
      | Configure a obj_get_ok room \<Rightarrow> (let (rc, M) = loader_main a obj_get_ok room M in Some (Exited rc, M))
      | Unconfigure \<Rightarrow> Some (Unconfigured, M\<lparr>config_map := bpf_map_delete_elem (config_map M) 0\<rparr>))"

fun xdp_events :: "kernel \<Rightarrow> xdp_maps \<Rightarrow> xdp_event list \<Rightarrow> (xdp_result list \<times> xdp_maps) option" where
  "xdp_events K M [] = Some ([], M)"
| "xdp_events K M (e # es) = do {
     (r, M) \<leftarrow> xdp_event_step K e M;
     (rs, M) \<leftarrow> xdp_events K M es;
     Some (r # rs, M) }"

text \<open>The packet of an event, and the maps each event finds.\<close>

definition event_packet :: "xdp_event \<Rightarrow> bytes" where
  "event_packet e = (case e of Packet p \<Rightarrow> p | _ \<Rightarrow> [])"

fun xdp_history :: "kernel \<Rightarrow> xdp_maps \<Rightarrow> xdp_event list \<Rightarrow> xdp_maps list" where
  "xdp_history K M [] = []"
| "xdp_history K M (e # es) = M # (case xdp_event_step K e M of None \<Rightarrow> [] | Some (_, M') \<Rightarrow> xdp_history K M' es)"

lemma xdp_events_append:
  "xdp_events K M (es @ fs) = do {
     (rs, M1) \<leftarrow> xdp_events K M es;
     (rs', M') \<leftarrow> xdp_events K M1 fs;
     Some (rs @ rs', M') }"
proof (induction es arbitrary: M)
  case Nil
  show ?case by (cases "xdp_events K M fs") auto
next
  case (Cons e es)
  show ?case
  proof (cases "xdp_event_step K e M")
    case (Some s)
    obtain r M1 where s: "s = (r, M1)" by (cases s)
    show ?thesis
    proof (cases "xdp_events K M1 es")
      case 1: (Some r1)
      then show ?thesis using Some s Cons [of M1] by (cases "xdp_events K (snd r1) fs") (auto simp: split_beta)
    qed (use Some s Cons [of M1] in simp)
  qed simp
qed

lemma xdp_events_length: "xdp_events K M es = Some (rs, M') \<Longrightarrow> length rs = length es \<and> length (xdp_history K M es) = length es"
  by (induction es arbitrary: M rs) (auto simp: split_beta split: bind_splits)

text \<open>The state an event finds is the one the events before it leave.\<close>

lemma xdp_events_at:
  assumes "xdp_events K M es = Some (rs, M')" "j < length es"
  shows "xdp_events K M (take j es) = Some (take j rs, xdp_history K M es ! j) \<and>
    (\<exists>M''. xdp_event_step K (es ! j) (xdp_history K M es ! j) = Some (rs ! j, M''))"
  using assms
proof (induction es arbitrary: M rs j)
  case (Cons e es)
  then obtain r M1 rs1 where s: "xdp_event_step K e M = Some (r, M1)" "xdp_events K M1 es = Some (rs1, M')" "rs = r # rs1"
    by (auto simp: split_beta split: bind_splits)
  show ?case using Cons.IH [OF s(2)] Cons.prems(2) s by (cases j) auto
qed simp

section \<open>Refinement\<close>

definition event_request :: "kernel \<Rightarrow> xdp_maps \<Rightarrow> xdp_event \<Rightarrow> request" where
  "event_request K M e = (case e of Packet p \<Rightarrow> xdp_request K M p | _ \<Rightarrow> None)"

definition event_requests :: "kernel \<Rightarrow> xdp_maps \<Rightarrow> xdp_event list \<Rightarrow> request list" where
  "event_requests K M es = map2 (event_request K) (xdp_history K M es) es"

lemma event_requests_step:
  "xdp_event_step K e M = Some (r, M1) \<Longrightarrow> event_requests K M (e # es) = event_request K M e # event_requests K M1 es"
  "event_requests K M [] = []"
  by (simp_all add: event_requests_def)

definition event_outcome :: "xdp_maps \<Rightarrow> xdp_event \<Rightarrow> verdict \<Rightarrow> xdp_result \<Rightarrow> bool" where
  "event_outcome M e v r \<longleftrightarrow>
     (case e of
        Packet p \<Rightarrow> \<exists>action q. r = Handled action q \<and> xdp_outcome M p v action q
      | Configure _ _ _ \<Rightarrow> v = Ignored \<and> (\<exists>rc. r = Exited rc)
      | Unconfigure \<Rightarrow> v = Ignored \<and> r = Unconfigured)"

definition event_stats :: "kernel \<Rightarrow> xdp_maps \<Rightarrow> xdp_event \<Rightarrow> verdict \<Rightarrow> (u32 \<rightharpoonup> u64)" where
  "event_stats K M e v = (case e of Packet p \<Rightarrow> stats_after K M p v | _ \<Rightarrow> drop_stats M)"

lemma loader_frame:
  assumes "loader_main a obj_get_ok room M = (rc, M')" "config_ok M"
  shows "slot_map M' = slot_map M" "job_quota_map M' = job_quota_map M" "drop_stats M' = drop_stats M" "config_ok M'"
  using loader_cases [OF assms(1)] assms(2) by auto

lemma xdp_event_refines:
  assumes "config_ok M" "xdp_tracks M A"
  shows "\<exists>r M' v A'. xdp_event_step K e M = Some (r, M') \<and> spec_request A (event_request K M e) = (v, A') \<and>
    event_outcome M e v r \<and> xdp_tracks M' A' \<and> config_ok M' \<and> drop_stats M' = event_stats K M e v"
proof (cases e)
  case (Packet p)
  show ?thesis
    using xdp_step_counted [OF assms, of K p] assms(1)
    by (auto simp: Packet xdp_event_step_def event_request_def event_outcome_def event_stats_def config_ok_def)
next
  case (Configure a obj_get_ok room)
  obtain rc M' where l: "loader_main a obj_get_ok room M = (rc, M')" by fastforce
  show ?thesis
    using loader_frame [OF l assms(1)] assms(2) l
    by (auto simp: Configure xdp_event_step_def event_request_def event_outcome_def event_stats_def xdp_tracks_frame [of M' M])
next
  case Unconfigure
  show ?thesis
    using assms
    by (simp add: Unconfigure xdp_event_step_def event_request_def event_outcome_def event_stats_def config_ok_def xdp_tracks_def)
qed

lemma xdp_events_refine:
  assumes "config_ok M" "xdp_tracks M A"
  shows "\<exists>rs M' vs A'. xdp_events K M es = Some (rs, M') \<and> spec_run A (event_requests K M es) = (vs, A') \<and>
    length (event_requests K M es) = length es \<and> xdp_tracks M' A' \<and> config_ok M' \<and>
    (\<forall>j<length es. event_outcome (xdp_history K M es ! j) (es ! j) (vs ! j) (rs ! j))"
  using assms
proof (induction es arbitrary: M A)
  case (Cons e es)
  obtain r M1 v A1 where 1: "xdp_event_step K e M = Some (r, M1)" "spec_request A (event_request K M e) = (v, A1)"
    "event_outcome M e v r" "xdp_tracks M1 A1" "config_ok M1"
    using xdp_event_refines [OF Cons.prems, of K e] by blast
  obtain rs M' vs A' where 2: "xdp_events K M1 es = Some (rs, M')" "spec_run A1 (event_requests K M1 es) = (vs, A')"
    "length (event_requests K M1 es) = length es" "xdp_tracks M' A'" "config_ok M'"
    "\<forall>j<length es. event_outcome (xdp_history K M1 es ! j) (es ! j) (vs ! j) (rs ! j)"
    using Cons.IH [OF 1(5,4)] by blast
  have h: "xdp_history K M (e # es) = M # xdp_history K M1 es" using 1(1) by simp
  have "\<forall>j<length (e # es). event_outcome (xdp_history K M (e # es) ! j) ((e # es) ! j) ((v # vs) ! j) ((r # rs) ! j)"
    unfolding h using 1(3) 2(6) by (auto simp: nth_Cons split: nat.split)
  then show ?case using 1(1,2) 2 event_requests_step(1) [OF 1(1), of es] by (intro exI [of _ "r # rs"] exI [of _ M'] exI [of _ "v # vs"] exI [of _ A']) simp
qed (simp add: event_requests_step)

section \<open>Where the sums go\<close>

lemma event_request_packet:
  assumes "j < length es" "length (xdp_history K M es) = length es" "event_requests K M es ! j = Some (k, n, c)"
  shows "\<exists>p. es ! j = Packet p \<and> xdp_match p \<and> xdp_valid p \<and> k = key_of (xdp_hdr p) \<and>
    n = unat (gh_num_workers (xdp_hdr p)) \<and> c = xdp_contribution p"
  using assms by (auto simp: event_requests_def event_request_def xdp_request_def split: xdp_event.splits if_splits)

lemma event_sum_explained:
  assumes ex: "sum_explained (event_requests K M es) j k tot" and len: "length (xdp_history K M es) = length es"
    and j: "j < length es"
  shows "\<exists>js. xdp_round (map event_packet es) (js @ [j]) \<and> tot = xdp_total (map event_packet es) (js @ [j])"
proof -
  let ?ps = "map event_packet es"
  have "(xdp_match (?ps ! i) \<and> xdp_valid (?ps ! i)) \<and> q = xdp_packets.packet_request (?ps ! i)"
    if "i < length ?ps" "event_requests K M es ! i = Some q" for i q
    using event_request_packet [of i es K M "fst q" "fst (snd q)" "snd (snd q)"] that len
    by (auto simp: xdp_packets.packet_request_def xdp_contribution_def prod_eq_iff event_packet_def)
  from xdp_packets.request_round [OF this ex] j show ?thesis
    by (auto simp: xdp_round_def xdp_total_def)
qed

lemma events_transmit:
  assumes run: "xdp_events K M es = Some (rs, M')" and start: "slot_map M = Map.empty" "config_ok M"
    and j: "j < length rs" "rs ! j = Handled XDP_TX q"
  shows "\<exists>p cfg js. es ! j = Packet p \<and> config_map (xdp_history K M es ! j) 0 = Some cfg \<and>
    xdp_round (map event_packet es) (js @ [j]) \<and> forwarded cfg p (xdp_total (map event_packet es) (js @ [j])) q"
proof -
  have "xdp_tracks M Map.empty" using start(1) by (simp add: xdp_tracks_def)
  then obtain vs A' where r: "spec_run Map.empty (event_requests K M es) = (vs, A')" "length (event_requests K M es) = length es"
    "\<forall>j<length es. event_outcome (xdp_history K M es ! j) (es ! j) (vs ! j) (rs ! j)"
    using xdp_events_refine [OF start(2), of Map.empty K es] run by auto
  have len: "length rs = length es" "length (xdp_history K M es) = length es" using xdp_events_length [OF run] by simp_all
  then have "event_outcome (xdp_history K M es ! j) (es ! j) (vs ! j) (Handled XDP_TX q)" using r(3) j by force
  then obtain p where p: "es ! j = Packet p" "xdp_outcome (xdp_history K M es ! j) p (vs ! j) XDP_TX q"
    by (auto simp: event_outcome_def split: xdp_event.splits)
  obtain cfg tot where tx: "config_map (xdp_history K M es ! j) 0 = Some cfg" "vs ! j = Summed tot" "forwarded cfg p tot q"
    using xdp_outcome_TX [OF p(2)] by blast
  have "length vs = length es" using spec_run_length [of Map.empty "event_requests K M es"] r(1,2) by simp
  then obtain k where "sum_explained (event_requests K M es) j k tot"
    using j(1) len spec_sound [OF r(1) _ tx(2)] by auto
  from event_sum_explained [OF this len(2)] j(1) len(1) p(1) tx show ?thesis by auto
qed

text \<open>What is in \<open>config_map\<close> is what the last successful run of the loader put there.\<close>

definition installed_by :: "xdp_event list \<Rightarrow> xdp_result list \<Rightarrow> nat \<Rightarrow> netsum_config \<Rightarrow> bool" where
  "installed_by es rs i cfg \<longleftrightarrow>
     (\<exists>a ok room mac ip. es ! i = Configure a ok room \<and> rs ! i = Exited 0 \<and> parse_mac (la_mac_str a) = Some mac \<and>
        la_inet_pton a = Some ip \<and> cfg = loader_config mac ip a)"

definition reconfigured :: "xdp_event list \<Rightarrow> xdp_result list \<Rightarrow> nat \<Rightarrow> bool" where
  "reconfigured es rs i \<longleftrightarrow> es ! i = Unconfigure \<or> rs ! i = Exited 0"

lemma installed_snoc:
  "i < length es \<Longrightarrow> length rs = length es \<Longrightarrow>
     installed_by (es @ [e]) (rs @ [r]) i cfg = installed_by es rs i cfg \<and> reconfigured (es @ [e]) (rs @ [r]) i = reconfigured es rs i"
  by (simp add: installed_by_def reconfigured_def nth_append)

interpretation config_kept: xdp_invariant K "\<lambda>M. config_map M = C" for K C
  by unfold_locales simp_all

lemma installed:
  assumes "xdp_events K M es = Some (rs, M')" "config_map M 0 = None" "config_map M' 0 = Some cfg" "config_ok M"
  shows "\<exists>i<length es. installed_by es rs i cfg \<and> (\<forall>i'. i < i' \<longrightarrow> i' < length es \<longrightarrow> \<not> reconfigured es rs i')"
  using assms(1,3)
proof (induction es arbitrary: rs M' rule: rev_induct)
  case Nil
  then show ?case using assms(2) by simp
next
  case (snoc e es)
  obtain rs1 M1 r where 1: "xdp_events K M es = Some (rs1, M1)" "xdp_event_step K e M1 = Some (r, M')" "rs = rs1 @ [r]"
    using snoc.prems(1) by (auto simp: xdp_events_append split_beta split: bind_splits)
  have len: "length rs1 = length es" using xdp_events_length [OF 1(1)] by simp
  have kept: ?case if "config_map M1 0 = config_map M' 0" "\<not> reconfigured (es @ [e]) rs (length es)"
  proof -
    have "config_map M1 0 = Some cfg" using that(1) snoc.prems(2) by simp
    from snoc.IH [OF 1(1) this]
    obtain i where "i < length es" "installed_by es rs1 i cfg" "\<forall>i'. i < i' \<longrightarrow> i' < length es \<longrightarrow> \<not> reconfigured es rs1 i'"
      by blast
    then show ?thesis
      using that(2) installed_snoc [OF _ len, of _ e r] unfolding 1(3) by (intro exI [of _ i]) (auto simp: less_Suc_eq)
  qed
  show ?case
  proof (cases e)
    case (Packet p)
    then obtain action q where "netsum_xdp_aggregate K M1 p = Some (action, q, M')" "r = Handled action q"
      using 1(2) by (auto simp: xdp_event_step_def split: bind_splits)
    then show ?thesis
      using config_kept.step [of K M1 p action q M' "config_map M1"] len Packet 1(3)
      by (intro kept) (simp_all add: reconfigured_def nth_append)
  next
    case (Configure a ok room)
    then obtain rc where l: "loader_main a ok room M1 = (rc, M')" "r = Exited rc"
      using 1(2) by (auto simp: xdp_event_step_def split: prod.splits)
    show ?thesis
    proof (cases "rc = 0")
      case True
      then show ?thesis
        using loader_cases [OF l(1)] l(2) Configure 1(3) len snoc.prems(2)
        by (intro exI [of _ "length es"]) (auto simp: installed_by_def nth_append)
    next
      case False
      then show ?thesis
        using loader_cases [OF l(1)] l(2) Configure 1(3) len by (intro kept) (auto simp: reconfigured_def nth_append)
    qed
  next
    case Unconfigure
    then show ?thesis using 1(2) snoc.prems(2) by (auto simp: xdp_event_step_def)
  qed
qed

section \<open>Properties\<close>

text \<open>
  C10. The sums go where the loader last said. From empty maps, whatever packets arrive and however often the configuration is
  loaded and deleted in between, a packet that is transmitted is the aggregate of a complete round, addressed with the MAC and
  IP address of the last run of the loader before it that succeeded, to its port as it is written in network byte order; and
  the configuration has not been deleted since.
\<close>
theorem sums_follow_configuration:
  assumes "xdp_events K xdp_empty es = Some (rs, M')" "j < length rs" "rs ! j = Handled XDP_TX q"
  shows "\<exists>p i a ok room mac ip js. es ! j = Packet p \<and> i < j \<and> es ! i = Configure a ok room \<and> rs ! i = Exited 0 \<and>
    (\<forall>i'. i < i' \<longrightarrow> i' < j \<longrightarrow> es ! i' \<noteq> Unconfigure \<and> rs ! i' \<noteq> Exited 0) \<and>
    parse_mac (la_mac_str a) = Some mac \<and> la_inet_pton a = Some ip \<and> take 6 q = mac \<and> ld32 q 30 = Some ip \<and>
    wire16 q 36 = word_of_int (la_port a) \<and> xdp_round (map event_packet es) (js @ [j]) \<and>
    forwarded (loader_config mac ip a) p (xdp_total (map event_packet es) (js @ [j])) q"
proof -
  have e: "slot_map xdp_empty = Map.empty" "config_ok xdp_empty" "config_map xdp_empty 0 = None"
    by (simp_all add: xdp_empty_def config_ok_def)
  have len: "length rs = length es" using xdp_events_length [OF assms(1)] by simp
  obtain p cfg js where t: "es ! j = Packet p" "config_map (xdp_history K xdp_empty es ! j) 0 = Some cfg"
    "xdp_round (map event_packet es) (js @ [j])" "forwarded cfg p (xdp_total (map event_packet es) (js @ [j])) q"
    using events_transmit [OF assms(1) e(1,2) assms(2,3)] by blast
  have "xdp_events K xdp_empty (take j es) = Some (take j rs, xdp_history K xdp_empty es ! j)"
    using xdp_events_at [OF assms(1)] assms(2) len by simp
  from installed [OF this e(3) t(2) e(2)] assms(2) len
  obtain i where i: "i < j" "installed_by (take j es) (take j rs) i cfg" "\<forall>i'. i < i' \<longrightarrow> i' < j \<longrightarrow> \<not> reconfigured (take j es) (take j rs) i'"
    by (auto simp: min_def split: if_splits)
  then obtain a ok room mac ip where a: "es ! i = Configure a ok room" "rs ! i = Exited 0" "parse_mac (la_mac_str a) = Some mac"
    "la_inet_pton a = Some ip" "cfg = loader_config mac ip a"
    by (auto simp: installed_by_def)
  have "\<forall>i'. i < i' \<longrightarrow> i' < j \<longrightarrow> es ! i' \<noteq> Unconfigure \<and> rs ! i' \<noteq> Exited 0"
    using i(3) by (simp add: reconfigured_def)
  moreover have "take 6 q = mac \<and> ld32 q 30 = Some ip \<and> wire16 q 36 = word_of_int (la_port a)"
    using forwarded_to [OF t(4) a(5)] .
  ultimately show ?thesis using t a i(1) by blast
qed

text \<open>The first packet of the sample round comes before there is a configuration, the second after.\<close>

definition sample_events :: "xdp_event list" where
  "sample_events = [Packet (sample_packets ! 0), Configure sample_loader True (\<lambda>m k. True), Packet (sample_packets ! 1)]"

lemma sample_events_run:
  "\<exists>q M'. xdp_events sample_kernel xdp_empty sample_events =
     Some ([Handled XDP_DROP (sample_packets ! 0), Exited 0, Handled XDP_TX q], M')"
proof -
  let ?k = "key_of (sample_hdr 0 0)" and ?p = "sample_packets ! 0" and ?p' = "sample_packets ! 1"
  let ?cfg = "loader_config [2, 0, 0, 0, 0, 3] 0x0300000a sample_loader"
  let ?A = "[?k \<mapsto> \<lparr>r_len = 2, r_expected = 2, r_log = [(0, [5, 7])]\<rparr>]"
  have p: "?p = sample_frame (sample_hdr 0 0) [5, 7]" "?p' = sample_frame (sample_hdr 0 1) [1, -9]"
    by (simp_all add: sample_packets_def)
  have fk: "for_key ?k ?p" "for_key ?k ?p'" unfolding p by (simp_all add: sample_for_key)
  have h: "gh_num_workers (xdp_hdr ?p) = 2" "gh_chunk_len (xdp_hdr ?p) = 2" "gh_chunk_len (xdp_hdr ?p') = 2" "gh_worker_id (xdp_hdr ?p') = 1"
    unfolding p by (simp_all add: sample_hdr_def del: wire_hdr_sel)
  have c: "xdp_contribution ?p = (0, [5, 7])" unfolding p by (simp add: sample_contribution)
  have e: "config_ok xdp_empty" "xdp_tracks xdp_empty Map.empty" "slot_map xdp_empty ?k = None" "config_map xdp_empty = Map.empty"
    by (simp_all add: xdp_empty_def config_ok_def xdp_tracks_def)
  have adm: "xdp_admits sample_kernel xdp_empty ?p"
    by (simp add: xdp_admits_def over_quota_def h workers_ok_def sample_kernel_def xdp_empty_def del: wire_hdr_sel)
  obtain M1 A1 where 1: "netsum_xdp_aggregate sample_kernel xdp_empty ?p = Some (XDP_DROP, ?p, M1)" "config_map M1 = config_map xdp_empty"
    "xdp_tracks M1 A1" "A1 ?k = Some \<lparr>r_len = 2, r_expected = 2, r_log = [(0, [5, 7])]\<rparr>"
    using xdp_first_packet [OF e(1-3) adm fk(1), unfolded h c] by auto
  let ?M2 = "M1\<lparr>config_map := [0 \<mapsto> ?cfg]\<rparr>"
  have l: "loader_main sample_loader True (\<lambda>m k. True) M1 = (0, ?M2)"
    using 1(2) e(4) by (simp add: loader_main_def sample_loader_def sample_mac)
  have 2: "config_ok ?M2" "xdp_tracks ?M2 A1" "config_map ?M2 0 = Some ?cfg"
    using 1(3) by (simp_all add: config_ok_def loader_config_def xdp_tracks_def)
  have w: "unat (gh_worker_id (xdp_hdr ?p')) \<notin> fst ` set [(0, [5, 7] :: i32 list)]" "unat (gh_chunk_len (xdp_hdr ?p')) = 2"
    "Suc (length [(0::nat, [5, 7] :: i32 list)]) = 2"
    unfolding h by simp_all
  obtain q M3 where 3: "netsum_xdp_aggregate sample_kernel ?M2 ?p' = Some (XDP_TX, q, M3)"
    using xdp_last_worker [OF 2 1(4) fk(2) w(2,1,3), of sample_kernel] by blast
  show ?thesis
    unfolding sample_events_def using 1(1) l 3 by (simp add: xdp_event_step_def)
qed

theorem sums_follow_configuration_witness:
  "\<exists>rs M' q. xdp_events sample_kernel xdp_empty sample_events = Some (rs, M') \<and> rs ! 2 = Handled XDP_TX q \<and>
     take 6 q = [2, 0, 0, 0, 0, 3] \<and> wire16 q 36 = 9876"
proof -
  obtain q M' where r: "xdp_events sample_kernel xdp_empty sample_events =
      Some ([Handled XDP_DROP (sample_packets ! 0), Exited 0, Handled XDP_TX q], M')"
    using sample_events_run by blast
  from sums_follow_configuration [OF r, of 2 q]
  obtain i a ok room mac where "i < 2" "sample_events ! i = Configure a ok room" "parse_mac (la_mac_str a) = Some mac"
    "take 6 q = mac" "wire16 q 36 = word_of_int (la_port a)"
    by auto
  moreover from this have "a = sample_loader"
    by (auto simp: sample_events_def less_2_cases_iff nth_Cons split: nat.splits)
  ultimately show ?thesis using r by (simp add: sample_loader_def sample_mac)
qed

end
