(* ===== verification/Xdp_Accounting.thy ===== *)
theory Xdp_Accounting
  imports Xdp_Events
begin

text \<open>
  What the maps of the XDP program say about its run: the counters of \<open>drop_stats\<close> account for every completed round and
  every refusal, and each slot of \<open>slot_map\<close> is well formed.
\<close>

section \<open>The drop counters\<close>

definition stat :: "xdp_maps \<Rightarrow> u32 \<Rightarrow> u64" where
  "stat M s = (case drop_stats M s of Some n \<Rightarrow> n | None \<Rightarrow> 0)"

definition refused_event :: "xdp_maps \<Rightarrow> xdp_event \<Rightarrow> bool" where
  "refused_event M e \<longleftrightarrow> (case e of Packet p \<Rightarrow> quota_refusal M p | _ \<Rightarrow> False)"

definition transmitted :: "xdp_result \<Rightarrow> bool" where
  "transmitted r \<longleftrightarrow> (case r of Handled action q \<Rightarrow> action = XDP_TX | _ \<Rightarrow> False)"

definition tally :: "('a \<Rightarrow> bool) \<Rightarrow> 'a list \<Rightarrow> nat" where
  "tally P xs = length (filter P xs)"

lemma tally_simps [simp]: "tally P [] = 0" "tally P (x # xs) = (if P x then 1 else 0) + tally P xs"
  by (simp_all add: tally_def)

definition event_refusals :: "kernel \<Rightarrow> xdp_maps \<Rightarrow> xdp_event list \<Rightarrow> nat" where
  "event_refusals K M es = tally (\<lambda>(M, e). refused_event M e) (zip (xdp_history K M es) es)"

definition stats_keys_ok :: "xdp_maps \<Rightarrow> bool" where
  "stats_keys_ok M \<longleftrightarrow> dom (drop_stats M) \<subseteq> {STAT_DROPPED_NO_CONFIG, STAT_DROPPED_FAIRNESS_QUOTA}"

text \<open>With room for the two counters the program uses, a counter is always there or can be created.\<close>

lemma bump_counts:
  assumes "room_up_to 4 (stats_room K)" "stats_keys_ok M"
  shows "drop_stats (bump_stat K s M) = (drop_stats M)(s \<mapsto> stat M s + 1)"
proof (cases "drop_stats M s")
  case None
  have "finite (dom (drop_stats M))" using assms(2) by (auto simp: stats_keys_ok_def intro: finite_subset)
  moreover have "card (dom (drop_stats M)) \<le> card {STAT_DROPPED_NO_CONFIG, STAT_DROPPED_FAIRNESS_QUOTA}"
    using assms(2) by (intro card_mono) (simp_all add: stats_keys_ok_def)
  ultimately have "stats_room K (drop_stats M) s" using assms(1) by (simp add: room_up_to_def)
  then show ?thesis using None by (simp add: bump_stat_def stat_def)
next
  case (Some n)
  then show ?thesis by (simp add: bump_stat_def stat_def)
qed

lemma refused_not_summed:
  assumes "refused_event M e" "spec_request A (event_request K M e) = (v, A')"
  shows "\<not> is_sum v"
proof -
  have "event_request K M e = None"
    using assms(1) by (auto simp: refused_event_def event_request_def quota_refusal_def xdp_request_def xdp_admits_def split: xdp_event.splits)
  then show ?thesis using assms(2) by auto
qed

lemma transmitted_sum:
  assumes "event_outcome M e v r"
  shows "transmitted r \<longleftrightarrow> is_sum v \<and> config_map M 0 \<noteq> None"
  using assms
  by (auto simp: event_outcome_def transmitted_def is_sum_def xdp_outcome_def
      split: xdp_event.splits verdict.splits option.splits if_splits)

lemma event_counted:
  assumes K: "room_up_to 4 (stats_room K)" "stats_keys_ok M"
    and v: "spec_request A (event_request K M e) = (v, A')" "event_outcome M e v r" and st: "drop_stats M' = event_stats K M e v"
  shows "stats_keys_ok M'" "stat M' STAT_DROPPED_NO_CONFIG + (if transmitted r then 1 else 0) =
      stat M STAT_DROPPED_NO_CONFIG + (if is_sum v then 1 else 0)"
    "stat M' STAT_DROPPED_FAIRNESS_QUOTA = stat M STAT_DROPPED_FAIRNESS_QUOTA + (if refused_event M e then 1 else 0)"
proof -
  have e: "is_sum v \<Longrightarrow> \<exists>p. e = Packet p" using v(2) by (cases e) (auto simp: event_outcome_def)
  have d: "drop_stats M' =
      (if is_sum v \<and> config_map M 0 = None then (drop_stats M)(STAT_DROPPED_NO_CONFIG \<mapsto> stat M STAT_DROPPED_NO_CONFIG + 1)
       else if refused_event M e then (drop_stats M)(STAT_DROPPED_FAIRNESS_QUOTA \<mapsto> stat M STAT_DROPPED_FAIRNESS_QUOTA + 1)
       else drop_stats M)"
    using e unfolding st event_stats_def stats_after_def bump_counts [OF K] refused_event_def by (auto split: xdp_event.splits)
  note n = refused_not_summed [OF _ v(1)] transmitted_sum [OF v(2)]
  show "stats_keys_ok M'" using K(2) d by (auto simp: stats_keys_ok_def split: if_splits)
  show "stat M' STAT_DROPPED_NO_CONFIG + (if transmitted r then 1 else 0) = stat M STAT_DROPPED_NO_CONFIG + (if is_sum v then 1 else 0)"
    "stat M' STAT_DROPPED_FAIRNESS_QUOTA = stat M STAT_DROPPED_FAIRNESS_QUOTA + (if refused_event M e then 1 else 0)"
    using d n by (auto simp: stat_def split: if_splits)
qed

lemma events_counted:
  assumes "room_up_to 4 (stats_room K)" "config_ok M" "xdp_tracks M A" "stats_keys_ok M"
    and "xdp_events K M es = Some (rs, M')" "spec_run A (event_requests K M es) = (vs, A')"
  shows "stat M' STAT_DROPPED_NO_CONFIG + of_nat (tally transmitted rs) = stat M STAT_DROPPED_NO_CONFIG + of_nat (tally is_sum vs) \<and>
    stat M' STAT_DROPPED_FAIRNESS_QUOTA = stat M STAT_DROPPED_FAIRNESS_QUOTA + of_nat (event_refusals K M es)"
  using assms(2-6)
proof (induction es arbitrary: M A rs vs)
  case Nil
  then show ?case by (simp add: event_requests_step event_refusals_def)
next
  case (Cons e es)
  obtain r M1 v A1 where 1: "xdp_event_step K e M = Some (r, M1)" "spec_request A (event_request K M e) = (v, A1)"
    "event_outcome M e v r" "xdp_tracks M1 A1" "config_ok M1" "drop_stats M1 = event_stats K M e v"
    using xdp_event_refines [OF Cons.prems(1,2), of K e] by blast
  obtain rs1 where rs: "xdp_events K M1 es = Some (rs1, M')" "rs = r # rs1"
    using Cons.prems(4) 1(1) by (auto simp: split_beta split: bind_splits)
  have h: "xdp_history K M (e # es) = M # xdp_history K M1 es" using 1(1) by simp
  obtain vs1 where vs: "spec_run A1 (event_requests K M1 es) = (vs1, A')" "vs = v # vs1"
    using Cons.prems(5) 1(2) unfolding event_requests_step(1) [OF 1(1)] by (auto simp: split_beta Let_def prod_eq_iff)
  note c = event_counted [OF assms(1) Cons.prems(3) 1(2,3,6)]
  have ref: "event_refusals K M (e # es) = (if refused_event M e then 1 else 0) + event_refusals K M1 es"
    unfolding event_refusals_def h by simp
  from Cons.IH [OF 1(5,4) c(1) rs(1) vs(1)] c(2,3) show ?case
    unfolding rs(2) vs(2) ref using transmitted_sum [OF 1(3)] by (auto split: if_splits)
qed

section \<open>Well-formed slots\<close>

text \<open>
  What a slot in the map looks like between two packets: its arrays have their sizes, it holds at least one contribution and
  not yet all, as many as bits are set in \<open>seen_worker\<close>, and the sums past \<open>chunk_len\<close> are still 0.
\<close>

definition grad_slot_ok :: "grad_slot \<Rightarrow> bool" where
  "grad_slot_ok s \<longleftrightarrow> length (gs_sum s) = 64 \<and> length (gs_seen_worker s) = 32 \<and> unat (gs_chunk_len s) \<le> 64 \<and>
     0 < gs_contributions_received s \<and> gs_contributions_received s < gs_num_workers_expected s \<and>
     unat (gs_num_workers_expected s) \<le> 256 \<and> card (gs_workers s) = unat (gs_contributions_received s) \<and>
     (\<forall>i. unat (gs_chunk_len s) \<le> i \<longrightarrow> i < 64 \<longrightarrow> gs_sum s ! i = 0)"

lemma log_sum_rest: "\<forall>c\<in>set L. length (snd c) = n \<Longrightarrow> n \<le> i \<Longrightarrow> i < 64 \<Longrightarrow> log_sum L ! i = 0"
  by (induction L rule: rev_induct) (simp_all add: nth_add_values)

lemma slot_round_ok:
  assumes "slot_round s r" "r_log r \<noteq> []"
  shows "grad_slot_ok s"
proof -
  note s = assms(1) [unfolded slot_round_def]
  have "0 < length (r_log r)" using assms(2) by simp
  then have "0 < unat (gs_contributions_received s)" "unat (gs_contributions_received s) < unat (gs_num_workers_expected s)"
    using s by simp_all
  moreover have "card (gs_workers s) = length (r_log r)"
    using s distinct_card [of "map fst (r_log r)"] by simp
  moreover have "gs_sum s ! i = 0" if "unat (gs_chunk_len s) \<le> i" "i < 64" for i
    using s log_sum_rest [of "r_log r" "unat (gs_chunk_len s)" i] that by simp
  ultimately show ?thesis
    using s by (simp add: grad_slot_ok_def gs_arrays_ok_def word_less_nat_alt)
qed

definition logs_nonempty :: "open_rounds \<Rightarrow> bool" where
  "logs_nonempty A \<longleftrightarrow> (\<forall>k r. A k = Some r \<longrightarrow> r_log r \<noteq> [])"

lemma logs_nonempty_request: "logs_nonempty A \<Longrightarrow> spec_request A q = (v, A') \<Longrightarrow> logs_nonempty A'"
proof (cases q)
  case (Some req)
  assume A: "logs_nonempty A" "spec_request A q = (v, A')"
  obtain k n c where "req = (k, n, c)" by (cases req) auto
  with A Some show ?thesis
    by (cases rule: spec_contribute_cases [of A k n c]) (auto simp: logs_nonempty_def split: if_splits)
qed simp

lemma events_logs_nonempty:
  assumes "config_ok M" "xdp_tracks M A" "logs_nonempty A" "xdp_events K M es = Some (rs, M')"
  shows "\<exists>A'. xdp_tracks M' A' \<and> logs_nonempty A'"
  using assms
proof (induction es arbitrary: M A rs)
  case (Cons e es)
  obtain r M1 v A1 where 1: "xdp_event_step K e M = Some (r, M1)" "spec_request A (event_request K M e) = (v, A1)"
    "xdp_tracks M1 A1" "config_ok M1"
    using xdp_event_refines [OF Cons.prems(1,2), of K e] by blast
  obtain rs1 where "xdp_events K M1 es = Some (rs1, M')"
    using Cons.prems(4) 1(1) by (auto simp: split_beta split: bind_splits)
  with Cons.IH [OF 1(4,3) logs_nonempty_request [OF Cons.prems(3) 1(2)]] show ?case by blast
qed auto

section \<open>Properties\<close>

text \<open>
  C12. The drop counters are truthful. From maps without slots and counters, whatever packets come and
  however the configuration changes, every completed round is accounted for: those transmitted and those
  counted in \<open>drop_stats[STAT_DROPPED_NO_CONFIG]\<close> are together the sums the abstract aggregator hands out; and
  \<open>drop_stats[STAT_DROPPED_FAIRNESS_QUOTA]\<close> is the number of packets that were refused for their job's quota. Both
  counters are exact up to wrap-around at 64 bits.
\<close>
theorem xdp_stats_truthful:
  assumes "xdp_events K M es = Some (rs, M')" "slot_map M = Map.empty" "drop_stats M = Map.empty" "config_ok M"
    and "room_up_to 4 (stats_room K)"
  shows "stat M' STAT_DROPPED_NO_CONFIG + of_nat (tally transmitted rs) =
      of_nat (tally is_sum (fst (spec_run Map.empty (event_requests K M es)))) \<and>
    stat M' STAT_DROPPED_FAIRNESS_QUOTA = of_nat (event_refusals K M es)"
proof -
  have "xdp_tracks M Map.empty" "stats_keys_ok M" "stat M s = 0" for s
    using assms(2,3) by (simp_all add: xdp_tracks_def stats_keys_ok_def stat_def)
  from events_counted [OF assms(5,4) this(1,2) assms(1), of "fst (spec_run Map.empty (event_requests K M es))"] this(3)
  show ?thesis by (simp add: prod_eq_iff)
qed

text \<open>The sample job may have one slot; its second one is refused.\<close>
theorem xdp_stats_truthful_witness:
  "\<exists>rs M'. xdp_events sample_kernel sample_maps [Packet (sample_packets ! 0), Packet (sample_frame (sample_hdr 1 0) [5, 7])] = Some (rs, M') \<and>
     stat M' STAT_DROPPED_FAIRNESS_QUOTA = 1"
proof -
  let ?p = "sample_packets ! 0" and ?p' = "sample_frame (sample_hdr 1 0) [5, 7]"
  let ?es = "[Packet ?p, Packet ?p']"
  have e: "xdp_tracks sample_maps Map.empty" "drop_stats sample_maps = Map.empty"
    by (simp_all add: xdp_tracks_def sample_maps_def xdp_empty_def)
  obtain rs M' where r: "xdp_events sample_kernel sample_maps ?es = Some (rs, M')"
    using xdp_events_refine [OF sample_maps_simps(4) e(1)] by blast
  obtain M1 where 1: "netsum_xdp_aggregate sample_kernel sample_maps ?p = Some (XDP_DROP, ?p, M1)" "over_quota M1 7"
    "slot_map M1 (key_of (sample_hdr 1 0)) = None"
    by (rule sample_first)
  have p': "xdp_match ?p'" "xdp_valid ?p'" "workers_ok (gh_num_workers (xdp_hdr ?p'))" "gh_job_id (xdp_hdr ?p') = 7"
    by (simp_all add: sample_frame_wire16 workers_ok_def del: wire_hdr_sel) (simp_all add: sample_hdr_def workers_ok_def)
  have "quota_refusal M1 ?p'" using p' 1(2,3) by (simp add: quota_refusal_def del: wire_hdr_sel)
  moreover have "\<not> quota_refusal sample_maps ?p" by (simp add: quota_refusal_def)
  ultimately have "event_refusals sample_kernel sample_maps ?es = 1"
    using 1(1) by (simp add: event_refusals_def xdp_event_step_def refused_event_def)
  then show ?thesis
    using xdp_stats_truthful [OF r sample_maps_simps(1) e(2) sample_maps_simps(4)] r by (simp add: room_up_to_def sample_kernel_def)
qed

text \<open>
  C18. Every slot the map holds is well formed: after any run of packets and configuration changes from an empty
  slot map the arrays of each slot have their declared sizes, \<open>chunk_len\<close> is at most 64 and
  \<open>num_workers_expected\<close> at most 256, the slot has at least one contribution but not all, exactly one bit of \<open>seen_worker\<close> is set
  for each contribution counted, and the sums past \<open>chunk_len\<close> are 0.
\<close>
theorem xdp_slots_well_formed:
  assumes "xdp_events K M es = Some (rs, M')" "slot_map M = Map.empty" "config_ok M" "slot_map M' k = Some s"
  shows "grad_slot_ok s"
proof -
  have "xdp_tracks M Map.empty" "logs_nonempty Map.empty" using assms(2) by (simp_all add: xdp_tracks_def logs_nonempty_def)
  then obtain A' where A': "xdp_tracks M' A'" "logs_nonempty A'"
    using events_logs_nonempty [OF assms(3) _ _ assms(1)] by blast
  obtain r where "A' k = Some r" "slot_round s r" using xdp_tracks_Some [OF A'(1) assms(4)] by blast
  with A'(2) show ?thesis by (auto simp: logs_nonempty_def intro: slot_round_ok)
qed

theorem xdp_slots_well_formed_witness:
  "\<exists>rs M' s. xdp_events sample_kernel sample_maps [Packet (sample_packets ! 0)] = Some (rs, M') \<and>
     slot_map M' (key_of (sample_hdr 0 0)) = Some s \<and> grad_slot_ok s"
proof -
  obtain M1 s where 1: "netsum_xdp_aggregate sample_kernel sample_maps (sample_packets ! 0) = Some (XDP_DROP, sample_packets ! 0, M1)"
    "slot_map M1 (key_of (sample_hdr 0 0)) = Some s"
    by (rule sample_first)
  then have r: "xdp_events sample_kernel sample_maps [Packet (sample_packets ! 0)] = Some ([Handled XDP_DROP (sample_packets ! 0)], M1)"
    by (simp add: xdp_event_step_def)
  from xdp_slots_well_formed [OF r sample_maps_simps(1,4) 1(2)] r 1(2) show ?thesis by blast
qed

end
