(* ===== verification/Xdp_Isolation.thy ===== *)
theory Xdp_Isolation
  imports Xdp_Accounting
begin

text \<open>
  Jobs do not disturb each other. The view of a job is the part of the maps its packets depend on: its slots, its
  quota entry and the configuration. A packet of another job leaves the view alone (an instance of
  \<open>xdp_key_invariant\<close>), a packet of the job does the same to it wherever it is (\<open>step_in_view\<close>). What two jobs share is the room in
  the maps, so that this needs maps that hold the keys and the jobs there are.
\<close>

section \<open>The view of a job\<close>

definition job_view :: "u32 \<Rightarrow> xdp_maps \<Rightarrow> xdp_maps \<Rightarrow> bool" where
  "job_view J M N \<longleftrightarrow> (\<forall>k. k_job_id k = J \<longrightarrow> slot_map M k = slot_map N k) \<and>
     job_quota_map M J = job_quota_map N J \<and> config_map M = config_map N"

lemma job_view_refl: "job_view J M M"
  by (simp add: job_view_def)

lemma job_view_stat: "job_view J (bump_stat K s M) N = job_view J M N" "job_view J M (bump_stat K s N) = job_view J M N"
  by (simp_all add: job_view_def)

lemma job_view_slot:
  "job_view J M N \<Longrightarrow> job_view J (M\<lparr>slot_map := (slot_map M)(k := t)\<rparr>) (N\<lparr>slot_map := (slot_map N)(k := t)\<rparr>)"
  by (simp add: job_view_def)

lemma decrement_other: "i \<noteq> J \<Longrightarrow> job_quota_map (job_quota_decrement i M) J = job_quota_map M J"
  by (cases rule: decrement_cases [of M i]) simp_all

lemma increment_other: "i \<noteq> J \<Longrightarrow> job_quota_map (job_quota_increment K i M) J = job_quota_map M J"
  by (cases rule: increment_cases [of M i K]) simp_all

lemma job_view_decrement: "job_view J M N \<Longrightarrow> job_view J (job_quota_decrement J M) (job_quota_decrement J N)"
  by (simp add: job_view_def job_quota_decrement_def add_slots_def split: option.split)

lemma job_view_increment:
  assumes "job_view J M N" "job_quota_map M J = None \<Longrightarrow> quota_room K (job_quota_map M) J \<and> quota_room K (job_quota_map N) J"
  shows "job_view J (job_quota_increment K J M) (job_quota_increment K J N)"
  using assms by (simp add: job_view_def job_quota_increment_def add_slots_def split: option.split)

text \<open>Packets of other jobs do not touch it.\<close>

interpretation unseen: xdp_key_invariant K "\<lambda>M. job_view J M N" "\<lambda>k. k_job_id k \<noteq> J" for K J N
proof unfold_locales
  fix M :: xdp_maps and k :: grad_slot_key and t t' :: grad_slot and s :: u32
  assume v: "job_view J M N"
  show "job_view J (bump_stat K s M) N" using v by (simp add: job_view_stat)
  assume k: "k_job_id k \<noteq> J"
  have u: "job_view J (M\<lparr>slot_map := (slot_map M)(k := so)\<rparr>) N" for so
    using v k by (auto simp: job_view_def)
  then show "job_view J (M\<lparr>slot_map := (slot_map M)(k \<mapsto> t')\<rparr>) N" .
  show "job_view J (job_quota_increment K (k_job_id k) (M\<lparr>slot_map := (slot_map M)(k \<mapsto> t')\<rparr>)) N"
    "job_view J (job_quota_decrement (k_job_id k) (M\<lparr>slot_map := (slot_map M)(k := None)\<rparr>)) N"
    using u [of "Some t'"] u [of None] k by (simp_all add: job_view_def increment_other decrement_other)
qed

section \<open>Enough room\<close>

definition keys_within :: "grad_slot_key set \<Rightarrow> xdp_maps \<Rightarrow> bool" where
  "keys_within KS M \<longleftrightarrow> dom (slot_map M) \<subseteq> KS \<and> dom (job_quota_map M) \<subseteq> k_job_id ` KS"

interpretation within: xdp_key_invariant K "keys_within KS" "\<lambda>k. k \<in> KS" for K KS
proof unfold_locales
  fix M :: xdp_maps and k :: grad_slot_key and t t' :: grad_slot and s :: u32
  assume w: "keys_within KS M"
  show "keys_within KS (bump_stat K s M)" using w by (simp add: keys_within_def)
  assume k: "k \<in> KS"
  have u: "keys_within KS (M\<lparr>slot_map := (slot_map M)(k := so)\<rparr>)" for so
    using w k by (auto simp: keys_within_def split: if_splits)
  then show "keys_within KS (M\<lparr>slot_map := (slot_map M)(k \<mapsto> t')\<rparr>)" .
  show "keys_within KS (job_quota_increment K (k_job_id k) (M\<lparr>slot_map := (slot_map M)(k \<mapsto> t')\<rparr>))"
    using u [of "Some t'"] k
    by (cases rule: increment_cases [of "M\<lparr>slot_map := (slot_map M)(k \<mapsto> t')\<rparr>" "k_job_id k" K]) (auto simp: keys_within_def)
  show "keys_within KS (job_quota_decrement (k_job_id k) (M\<lparr>slot_map := (slot_map M)(k := None)\<rparr>))"
    using u [of None] k
    by (cases rule: decrement_cases [of "M\<lparr>slot_map := (slot_map M)(k := None)\<rparr>" "k_job_id k"]) (auto simp: keys_within_def)
qed

definition roomy :: "kernel \<Rightarrow> grad_slot_key set \<Rightarrow> bool" where
  "roomy K KS \<longleftrightarrow> room_up_to 65536 (slot_room K) \<and> room_up_to 256 (quota_room K) \<and> finite KS \<and>
     card KS \<le> 65536 \<and> card (k_job_id ` KS) \<le> 256"

lemma room_within:
  assumes "roomy K KS" "keys_within KS M" "k \<in> KS"
  shows "slot_map M k = None \<Longrightarrow> slot_room K (slot_map M) k"
    "job_quota_map M (k_job_id k) = None \<Longrightarrow> quota_room K (job_quota_map M) (k_job_id k)"
proof -
  have f: "finite KS" "dom (slot_map M) \<subseteq> KS" "dom (job_quota_map M) \<subseteq> k_job_id ` KS"
    using assms by (simp_all add: roomy_def keys_within_def)
  show "slot_room K (slot_map M) k" if "slot_map M k = None"
  proof -
    have "dom (slot_map M) \<subset> KS" using f(2) that assms(3) by auto
    then have "card (dom (slot_map M)) < card KS" using f(1) by (rule psubset_card_mono [rotated])
    then show ?thesis using assms(1) finite_subset [OF f(2,1)] by (simp add: roomy_def room_up_to_def)
  qed
  show "quota_room K (job_quota_map M) (k_job_id k)" if "job_quota_map M (k_job_id k) = None"
  proof -
    have "k_job_id k \<in> k_job_id ` KS - dom (job_quota_map M)" using that assms(3) by auto
    then have "dom (job_quota_map M) \<subset> k_job_id ` KS" using f(3) by blast
    then have "card (dom (job_quota_map M)) < card (k_job_id ` KS)" using f(1) by (intro psubset_card_mono) simp_all
    then show ?thesis using assms(1) finite_subset [OF f(3)] f(1) by (simp add: roomy_def room_up_to_def)
  qed
qed

section \<open>A packet of the job\<close>

lemma contribute_in_view:
  assumes c: "xdp_contribute K p s M = Some (action, q, M')" and v: "job_view (k_job_id (key_of (xdp_hdr p))) M N"
  shows "\<exists>N'. xdp_contribute K p s N = Some (action, q, N') \<and> job_view (k_job_id (key_of (xdp_hdr p))) M' N'"
proof -
  let ?k = "key_of (xdp_hdr p)"
  obtain u where u: "xdp_locked p (parsed_of p) s = Some u"
    using c by (cases "xdp_locked p (parsed_of p) s") (simp_all add: xdp_contribute_def)
  show ?thesis
  proof (cases u)
    case None
    with c u v show ?thesis by (simp add: xdp_contribute_def)
  next
    case (Some t)
    obtain slot p' is_complete n where t: "t = (slot, p', is_complete, n)" by (cases t) auto
    let ?M = "M\<lparr>slot_map := (slot_map M)(?k \<mapsto> slot)\<rparr>" and ?N = "N\<lparr>slot_map := (slot_map N)(?k \<mapsto> slot)\<rparr>"
    have s: "job_view (k_job_id ?k) ?M ?N" using v by (rule job_view_slot)
    have "job_view (k_job_id ?k) (?M\<lparr>slot_map := (slot_map ?M)(?k := None)\<rparr>) (?N\<lparr>slot_map := (slot_map ?N)(?k := None)\<rparr>)"
      using s by (rule job_view_slot)
    note d = job_view_decrement [OF this]
    have cfg: "config_map N = config_map M" using v by (simp add: job_view_def)
    have fin: "xdp_finish K ?k is_complete n p' ?M = Some (action, q, M')"
      using c u Some t by (simp add: xdp_contribute_def)
    have "\<exists>N'. xdp_finish K ?k is_complete n p' ?N = Some (action, q, N') \<and> job_view (k_job_id ?k) M' N'"
      using fin s d cfg by (auto simp: xdp_finish_def job_view_stat split: if_splits option.splits bind_splits)
    then show ?thesis using u Some t by (simp add: xdp_contribute_def)
  qed
qed

lemma over_quota_view: "job_view J M N \<Longrightarrow> over_quota M J = over_quota N J"
  by (simp add: job_view_def over_quota_def)

lemma packet_in_view:
  assumes st: "netsum_xdp_aggregate K M p = Some (action, q, M')" and p: "xdp_match p" "xdp_valid p"
    and v: "job_view (k_job_id (key_of (xdp_hdr p))) M N"
    and room: "roomy K KS" "keys_within KS M" "keys_within KS N" "key_of (xdp_hdr p) \<in> KS"
  shows "\<exists>N'. netsum_xdp_aggregate K N p = Some (action, q, N') \<and> job_view (k_job_id (key_of (xdp_hdr p))) M' N'"
proof -
  let ?k = "key_of (xdp_hdr p)"
  have job: "k_job_id ?k = gh_job_id (xdp_hdr p)" by simp
  have sl: "slot_map N ?k = slot_map M ?k" using v by (simp add: job_view_def)
  have oq: "over_quota N (gh_job_id (xdp_hdr p)) = over_quota M (gh_job_id (xdp_hdr p))"
    using over_quota_view [OF v] by (simp add: job)
  have rm: "slot_map M ?k = None \<Longrightarrow> slot_room K (slot_map M) ?k" "slot_map M ?k = None \<Longrightarrow> slot_room K (slot_map N) ?k"
    using room_within(1) [OF room(1,2,4)] room_within(1) [OF room(1,3,4)] sl by auto
  note st' = st [unfolded netsum_parsed [OF p]] and eq = netsum_parsed [OF p, of K N]
  show ?thesis
  proof (cases rule: xdp_slot_for_cases [OF p(1), of M K, case_names found workers quota full created])
    case (found s)
    have "xdp_slot_for K p (parsed_of p) N = Some (Some s, N)"
      by (cases rule: xdp_slot_for_cases [OF p(1), of N K]) (use sl found(1) in auto)
    moreover obtain N' where "xdp_contribute K p s N = Some (action, q, N')" "job_view (k_job_id ?k) M' N'"
      using contribute_in_view [OF _ v, of K s action q M'] st' found(2) by auto
    ultimately show ?thesis unfolding eq by simp
  next
    case workers
    have "xdp_slot_for K p (parsed_of p) N = Some (None, N)"
      by (cases rule: xdp_slot_for_cases [OF p(1), of N K]) (use sl workers in auto)
    then show ?thesis using st' workers(3) v unfolding eq by simp
  next
    case quota
    have "xdp_slot_for K p (parsed_of p) N = Some (None, bump_stat K STAT_DROPPED_FAIRNESS_QUOTA N)"
      by (cases rule: xdp_slot_for_cases [OF p(1), of N K]) (use sl oq quota in auto)
    then show ?thesis using st' quota(4) v unfolding eq by (auto simp: job_view_stat)
  next
    case full
    then show ?thesis using rm(1) by simp
  next
    case created
    have N: "xdp_slot_for K p (parsed_of p) N = Some (Some (fresh_slot p), created K p N)"
      by (cases rule: xdp_slot_for_cases [OF p(1), of N K]) (use sl oq rm created in auto)
    have "job_view (k_job_id ?k) (created K p M) (created K p N)"
      unfolding created_def job [symmetric]
      using room_within(2) [OF room(1,2,4)] room_within(2) [OF room(1,3,4)] v
      by (intro job_view_increment job_view_slot) (auto simp: job_view_def)
    from contribute_in_view [OF _ this] st' created(5) N show ?thesis unfolding eq by auto
  qed
qed

section \<open>Runs\<close>

definition event_of_job :: "u32 \<Rightarrow> xdp_event \<Rightarrow> bool" where
  "event_of_job J e \<longleftrightarrow>
     (case e of Packet p \<Rightarrow> xdp_match p \<and> xdp_valid p \<and> gh_job_id (xdp_hdr p) = J | _ \<Rightarrow> True)"

definition event_keys :: "xdp_event list \<Rightarrow> grad_slot_key set" where
  "event_keys es = {key_of (xdp_hdr p) | p. Packet p \<in> set es \<and> xdp_match p \<and> xdp_valid p}"

lemma finite_event_keys: "finite (event_keys es)"
proof -
  have "event_keys es \<subseteq> (\<lambda>e. key_of (xdp_hdr (event_packet e))) ` set es"
    by (force simp: event_keys_def event_packet_def)
  then show ?thesis by (rule finite_subset) simp
qed

lemma loader_view:
  assumes "loader_main a obj_get_ok room M = (rc, M')" "job_view J M N"
  shows "\<exists>N'. loader_main a obj_get_ok room N = (rc, N') \<and> job_view J M' N'"
  using assms by (auto simp: loader_main_def job_view_def Let_def split: option.splits if_splits prod.splits)

lemma event_in_view:
  assumes st: "xdp_event_step K e M = Some (r, M')" and e: "event_of_job J e" and v: "job_view J M N"
    and room: "roomy K KS" "keys_within KS M" "keys_within KS N" "event_keys [e] \<subseteq> KS"
  shows "\<exists>N'. xdp_event_step K e N = Some (r, N') \<and> job_view J M' N'"
proof (cases e)
  case (Packet p)
  then have p: "xdp_match p" "xdp_valid p" "k_job_id (key_of (xdp_hdr p)) = J" using e by (simp_all add: event_of_job_def)
  have k: "key_of (xdp_hdr p) \<in> KS" using room(4) p(1,2) Packet by (auto simp: event_keys_def)
  obtain action q where a: "netsum_xdp_aggregate K M p = Some (action, q, M')" "r = Handled action q"
    using st Packet by (auto simp: xdp_event_step_def split: bind_splits)
  from packet_in_view [OF a(1) p(1,2) _ room(1-3) k] v p(3) a(2) Packet show ?thesis by (auto simp: xdp_event_step_def)
next
  case (Configure a ok rm)
  then obtain rc where l: "loader_main a ok rm M = (rc, M')" "r = Exited rc"
    using st by (auto simp: xdp_event_step_def split: prod.splits)
  from loader_view [OF l(1) v] l(2) Configure show ?thesis by (auto simp: xdp_event_step_def)
next
  case Unconfigure
  then show ?thesis using st v by (auto simp: xdp_event_step_def job_view_def)
qed

lemma event_unseen:
  assumes "xdp_event_step K e M = Some (r, M')" "\<not> event_of_job J e" "job_view J M N"
  shows "job_view J M' N"
proof -
  obtain p where p: "e = Packet p" "\<not> (xdp_match p \<and> xdp_valid p \<and> k_job_id (key_of (xdp_hdr p)) = J)"
    using assms(2) by (cases e) (auto simp: event_of_job_def)
  then obtain action q where "netsum_xdp_aggregate K M p = Some (action, q, M')"
    using assms(1) by (auto simp: xdp_event_step_def split: bind_splits)
  from unseen.key_step [OF this assms(3)] p(2) show ?thesis by blast
qed

lemma event_within:
  assumes "xdp_event_step K e M = Some (r, M')" "event_keys [e] \<subseteq> KS" "keys_within KS M"
  shows "keys_within KS M'"
proof (cases e)
  case (Packet p)
  then obtain action q where "netsum_xdp_aggregate K M p = Some (action, q, M')"
    using assms(1) by (auto simp: xdp_event_step_def split: bind_splits)
  from within.key_step [OF this assms(3)] assms(2) Packet show ?thesis by (auto simp: event_keys_def)
next
  case (Configure a ok room)
  then obtain rc where "loader_main a ok room M = (rc, M')"
    using assms(1) by (auto simp: xdp_event_step_def split: prod.splits)
  then show ?thesis using loader_cases [of a ok room M rc M'] assms(3) by (auto simp: keys_within_def)
qed (use assms in \<open>auto simp: xdp_event_step_def keys_within_def\<close>)

lemma event_keys_Cons: "event_keys (e # es) = event_keys [e] \<union> event_keys es"
  by (auto simp: event_keys_def)

lemma events_in_view:
  assumes "roomy K KS" "keys_within KS M" "keys_within KS N" "event_keys es \<subseteq> KS" "job_view J M N"
    and "xdp_events K M es = Some (rs, M')"
  shows "\<exists>N'. xdp_events K N (filter (event_of_job J) es) = Some (map snd (filter (\<lambda>(e, r). event_of_job J e) (zip es rs)), N') \<and>
    job_view J M' N'"
  using assms(2-6)
proof (induction es arbitrary: M N rs)
  case (Cons e es)
  obtain r M1 rs1 where 1: "xdp_event_step K e M = Some (r, M1)" "xdp_events K M1 es = Some (rs1, M')" "rs = r # rs1"
    using Cons.prems(5) by (auto simp: split_beta split: bind_splits)
  have ke: "event_keys [e] \<subseteq> KS" "event_keys es \<subseteq> KS" using Cons.prems(3) event_keys_Cons [of e es] by simp_all
  have w: "keys_within KS M1" using event_within [OF 1(1) ke(1) Cons.prems(1)] .
  show ?case
  proof (cases "event_of_job J e")
    case True
    obtain N1 where N1: "xdp_event_step K e N = Some (r, N1)" "job_view J M1 N1"
      using event_in_view [OF 1(1) True Cons.prems(4) assms(1) Cons.prems(1,2) ke(1)] by blast
    from Cons.IH [OF w event_within [OF N1(1) ke(1) Cons.prems(2)] ke(2) N1(2) 1(2)] True N1(1) 1(3)
    show ?thesis by auto
  next
    case False
    from Cons.IH [OF w Cons.prems(2) ke(2) event_unseen [OF 1(1) False Cons.prems(4)] 1(2)] False 1(3)
    show ?thesis by auto
  qed
qed simp

section \<open>The property\<close>

text \<open>
  C9. Jobs are isolated. As long as at most 65536 keys and 256 jobs are around, what happens to the packets of a job
  is independent of the others: left alone with the same configuration changes, its packets get the same
  actions and leave with the same bytes as in the midst of any other traffic, and at the end its slots, its quota entry
  and the configuration are the same.
\<close>
theorem xdp_jobs_isolated:
  assumes "xdp_events K M es = Some (rs, M')" "slot_map M = Map.empty" "job_quota_map M = Map.empty"
    and "room_up_to 65536 (slot_room K)" "room_up_to 256 (quota_room K)"
    and "card (event_keys es) \<le> 65536" "card (k_job_id ` event_keys es) \<le> 256"
  shows "\<exists>N'. xdp_events K M (filter (event_of_job J) es) = Some (map snd (filter (\<lambda>(e, r). event_of_job J e) (zip es rs)), N') \<and>
    (\<forall>k. k_job_id k = J \<longrightarrow> slot_map M' k = slot_map N' k) \<and> job_quota_map M' J = job_quota_map N' J \<and> config_map M' = config_map N'"
proof -
  have "roomy K (event_keys es)" using assms(4-7) finite_event_keys by (simp add: roomy_def)
  moreover have "keys_within (event_keys es) M" using assms(2,3) by (simp add: keys_within_def)
  ultimately show ?thesis
    using events_in_view [OF _ _ _ _ job_view_refl assms(1), of "event_keys es" J] by (auto simp: job_view_def)
qed

text \<open>A packet of job 8 between the two of the sample round.\<close>

definition other_packet :: bytes where
  "other_packet = sample_frame (sample_hdr 0 0\<lparr>gh_job_id := 8\<rparr>) [5, 7]"

theorem xdp_jobs_isolated_witness:
  "\<exists>rs M' N'. xdp_events sample_kernel sample_maps [Packet (sample_packets ! 0), Packet other_packet, Packet (sample_packets ! 1)] = Some (rs, M') \<and>
     xdp_events sample_kernel sample_maps [Packet (sample_packets ! 0), Packet (sample_packets ! 1)] = Some ([rs ! 0, rs ! 2], N')"
proof -
  let ?es = "[Packet (sample_packets ! 0), Packet other_packet, Packet (sample_packets ! 1)]"
  have p: "sample_packets ! 0 = sample_frame (sample_hdr 0 0) [5, 7]" "sample_packets ! 1 = sample_frame (sample_hdr 0 1) [1, -9]"
    by (simp_all add: sample_packets_def)
  have j: "event_of_job 7 (Packet (sample_packets ! 0))" "event_of_job 7 (Packet (sample_packets ! 1))" "\<not> event_of_job 7 (Packet other_packet)"
    unfolding p other_packet_def event_of_job_def xdp_event.case sample_frame_hdr
    by (simp_all add: sample_frame_wire16 xdp_valid_def del: wire_hdr_sel)
      (simp_all add: sample_hdr_def sample_frame_def encode_packet_def)
  have "xdp_tracks sample_maps Map.empty" by (simp add: xdp_tracks_def)
  then obtain rs M' where r: "xdp_events sample_kernel sample_maps ?es = Some (rs, M')"
    using xdp_events_refine [OF sample_maps_simps(4)] by blast
  have len: "length rs = 3" using xdp_events_length [OF r] by simp
  then obtain r0 r1 r2 where rs: "rs = [r0, r1, r2]" by (auto simp: length_Suc_conv numeral_3_eq_3)
  have "event_keys ?es \<subseteq> {key_of (xdp_hdr (sample_packets ! 0)), key_of (xdp_hdr other_packet), key_of (xdp_hdr (sample_packets ! 1))}"
    by (auto simp: event_keys_def)
  then have "card (event_keys ?es) \<le> 3"
    by (rule order_trans [OF card_mono [rotated]]) (simp_all add: card_insert_if)
  moreover have "card (k_job_id ` event_keys ?es) \<le> card (event_keys ?es)" by (rule card_image_le [OF finite_event_keys])
  ultimately have c: "card (event_keys ?es) \<le> 65536" "card (k_job_id ` event_keys ?es) \<le> 256" by simp_all
  from xdp_jobs_isolated [OF r sample_maps_simps(1,2) sample_rooms c, of 7] r j show ?thesis by (auto simp: rs)
qed

end
