(* ===== verification/Lossy_Network.thy ===== *)
theory Lossy_Network
  imports Pipeline
begin

text \<open>
  The aggregators' output on its way to the parameter server. UDP may drop a datagram, deliver it more than once or after
  later ones; all that is known of what the server receives is that it has been sent. Still every key is
  completed at most once, with the sum of one complete round.
\<close>

section \<open>Datagrams of one worker of one\<close>

definition is_aggregate :: "bytes \<Rightarrow> bool" where
  "is_aggregate d \<longleftrightarrow> agg_accepts d \<and> gh_worker_id (agg_hdr d) = 0 \<and> gh_num_workers (agg_hdr d) = 1"

definition delivered :: "ps_input list \<Rightarrow> bytes set" where
  "delivered inps = {d. \<exists>inp\<in>set inps. ps_recv inp = Datagram d}"

definition keys_of :: "bytes set \<Rightarrow> grad_slot_key set" where
  "keys_of D = (\<lambda>d. key_of (agg_hdr d)) ` D"

lemma delivered_simps [simp]:
  "delivered [] = {}" "delivered (inps @ inps') = delivered inps \<union> delivered inps'" "finite (delivered inps)"
proof -
  have "delivered inps \<subseteq> (\<lambda>inp. datagram (ps_recv inp)) ` set inps" by (force simp: delivered_def)
  then show "finite (delivered inps)" by (rule finite_subset) simp
qed (auto simp: delivered_def)

lemma is_aggregateD:
  assumes "is_aggregate d"
  shows "ps_accepts d" "ps_covers d" "ps_for_key k d \<longleftrightarrow> key_of (agg_hdr d) = k" "contribution_of d = (0, agg_values d)"
    "gh_num_workers (agg_hdr d) = 1" "log_sum [contribution_of d] = agg_values d @ replicate (64 - length (agg_values d)) 0"
proof -
  have a: "agg_accepts d" using assms by (simp add: is_aggregate_def)
  then show acc: "ps_accepts d" "ps_covers d" by (simp_all add: agg_accepts_def ps_accepts_def ps_covers_def)
  show "ps_for_key k d \<longleftrightarrow> key_of (agg_hdr d) = k" using acc(1) by (simp add: ps_for_key_def)
  show "gh_num_workers (agg_hdr d) = 1" using assms by (simp add: is_aggregate_def)
  show c: "contribution_of d = (0, agg_values d)" using assms by (simp add: is_aggregate_def contribution_of_def agg_values_def)
  have "length (agg_values d) \<le> 64" using a by (simp add: agg_accepts_def agg_values_def)
  then show "log_sum [contribution_of d] = agg_values d @ replicate (64 - length (agg_values d)) 0"
    unfolding c by (subst log_sum_padded [where n = "length (agg_values d)"]) (simp_all add: padded_sum_def column_sum_single)
qed

section \<open>What the server makes of them\<close>

text \<open>
  The slot of a key, if it has one, is that of one datagram for the key, and one completion has been logged for
  it; without a slot none has, and no datagram for it has come in that the table had room for.
\<close>

definition ps_holds_one :: "bytes set \<Rightarrow> ps_state \<Rightarrow> ps_event list \<Rightarrow> grad_slot_key \<Rightarrow> bool" where
  "ps_holds_one D st evs k \<longleftrightarrow>
     (case slot_map_of (ps_slots st) k of
        None \<Rightarrow> filter (ps_reports k) evs = [] \<and> (card (keys_of D) \<le> SLOT_TABLE_CAPACITY \<longrightarrow> k \<notin> keys_of D)
      | Some s \<Rightarrow> (\<exists>d\<in>D. key_of (agg_hdr d) = k \<and> ps_slot_log s [contribution_of d] \<and>
          (\<exists>ev. filter (ps_reports k) evs = [ev] \<and> ps_completes (agg_hdr d) 1 (sl_sum s) ev)))"

lemma ps_step_full:
  assumes inv: "ps_inv st" and inp: "ps_recv inp = Datagram d" and d: "ps_for_key k d" and full: "probe_slot (ps_slots st) k = Table_full"
  shows "\<exists>st'. ps_step agg_mode inp st = Some (st', [Ps_table_full]) \<and> ps_inv st' \<and> ps_slots st' = ps_slots st"
proof (cases rule: ps_step_cases [OF inv inp, of agg_mode, case_names ignored accepted])
  case (ignored st2)
  then show ?thesis using d by (simp add: ps_for_key_def)
next
  case (accepted st2 h)
  have "key_of h = k" using d accepted(2) by (simp add: ps_for_key_def key_of_def)
  then have "ps_find_or_create_slot (ps_slots st2) (key_of h) = None"
    using full accepted(5) by (simp add: ps_find_or_create_slot_def)
  then have "ps_contribute agg_mode inp h st2 = Some (st2, [Ps_table_full])" by (simp add: ps_contribute_def)
  then show ?thesis using accepted(3-5) by simp
qed

lemma ps_holds_other:
  assumes "ps_holds_one D st evs k" "slot_map_of (ps_slots st') k = slot_map_of (ps_slots st) k" "\<forall>ev\<in>set evs'. \<not> ps_reports k ev"
    and "key_of (agg_hdr d) \<noteq> k" "finite D"
  shows "ps_holds_one (insert d D) st' (evs @ evs') k"
proof -
  have e: "filter (ps_reports k) (evs @ evs') = filter (ps_reports k) evs" using assms(3) by (simp add: filter_False)
  have "card (keys_of D) \<le> card (keys_of (insert d D))" using assms(5) by (intro card_mono) (auto simp: keys_of_def)
  then show ?thesis using assms(1,4) unfolding ps_holds_one_def assms(2) e
    by (cases "slot_map_of (ps_slots st) k") (auto simp: keys_of_def)
qed

text \<open>A full table has slots for as many other keys as it has entries.\<close>

lemma ps_full_keys:
  assumes inv: "ps_inv st" and H: "\<And>k. ps_holds_one D st evs k" and D: "finite D" and full: "probe_slot (ps_slots st) k = Table_full"
  shows "SLOT_TABLE_CAPACITY < card (insert k (keys_of D))"
proof -
  have g: "slots_intact (ps_slots st)" using inv by (simp add: ps_inv_def)
  have c: "card (dom (slot_map_of (ps_slots st))) = SLOT_TABLE_CAPACITY" "slot_map_of (ps_slots st) k = None"
    using slot_map_of_full(1,2) [OF g full] by simp_all
  have fin: "finite (keys_of D)" using D by (simp add: keys_of_def)
  have "dom (slot_map_of (ps_slots st)) \<subseteq> keys_of D - {k}"
  proof
    fix k' assume "k' \<in> dom (slot_map_of (ps_slots st))"
    then show "k' \<in> keys_of D - {k}" using H [of k'] c(2) by (auto simp: ps_holds_one_def keys_of_def)
  qed
  then have "SLOT_TABLE_CAPACITY \<le> card (keys_of D - {k})" using card_mono [of "keys_of D - {k}"] fin unfolding c(1) [symmetric] by simp
  also have "\<dots> < card (insert k (keys_of D))" using fin by (simp add: card.insert_remove)
  finally show ?thesis .
qed

lemma ps_holds_step:
  assumes inv: "ps_inv st" and H: "\<And>k. ps_holds_one D st evs k" and D: "\<forall>d\<in>D. is_aggregate d" "finite D"
    and inp: "ps_recv inp = Datagram d" and d: "is_aggregate d"
  shows "\<exists>st' evs'. ps_step agg_mode inp st = Some (st', evs') \<and> ps_inv st' \<and> (\<forall>k. ps_holds_one (insert d D) st' (evs @ evs') k)"
proof -
  let ?k = "key_of (agg_hdr d)"
  obtain st' evs' where r: "ps_step agg_mode inp st = Some (st', evs')" "ps_inv st'" using ps_step_safe [OF inv] by blast
  have others: "ps_holds_one (insert d D) st' (evs @ evs') k" if "k \<noteq> ?k" for k
  proof -
    have "\<not> ps_for_key k d" using that is_aggregateD(3) [OF d] by simp
    from ps_step_elsewhere [OF inv inp this, of agg_mode] r
    show ?thesis using that by (intro ps_holds_other [OF H _ _ _ D(2)]) auto
  qed
  have dk: "ps_for_key ?k d" using is_aggregateD(3) [OF d] by simp
  have "ps_holds_one (insert d D) st' (evs @ evs') ?k"
  proof (cases "slot_map_of (ps_slots st) ?k")
    case (Some s)
    then obtain d' where d': "d' \<in> D" "key_of (agg_hdr d') = ?k" "ps_slot_log s [contribution_of d']"
      "\<exists>ev. filter (ps_reports ?k) evs = [ev] \<and> ps_completes (agg_hdr d') 1 (sl_sum s) ev"
      using H [of ?k] by (auto simp: ps_holds_one_def)
    have "is_aggregate d'" using D(1) d'(1) by blast
    then have "fst (contribution_of d) \<in> fst ` set [contribution_of d']" using is_aggregateD(4) d by simp
    from ps_step_again [OF inv inp dk Some d'(3) this, of agg_mode] r
    have s': "slot_map_of (ps_slots st') ?k = Some s" "\<forall>ev\<in>set evs'. \<not> ps_reports ?k ev" by auto
    then have "filter (ps_reports ?k) (evs @ evs') = filter (ps_reports ?k) evs" by (simp add: filter_False)
    with s'(1) d' show ?thesis unfolding ps_holds_one_def by auto
  next
    case None
    have e0: "filter (ps_reports ?k) evs = []" and k0: "card (keys_of D) \<le> SLOT_TABLE_CAPACITY \<longrightarrow> ?k \<notin> keys_of D"
      using H [of ?k] None by (simp_all add: ps_holds_one_def)
    show ?thesis
    proof (cases "probe_slot (ps_slots st) ?k = Table_full")
      case True
      from ps_step_full [OF inv inp dk True, of agg_mode] r
      have f: "slot_map_of (ps_slots st') ?k = None" "filter (ps_reports ?k) evs' = []" using None by (auto simp: ps_reports_def)
      have "SLOT_TABLE_CAPACITY < card (keys_of (insert d D))"
        using ps_full_keys [OF inv H D(2) True] by (simp add: keys_of_def)
      then show ?thesis using f e0 by (simp add: ps_holds_one_def)
    next
      case False
      have p: "ps_pending (slot_map_of (ps_slots st) ?k) 1 []" using None by (simp add: ps_pending_def)
      have n: "(1 :: nat) = (if agg_mode then 1 else unat (gh_num_workers (wire_hdr d 0)))" using is_aggregateD(5) [OF d] by simp
      obtain st1 evs1 s where 1: "ps_step agg_mode inp st = Some (st1, evs1)"
        "slot_map_of (ps_slots st1) = (slot_map_of (ps_slots st))(?k \<mapsto> s)" "ps_slot_log s ([] @ [contribution_of d])"
        "if length ([] :: contribution list) + 1 = 1 then \<exists>ev. evs1 = [ev] \<and> ps_completes (wire_hdr d 0) 1 (log_sum ([] @ [contribution_of d])) ev
         else evs1 = [] \<and> ps_pending (Some s) 1 ([] @ [contribution_of d])"
        by (rule ps_step_new [OF inv inp is_aggregateD(1,2) [OF d] p _ n False]) simp
      then obtain ev where ev: "evs' = [ev]" "ps_completes (agg_hdr d) 1 (sl_sum s) ev"
        using r(1) by (auto simp: ps_slot_log_def)
      then have "ps_reports ?k ev" by (auto simp: ps_completes_def ps_reports_def key_of_def)
      moreover have "slot_map_of (ps_slots st') ?k = Some s" "ps_slot_log s [contribution_of d]" using 1(1-3) r(1) by simp_all
      ultimately show ?thesis using ev e0 by (auto simp: ps_holds_one_def)
    qed
  qed
  then have "ps_holds_one (insert d D) st' (evs @ evs') k" for k using others by (cases "k = ?k") simp_all
  with r show ?thesis by blast
qed

lemma ps_holds_run:
  assumes "ps_inv st" "\<And>k. ps_holds_one D st evs k" "\<forall>d\<in>D \<union> delivered inps. is_aggregate d" "finite D"
  shows "\<exists>st' evs'. ps_run agg_mode 0 inps st = Some (st', evs') \<and> (\<forall>k. ps_holds_one (D \<union> delivered inps) st' (evs @ evs') k)"
  using assms
proof (induction inps arbitrary: st D evs)
  case (Cons inp inps)
  have "\<exists>st1 evs1 D1. ps_step agg_mode inp st = Some (st1, evs1) \<and> ps_inv st1 \<and> finite D1 \<and>
      D1 \<union> delivered inps = D \<union> delivered (inp # inps) \<and> (\<forall>k. ps_holds_one D1 st1 (evs @ evs1) k)"
  proof (cases "ps_recv inp")
    case Recv_none
    then have "ps_step agg_mode inp st = Some (st, [])" using Cons.prems(1) by (simp add: ps_step_def NETSUM_HDR_SIZE_def)
    moreover have "delivered (inp # inps) = delivered inps" using Recv_none by (auto simp: delivered_def)
    ultimately show ?thesis using Cons.prems(1,2,4) by (intro exI [of _ st] exI [of _ "[]"] exI [of _ D]) simp
  next
    case (Datagram d)
    then have i: "delivered (inp # inps) = insert d (delivered inps)" by (auto simp: delivered_def)
    then have a: "is_aggregate d" "\<forall>d\<in>D. is_aggregate d" using Cons.prems(3) by simp_all
    from ps_holds_step [OF Cons.prems(1,2) a(2) Cons.prems(4) Datagram a(1), of agg_mode] show ?thesis
      using i Cons.prems(4) by (metis Un_insert_left Un_insert_right finite.insertI)
  qed
  then obtain st1 evs1 D1 where 1: "ps_step agg_mode inp st = Some (st1, evs1)" "ps_inv st1" "finite D1"
    "D1 \<union> delivered inps = D \<union> delivered (inp # inps)" "\<And>k. ps_holds_one D1 st1 (evs @ evs1) k" by blast
  from Cons.IH [OF 1(2,5) _ 1(3)] Cons.prems(3) 1(4) obtain st' evs' where
    "ps_run agg_mode 0 inps st1 = Some (st', evs')" "\<forall>k. ps_holds_one (D \<union> delivered (inp # inps)) st' ((evs @ evs1) @ evs') k" by metis
  with 1(1) show ?case by auto
qed (auto simp: all_conj_distrib)

section \<open>What the aggregators send\<close>

text \<open>The sum of a complete round of datagrams, or of frames, for a key, in all 64 components.\<close>

definition round_total :: "bytes list \<Rightarrow> bytes list \<Rightarrow> grad_slot_key \<Rightarrow> i32 list \<Rightarrow> bool" where
  "round_total ds ps k tot \<longleftrightarrow>
     (\<exists>js. packet_round agg_accepts agg_hdr ds js \<and> key_of (agg_hdr (ds ! hd js)) = k \<and>
        tot = packet_total agg_hdr agg_values ds js @ replicate (64 - length (packet_total agg_hdr agg_values ds js)) 0) \<or>
     (\<exists>js. xdp_round ps js \<and> key_of (xdp_hdr (ps ! hd js)) = k \<and>
        tot = xdp_total ps js @ replicate (64 - length (xdp_total ps js)) 0)"

definition xdp_sends :: "(xdp_action \<times> bytes) list \<Rightarrow> bytes set" where
  "xdp_sends outs = {drop 42 q | q. (XDP_TX, q) \<in> set outs}"

lemma packet_roundD:
  assumes "packet_round accepts h ps js" "i \<in> set js"
  shows "accepts (ps ! i)" "key_of (h (ps ! i)) = key_of (h (ps ! hd js))" "gh_chunk_len (h (ps ! i)) = gh_chunk_len (h (ps ! hd js))"
  using assms unfolding packet_round_def by blast+

lemma agg_sum_aggregate:
  assumes "packet_round agg_accepts agg_hdr ds js"
  shows "is_aggregate (agg_sum_packet ds js)" "key_of (agg_hdr (agg_sum_packet ds js)) = key_of (agg_hdr (ds ! hd js))"
    "agg_values (agg_sum_packet ds js) = packet_total agg_hdr agg_values ds js"
proof -
  let ?n = "unat (gh_chunk_len (agg_hdr (ds ! hd js)))" and ?tot = "packet_total agg_hdr agg_values ds js"
  have "hd js \<in> set js" using assms by (simp add: packet_round_def)
  then have "?n \<le> 64" using packet_roundD(1) [OF assms] by (simp add: agg_accepts_def)
  moreover have "length ?tot = ?n" by (simp add: packet_total_def)
  ultimately have f: "agg_hdr (agg_sum_packet ds js) = sum_hdr (key_of (agg_hdr (ds ! hd js))) ?n" "agg_values (agg_sum_packet ds js) = ?tot"
      "agg_accepts (agg_sum_packet ds js)" "key_of (sum_hdr (key_of (agg_hdr (ds ! hd js))) ?n) = key_of (agg_hdr (ds ! hd js))"
    unfolding agg_sum_packet_def using sum_packet_fields [of ?tot ?n] by blast+
  show "agg_values (agg_sum_packet ds js) = ?tot" by (rule f(2))
  show "key_of (agg_hdr (agg_sum_packet ds js)) = key_of (agg_hdr (ds ! hd js))" unfolding f(1) by (rule f(4))
  show "is_aggregate (agg_sum_packet ds js)" unfolding is_aggregate_def f(1) using f(3) by (simp add: sum_hdr_def)
qed

lemma xdp_sum_aggregate:
  assumes "xdp_round ps (js @ [j])" "forwarded cfg (ps ! j) (xdp_total ps (js @ [j])) q"
  shows "is_aggregate (drop 42 q)" "key_of (agg_hdr (drop 42 q)) = key_of (xdp_hdr (ps ! hd (js @ [j])))"
    "agg_values (drop 42 q) = xdp_total ps (js @ [j])"
proof -
  have p: "xdp_match (ps ! j)" "xdp_valid (ps ! j)" "key_of (xdp_hdr (ps ! j)) = key_of (xdp_hdr (ps ! hd (js @ [j])))"
    "gh_chunk_len (xdp_hdr (ps ! j)) = gh_chunk_len (xdp_hdr (ps ! hd (js @ [j])))"
    using packet_roundD [OF assms(1) [unfolded xdp_round_def], of j] by auto
  have "length (xdp_total ps (js @ [j])) = unat (gh_chunk_len (xdp_hdr (ps ! j)))"
    unfolding p(4) by (simp add: xdp_total_def packet_total_def del: wire_hdr_sel)
  note f = forwarded_payload [OF p(1,2) assms(2) this]
  show "is_aggregate (drop 42 q)" unfolding is_aggregate_def f(1) using f(3) by simp
  show "key_of (agg_hdr (drop 42 q)) = key_of (xdp_hdr (ps ! hd (js @ [j])))" unfolding f(1) p(3) [symmetric] by (simp add: key_of_def del: wire_hdr_sel)
  show "agg_values (drop 42 q) = xdp_total ps (js @ [j])" by (rule f(2))
qed

lemma sent_totals:
  assumes agg: "length b = 276" "length b' = 276" "agg_run cfg ainps (agg_init b b' now) = Some (ast, evss)"
    and xdp: "xdp_run K M ps = Some (outs, M')" "slot_map M = Map.empty" "config_ok M"
    and d: "d \<in> set (concat (map sent evss)) \<union> xdp_sends outs"
  shows "is_aggregate d" "round_total (datagrams ainps) ps (key_of (agg_hdr d)) (log_sum [contribution_of d])"
proof -
  have "is_aggregate d \<and> round_total (datagrams ainps) ps (key_of (agg_hdr d)) (log_sum [contribution_of d])"
    using d
  proof
    assume "d \<in> set (concat (map sent evss))"
    then obtain E where "E \<in> set evss" "d \<in> set (sent E)" by auto
    then obtain j where j: "j < length evss" "d \<in> set (sent (evss ! j))" by (metis in_set_conv_nth)
    with agg_sends [OF agg(1,2), of cfg ainps now] agg(3)
    obtain js where js: "packet_round agg_accepts agg_hdr (datagrams ainps) (js @ [j])" "sent (evss ! j) = [agg_sum_packet (datagrams ainps) (js @ [j])]"
      by fastforce
    have e: "d = agg_sum_packet (datagrams ainps) (js @ [j])" using j(2) js(2) by simp
    note s = agg_sum_aggregate [OF js(1), folded e]
    show ?thesis unfolding is_aggregateD(6) [OF s(1)] s(2,3) round_total_def using s(1) js(1) by blast
  next
    assume "d \<in> xdp_sends outs"
    then obtain j q where j: "j < length outs" "outs ! j = (XDP_TX, q)" "d = drop 42 q" by (auto simp: xdp_sends_def in_set_conv_nth)
    from xdp_transmits [OF xdp j(1,2)] obtain xcfg js where
      x: "xdp_round ps (js @ [j])" "forwarded xcfg (ps ! j) (xdp_total ps (js @ [j])) q" by blast
    note s = xdp_sum_aggregate [OF x, folded j(3)]
    show ?thesis unfolding is_aggregateD(6) [OF s(1)] s(2,3) round_total_def using s(1) x(1) by blast
  qed
  then show "is_aggregate d" "round_total (datagrams ainps) ps (key_of (agg_hdr d)) (log_sum [contribution_of d])" by blast+
qed

section \<open>End to end\<close>

text \<open>
  C7. At most once, and right. Let the parameter server receive, in either mode and from an empty table, any datagrams out of those
  that a run of the userspace aggregator and a run of the XDP program sent, any number of times and in any order, the
  network dropping, repeating and delaying them as it likes. Then for every key it has a slot for it has
  logged exactly one completion, and the slot counts one contribution and holds the sum of one complete round of packets
  for that key, as one of the aggregators received them; without a slot no completion has been logged. When the sums received are for
  no more than 65536 keys each of these has its slot.
\<close>
theorem sums_survive_network:
  assumes "length b = 276" "length b' = 276" "agg_run cfg ainps (agg_init b b' now) = Some (ast, evss)"
    and "xdp_run K M ps = Some (outs, M')" "slot_map M = Map.empty" "config_ok M"
    and "length packet = NETSUM_MAX_PACKET_SIZE" "delivered inps \<subseteq> set (concat (map sent evss)) \<union> xdp_sends outs"
  shows "\<exists>st evs. ps_run agg_mode 0 inps (ps_init packet) = Some (st, evs) \<and>
    (\<forall>k. case slot_map_of (ps_slots st) k of
        None \<Rightarrow> filter (ps_reports k) evs = []
      | Some s \<Rightarrow> length (filter (ps_reports k) evs) = 1 \<and> sl_contributions_received s = 1 \<and>
          round_total (datagrams ainps) ps k (sl_sum s)) \<and>
    (card (keys_of (delivered inps)) \<le> SLOT_TABLE_CAPACITY \<longrightarrow> dom (slot_map_of (ps_slots st)) = keys_of (delivered inps))"
proof -
  note S = sent_totals [OF assms(1-6)]
  have "ps_holds_one {} (ps_init packet) [] k" for k using ps_fresh_table(1) [of packet k] by (simp add: ps_holds_one_def keys_of_def)
  moreover have "\<forall>d\<in>{} \<union> delivered inps. is_aggregate d" using S(1) assms(8) by blast
  ultimately obtain st evs where r: "ps_run agg_mode 0 inps (ps_init packet) = Some (st, evs)"
    "\<And>k. ps_holds_one (delivered inps) st evs k"
    using ps_holds_run [OF ps_init_tracks(1) [OF assms(7)], of "{}" "[]" inps agg_mode] by auto
  have slots: "case slot_map_of (ps_slots st) k of
        None \<Rightarrow> filter (ps_reports k) evs = []
      | Some s \<Rightarrow> length (filter (ps_reports k) evs) = 1 \<and> sl_contributions_received s = 1 \<and>
          round_total (datagrams ainps) ps k (sl_sum s)" for k
  proof (cases "slot_map_of (ps_slots st) k")
    case None
    then show ?thesis using r(2) [of k] by (simp add: ps_holds_one_def)
  next
    case (Some s)
    then obtain d where d: "d \<in> delivered inps" "key_of (agg_hdr d) = k" "ps_slot_log s [contribution_of d]"
      "length (filter (ps_reports k) evs) = 1" using r(2) [of k] by (auto simp: ps_holds_one_def)
    have "d \<in> set (concat (map sent evss)) \<union> xdp_sends outs" using d(1) assms(8) by blast
    from S(2) [OF this] d Some show ?thesis by (simp add: ps_slot_log_def word_unat_eq_iff)
  qed
  have "dom (slot_map_of (ps_slots st)) = keys_of (delivered inps)" if "card (keys_of (delivered inps)) \<le> SLOT_TABLE_CAPACITY"
  proof (rule set_eqI)
    fix k show "k \<in> dom (slot_map_of (ps_slots st)) \<longleftrightarrow> k \<in> keys_of (delivered inps)"
      using r(2) [of k] that by (cases "slot_map_of (ps_slots st) k") (auto simp: ps_holds_one_def keys_of_def)
  qed
  with r(1) slots show ?thesis by blast
qed

text \<open>The sums of one round from either aggregator; one of them is delivered twice, the other in between.\<close>
theorem sums_survive_network_witness:
  "\<exists>out q st evs s. ps_run True 0 (map ps_sample_input [out, drop 42 q, out]) (ps_init ps_zeros) = Some (st, evs) \<and>
     slot_map_of (ps_slots st) key_a = Some s \<and> sl_contributions_received s = 1 \<and> length (filter (ps_reports key_a) evs) = 1"
proof -
  let ?inps = "[pair_input key_a 1 [1, -9], pair_input key_a 0 [5, 7]]"
  have "round_datagrams key_a (length ?inps) 2 (datagrams ?inps)" by (simp add: round_datagrams_def)
  from agg_round_sent [OF _ _ _ _ _ this, of zeros zeros sample_agg 0] obtain st evss where
    a: "agg_run sample_agg ?inps sample_start = Some (st, evss)"
      "concat (map sent evss) = [encode_packet (sum_hdr key_a 2) (column_sum 2 (mset (map agg_values (datagrams ?inps))))]"
    by (auto simp: agg_admits_unlimited)
  let ?out = "encode_packet (sum_hdr key_a 2) (column_sum 2 (mset (map agg_values (datagrams ?inps))))"
  obtain q M' where x: "xdp_run sample_kernel sample_maps sample_packets =
      Some (map (\<lambda>p. (XDP_DROP, p)) (butlast sample_packets) @ [(XDP_TX, q)], M')"
    using xdp_completes [OF _ sample_tracks _ _ sample_admits _ sample_round, of sample_config] by (auto simp: sample_packets_def)
  let ?ds = "[?out, drop 42 q, ?out]"
  have D: "delivered (map ps_sample_input ?ds) = {?out, drop 42 q}" by (auto simp: delivered_def)
  have sub: "delivered (map ps_sample_input ?ds) \<subseteq> set (concat (map sent evss)) \<union>
      xdp_sends (map (\<lambda>p. (XDP_DROP, p)) (butlast sample_packets) @ [(XDP_TX, q)])"
    unfolding D a(2) by (auto simp: xdp_sends_def)
  obtain st' evs where r: "ps_run True 0 (map ps_sample_input ?ds) (ps_init ps_zeros) = Some (st', evs)"
    "\<forall>k. case slot_map_of (ps_slots st') k of None \<Rightarrow> filter (ps_reports k) evs = []
      | Some s \<Rightarrow> length (filter (ps_reports k) evs) = 1 \<and> sl_contributions_received s = 1 \<and>
          round_total (datagrams ?inps) sample_packets k (sl_sum s)"
    "card (keys_of {?out, drop 42 q}) \<le> SLOT_TABLE_CAPACITY \<longrightarrow> dom (slot_map_of (ps_slots st')) = keys_of {?out, drop 42 q}"
    using sums_survive_network [OF _ _ a(1) x sample_maps_simps(1,4) ps_zeros_length sub, of True] unfolding D by auto
  have "card (keys_of {?out, drop 42 q}) \<le> SLOT_TABLE_CAPACITY"
    unfolding keys_of_def by (rule order_trans [OF card_image_le]) (simp_all add: SLOT_TABLE_CAPACITY_def card_insert_if)
  moreover have "key_of (agg_hdr ?out) = key_a" using sum_packet_fields [of "column_sum 2 (mset (map agg_values (datagrams ?inps)))" 2 key_a] by simp
  ultimately have "key_a \<in> dom (slot_map_of (ps_slots st'))" using r(3) by (auto simp: keys_of_def)
  then obtain s where "slot_map_of (ps_slots st') key_a = Some s" by auto
  with r(1) spec [OF r(2), of key_a] show ?thesis by (intro exI [of _ ?out] exI [of _ q] exI [of _ st'] exI [of _ evs] exI [of _ s]) simp
qed

end
