(* ===== verification/Spec2Isabelle.thy ===== *)
theory Spec2Isabelle
  imports Startup Xdp_Spin_Properties Xdp_Isolation Lossy_Network
begin

text \<open>
  NetSum sums gradients in the network: workers send their quantised gradients as UDP packets to an aggregator, which
  absorbs the packets of a round and sends one packet with the sum on to a parameter server. This is a shallow embedding of its C
  programs, with the theorems that make them correct.

  \<^bold>\<open>The programs and their theories.\<close>

  \<^item> The wire format (\<open>protocol/grad_proto.h\<close>): \<open>Wire\<close> has bytes, loads and stores and both families of byte-order
    conversions (those of libc and those of \<open>xdp_agg/bpf_compat.h\<close>), \<open>Packet\<close> the 20-byte header \<open>grad_hdr\<close> and the values behind
    it, \<open>Fixed_Point\<close> the Q16.16 conversions and the overflow check \<open>netsum_sum_fits_i32\<close>.
  \<^item> Pieces the programs share in shape: \<open>Accumulate\<close> (the loops that add the values of a packet to a slot), \<open>Worker_Set\<close>
    (the byte array and the bitmap of workers seen), \<open>Open_Addressing\<close> (the probe loop of every userspace table), \<open>Slot_Table\<close> (the
    slot tables, \<open>slot_key\<close>), \<open>Job_Table\<close> (the job table of \<open>agg.c\<close>), \<open>Bpf_Maps\<close> (the map helpers), \<open>Checksum\<close> (\<open>ip_checksum\<close>).
  \<^item> The kernel aggregator (\<open>xdp_agg/xdp_agg.c\<close>): \<open>Xdp\<close> is \<open>netsum_xdp_aggregate\<close>, in the order of the code: \<open>xdp_parse\<close>,
    \<open>xdp_slot_for\<close>, \<open>xdp_locked\<close>, \<open>xdp_finish\<close> with \<open>xdp_rewrite\<close>, and the quota and statistics helpers. \<open>Xdp_Smp\<close> is the same program on
    any number of CPUs: \<open>cpu_step\<close> cuts it into atomic actions, \<open>smp_step\<close> interleaves them over shared maps whose elements are
    reused. \<open>Xdp_Spin\<close> cuts the section under \<open>slot->lock\<close> as well: \<open>spin_cpu_step\<close> takes the lock, loads, stores, and releases
    it on either path. \<open>Xdp_Events\<close> runs packets with the loader and the deletion of the configuration in between; \<open>Headers\<close> has
    \<open>ethhdr\<close>, \<open>iphdr\<close> and \<open>udphdr\<close>, from which \<open>xdp_parse\<close> reads.
  \<^item> The userspace aggregator (\<open>userspace_agg/agg.c\<close>): \<open>Agg\<close> has \<open>find_or_create_slot\<close>, \<open>free_slot\<close>, the reaper, the statistics dump and
    the receive loop \<open>agg_run\<close>.
  \<^item> The parameter server (\<open>paramserver/paramserver.c\<close>): \<open>Paramserver\<close>, with the receive loop \<open>ps_run\<close>.
  \<^item> The worker (\<open>worker/worker.c\<close>): \<open>Worker\<close>, with the generator and the round loop.
  \<^item> The configuration loader (\<open>ci/netsum_cfg_loader.c\<close>): \<open>Loader\<close>, with the \<open>sscanf\<close> conversion it uses.
  \<^item> The fuzz harness (\<open>fuzz/parse_shared.h\<close>, \<open>fuzz/fuzz_grad_parse.cpp\<close>): \<open>Fuzz\<close>.
  \<^item> The beginnings of the four \<open>main\<close> functions: \<open>Startup\<close>, over the \<open>atoi\<close>, \<open>atol\<close> and \<open>strtoul\<close> of \<open>Command_Line\<close>.

  State is explicit: a record per program, tables as functions from indices, maps as partial functions, integers at their
  width as words (\<open>long\<close> counters and times as \<open>int\<close>). An access outside a packet, a buffer or an array, and a conversion C
  leaves undefined, is \<open>None\<close>, so that a theorem that a run is \<open>Some\<close> is memory safety. Every operation is a total function: the
  loops over values, table entries and rounds have a measure, a receive loop runs over a finite list of inputs, and no fuel is needed.

  \<^bold>\<open>What is shown.\<close>

  \<^item> \<open>Aggregator_Spec\<close> states what an aggregator promises: an abstract machine of open rounds, each a log of contributions, that
    answers a request with Ignored, Absorbed or Summed, and \<open>spec_sound\<close>: a sum is that of one complete round of requests, no
    worker twice. \<open>Xdp_Refine\<close> and \<open>Agg_Rounds\<close> show that one packet through either aggregator is one request of it; what the programs
    transmit (\<open>Xdp_Properties\<close>, \<open>Agg_Properties\<close>) follows for every traffic.
  \<^item> Liveness (\<open>Xdp_Rounds\<close>, \<open>Xdp_Traffic\<close>, \<open>Agg_Live\<close>, \<open>Agg_Traffic\<close>): a round that is let in completes with its last packet,
    after any earlier traffic and amid any other, in the userspace table if its entry is the first of its probe sequence; what a packet
    that comes too late does.
  \<^item> Over packets and configuration changes (\<open>Xdp_Events\<close>, \<open>Xdp_Accounting\<close>, \<open>Xdp_Isolation\<close>): where the sums go, that the drop counters
    account for every round and refusal, that slots are well formed, and that jobs do not disturb each other.
  \<^item> \<open>Counters\<close>: what the numbers printed at exit count.
  \<^item> Quotas (\<open>Xdp_Quota\<close>, \<open>Agg_Jobs\<close>): the counters are the numbers of open slots; where they are not enforced.
  \<^item> Several CPUs: \<open>Xdp_Smp_Rounds\<close> (an invariant of all interleavings: nothing is lost or counted twice), \<open>Xdp_Smp_Drain\<close> (every
    packet is dealt with in at most 16 actions of its CPU), \<open>Xdp_Smp_Solo\<close> (an uninterrupted CPU does what the program does as one
    call), \<open>Xdp_Smp_Races\<close> and \<open>Xdp_Smp_Leak\<close> (three races the code has). \<open>Xdp_Smp_Trace\<close> has what is seen of the program from outside,
    packets coming in and leaving, and the three stages of a round; \<open>Xdp_Smp_Live\<close> and \<open>Xdp_Smp_Finish\<close> show that every interleaving
    takes a round whose packets come in once each through them, to exactly one transmission of the whole sum, while the gradient
    packets are for no more keys than the slot map holds.
  \<^item> The spin lock: \<open>Xdp_Spin_Atomic\<close> says what is left of a section at each of its points, \<open>Xdp_Spin_Sim\<close> that every trace of the
    machine with the lock is one of the machine whose section is atomic (each action inside a section changes nothing there, the
    release is the whole section), \<open>Xdp_Spin_Drain\<close> that whoever holds the lock can act and every packet is dealt with, in at most 217
    actions of its CPU. \<open>Xdp_Spin_Properties\<close>: mutual exclusion, exact sums, no deadlock, and completion, on that machine.
  \<^item> \<open>Agg_Chains\<close>: what freeing an entry of an open-addressing table without a tombstone does; \<open>Agg_Guards\<close>: the rejections.
  \<^item> \<open>Paramserver_Rounds\<close>, \<open>Paramserver_Traffic\<close>, \<open>Paramserver_Properties\<close>: the table holds the sum of what came in, a round completes with
    the packet that brings its last worker, whatever else arrives, and what an unchecked length lets in.
  \<^item> Composition: \<open>Pipeline\<close> (a round reaches the parameter server with the same sum, straight or through either aggregator),
    \<open>Lossy_Network\<close> (whatever is lost, repeated or reordered behind the aggregators, every key is completed at most once and with the
    sum of one complete round), \<open>Training\<close> and \<open>Startup\<close> (from command lines to the real sum of the gradients, up to 2^-16 per worker).

  Interfaces are locales, interpreted on the definitions of the code: byte orders (\<open>network_order16\<close>, \<open>network_order32\<close>), worker sets
  (\<open>worker_set\<close>: byte array and bitmap), probing (\<open>open_addressing\<close>: both tables), packets of a protocol client (\<open>packet_client\<close>)
  and what counts among them (\<open>packet_log\<close>: at either offset of the header), invariants
  over runs (\<open>xdp_key_invariant\<close> and \<open>xdp_invariant\<close>, which extends it, \<open>agg_invariant\<close>).

  \<^bold>\<open>Parameters.\<close> The kernel decides whether a map has room for a key (\<open>slot_room\<close>, \<open>quota_room\<close>, \<open>stats_room\<close>; a hash map always
  updates an existing key) and, on several CPUs, which free element a new slot gets (\<open>recycles\<close>: a preallocated map, as declared, hands out
  elements to which other CPUs still hold pointers). \<open>double\<close> arithmetic rounds by a monotone function that keeps representable numbers
  (\<open>ieee_rounding\<close>); a finite double is a rational number. What \<open>recvfrom\<close> delivers, the clock, signals, and whether \<open>sendto\<close>, \<open>socket\<close> and
  \<open>bind\<close> succeed are inputs, \<open>inet_pton\<close> and \<open>atof\<close> are functions. The host is little-endian with a 64-bit \<open>long\<close>.

  \<^bold>\<open>Granularity on several CPUs.\<close> An action is one map helper call, one atomic add, or, in \<open>Xdp_Smp\<close>, the section under the slot's spin
  lock; in \<open>Xdp_Spin\<close> the section is cut into the accesses to the slot and the packet. There the kernel does not reuse an element
  while a CPU holds a pointer to it; the races that a kernel has which does (\<open>Xdp_Smp_Races\<close>) are shown with the section atomic, which
  excludes a new slot being put into an element in the middle of a section. Map sizes are those declared where a theorem depends on them
  (\<open>room_up_to 65536\<close> for the slots, \<open>room_up_to 256\<close> for the quota entries).
  The quota entry's count is read and changed through a pointer that stays valid, entries of that map being never deleted. The configuration
  does not change while packets are handled.

  \<^bold>\<open>Not modelled.\<close> Infinities, NaNs and the sign of zero; overflow of \<open>long\<close> counters and times (2^63 packets or microseconds; \<open>slot_ttl_ms\<close>
  times 1000 as well); \<open>setsockopt\<close> and \<open>sigaction\<close>, whose results the code ignores; usage messages and the worker's timing report;
  \<open>bpf_xdp_adjust_head\<close> and the macros of \<open>bpf_compat.h\<close>, which the program does not use or which only place sections. The scripts under
  \<open>ci/\<close>, \<open>scripts/\<close> and \<open>tests/\<close>, the corpus generator and the dashboard drive or show the programs from outside.
\<close>

end
